(* ===== verification/Prelude.thy ===== *)
theory Prelude
  imports Main "HOL-Library.Word" "HOL-Library.Monad_Syntax"
begin

text \<open>
  Shared vocabulary of the development: the machine integers of
  \<^verbatim>\<open>src/src/common/types.h\<close>, little-endian byte encoding, a byte-addressed
  memory with 8-, 16- and 32-bit accesses (what the i386 does for the pointer
  dereferences of the C++ code), and lemmas on lists, words and memory that several
  components use.

  Two named collections carry the component proofs: \<open>mem_simps\<close> (reading back what was
  written, and what a write elsewhere leaves alone) and \<open>u32_simps\<close> (moving 32-bit
  arithmetic to the natural numbers).
\<close>

unbundle bit_operations_syntax

named_theorems mem_simps
named_theorems u32_simps

section \<open>Machine integers\<close>

type_synonym u8 = "8 word"
type_synonym u16 = "16 word"
type_synonym u32 = "32 word"
type_synonym u64 = "64 word"

text \<open>A 32-bit value used as a C++ \<open>int\<close>: its two's complement reading.\<close>

abbreviation i32_of :: "u32 \<Rightarrow> int" where
  "i32_of w \<equiv> sint w"

lemma unat_u32_of_nat [u32_simps]: "n < 4294967296 \<Longrightarrow> unat (of_nat n :: u32) = n"
  by (simp add: unat_of_nat)

lemma unat_u32_lt [simp]: "unat (w :: u32) < 4294967296"
  using unsigned_less [of w] by simp

lemma unat_u32_plus [u32_simps]:
  "unat a + unat b < 4294967296 \<Longrightarrow> unat (a + b :: u32) = unat a + unat b"
  by (simp add: unat_word_ariths)

lemma unat_u32_minus [u32_simps]:
  "unat b \<le> unat a \<Longrightarrow> unat (a - b :: u32) = unat a - unat b"
  by (simp add: unat_sub word_le_nat_alt)

lemma unat_u32_le [simp]: "unat (a :: u32) \<le> 4294967295" "unat (a :: u32) \<le> 4294967296"
  using unat_u32_lt [of a] by linarith+

lemma u32_eq_iff_unat: "(a :: u32) = b \<longleftrightarrow> unat a = unat b"
  by (simp add: word_unat_eq_iff)

lemma of_nat_u32_eq_iff:
  "a < 4294967296 \<Longrightarrow> b < 4294967296 \<Longrightarrow> (of_nat a = (of_nat b :: u32)) \<longleftrightarrow> a = b"
  by (simp add: u32_eq_iff_unat unat_u32_of_nat)

lemma of_nat_u32_eq_0_iff [u32_simps]:
  "a < 4294967296 \<Longrightarrow> (of_nat a = (0 :: u32)) \<longleftrightarrow> a = 0"
  using of_nat_u32_eq_iff [of a 0] by simp

lemma of_nat_u32_less_iff [u32_simps]:
  "a < 4294967296 \<Longrightarrow> b < 4294967296 \<Longrightarrow> (of_nat a < (of_nat b :: u32)) \<longleftrightarrow> a < b"
  by (simp add: word_less_nat_alt unat_u32_of_nat)

lemma sint_u32_of_nat: "k < 2147483648 \<Longrightarrow> sint (of_nat k :: u32) = int k"
  by (simp add: signed_of_nat signed_take_bit_int_eq_self)

section \<open>Loops over an index range\<close>

text \<open>
  \<open>first_some f xs\<close> is a \<open>for\<close> loop whose body returns from the function at the first index
  where \<open>f\<close> gives a result.
\<close>

fun first_some :: "('a \<Rightarrow> 'b option) \<Rightarrow> 'a list \<Rightarrow> 'b option" where
  "first_some f [] = None"
| "first_some f (x # xs) = (case f x of None \<Rightarrow> first_some f xs | Some y \<Rightarrow> Some y)"

lemma first_some_None_iff: "first_some f xs = None \<longleftrightarrow> (\<forall>x \<in> set xs. f x = None)"
  by (induction xs) (auto split: option.splits)

lemma first_some_upt_Some:
  assumes "first_some f [k..<n] = Some y"
  shows "\<exists>i. k \<le> i \<and> i < n \<and> f i = Some y \<and> (\<forall>j. k \<le> j \<and> j < i \<longrightarrow> f j = None)"
  using assms
proof (induction "n - k" arbitrary: k)
  case (Suc d)
  then have k: "k < n" by simp
  show ?case
  proof (cases "f k")
    case None
    then have "first_some f [Suc k..<n] = Some y" using Suc.prems k by (simp add: upt_conv_Cons)
    with Suc.hyps obtain i where "Suc k \<le> i" "i < n" "f i = Some y" "\<forall>j. Suc k \<le> j \<and> j < i \<longrightarrow> f j = None"
      by (metis Suc_diff_Suc diff_Suc_1 k)
    moreover have "f j = None" if "k \<le> j" "j < i" for j
      using that None \<open>\<forall>j. Suc k \<le> j \<and> j < i \<longrightarrow> f j = None\<close> by (cases "j = k") auto
    ultimately show ?thesis by (intro exI [of _ i]) auto
  next
    case (Some z)
    then show ?thesis using Suc.prems k by (auto simp: upt_conv_Cons intro!: exI [of _ k])
  qed
qed simp

lemma find_upt_Some:
  "find P [0..<n] = Some b \<Longrightarrow> b < n \<and> P b \<and> (\<forall>j < b. \<not> P j)"
  by (auto simp: find_Some_iff)

section \<open>Little-endian encoding\<close>

definition byte_of :: "nat \<Rightarrow> 'a::len word \<Rightarrow> u8" where
  "byte_of k v = ucast (drop_bit (8 * k) v)"

definition le16 :: "u8 \<Rightarrow> u8 \<Rightarrow> u16" where
  "le16 b0 b1 = ucast b0 OR push_bit 8 (ucast b1)"

definition le32 :: "u8 \<Rightarrow> u8 \<Rightarrow> u8 \<Rightarrow> u8 \<Rightarrow> u32" where
  "le32 b0 b1 b2 b3 =
     ucast b0 OR push_bit 8 (ucast b1) OR push_bit 16 (ucast b2) OR push_bit 24 (ucast b3)"

lemma bit_byte_of: "bit (byte_of k v) n \<longleftrightarrow> n < 8 \<and> bit v (8 * k + n)"
  by (auto simp: byte_of_def bit_simps)

lemma le16_byte_of [simp]: "le16 (byte_of 0 v) (byte_of 1 v) = v"
proof (rule bit_word_eqI)
  fix n assume "n < LENGTH(16)"
  then consider "n < 8" | "8 \<le> n" "n < 16" by fastforce
  then show "bit (le16 (byte_of 0 v) (byte_of 1 v)) n = bit v n"
    by cases (auto simp: le16_def bit_simps bit_byte_of)
qed

lemma le32_byte_of [simp]:
  "le32 (byte_of 0 v) (byte_of 1 v) (byte_of 2 v) (byte_of 3 v) = v"
proof (rule bit_word_eqI)
  fix n assume "n < LENGTH(32)"
  then consider "n < 8" | "8 \<le> n" "n < 16" | "16 \<le> n" "n < 24" | "24 \<le> n" "n < 32"
    by fastforce
  then show "bit (le32 (byte_of 0 v) (byte_of 1 v) (byte_of 2 v) (byte_of 3 v)) n = bit v n"
    by cases (auto simp: le32_def bit_simps bit_byte_of)
qed

lemma byte_of_le16 [simp]:
  "byte_of 0 (le16 b0 b1) = b0" "byte_of (Suc 0) (le16 b0 b1) = b1"
  by (rule bit_word_eqI; auto simp: le16_def bit_simps bit_byte_of dest: bit_imp_le_length)+

lemma byte_of_le32 [simp]:
  "byte_of 0 (le32 b0 b1 b2 b3) = b0" "byte_of (Suc 0) (le32 b0 b1 b2 b3) = b1"
  "byte_of 2 (le32 b0 b1 b2 b3) = b2" "byte_of 3 (le32 b0 b1 b2 b3) = b3"
  by (rule bit_word_eqI; auto simp: le32_def bit_simps bit_byte_of dest: bit_imp_le_length)+

section \<open>Byte-addressed memory\<close>

text \<open>
  A pointer is a 32-bit address and \<open>mem\<close> the whole physical memory. A C++ access of
  \<open>n\<close> bytes touches the addresses \<open>a, ..., a + n - 1\<close>, which wrap at \<open>2 ^ 32\<close>.
\<close>

type_synonym mem = "u32 \<Rightarrow> u8"

definition rd16 :: "mem \<Rightarrow> u32 \<Rightarrow> u16" where
  "rd16 m a = le16 (m a) (m (a + 1))"

definition rd32 :: "mem \<Rightarrow> u32 \<Rightarrow> u32" where
  "rd32 m a = le32 (m a) (m (a + 1)) (m (a + 2)) (m (a + 3))"

definition wr32 :: "mem \<Rightarrow> u32 \<Rightarrow> u32 \<Rightarrow> mem" where
  "wr32 m a v =
     m(a := byte_of 0 v, a + 1 := byte_of 1 v, a + 2 := byte_of 2 v, a + 3 := byte_of 3 v)"

text \<open>
  \<open>apart a n b k\<close>: the \<open>n\<close> bytes at \<open>a\<close> and the \<open>k\<close> bytes at \<open>b\<close> neither
  overlap nor run over the end of the address space.
\<close>

definition apart :: "u32 \<Rightarrow> nat \<Rightarrow> u32 \<Rightarrow> nat \<Rightarrow> bool" where
  "apart a n b k \<longleftrightarrow> unat a + n \<le> 4294967296 \<and> unat b + k \<le> 4294967296 \<and>
     (unat a + n \<le> unat b \<or> unat b + k \<le> unat a)"

lemma apart_sym: "apart a n b k \<Longrightarrow> apart b k a n"
  by (auto simp: apart_def)

lemma unat_u32_offset:
  "unat (a :: u32) + n \<le> 4294967296 \<Longrightarrow> i < n \<Longrightarrow> unat (a + of_nat i) = unat a + i"
  by (simp add: unat_u32_plus unat_u32_of_nat)

lemma apart_neq:
  assumes "apart a n b k" and "i < n" and "j < k"
  shows "a + of_nat i \<noteq> b + of_nat j"
proof -
  have "unat (a + of_nat i) = unat a + i" "unat (b + of_nat j) = unat b + j"
    using assms by (auto simp: apart_def intro!: unat_u32_offset)
  with assms show ?thesis by (auto simp: apart_def u32_eq_iff_unat)
qed

lemma u32_offsets_distinct [simp]:
  "(a :: u32) + 1 \<noteq> a + 2" "a + 1 \<noteq> a + 3" "a + 2 \<noteq> a + 3"
  "a + 2 \<noteq> a + 1" "a + 3 \<noteq> a + 1" "a + 3 \<noteq> a + 2"
  by simp_all

lemma rd32_wr32_same [mem_simps, simp]: "rd32 (wr32 m a v) a = v"
  by (simp add: rd32_def wr32_def le32_byte_of [simplified])

lemma wr32_outside [mem_simps]:
  assumes "apart a 4 b 1"
  shows "wr32 m a v b = m b"
  using apart_neq [OF assms, of 0 0] apart_neq [OF assms, of 1 0]
    apart_neq [OF assms, of 2 0] apart_neq [OF assms, of 3 0]
  by (simp add: wr32_def)

lemma apart_byte: "apart a n b k \<Longrightarrow> j < k \<Longrightarrow> apart a n (b + of_nat j) 1"
  using unat_u32_offset [of b k j] by (auto simp: apart_def)

lemma rd32_cong:
  assumes "\<And>i. i < 4 \<Longrightarrow> m (a + of_nat i) = m' (a + of_nat i)"
  shows "rd32 m a = rd32 m' a"
  using assms [of 0] assms [of 1] assms [of 2] assms [of 3] by (simp add: rd32_def)

lemma rd32_wr32_apart [mem_simps]: "apart a 4 b 4 \<Longrightarrow> rd32 (wr32 m a v) b = rd32 m b"
  by (rule rd32_cong) (blast intro: wr32_outside apart_byte)

lemma rd32_upd_apart [mem_simps]: "apart a 1 b 4 \<Longrightarrow> rd32 (m(a := x)) b = rd32 m b"
  by (rule rd32_cong) (use apart_neq [of a 1 b 4 0] in auto)

section \<open>Loops that may fail\<close>

text \<open>A \<open>for\<close> loop over a list of indices whose body may leave the defined behaviour.\<close>

fun fold_opt :: "('a \<Rightarrow> 's \<Rightarrow> 's option) \<Rightarrow> 'a list \<Rightarrow> 's \<Rightarrow> 's option" where
  "fold_opt f [] s = Some s"
| "fold_opt f (x # xs) s = Option.bind (f x s) (fold_opt f xs)"

lemma fold_opt_Cons: "fold_opt f (x # xs) = (\<lambda>s. Option.bind (f x s) (fold_opt f xs))" "fold_opt f [] = Some"
  by (simp_all add: fun_eq_iff)

lemma fold_opt_append: "fold_opt f (xs @ ys) s = Option.bind (fold_opt f xs s) (fold_opt f ys)"
proof (induction xs arbitrary: s)
  case (Cons x xs)
  then show ?case by (cases "f x s") simp_all
qed simp

lemma fold_opt_inv:
  assumes "\<And>x s. x \<in> set xs \<Longrightarrow> I s \<Longrightarrow> \<exists>s'. f x s = Some s' \<and> I s'" and "I s"
  shows "\<exists>s'. fold_opt f xs s = Some s' \<and> I s'"
  using assms
proof (induction xs arbitrary: s)
  case (Cons x xs)
  obtain s' where s': "f x s = Some s'" "I s'" using Cons.prems(1) [of x s] Cons.prems(2) by auto
  show ?case using Cons.IH [of s'] Cons.prems(1) s' by simp
qed simp

lemma fold_opt_Some: "(\<And>x s. x \<in> set xs \<Longrightarrow> f x s = Some (g x s)) \<Longrightarrow> fold_opt f xs s = Some (fold g xs s)"
  by (induction xs arbitrary: s) simp_all

end
