(* ===== verification/Descriptors.thy ===== *)
theory Descriptors
  imports Prelude
begin

text \<open>
  The processor tables: the task state segment (\<^verbatim>\<open>src/src/arch/i386/tss.h\<close>, \<^verbatim>\<open>tss.cpp\<close>), the global
  descriptor table (\<^verbatim>\<open>gdt.h\<close>, \<^verbatim>\<open>gdt.cpp\<close>) and the gates of the interrupt descriptor table
  (\<^verbatim>\<open>interrupts.h\<close>, \<^verbatim>\<open>interrupts.cpp\<close>). The packed structures are records of their fields; what the
  processor reads out of them is given by the decoding functions of the section on the hardware
  view. Loading the registers (\<open>lgdt\<close>, \<open>ltr\<close>, \<open>lidt\<close>) is not modelled beyond the values loaded.
\<close>

section \<open>Task state segment\<close>

record TSS =
  t_link :: u16
  t_esp0 :: u32
  t_ss0 :: u16
  t_esp1 :: u32
  t_ss1 :: u16
  t_esp2 :: u32
  t_ss2 :: u16
  t_cr3 :: u32
  t_eip :: u32
  t_eflags :: u32
  t_regs :: "u32 list"
  t_segs :: "u16 list"
  t_ldt :: u16
  t_trap :: u16
  t_iomap_base :: u16

definition sizeof_TSS :: u32 where
  "sizeof_TSS = 104"

text \<open>All bytes zero (the upper halves of the 16-bit slots included), then two fields.\<close>

definition TaskStateSegment_new :: TSS where
  "TaskStateSegment_new =
     \<lparr>t_link = 0, t_esp0 = 0, t_ss0 = 0x10, t_esp1 = 0, t_ss1 = 0, t_esp2 = 0, t_ss2 = 0,
      t_cr3 = 0, t_eip = 0, t_eflags = 0, t_regs = replicate 8 0, t_segs = replicate 6 0,
      t_ldt = 0, t_trap = 0, t_iomap_base = ucast sizeof_TSS\<rparr>"

definition SetKernelStack :: "TSS \<Rightarrow> u32 \<Rightarrow> TSS" where
  "SetKernelStack t esp = t\<lparr>t_esp0 := esp\<rparr>"

definition TSS_GetSize :: u32 where
  "TSS_GetSize = sizeof_TSS"

section \<open>Global descriptor table\<close>

record GdtEntry =
  limit_low :: u16
  base_low :: u16
  base_mid :: u8
  gd_access :: u8
  granularity :: u8
  base_high :: u8

definition EncodeEntry :: "u32 \<Rightarrow> u32 \<Rightarrow> u8 \<Rightarrow> u8 \<Rightarrow> GdtEntry" where
  "EncodeEntry base limit acc gran_flags =
     \<lparr>limit_low = ucast (limit AND 0xFFFF),
      base_low = ucast (base AND 0xFFFF),
      base_mid = ucast (drop_bit 16 base AND 0xFF),
      gd_access = acc,
      granularity = (gran_flags AND 0xF0) OR ucast (drop_bit 16 limit AND 0x0F),
      base_high = ucast (drop_bit 24 base AND 0xFF)\<rparr>"

text \<open>The six descriptors in the order of the members; \<open>tss\<close> is the address of the segment, if given.\<close>

definition GlobalDescriptorTable_new :: "u32 option \<Rightarrow> GdtEntry list" where
  "GlobalDescriptorTable_new tss =
     [EncodeEntry 0 0 0x00 0x00,
      EncodeEntry 0 0xFFFFF 0x9A 0xC0,
      EncodeEntry 0 0xFFFFF 0x92 0xC0,
      EncodeEntry 0 0xFFFFF 0xFA 0xC0,
      EncodeEntry 0 0xFFFFF 0xF2 0xC0,
      (case tss of
         Some base \<Rightarrow>
           let limit = TSS_GetSize - 1
           in \<lparr>limit_low = ucast (limit AND 0xFFFF),
               base_low = ucast (base AND 0xFFFF),
               base_mid = ucast (drop_bit 16 base AND 0xFF),
               gd_access = 0x89,
               granularity = ucast (drop_bit 16 limit AND 0x0F),
               base_high = ucast (drop_bit 24 base AND 0xFF)\<rparr>
       | None \<Rightarrow> EncodeEntry 0 0 0x00 0x00)]"

definition gdtr_limit :: u16 where
  "gdtr_limit = 8 * 6 - 1"

definition CodeSegmentSelector :: u16 where "CodeSegmentSelector = 1 * 8"
definition DataSegmentSelector :: u16 where "DataSegmentSelector = 2 * 8"
definition UserCodeSegmentSelector :: u16 where "UserCodeSegmentSelector = (3 * 8) OR 3"
definition UserDataSegmentSelector :: u16 where "UserDataSegmentSelector = (4 * 8) OR 3"
definition TSSSelector :: u16 where "TSSSelector = 5 * 8"

section \<open>Interrupt gates\<close>

record GateDescriptor =
  offset_low :: u16
  g_selector :: u16
  reserved :: u8
  type_attr :: u8
  offset_high :: u16

definition SetGate :: "GateDescriptor list \<Rightarrow> nat \<Rightarrow> u32 \<Rightarrow> u16 \<Rightarrow> u8 \<Rightarrow> GateDescriptor list" where
  "SetGate idt interrupt handler sel attr =
     idt[interrupt :=
       \<lparr>offset_low = ucast (handler AND 0xFFFF), g_selector = sel, reserved = 0, type_attr = attr,
        offset_high = ucast (drop_bit 16 handler AND 0xFFFF)\<rparr>]"

section \<open>What the processor reads\<close>

definition desc_base :: "GdtEntry \<Rightarrow> u32" where
  "desc_base e = ucast (base_low e) OR push_bit 16 (ucast (base_mid e)) OR push_bit 24 (ucast (base_high e))"

definition desc_limit :: "GdtEntry \<Rightarrow> u32" where
  "desc_limit e = ucast (limit_low e) OR push_bit 16 (ucast (granularity e AND 0x0F))"

definition desc_dpl :: "GdtEntry \<Rightarrow> nat" where
  "desc_dpl e = unat (drop_bit 5 (gd_access e) AND 3)"

definition gate_offset :: "GateDescriptor \<Rightarrow> u32" where
  "gate_offset g = ucast (offset_low g) OR push_bit 16 (ucast (offset_high g))"

definition gate_dpl :: "GateDescriptor \<Rightarrow> nat" where
  "gate_dpl g = unat (drop_bit 5 (type_attr g) AND 3)"

lemma low_masks:
  "(0xFFFF :: 'a :: len word) = mask 16" "(0xFF :: 'a word) = mask 8" "(0x0F :: 'a word) = mask 4"
  by (simp_all add: mask_eq_exp_minus_1)

lemma F0_mask: "(0xF0 :: u8) = NOT (mask 4)"
  by (simp add: mask_eq_exp_minus_1)

lemma desc_base_EncodeEntry [simp]: "desc_base (EncodeEntry base limit acc gran) = base"
proof (rule bit_eqI)
  fix n :: nat
  consider "n < 16" | "16 \<le> n" "n < 24" | "24 \<le> n" "n < 32" | "32 \<le> n" by linarith
  then show "bit (desc_base (EncodeEntry base limit acc gran)) n \<longleftrightarrow> bit base n"
    by cases (auto simp: desc_base_def EncodeEntry_def low_masks bit_simps dest: bit_imp_le_length)
qed

lemma desc_limit_EncodeEntry:
  assumes "limit < 0x100000"
  shows "desc_limit (EncodeEntry base limit acc gran) = limit"
proof (rule bit_eqI)
  fix n :: nat
  have "unat (take_bit 20 limit) = unat limit"
    using assms by (simp add: take_bit_eq_mod unat_mod word_less_nat_alt)
  then have "take_bit 20 limit = limit" by (simp only: u32_eq_iff_unat)
  then have hi: "\<not> bit limit n" if "20 \<le> n"
    using bit_take_bit_iff [of 20 limit n] that by simp
  consider "n < 16" | "16 \<le> n" "n < 20" | "20 \<le> n" by linarith
  then show "bit (desc_limit (EncodeEntry base limit acc gran)) n \<longleftrightarrow> bit limit n"
    unfolding desc_limit_def EncodeEntry_def low_masks F0_mask
    by cases (auto simp: bit_simps hi dest: bit_imp_le_length)
qed

lemma gate_offset_eq:
  "gate_offset \<lparr>offset_low = ucast (h AND 0xFFFF), g_selector = sel, reserved = 0, type_attr = attr,
     offset_high = ucast (drop_bit 16 h AND 0xFFFF)\<rparr> = h"
proof (rule bit_eqI)
  fix n :: nat
  consider "n < 16" | "16 \<le> n" "n < 32" | "32 \<le> n" by linarith
  then show "bit (gate_offset \<lparr>offset_low = ucast (h AND 0xFFFF), g_selector = sel, reserved = 0,
      type_attr = attr, offset_high = ucast (drop_bit 16 h AND 0xFFFF)\<rparr>) n \<longleftrightarrow> bit h n"
    unfolding gate_offset_def low_masks
    by cases (auto simp: bit_simps dest: bit_imp_le_length)
qed

section \<open>Properties\<close>

text \<open>Every descriptor is encoded so that the processor reads back the base, the 20-bit limit, the
  access byte and the flags that were given.\<close>

theorem EncodeEntry_round_trip:
  assumes "limit < 0x100000"
  shows "desc_base (EncodeEntry base limit acc gran) = base \<and>
    desc_limit (EncodeEntry base limit acc gran) = limit \<and>
    gd_access (EncodeEntry base limit acc gran) = acc \<and>
    granularity (EncodeEntry base limit acc gran) AND 0xF0 = gran AND 0xF0"
proof -
  have "granularity (EncodeEntry base limit acc gran) AND 0xF0 = gran AND 0xF0"
    unfolding EncodeEntry_def low_masks F0_mask by (rule bit_eqI) (auto simp: bit_simps)
  moreover have "gd_access (EncodeEntry base limit acc gran) = acc" by (simp add: EncodeEntry_def)
  ultimately show ?thesis using desc_limit_EncodeEntry [OF assms] by simp
qed

theorem EncodeEntry_round_trip_witness:
  "desc_base (EncodeEntry 0x12345678 0xFFFFF 0x9A 0xC0) = 0x12345678 \<and>
   desc_limit (EncodeEntry 0x12345678 0xFFFFF 0x9A 0xC0) = 0xFFFFF"
  using EncodeEntry_round_trip [of "0xFFFFF" "0x12345678" "0x9A" "0xC0"] by simp

end
