(* ===== verification/Interrupts.thy ===== *)
theory Interrupts
  imports Descriptors
begin

text \<open>
  The interrupt manager, \<^verbatim>\<open>src/src/arch/i386/interrupts.h\<close> and \<^verbatim>\<open>interrupts.cpp\<close>. The addresses of the
  assembly stubs are parameters, fixed by the linker. A handler is a function from the stack
  pointer and the state of the rest of the kernel to a new stack pointer and state; the handler
  table and the system-call entry are such functions. Writes to the interrupt controllers are
  recorded in the order they are made.
\<close>

section \<open>Construction\<close>

text \<open>\<open>isr n\<close> is the address of the stub \<open>isr_n\<close>, \<open>ign\<close> that of \<open>ignore_interrupt_request\<close>.\<close>

definition InterruptManager_idt ::
  "u16 \<Rightarrow> (nat \<Rightarrow> u32) \<Rightarrow> u32 \<Rightarrow> GateDescriptor list \<Rightarrow> GateDescriptor list" where
  "InterruptManager_idt hw_offset isr ign idt =
     (let sel = CodeSegmentSelector;
          idt = fold (\<lambda>i idt. SetGate idt i ign sel 0x8E) [0..<256] idt;
          idt = fold (\<lambda>i idt. SetGate idt (unat (ucast (hw_offset + of_nat i) :: u8)) (isr (32 + i)) sel 0x8E)
                  [0..<16] idt;
          idt = SetGate idt 8 (isr 8) sel 0x8E;
          idt = SetGate idt 10 (isr 10) sel 0x8E;
          idt = SetGate idt 11 (isr 11) sel 0x8E;
          idt = SetGate idt 12 (isr 12) sel 0x8E;
          idt = SetGate idt 13 (isr 13) sel 0x8E;
          idt = SetGate idt 14 (isr 14) sel 0x8E
      in SetGate idt 128 (isr 128) sel 0xEF)"

text \<open>The port writes that program the two controllers: (port, value).\<close>

definition pic_setup :: "u16 \<Rightarrow> (u16 \<times> u8) list" where
  "pic_setup hw_offset =
     [(0x20, 0x11), (0xA0, 0x11),
      (0x21, ucast hw_offset), (0xA1, ucast (hw_offset + 8)),
      (0x21, 0x04), (0xA1, 0x02),
      (0x21, 0x01), (0xA1, 0x01),
      (0x21, 0x00), (0xA1, 0x00)]"

definition idtp_limit :: u16 where
  "idtp_limit = 256 * 8 - 1"

section \<open>Dispatch\<close>

type_synonym 's handler = "u32 \<Rightarrow> 's \<Rightarrow> u32 \<times> 's"

record 's InterruptManager =
  handlers :: "'s handler option list"
  hardware_interrupt_offset :: u16

text \<open>
  \<open>active_manager\<close> and the interrupt flag; the pointer to the active manager is the manager itself,
  as the kernel has a single one.
\<close>

record 's intr_state =
  active_manager :: "'s InterruptManager option"
  if_flag :: bool
  pic_log :: "(u16 \<times> u8) list"
  rest :: 's

definition InterruptManager_new :: "u16 \<Rightarrow> 's InterruptManager" where
  "InterruptManager_new hw_offset =
     \<lparr>handlers = replicate 256 None, hardware_interrupt_offset = hw_offset\<rparr>"

definition register_handler :: "'s InterruptManager \<Rightarrow> nat \<Rightarrow> 's handler \<Rightarrow> 's InterruptManager" where
  "register_handler m interrupt h = m\<lparr>handlers := (handlers m)[interrupt := Some h]\<rparr>"

definition Deactivate :: "'s intr_state \<Rightarrow> 's intr_state" where
  "Deactivate s = s\<lparr>if_flag := False, active_manager := None\<rparr>"

definition Activate :: "'s InterruptManager \<Rightarrow> 's intr_state \<Rightarrow> 's intr_state" where
  "Activate m s =
     (let s = (if active_manager s \<noteq> None then Deactivate s else s)
      in s\<lparr>active_manager := Some m, if_flag := True\<rparr>)"

definition pic_write :: "u16 \<Rightarrow> u8 \<Rightarrow> 's intr_state \<Rightarrow> 's intr_state" where
  "pic_write port value s = s\<lparr>pic_log := pic_log s @ [(port, value)]\<rparr>"

text \<open>A page fault prints a message and halts the machine: no value is returned.\<close>

definition DoHandleInterrupt ::
  "'s handler \<Rightarrow> 's InterruptManager \<Rightarrow> nat \<Rightarrow> u32 \<Rightarrow> 's intr_state \<Rightarrow> (u32 \<times> 's intr_state) option" where
  "DoHandleInterrupt syscall m interrupt esp s =
     (if interrupt = 14 then None
      else let (esp, s) = (case handlers m ! interrupt of
                             Some h \<Rightarrow> (let (e, r) = h esp (rest s) in (e, s\<lparr>rest := r\<rparr>))
                           | None \<Rightarrow> (esp, s))
           in if interrupt = 128 then Some (let (e, r) = syscall esp (rest s) in (e, s\<lparr>rest := r\<rparr>))
              else let off = unat (hardware_interrupt_offset m);
                       s = (if off \<le> interrupt \<and> interrupt < off + 16
                            then pic_write 0x20 0x20
                                   (if off + 8 \<le> interrupt then pic_write 0xA0 0x20 s else s)
                            else s)
                   in Some (esp, s))"

definition HandleInterrupt :: "'s handler \<Rightarrow> nat \<Rightarrow> u32 \<Rightarrow> 's intr_state \<Rightarrow> (u32 \<times> 's intr_state) option" where
  "HandleInterrupt syscall interrupt esp s =
     (case active_manager s of
        Some m \<Rightarrow> DoHandleInterrupt syscall m interrupt esp s
      | None \<Rightarrow> Some (esp, s))"

section \<open>Lemmas\<close>

definition gate :: "u32 \<Rightarrow> u16 \<Rightarrow> u8 \<Rightarrow> GateDescriptor" where
  "gate h sel attr = \<lparr>offset_low = ucast (h AND 0xFFFF), g_selector = sel, reserved = 0,
     type_attr = attr, offset_high = ucast (drop_bit 16 h AND 0xFFFF)\<rparr>"

lemma SetGate_gate: "SetGate idt i h sel attr = idt[i := gate h sel attr]"
  by (simp add: SetGate_def gate_def)

lemma gate_fields [simp]:
  "gate_offset (gate h sel attr) = h" "g_selector (gate h sel attr) = sel"
  "type_attr (gate h sel attr) = attr"
  by (simp_all add: gate_def gate_offset_eq)

lemma fold_update_upt:
  assumes "n \<le> length xs"
  shows "fold (\<lambda>i xs. xs[i := f i]) [0..<n] xs = map f [0..<n] @ drop n xs"
  using assms
proof (induction n)
  case (Suc n)
  then show ?case by (simp add: list_update_append Cons_nth_drop_Suc [symmetric])
qed simp

lemma length_fold_update [simp]: "length (fold (\<lambda>i xs. xs[g i := f i]) is xs) = length xs"
  by (induction "is" arbitrary: xs) simp_all

lemma fold_update_other: "j \<notin> g ` set is \<Longrightarrow> fold (\<lambda>i xs. xs[g i := f i]) is xs ! j = xs ! j"
  by (induction "is" arbitrary: xs) auto

lemma fold_update_nth:
  assumes "distinct (map g is)" and "i \<in> set is" and "g i < length xs"
  shows "fold (\<lambda>i xs. xs[g i := f i]) is xs ! g i = f i"
  using assms
proof (induction "is" arbitrary: xs)
  case (Cons k "is")
  then show ?case by (cases "k = i") (auto simp: fold_update_other)
qed simp

text \<open>The vectors that have a stub of their own when the hardware interrupts start at 32.\<close>

definition stub_vector :: "nat \<Rightarrow> bool" where
  "stub_vector v \<longleftrightarrow> v \<in> {8, 10, 11, 12, 13, 14, 128} \<or> 32 \<le> v \<and> v < 48"

section \<open>Properties\<close>

text \<open>With the hardware interrupts at vector 32, the constructor leaves every gate of the table
  pointing into the kernel code segment: to its own stub for the exceptions 8 and 10 to 14, the
  hardware interrupts 32 to 47 and the system call 128, and to the common stub otherwise. Only
  the system-call gate may be used from ring 3.\<close>

theorem InterruptManager_gates:
  assumes "length idt = 256" and "v < 256"
  shows "gate_offset (InterruptManager_idt 32 isr ign idt ! v) = (if stub_vector v then isr v else ign) \<and>
    g_selector (InterruptManager_idt 32 isr ign idt ! v) = CodeSegmentSelector \<and>
    gate_dpl (InterruptManager_idt 32 isr ign idt ! v) = (if v = 128 then 3 else 0)"
proof -
  let ?g = "\<lambda>h. gate h CodeSegmentSelector 0x8E"
  let ?a = "map (\<lambda>i. ?g ign) [0..<256]"
  let ?b = "fold (\<lambda>i xs. xs[32 + i := ?g (isr (32 + i))]) [0..<16] ?a"
  have un: "unat (ucast (32 + of_nat i :: u16) :: u8) = 32 + i" if "i < 16" for i
  proof -
    have "unat (of_nat (32 + i) :: u16) = 32 + i"
      unfolding unsigned_of_nat using that by (simp add: take_bit_eq_mod)
    then have "unat (32 + of_nat i :: u16) = 32 + i" by simp
    then show ?thesis using that by (simp add: unsigned_ucast_eq take_bit_eq_mod)
  qed
  have f2: "fold (\<lambda>i xs. xs[unat (ucast (32 + of_nat i :: u16) :: u8) := ?g (isr (32 + i))]) [0..<16] ?a = ?b"
    by (rule fold_cong) (simp_all add: un)
  have a: "fold (\<lambda>i xs. xs[i := ?g ign]) [0..<256] idt = ?a"
    using fold_update_upt [of 256 idt "\<lambda>i. ?g ign"] assms(1) by simp
  have eq: "InterruptManager_idt 32 isr ign idt =
    ?b[8 := ?g (isr 8), 10 := ?g (isr 10), 11 := ?g (isr 11), 12 := ?g (isr 12), 13 := ?g (isr 13),
       14 := ?g (isr 14), 128 := gate (isr 128) CodeSegmentSelector 0xEF]"
    unfolding InterruptManager_idt_def Let_def SetGate_gate a f2 ..
  have b: "?b ! v = ?g (if 32 \<le> v \<and> v < 48 then isr v else ign)"
  proof (cases "32 \<le> v \<and> v < 48")
    case True
    then have "?b ! (32 + (v - 32)) = ?g (isr (32 + (v - 32)))"
      by (intro fold_update_nth) (auto simp: distinct_map inj_on_def)
    then show ?thesis using True by simp
  next
    case False
    then have "v \<notin> (+) 32 ` set [0..<16]" by auto
    then have "?b ! v = ?a ! v" by (rule fold_update_other)
    then show ?thesis using False assms(2) by auto
  qed
  have "length ?b = 256" by simp
  then have "InterruptManager_idt 32 isr ign idt ! v =
    (if v = 128 then gate (isr 128) CodeSegmentSelector 0xEF
     else ?g (if stub_vector v then isr v else ign))"
    unfolding eq using assms(2) b by (simp add: nth_list_update stub_vector_def)
  then show ?thesis by (simp add: gate_dpl_def stub_vector_def)
qed

theorem InterruptManager_gates_witness:
  "gate_offset (InterruptManager_idt 32 (\<lambda>n. 0x100000 + of_nat n) 0xFF
     (replicate 256 \<lparr>offset_low = 0, g_selector = 0, reserved = 0, type_attr = 0, offset_high = 0\<rparr>) ! 33) = 0x100021"
  using InterruptManager_gates [of "replicate 256 \<lparr>offset_low = 0, g_selector = 0, reserved = 0, type_attr = 0,
      offset_high = 0\<rparr>" 33 "\<lambda>n. 0x100000 + of_nat n" "0xFF"] by (simp add: stub_vector_def)



end
