(* ===== verification/Display.thy ===== *)
theory Display
  imports Prelude
begin

text \<open>
  The screen, \<^verbatim>\<open>src/src/ui/vga.h\<close> and \<^verbatim>\<open>vga.cpp\<close>. In text mode it is an array of 80 by 25 words at
  address B8000, written at a cursor; in graphics mode a window of 64 KiB at A0000, of which the first
  320 by 200 bytes are pixels. A write outside the array or the window is outside the model (\<open>None\<close>), as is a loop
  that does not end. The port writes that set a mode are a log, in order. A character is a byte.
\<close>

section \<open>State\<close>

record VGA =
  text_buffer :: "u16 list"
  vga_cursor :: u16
  vga_color :: u8
  graphics_mode :: bool
  framebuffer :: "nat \<Rightarrow> u8"
  port_log :: "(u16 \<times> u8) list"

text \<open>The bytes of a string literal.\<close>

definition ascii :: "string \<Rightarrow> u8 list" where
  "ascii s = map of_char s"

definition font :: "u8 list list" where
  "font = [
     [0x00, 0x00, 0x00, 0x00, 0x00, 0x00, 0x00, 0x00],
     [0x7E, 0x81, 0xA5, 0x81, 0xBD, 0x99, 0x81, 0x7E],
     [0x7E, 0xFF, 0xDB, 0xFF, 0xC3, 0xE7, 0xFF, 0x7E],
     [0x6C, 0xFE, 0xFE, 0xFE, 0x7C, 0x38, 0x10, 0x00],
     [0x10, 0x38, 0x7C, 0xFE, 0x7C, 0x38, 0x10, 0x00],
     [0x38, 0x7C, 0x38, 0xFE, 0xFE, 0x10, 0x10, 0x7C],
     [0x10, 0x10, 0x38, 0x7C, 0xFE, 0x7C, 0x10, 0x7C],
     [0x00, 0x00, 0x18, 0x3C, 0x3C, 0x18, 0x00, 0x00],
     [0xFF, 0xFF, 0xE7, 0xC3, 0xC3, 0xE7, 0xFF, 0xFF],
     [0x00, 0x3C, 0x66, 0x42, 0x42, 0x66, 0x3C, 0x00],
     [0xFF, 0xC3, 0x99, 0xBD, 0xBD, 0x99, 0xC3, 0xFF],
     [0x0F, 0x07, 0x0F, 0x7D, 0xCC, 0xCC, 0xCC, 0x78],
     [0x3C, 0x66, 0x66, 0x66, 0x3C, 0x18, 0x7E, 0x18],
     [0x3F, 0x33, 0x3F, 0x30, 0x30, 0x70, 0xF0, 0xE0],
     [0x7F, 0x63, 0x7F, 0x63, 0x63, 0x67, 0xE6, 0xC0],
     [0x99, 0x5A, 0x3C, 0xE7, 0xE7, 0x3C, 0x5A, 0x99],
     [0x80, 0xE0, 0xF8, 0xFE, 0xF8, 0xE0, 0x80, 0x00],
     [0x02, 0x0E, 0x3E, 0xFE, 0x3E, 0x0E, 0x02, 0x00],
     [0x18, 0x3C, 0x7E, 0x18, 0x18, 0x7E, 0x3C, 0x18],
     [0x66, 0x66, 0x66, 0x66, 0x66, 0x00, 0x66, 0x00],
     [0x7F, 0xDB, 0xDB, 0x7B, 0x1B, 0x1B, 0x1B, 0x00],
     [0x3E, 0x63, 0x38, 0x6C, 0x6C, 0x38, 0xCC, 0x78],
     [0x00, 0x00, 0x00, 0x00, 0x7E, 0x7E, 0x7E, 0x00],
     [0x18, 0x3C, 0x7E, 0x18, 0x7E, 0x3C, 0x18, 0xFF],
     [0x18, 0x3C, 0x7E, 0x18, 0x18, 0x18, 0x18, 0x00],
     [0x18, 0x18, 0x18, 0x18, 0x7E, 0x3C, 0x18, 0x00],
     [0x00, 0x18, 0x0C, 0xFE, 0x0C, 0x18, 0x00, 0x00],
     [0x00, 0x30, 0x60, 0xFE, 0x60, 0x30, 0x00, 0x00],
     [0x00, 0x00, 0xC0, 0xC0, 0xC0, 0xFE, 0x00, 0x00],
     [0x00, 0x24, 0x66, 0xFF, 0x66, 0x24, 0x00, 0x00],
     [0x00, 0x18, 0x3C, 0x7E, 0xFF, 0xFF, 0x00, 0x00],
     [0x00, 0xFF, 0xFF, 0x7E, 0x3C, 0x18, 0x00, 0x00],
     [0x00, 0x00, 0x00, 0x00, 0x00, 0x00, 0x00, 0x00],
     [0x18, 0x3C, 0x3C, 0x18, 0x18, 0x00, 0x18, 0x00],
     [0x6C, 0x6C, 0x48, 0x00, 0x00, 0x00, 0x00, 0x00],
     [0x6C, 0x6C, 0xFE, 0x6C, 0xFE, 0x6C, 0x6C, 0x00],
     [0x18, 0x7E, 0xC0, 0x7C, 0x06, 0xFC, 0x18, 0x00],
     [0x00, 0xC6, 0xCC, 0x18, 0x30, 0x66, 0xC6, 0x00],
     [0x38, 0x6C, 0x38, 0x76, 0xDC, 0xCC, 0x76, 0x00],
     [0x30, 0x30, 0x60, 0x00, 0x00, 0x00, 0x00, 0x00],
     [0x18, 0x30, 0x60, 0x60, 0x60, 0x30, 0x18, 0x00],
     [0x60, 0x30, 0x18, 0x18, 0x18, 0x30, 0x60, 0x00],
     [0x00, 0x66, 0x3C, 0xFF, 0x3C, 0x66, 0x00, 0x00],
     [0x00, 0x18, 0x18, 0x7E, 0x18, 0x18, 0x00, 0x00],
     [0x00, 0x00, 0x00, 0x00, 0x00, 0x18, 0x18, 0x30],
     [0x00, 0x00, 0x00, 0x7E, 0x00, 0x00, 0x00, 0x00],
     [0x00, 0x00, 0x00, 0x00, 0x00, 0x18, 0x18, 0x00],
     [0x06, 0x0C, 0x18, 0x30, 0x60, 0xC0, 0x80, 0x00],
     [0x7C, 0xC6, 0xCE, 0xDE, 0xF6, 0xE6, 0x7C, 0x00],
     [0x30, 0x70, 0x30, 0x30, 0x30, 0x30, 0xFC, 0x00],
     [0x78, 0xCC, 0x0C, 0x38, 0x60, 0xCC, 0xFC, 0x00],
     [0x78, 0xCC, 0x0C, 0x38, 0x0C, 0xCC, 0x78, 0x00],
     [0x1C, 0x3C, 0x6C, 0xCC, 0xFE, 0x0C, 0x1E, 0x00],
     [0xFC, 0xC0, 0xF8, 0x0C, 0x0C, 0xCC, 0x78, 0x00],
     [0x38, 0x60, 0xC0, 0xF8, 0xCC, 0xCC, 0x78, 0x00],
     [0xFC, 0xCC, 0x0C, 0x18, 0x30, 0x30, 0x30, 0x00],
     [0x78, 0xCC, 0xCC, 0x78, 0xCC, 0xCC, 0x78, 0x00],
     [0x78, 0xCC, 0xCC, 0x7C, 0x0C, 0x18, 0x70, 0x00],
     [0x00, 0x18, 0x18, 0x00, 0x00, 0x18, 0x18, 0x00],
     [0x00, 0x18, 0x18, 0x00, 0x00, 0x18, 0x18, 0x30],
     [0x18, 0x30, 0x60, 0xC0, 0x60, 0x30, 0x18, 0x00],
     [0x00, 0x00, 0x7E, 0x00, 0x7E, 0x00, 0x00, 0x00],
     [0x60, 0x30, 0x18, 0x0C, 0x18, 0x30, 0x60, 0x00],
     [0x3C, 0x66, 0x06, 0x1C, 0x18, 0x00, 0x18, 0x00],
     [0x7C, 0xC6, 0xDE, 0xDE, 0xDE, 0xC0, 0x78, 0x00],
     [0x30, 0x78, 0xCC, 0xCC, 0xFC, 0xCC, 0xCC, 0x00],
     [0xFC, 0x66, 0x66, 0x7C, 0x66, 0x66, 0xFC, 0x00],
     [0x3C, 0x66, 0xC0, 0xC0, 0xC0, 0x66, 0x3C, 0x00],
     [0xF8, 0x6C, 0x66, 0x66, 0x66, 0x6C, 0xF8, 0x00],
     [0xFE, 0x62, 0x68, 0x78, 0x68, 0x62, 0xFE, 0x00],
     [0xFE, 0x62, 0x68, 0x78, 0x68, 0x60, 0xF0, 0x00],
     [0x3C, 0x66, 0xC0, 0xC0, 0xCE, 0x66, 0x3A, 0x00],
     [0xCC, 0xCC, 0xCC, 0xFC, 0xCC, 0xCC, 0xCC, 0x00],
     [0x78, 0x30, 0x30, 0x30, 0x30, 0x30, 0x78, 0x00],
     [0x1E, 0x0C, 0x0C, 0x0C, 0xCC, 0xCC, 0x78, 0x00],
     [0xE6, 0x66, 0x6C, 0x78, 0x6C, 0x66, 0xE6, 0x00],
     [0xF0, 0x60, 0x60, 0x60, 0x62, 0x66, 0xFE, 0x00],
     [0xC6, 0xEE, 0xFE, 0xFE, 0xD6, 0xC6, 0xC6, 0x00],
     [0xC6, 0xE6, 0xF6, 0xDE, 0xCE, 0xC6, 0xC6, 0x00],
     [0x38, 0x6C, 0xC6, 0xC6, 0xC6, 0x6C, 0x38, 0x00],
     [0xFC, 0x66, 0x66, 0x7C, 0x60, 0x60, 0xF0, 0x00],
     [0x78, 0xCC, 0xCC, 0xCC, 0xDC, 0x78, 0x1C, 0x00],
     [0xFC, 0x66, 0x66, 0x7C, 0x6C, 0x66, 0xE6, 0x00],
     [0x78, 0xCC, 0xE0, 0x70, 0x1C, 0xCC, 0x78, 0x00],
     [0xFC, 0xB4, 0x30, 0x30, 0x30, 0x30, 0x78, 0x00],
     [0xCC, 0xCC, 0xCC, 0xCC, 0xCC, 0xCC, 0xFC, 0x00],
     [0xCC, 0xCC, 0xCC, 0xCC, 0xCC, 0x78, 0x30, 0x00],
     [0xC6, 0xC6, 0xC6, 0xD6, 0xFE, 0xEE, 0xC6, 0x00],
     [0xC6, 0xC6, 0x6C, 0x38, 0x38, 0x6C, 0xC6, 0x00],
     [0xCC, 0xCC, 0xCC, 0x78, 0x30, 0x30, 0x78, 0x00],
     [0xFE, 0xC6, 0x8C, 0x18, 0x32, 0x66, 0xFE, 0x00],
     [0x78, 0x60, 0x60, 0x60, 0x60, 0x60, 0x78, 0x00],
     [0xC0, 0x60, 0x30, 0x18, 0x0C, 0x06, 0x02, 0x00],
     [0x78, 0x18, 0x18, 0x18, 0x18, 0x18, 0x78, 0x00],
     [0x10, 0x38, 0x6C, 0xC6, 0x00, 0x00, 0x00, 0x00],
     [0x00, 0x00, 0x00, 0x00, 0x00, 0x00, 0x00, 0xFF],
     [0x30, 0x30, 0x18, 0x00, 0x00, 0x00, 0x00, 0x00],
     [0x00, 0x00, 0x78, 0x0C, 0x7C, 0xCC, 0x76, 0x00],
     [0xE0, 0x60, 0x60, 0x7C, 0x66, 0x66, 0xDC, 0x00],
     [0x00, 0x00, 0x78, 0xCC, 0xC0, 0xCC, 0x78, 0x00],
     [0x1C, 0x0C, 0x0C, 0x7C, 0xCC, 0xCC, 0x76, 0x00],
     [0x00, 0x00, 0x78, 0xCC, 0xFC, 0xC0, 0x78, 0x00],
     [0x38, 0x6C, 0x60, 0xF0, 0x60, 0x60, 0xF0, 0x00],
     [0x00, 0x00, 0x76, 0xCC, 0xCC, 0x7C, 0x0C, 0xF8],
     [0xE0, 0x60, 0x6C, 0x76, 0x66, 0x66, 0xE6, 0x00],
     [0x30, 0x00, 0x70, 0x30, 0x30, 0x30, 0x78, 0x00],
     [0x0C, 0x00, 0x0C, 0x0C, 0x0C, 0xCC, 0xCC, 0x78],
     [0xE0, 0x60, 0x66, 0x6C, 0x78, 0x6C, 0xE6, 0x00],
     [0x70, 0x30, 0x30, 0x30, 0x30, 0x30, 0x78, 0x00],
     [0x00, 0x00, 0xCC, 0xFE, 0xFE, 0xD6, 0xC6, 0x00],
     [0x00, 0x00, 0xF8, 0xCC, 0xCC, 0xCC, 0xCC, 0x00],
     [0x00, 0x00, 0x78, 0xCC, 0xCC, 0xCC, 0x78, 0x00],
     [0x00, 0x00, 0xDC, 0x66, 0x66, 0x7C, 0x60, 0xF0],
     [0x00, 0x00, 0x76, 0xCC, 0xCC, 0x7C, 0x0C, 0x1E],
     [0x00, 0x00, 0xDC, 0x76, 0x66, 0x60, 0xF0, 0x00],
     [0x00, 0x00, 0x7C, 0xC0, 0x78, 0x0C, 0xF8, 0x00],
     [0x10, 0x30, 0x7C, 0x30, 0x30, 0x34, 0x18, 0x00],
     [0x00, 0x00, 0xCC, 0xCC, 0xCC, 0xCC, 0x76, 0x00],
     [0x00, 0x00, 0xCC, 0xCC, 0xCC, 0x78, 0x30, 0x00],
     [0x00, 0x00, 0xC6, 0xD6, 0xFE, 0xFE, 0x6C, 0x00],
     [0x00, 0x00, 0xC6, 0x6C, 0x38, 0x6C, 0xC6, 0x00],
     [0x00, 0x00, 0xCC, 0xCC, 0xCC, 0x7C, 0x0C, 0xF8],
     [0x00, 0x00, 0xFC, 0x98, 0x30, 0x64, 0xFC, 0x00],
     [0x1C, 0x30, 0x30, 0xE0, 0x30, 0x30, 0x1C, 0x00],
     [0x18, 0x18, 0x18, 0x00, 0x18, 0x18, 0x18, 0x00],
     [0xE0, 0x30, 0x30, 0x1C, 0x30, 0x30, 0xE0, 0x00],
     [0x76, 0xDC, 0x00, 0x00, 0x00, 0x00, 0x00, 0x00],
     [0x00, 0x10, 0x38, 0x6C, 0xC6, 0xC6, 0xFE, 0x00]]"

section \<open>Text mode\<close>

definition cell :: "u8 \<Rightarrow> u8 \<Rightarrow> u16" where
  "cell col c = push_bit 8 (ucast col) OR ucast c"

definition Clear :: "VGA \<Rightarrow> VGA option" where
  "Clear v =
     (if 80 * 25 \<le> length (text_buffer v)
      then Some (v\<lparr>text_buffer := replicate (80 * 25) (cell (vga_color v) 0x20) @ drop (80 * 25) (text_buffer v), vga_cursor := 0\<rparr>)
      else None)"

definition put_cell :: "u16 \<Rightarrow> u8 \<Rightarrow> VGA \<Rightarrow> VGA option" where
  "put_cell pos c v =
     (if unat pos < length (text_buffer v) then Some (v\<lparr>text_buffer := (text_buffer v)[unat pos := cell (vga_color v) c]\<rparr>) else None)"

text \<open>The screen moves up by a line once the cursor has left it.\<close>

definition scroll :: "VGA \<Rightarrow> VGA option" where
  "scroll v =
     (if vga_cursor v \<ge> 80 * 25
      then if 80 * 25 \<le> length (text_buffer v)
           then Some (v\<lparr>text_buffer := take (80 * 24) (drop 80 (text_buffer v)) @ replicate 80 (cell (vga_color v) 0x20) @
                         drop (80 * 25) (text_buffer v),
                       vga_cursor := 80 * 24\<rparr>)
           else None
      else Some v)"

definition VGA_PutChar :: "u8 \<Rightarrow> VGA \<Rightarrow> VGA option" where
  "VGA_PutChar c v = do {
     v \<leftarrow>
       (if c = 0x08
        then let pos = (if vga_cursor v > 0 then vga_cursor v - 1 else vga_cursor v)
             in put_cell pos 0x20 (v\<lparr>vga_cursor := pos\<rparr>)
        else if c = 0x0A then Some (v\<lparr>vga_cursor := (vga_cursor v div 80 + 1) * 80\<rparr>)
        else if c = 0x09 then Some (v\<lparr>vga_cursor := vga_cursor v + 4\<rparr>)
        else map_option (\<lambda>w. w\<lparr>vga_cursor := vga_cursor w + 1\<rparr>) (put_cell (vga_cursor v) c v));
     scroll v
   }"

text \<open>A string is the list of its characters before the terminating zero.\<close>

definition VGA_Print :: "u8 list \<Rightarrow> VGA \<Rightarrow> VGA option" where
  "VGA_Print str v = fold_opt VGA_PutChar str v"

definition hex_digits :: "u8 list" where
  "hex_digits = ascii ''0123456789ABCDEF''"

definition PrintHex :: "u8 \<Rightarrow> VGA \<Rightarrow> VGA option" where
  "PrintHex val v = do {
     v \<leftarrow> VGA_PutChar (hex_digits ! unat (drop_bit 4 val)) v;
     VGA_PutChar (hex_digits ! unat (val AND 0xF)) v
   }"

definition PrintHex16 :: "u16 \<Rightarrow> VGA \<Rightarrow> VGA option" where
  "PrintHex16 val v = do {
     v \<leftarrow> PrintHex (ucast (drop_bit 8 val)) v;
     PrintHex (ucast (val AND 0xFF)) v
   }"

definition PrintHex32 :: "u32 \<Rightarrow> VGA \<Rightarrow> VGA option" where
  "PrintHex32 val v = do {
     v \<leftarrow> PrintHex16 (ucast (drop_bit 16 val)) v;
     PrintHex16 (ucast (val AND 0xFFFF)) v
   }"

definition SetColor :: "u8 \<Rightarrow> u8 \<Rightarrow> VGA \<Rightarrow> VGA" where
  "SetColor fg bg v = v\<lparr>vga_color := push_bit 4 bg OR (fg AND 0x0F)\<rparr>"

definition SetCursor :: "u16 \<Rightarrow> VGA \<Rightarrow> VGA" where
  "SetCursor pos v = v\<lparr>vga_cursor := pos\<rparr>"

definition GetCursor :: "VGA \<Rightarrow> u16" where
  "GetCursor v = vga_cursor v"

section \<open>Setting the mode\<close>

text \<open>Pairs of a register number and a value, written to an index and a data port.\<close>

definition indexed :: "u16 \<Rightarrow> u16 \<Rightarrow> (u8 \<times> u8) list \<Rightarrow> (u16 \<times> u8) list" where
  "indexed index_port data_port vals = concat (map (\<lambda>(i, x). [(index_port, i), (data_port, x)]) vals)"

text \<open>The parameter is what the controller answers when its register 11 (hex) is read.\<close>

definition EnterGraphicsMode_writes :: "u8 \<Rightarrow> (u16 \<times> u8) list" where
  "EnterGraphicsMode_writes crtc11 =
     [(0x3C2, 0x63)] @
     indexed 0x3C4 0x3C5
       [(0x00, 0x03), (0x01, 0x01), (0x02, 0x0F), (0x03, 0x00), (0x04, 0x0E)] @
     [(0x3D4, 0x11), (0x3D5, crtc11 AND 0x7F)] @
     indexed 0x3D4 0x3D5
       [(0x00, 0x5F), (0x01, 0x4F), (0x02, 0x50), (0x03, 0x82), (0x04, 0x54), (0x05, 0x80),
        (0x06, 0xBF), (0x07, 0x1F), (0x08, 0x00), (0x09, 0x41), (0x0A, 0x00), (0x0B, 0x00),
        (0x0C, 0x00), (0x0D, 0x00), (0x0E, 0x00), (0x0F, 0x00), (0x10, 0x9C), (0x11, 0x0E),
        (0x12, 0x8F), (0x13, 0x28), (0x14, 0x40), (0x15, 0x96), (0x16, 0xB9), (0x17, 0xA3),
        (0x18, 0xFF)] @
     indexed 0x3CE 0x3CF
       [(0x00, 0x00), (0x01, 0x00), (0x02, 0x00), (0x03, 0x00), (0x04, 0x00), (0x05, 0x40),
        (0x06, 0x05), (0x07, 0x0F), (0x08, 0xFF)] @
     indexed 0x3C0 0x3C0
       [(0x00, 0x00), (0x01, 0x01), (0x02, 0x02), (0x03, 0x03), (0x04, 0x04), (0x05, 0x05),
        (0x06, 0x14), (0x07, 0x07), (0x08, 0x38), (0x09, 0x39), (0x0A, 0x3A), (0x0B, 0x3B),
        (0x0C, 0x3C), (0x0D, 0x3D), (0x0E, 0x3E), (0x0F, 0x3F), (0x10, 0x41), (0x11, 0x00),
        (0x12, 0x0F), (0x13, 0x00), (0x14, 0x00)] @
     [(0x3C0, 0x20)]"

definition ExitGraphicsMode_writes :: "(u16 \<times> u8) list" where
  "ExitGraphicsMode_writes =
     [(0x3C2, 0x67)] @
     indexed 0x3C4 0x3C5
       [(0x00, 0x03), (0x01, 0x00), (0x02, 0x03), (0x03, 0x00), (0x04, 0x02)] @
     indexed 0x3D4 0x3D5
       [(0x00, 0x5F), (0x01, 0x4F), (0x02, 0x50), (0x03, 0x82), (0x04, 0x55), (0x05, 0x81),
        (0x06, 0xBF), (0x07, 0x1F), (0x08, 0x00), (0x09, 0x4F), (0x0A, 0x0D), (0x0B, 0x0E),
        (0x0C, 0x00), (0x0D, 0x00), (0x0E, 0x00), (0x0F, 0x00), (0x10, 0x9C), (0x11, 0x8E),
        (0x12, 0x8F), (0x13, 0x28), (0x14, 0x1F), (0x15, 0x96), (0x16, 0xB9), (0x17, 0xA3),
        (0x18, 0xFF)] @
     indexed 0x3CE 0x3CF
       [(0x00, 0x00), (0x01, 0x00), (0x02, 0x00), (0x03, 0x00), (0x04, 0x00), (0x05, 0x10),
        (0x06, 0x0E), (0x07, 0x00), (0x08, 0xFF)] @
     indexed 0x3C0 0x3C0
       [(0x00, 0x00), (0x01, 0x01), (0x02, 0x02), (0x03, 0x03), (0x04, 0x04), (0x05, 0x05),
        (0x06, 0x14), (0x07, 0x07), (0x08, 0x38), (0x09, 0x39), (0x0A, 0x3A), (0x0B, 0x3B),
        (0x0C, 0x3C), (0x0D, 0x3D), (0x0E, 0x3E), (0x0F, 0x3F), (0x10, 0x0C), (0x11, 0x00),
        (0x12, 0x0F), (0x13, 0x08), (0x14, 0x00)] @
     [(0x3C0, 0x20)]"

definition EnterGraphicsMode :: "u8 \<Rightarrow> VGA \<Rightarrow> VGA" where
  "EnterGraphicsMode crtc11 v = v\<lparr>port_log := port_log v @ EnterGraphicsMode_writes crtc11, graphics_mode := True\<rparr>"

definition ExitGraphicsMode :: "VGA \<Rightarrow> VGA" where
  "ExitGraphicsMode v = v\<lparr>port_log := port_log v @ ExitGraphicsMode_writes, graphics_mode := False\<rparr>"

definition IsGraphicsMode :: "VGA \<Rightarrow> bool" where
  "IsGraphicsMode v = graphics_mode v"

section \<open>Graphics mode\<close>

definition DrawPixel :: "u16 \<Rightarrow> u16 \<Rightarrow> u8 \<Rightarrow> VGA \<Rightarrow> VGA option" where
  "DrawPixel x y col v =
     (let i = unat y * 320 + unat x
      in if i < 65536 then Some (v\<lparr>framebuffer := (framebuffer v)(i := col)\<rparr>) else None)"

text \<open>The loop counters are 16 bits wide and are compared with a sum that is not: the loops do not end when the sum exceeds
  their range.\<close>

definition u16_range :: "u16 \<Rightarrow> u16 \<Rightarrow> u16 list option" where
  "u16_range lo n =
     (if unat lo + unat n \<le> 65535 then Some (map of_nat [unat lo..<unat lo + unat n]) else None)"

definition DrawRect :: "u16 \<Rightarrow> u16 \<Rightarrow> u16 \<Rightarrow> u16 \<Rightarrow> u8 \<Rightarrow> VGA \<Rightarrow> VGA option" where
  "DrawRect x y w h col v = do {
     rows \<leftarrow> u16_range y h;
     fold_opt (\<lambda>row v. do {
       cols \<leftarrow> u16_range x w;
       fold_opt (\<lambda>col2. DrawPixel col2 row col) cols v
     }) rows v
   }"

definition DrawChar :: "u16 \<Rightarrow> u16 \<Rightarrow> u8 \<Rightarrow> u8 \<Rightarrow> u8 \<Rightarrow> VGA \<Rightarrow> VGA option" where
  "DrawChar x y c fg bg v =
     (let idx = (if c \<ge> 128 then 0 else c)
      in fold_opt (\<lambda>row v.
           let bits = font ! unat idx ! row
           in fold_opt (\<lambda>col2.
                let px = (if bits AND drop_bit col2 0x80 \<noteq> 0 then fg else bg)
                in DrawPixel (x + of_nat col2) (y + of_nat row) px) [0..<8] v) [0..<8] v)"

section \<open>Text mode: the screen is never left\<close>

definition screen_ok :: "VGA \<Rightarrow> bool" where
  "screen_ok v \<longleftrightarrow> length (text_buffer v) = 2000 \<and> unat (vga_cursor v) < 2000"

definition same_graphics :: "VGA \<Rightarrow> VGA \<Rightarrow> bool" where
  "same_graphics v w \<longleftrightarrow> framebuffer w = framebuffer v \<and> graphics_mode w = graphics_mode v \<and>
     vga_color w = vga_color v \<and> port_log w = port_log v"

lemma unat_u16_plus_small: "unat a + unat b < 65536 \<Longrightarrow> unat (a + b :: u16) = unat a + unat b"
  by (simp add: unat_word_ariths)

lemma scroll_ok:
  assumes "length (text_buffer v) = 2000"
  shows "\<exists>w. scroll v = Some w \<and> screen_ok w \<and> same_graphics v w"
proof -
  have "unat (vga_cursor v) < 2000 \<longleftrightarrow> \<not> vga_cursor v \<ge> 2000" by (simp add: word_less_nat_alt not_le)
  then show ?thesis using assms by (auto simp: scroll_def screen_ok_def same_graphics_def)
qed

lemma put_cell_ok:
  "unat pos < length (text_buffer v) \<Longrightarrow> put_cell pos c v = Some (v\<lparr>text_buffer := (text_buffer v)[unat pos := cell (vga_color v) c]\<rparr>)"
  by (simp add: put_cell_def)

lemma VGA_PutChar_ok:
  assumes "screen_ok v"
  shows "\<exists>w. VGA_PutChar c v = Some w \<and> screen_ok w \<and> same_graphics v w"
proof -
  have l: "length (text_buffer v) = 2000" "unat (vga_cursor v) < 2000" using assms by (simp_all add: screen_ok_def)
  have d: "unat (vga_cursor v - 1) < 2000" if "vga_cursor v > 0"
  proof -
    have "0 < unat (vga_cursor v)" using that by (simp add: word_less_nat_alt)
    then have "unat (vga_cursor v - 1) = unat (vga_cursor v) - 1"
      using unat_sub [of 1 "vga_cursor v"] by (simp add: word_le_nat_alt)
    then show ?thesis using l(2) by simp
  qed
  have "\<exists>v1. VGA_PutChar c v = scroll v1 \<and> length (text_buffer v1) = 2000 \<and> same_graphics v v1"
    using l d by (auto simp: VGA_PutChar_def Let_def put_cell_ok same_graphics_def)
  then obtain v1 where v1: "VGA_PutChar c v = scroll v1" "length (text_buffer v1) = 2000" "same_graphics v v1" by blast
  then show ?thesis using scroll_ok [OF v1(2)] by (auto simp: same_graphics_def)
qed

lemma VGA_Print_ok:
  assumes "screen_ok v"
  shows "\<exists>w. VGA_Print str v = Some w \<and> screen_ok w \<and> same_graphics v w"
proof -
  have "\<exists>w. fold_opt VGA_PutChar str v = Some w \<and> (screen_ok w \<and> same_graphics v w)"
  proof (rule fold_opt_inv)
    fix c w
    assume "screen_ok w \<and> same_graphics v w"
    then show "\<exists>w'. VGA_PutChar c w = Some w' \<and> (screen_ok w' \<and> same_graphics v w')"
      using VGA_PutChar_ok [of w c] by (auto simp: same_graphics_def)
  qed (use assms in \<open>simp add: same_graphics_def\<close>)
  then show ?thesis by (simp add: VGA_Print_def)
qed

text \<open>Characters that are not control characters, with room for them on the screen.\<close>

definition printable :: "u8 \<Rightarrow> bool" where
  "printable c \<longleftrightarrow> c \<noteq> 0x08 \<and> c \<noteq> 0x09 \<and> c \<noteq> 0x0A"

lemma VGA_PutChar_printable:
  assumes "length (text_buffer v) = 2000" and "unat (vga_cursor v) + 1 < 2000" and "printable c"
  shows "VGA_PutChar c v = Some (v\<lparr>text_buffer := (text_buffer v)[unat (vga_cursor v) := cell (vga_color v) c],
    vga_cursor := vga_cursor v + 1\<rparr>)"
proof -
  have "unat (vga_cursor v + 1) = unat (vga_cursor v) + 1" using assms(2) unat_u16_plus_small [of "vga_cursor v" 1] by simp
  then have "\<not> vga_cursor v + 1 \<ge> 2000" using assms(2) by (simp add: word_le_nat_alt)
  then show ?thesis using assms by (simp add: VGA_PutChar_def put_cell_ok scroll_def printable_def)
qed

lemma VGA_Print_text:
  "length (text_buffer v) = 2000 \<Longrightarrow> unat (vga_cursor v) + length str < 2000 \<Longrightarrow> \<forall>c \<in> set str. printable c \<Longrightarrow>
   VGA_Print str v = Some (v\<lparr>text_buffer := take (unat (vga_cursor v)) (text_buffer v) @ map (cell (vga_color v)) str @
       drop (unat (vga_cursor v) + length str) (text_buffer v),
     vga_cursor := vga_cursor v + of_nat (length str)\<rparr>)"
proof (induction str arbitrary: v)
  case (Cons c str)
  let ?k = "unat (vga_cursor v)"
  let ?v = "v\<lparr>text_buffer := (text_buffer v)[?k := cell (vga_color v) c], vga_cursor := vga_cursor v + 1\<rparr>"
  have p: "VGA_PutChar c v = Some ?v" using Cons.prems by (intro VGA_PutChar_printable) auto
  have k: "unat (vga_cursor v + 1) = Suc ?k" using Cons.prems(2) unat_u16_plus_small [of "vga_cursor v" 1] by simp
  have "VGA_Print (c # str) v = VGA_Print str ?v" by (simp add: VGA_Print_def p)
  also have "\<dots> = Some (?v\<lparr>text_buffer := take (Suc ?k) (text_buffer ?v) @ map (cell (vga_color v)) str @
       drop (Suc ?k + length str) (text_buffer ?v), vga_cursor := vga_cursor v + 1 + of_nat (length str)\<rparr>)"
    using Cons.IH [of ?v] Cons.prems k by simp
  also have "take (Suc ?k) (text_buffer ?v) = take ?k (text_buffer v) @ [cell (vga_color v) c]"
    using Cons.prems(1,2) by (simp add: take_Suc_conv_app_nth)
  finally show ?case by (simp add: add.assoc)
qed (simp add: VGA_Print_def)

section \<open>Hexadecimal output\<close>

definition nibble :: "nat \<Rightarrow> u32 \<Rightarrow> nat" where
  "nibble k val = unat (drop_bit (4 * k) val AND 0xF)"

definition hex8 :: "u32 \<Rightarrow> u8 list" where
  "hex8 val = map (\<lambda>k. hex_digits ! nibble k val) [7, 6, 5, 4, 3, 2, 1, 0]"

lemma nibble_u8:
  fixes x :: u8
  assumes "x = ucast (drop_bit (4 * k) val AND 0xF)"
  shows "hex_digits ! unat x = hex_digits ! nibble k val"
proof -
  let ?y = "drop_bit (4 * k) val AND 0xF"
  have "unat ?y \<le> 15" using word_and_le1 [of "drop_bit (4 * k) val" "0xF"] by (simp add: word_le_nat_alt)
  then have "unat (ucast ?y :: u8) = unat ?y" by (simp add: unsigned_ucast_eq take_bit_nat_eq_self)
  then show ?thesis using assms by (simp add: nibble_def)
qed

lemma nibbles:
  fixes val :: u32
  shows "drop_bit 4 (ucast (drop_bit 8 (ucast (drop_bit 16 val) :: u16)) :: u8) = ucast (drop_bit (4 * 7) val AND 0xF)"
    "(ucast (drop_bit 8 (ucast (drop_bit 16 val) :: u16)) :: u8) AND 0xF = ucast (drop_bit (4 * 6) val AND 0xF)"
    "drop_bit 4 (ucast ((ucast (drop_bit 16 val) :: u16) AND 0xFF) :: u8) = ucast (drop_bit (4 * 5) val AND 0xF)"
    "(ucast ((ucast (drop_bit 16 val) :: u16) AND 0xFF) :: u8) AND 0xF = ucast (drop_bit (4 * 4) val AND 0xF)"
    "drop_bit 4 (ucast (drop_bit 8 (ucast (val AND 0xFFFF) :: u16)) :: u8) = ucast (drop_bit (4 * 3) val AND 0xF)"
    "(ucast (drop_bit 8 (ucast (val AND 0xFFFF) :: u16)) :: u8) AND 0xF = ucast (drop_bit (4 * 2) val AND 0xF)"
    "drop_bit 4 (ucast ((ucast (val AND 0xFFFF) :: u16) AND 0xFF) :: u8) = ucast (drop_bit (4 * 1) val AND 0xF)"
    "(ucast ((ucast (val AND 0xFFFF) :: u16) AND 0xFF) :: u8) AND 0xF = ucast (drop_bit (4 * 0) val AND 0xF)"
proof -
  have m: "(0xF :: u32) = mask 4" "(0xF :: u8) = mask 4" "(0xFFFF :: u32) = mask 16" "(0xFF :: u16) = mask 8"
    by (simp_all add: mask_eq_exp_minus_1)
  show "drop_bit 4 (ucast (drop_bit 8 (ucast (drop_bit 16 val) :: u16)) :: u8) = ucast (drop_bit (4 * 7) val AND 0xF)"
    "(ucast (drop_bit 8 (ucast (drop_bit 16 val) :: u16)) :: u8) AND 0xF = ucast (drop_bit (4 * 6) val AND 0xF)"
    "drop_bit 4 (ucast ((ucast (drop_bit 16 val) :: u16) AND 0xFF) :: u8) = ucast (drop_bit (4 * 5) val AND 0xF)"
    "(ucast ((ucast (drop_bit 16 val) :: u16) AND 0xFF) :: u8) AND 0xF = ucast (drop_bit (4 * 4) val AND 0xF)"
    "drop_bit 4 (ucast (drop_bit 8 (ucast (val AND 0xFFFF) :: u16)) :: u8) = ucast (drop_bit (4 * 3) val AND 0xF)"
    "(ucast (drop_bit 8 (ucast (val AND 0xFFFF) :: u16)) :: u8) AND 0xF = ucast (drop_bit (4 * 2) val AND 0xF)"
    "drop_bit 4 (ucast ((ucast (val AND 0xFFFF) :: u16) AND 0xFF) :: u8) = ucast (drop_bit (4 * 1) val AND 0xF)"
    "(ucast ((ucast (val AND 0xFFFF) :: u16) AND 0xFF) :: u8) AND 0xF = ucast (drop_bit (4 * 0) val AND 0xF)"
    unfolding m by (rule bit_word_eqI; auto simp: bit_simps add.commute)+
qed

lemma PrintHex32_hex8: "PrintHex32 val v = VGA_Print (hex8 val) v"
proof -
  have b: "Option.bind (Option.bind p f) g = Option.bind p (\<lambda>x. Option.bind (f x) g)" for p :: "VGA option" and f g
    by (cases p) simp_all
  show ?thesis
    unfolding PrintHex32_def PrintHex16_def PrintHex_def hex8_def VGA_Print_def nibbles [THEN nibble_u8]
    by (simp add: b fold_opt_Cons del: fold_opt.simps)
qed

section \<open>Painting\<close>

text \<open>What drawing does to the screen: the pixels in the domain of a map take its values. Successive drawings add
  their maps, the later one on top.\<close>

definition painted :: "(nat \<rightharpoonup> u8) \<Rightarrow> VGA \<Rightarrow> VGA" where
  "painted p v = v\<lparr>framebuffer := (\<lambda>i. case p i of Some c \<Rightarrow> c | None \<Rightarrow> framebuffer v i)\<rparr>"

definition block :: "nat \<Rightarrow> nat \<Rightarrow> nat \<Rightarrow> nat \<Rightarrow> (nat \<Rightarrow> nat \<Rightarrow> u8) \<Rightarrow> nat \<rightharpoonup> u8" where
  "block x y w h f i =
     (if x \<le> i mod 320 \<and> i mod 320 < x + w \<and> y \<le> i div 320 \<and> i div 320 < y + h
      then Some (f (i div 320 - y) (i mod 320 - x)) else None)"

lemma painted_empty [simp]: "painted Map.empty v = v"
  by (simp add: painted_def)

lemma painted_painted [simp]: "painted q (painted p v) = painted (p ++ q) v"
  by (auto simp: painted_def map_add_def fun_eq_iff split: option.split)

lemma painted_framebuffer: "framebuffer (painted p v) i = (case p i of Some c \<Rightarrow> c | None \<Rightarrow> framebuffer v i)"
  by (simp add: painted_def)

lemma painted_text [simp]:
  "text_buffer (painted p v) = text_buffer v" "vga_cursor (painted p v) = vga_cursor v"
  "graphics_mode (painted p v) = graphics_mode v" "vga_color (painted p v) = vga_color v"
  by (simp_all add: painted_def)

lemma DrawPixel_painted:
  "unat y * 320 + unat x < 65536 \<Longrightarrow> DrawPixel x y col v = Some (painted [unat y * 320 + unat x \<mapsto> col] v)"
  by (simp add: DrawPixel_def painted_def fun_upd_def if_distrib cong: if_cong)

lemma block_empty: "block x y 0 h f = Map.empty" "block x y w 0 f = Map.empty"
  by (auto simp: block_def fun_eq_iff)

lemma block_add_column: "x + n < 320 \<Longrightarrow> block x y n 1 f ++ [y * 320 + (x + n) \<mapsto> f 0 n] = block x y (Suc n) 1 f"
proof (rule ext)
  fix i
  assume x: "x + n < 320"
  show "(block x y n 1 f ++ [y * 320 + (x + n) \<mapsto> f 0 n]) i = block x y (Suc n) 1 f i"
  proof (cases "i = y * 320 + (x + n)")
    case True
    then have "i div 320 = y" "i mod 320 = x + n" using x by simp_all
    then show ?thesis using True by (simp add: block_def)
  next
    case False
    have "\<not> (i div 320 = y \<and> i mod 320 = x + n)" using False div_mult_mod_eq [of i 320] by metis
    then show ?thesis using False by (auto simp: block_def map_add_def)
  qed
qed

lemma block_add_row: "block x y w n f ++ block x (y + n) w 1 (\<lambda>_. f n) = block x y w (Suc n) f"
  by (rule ext) (auto simp: block_def map_add_def less_Suc_eq)

lemma block_cong: "(\<And>r k. r < h \<Longrightarrow> k < w \<Longrightarrow> f r k = g r k) \<Longrightarrow> block x y w h f = block x y w h g"
  by (rule ext) (simp add: block_def less_diff_conv2)

lemma row_painted:
  assumes "\<And>k. k < n \<Longrightarrow> unat (xs k) = x + k" and "x + n \<le> 320" and "unat y < 204"
  shows "fold_opt (\<lambda>k. DrawPixel (xs k) y (g k)) [0..<n] v = Some (painted (block x (unat y) n 1 (\<lambda>_. g)) v)"
  using assms
proof (induction n)
  case (Suc n)
  have i: "unat y * 320 + unat (xs n) < 65536" using Suc.prems by simp
  have "fold_opt (\<lambda>k. DrawPixel (xs k) y (g k)) [0..<n] v = Some (painted (block x (unat y) n 1 (\<lambda>_. g)) v)"
    using Suc by simp
  then show ?case
    using DrawPixel_painted [OF i] Suc.prems(1) [of n] Suc.prems(2) block_add_column [of x n "unat y" "\<lambda>_. g"]
    by (simp add: fold_opt_append)
qed (simp add: block_empty)

lemma block_painted:
  assumes "\<And>r k v. r < h \<Longrightarrow> row r v = Some (painted (block x (y + r) w 1 (\<lambda>_. f r)) v)"
  shows "fold_opt row [0..<h] v = Some (painted (block x y w h f) v)"
  using assms
proof (induction h)
  case (Suc h)
  then show ?case by (simp add: fold_opt_append block_add_row [simplified])
qed (simp add: block_empty)

lemma fold_opt_shift: "fold_opt f (map g [m..<m + n]) v = fold_opt (\<lambda>k. f (g (m + k))) [0..<n] v"
proof (induction n)
  case (Suc n)
  then show ?case by (simp add: fold_opt_append fold_opt_Cons)
qed simp

lemma unat_u16_of_nat: "n < 65536 \<Longrightarrow> unat (of_nat n :: u16) = n"
  by (simp add: unat_of_nat)

lemma DrawRect_painted:
  assumes x: "unat x + unat w \<le> 320" and y: "unat y + unat h \<le> 204"
  shows "DrawRect x y w h col v = Some (painted (block (unat x) (unat y) (unat w) (unat h) (\<lambda>_ _. col)) v)"
proof -
  have r: "u16_range x w = Some (map of_nat [unat x..<unat x + unat w])" "u16_range y h = Some (map of_nat [unat y..<unat y + unat h])"
    using x y by (simp_all add: u16_range_def)
  have row: "fold_opt (\<lambda>k. DrawPixel (of_nat (unat x + k)) (of_nat (unat y + j)) col) [0..<unat w] v =
      Some (painted (block (unat x) (unat y + j) (unat w) 1 (\<lambda>_ _. col)) v)" if "j < unat h" for j v
  proof -
    have u: "unat (of_nat (unat y + j) :: u16) = unat y + j" using that y by (intro unat_u16_of_nat) simp
    have "fold_opt (\<lambda>k. DrawPixel (of_nat (unat x + k)) (of_nat (unat y + j)) col) [0..<unat w] v =
        Some (painted (block (unat x) (unat (of_nat (unat y + j) :: u16)) (unat w) 1 (\<lambda>_ _. col)) v)"
      by (rule row_painted) (use x y that u in \<open>simp_all add: unat_u16_of_nat del: of_nat_add\<close>)
    then show ?thesis by (simp only: u)
  qed
  show ?thesis
    unfolding DrawRect_def r Option.bind.bind_lunit fold_opt_shift
    by (rule block_painted) (use row in simp)
qed

text \<open>A pixel of a character.\<close>

definition glyph :: "u8 \<Rightarrow> nat \<Rightarrow> nat \<Rightarrow> bool" where
  "glyph c row k = bit (font ! unat (if c \<ge> 128 then 0 else c) ! row) (7 - k)"

lemma column_bit: "k < 8 \<Longrightarrow> (b AND drop_bit k 0x80 \<noteq> 0) = bit (b :: u8) (7 - k)"
proof -
  assume "k < 8"
  then consider "k = 0" | "k = 1" | "k = 2" | "k = 3" | "k = 4" | "k = 5" | "k = 6" | "k = 7" by linarith
  then have "drop_bit k (0x80 :: u8) = 2 ^ (7 - k)" by cases simp_all
  then show ?thesis by (simp only: and_exp_eq_0_iff_not_bit) simp
qed

lemma DrawChar_painted:
  assumes x: "unat x + 8 \<le> 320" and y: "unat y + 8 \<le> 204"
  shows "DrawChar x y c fg bg v = Some (painted (block (unat x) (unat y) 8 8 (\<lambda>r k. if glyph c r k then fg else bg)) v)"
proof -
  have u: "unat (x + of_nat k) = unat x + k" "unat (y + of_nat k) = unat y + k" if "k < 8" for k
    using that x y unat_u16_plus_small [of x "of_nat k"] unat_u16_plus_small [of y "of_nat k"] by (simp_all add: unat_u16_of_nat)
  show ?thesis unfolding DrawChar_def Let_def
  proof (rule block_painted)
    fix r v
    assume r: "r < (8 :: nat)"
    let ?b = "font ! unat (if c \<ge> 128 then 0 else c) ! r"
    have "fold_opt (\<lambda>k. DrawPixel (x + of_nat k) (y + of_nat r) (if ?b AND drop_bit k 0x80 \<noteq> 0 then fg else bg)) [0..<8] v =
        Some (painted (block (unat x) (unat (y + of_nat r)) 8 1 (\<lambda>_ k. if ?b AND drop_bit k 0x80 \<noteq> 0 then fg else bg)) v)"
      by (rule row_painted) (use u x y r in auto)
    also have "block (unat x) (unat (y + of_nat r)) 8 1 (\<lambda>_ k. if ?b AND drop_bit k 0x80 \<noteq> 0 then fg else bg) =
        block (unat x) (unat y + r) 8 1 (\<lambda>_ k. if glyph c r k then fg else bg)"
      unfolding u(2) [OF r] by (rule block_cong) (simp add: glyph_def column_bit)
    finally show "fold_opt (\<lambda>k. DrawPixel (x + of_nat k) (y + of_nat r) (if ?b AND drop_bit k 0x80 \<noteq> 0 then fg else bg)) [0..<8] v =
        Some (painted (block (unat x) (unat y + r) 8 1 (\<lambda>_ k. if glyph c r k then fg else bg)) v)" .
  qed
qed

section \<open>Text output is safe\<close>

text \<open>C26: Text output never leaves the text buffer. On a screen whose cursor is inside its 80 by 25 cells, printing any
  string and then any number in hexadecimal succeeds, with every kind of control character and any amount of
  scrolling; the number comes out as its eight digits, the cursor is inside the screen again, and the colour, the
  graphics screen and the ports are as before.\<close>

theorem text_output_stays_on_screen:
  assumes "screen_ok v"
  shows "\<exists>w w'. VGA_Print str v = Some w \<and> PrintHex32 val w = Some w' \<and> VGA_Print (hex8 val) w = Some w' \<and>
    screen_ok w \<and> screen_ok w' \<and> same_graphics v w'"
proof -
  obtain w where w: "VGA_Print str v = Some w" "screen_ok w" "same_graphics v w" using VGA_Print_ok [OF assms] by blast
  obtain w' where "VGA_Print (hex8 val) w = Some w'" "screen_ok w'" "same_graphics w w'" using VGA_Print_ok [OF w(2)] by blast
  then show ?thesis using w by (auto simp: PrintHex32_hex8 same_graphics_def)
qed

definition full_screen :: VGA where
  "full_screen = \<lparr>text_buffer = replicate 2000 0x0741, vga_cursor = 1999, vga_color = 7, graphics_mode = False,
     framebuffer = (\<lambda>_. 0), port_log = []\<rparr>"

theorem text_output_stays_on_screen_witness:
  "screen_ok full_screen \<and>
   (\<exists>w w'. VGA_Print [0x41, 0x0A, 0x08] full_screen = Some w \<and> PrintHex32 0xBEEF w = Some w' \<and> VGA_Print (hex8 0xBEEF) w = Some w' \<and>
    screen_ok w \<and> screen_ok w' \<and> same_graphics full_screen w')"
proof -
  have "screen_ok full_screen" by (simp add: screen_ok_def full_screen_def)
  then show ?thesis using text_output_stays_on_screen [of full_screen "[0x41, 0x0A, 0x08]" "0xBEEF"] by blast
qed

end
