(* ===== verification/Buses.thy ===== *)
theory Buses
  imports Display
begin

text \<open>
  Finding the devices: the driver list of \<^verbatim>\<open>src/src/drivers/driver.h\<close> and \<^verbatim>\<open>driver.cpp\<close>, and the scan of the PCI bus in
  \<^verbatim>\<open>src/src/drivers/pci.h\<close> and \<^verbatim>\<open>pci.cpp\<close>. The configuration space behind the two ports is hardware: a state
  \<open>'s\<close> with a read \<open>rd\<close> and a write \<open>wr\<close> of a 32-bit register by its address.
\<close>

section \<open>Drivers\<close>

definition MAX_DRIVERS :: nat where
  "MAX_DRIVERS = 256"

text \<open>The manager is the list of the drivers added so far.\<close>

definition DriverManager_new :: "'d list" where
  "DriverManager_new = []"

definition AddDriver :: "'d \<Rightarrow> 'd list \<Rightarrow> 'd list" where
  "AddDriver drv ds = (if length ds < MAX_DRIVERS then ds @ [drv] else ds)"

text \<open>Activation and deactivation are virtual calls, whose effect on the machine is a parameter.\<close>

definition ActivateAll :: "('d \<Rightarrow> 'm \<Rightarrow> 'm) \<Rightarrow> 'd list \<Rightarrow> 'm \<Rightarrow> 'm" where
  "ActivateAll activate ds m = fold activate ds m"

definition DeactivateAll :: "('d \<Rightarrow> 'm \<Rightarrow> 'm) \<Rightarrow> 'd list \<Rightarrow> 'm \<Rightarrow> 'm" where
  "DeactivateAll deactivate ds m = fold deactivate ds m"

definition DriverManager_Get :: "int \<Rightarrow> 'd list \<Rightarrow> 'd option" where
  "DriverManager_Get index ds = (if index < 0 \<or> index \<ge> int (length ds) then None else Some (ds ! nat index))"

definition DriverManager_Count :: "'d list \<Rightarrow> int" where
  "DriverManager_Count ds = int (length ds)"

section \<open>The configuration space\<close>

definition pci_address :: "u16 \<Rightarrow> u16 \<Rightarrow> u16 \<Rightarrow> u32 \<Rightarrow> u32" where
  "pci_address bus device func offset =
     push_bit 31 1 OR push_bit 16 (ucast bus) OR push_bit 11 (ucast device) OR push_bit 8 (ucast func) OR (offset AND 0xFC)"

definition PCI_Read :: "(u32 \<Rightarrow> 's \<Rightarrow> u32) \<Rightarrow> u16 \<Rightarrow> u16 \<Rightarrow> u16 \<Rightarrow> u32 \<Rightarrow> 's \<Rightarrow> u32" where
  "PCI_Read rd bus device func offset s =
     drop_bit (unat (8 * (offset mod 4))) (rd (pci_address bus device func offset) s)"

definition PCI_Write :: "(u32 \<Rightarrow> u32 \<Rightarrow> 's \<Rightarrow> 's) \<Rightarrow> u16 \<Rightarrow> u16 \<Rightarrow> u16 \<Rightarrow> u32 \<Rightarrow> u32 \<Rightarrow> 's \<Rightarrow> 's" where
  "PCI_Write wr bus device func offset val s = wr (pci_address bus device func offset) val s"

definition DeviceHasFunctions :: "(u32 \<Rightarrow> 's \<Rightarrow> u32) \<Rightarrow> u16 \<Rightarrow> u16 \<Rightarrow> 's \<Rightarrow> bool" where
  "DeviceHasFunctions rd bus device s \<longleftrightarrow> PCI_Read rd bus device 0 0x0E s AND push_bit 7 1 \<noteq> 0"

section \<open>Device descriptors\<close>

record PCIDeviceDescriptor =
  port_base :: "u32 list"
  mem_base :: "u32 list"
  port_base_is_io :: "bool list"
  bar_size :: "u32 list"
  pci_bus :: u16
  pci_device :: u16
  pci_function :: u16
  vendor_id :: u16
  device_id :: u16
  class_id :: u8
  subclass_id :: u8
  interface_id :: u8
  revision :: u8
  interrupt :: u8

definition descriptor_head :: "(u32 \<Rightarrow> 's \<Rightarrow> u32) \<Rightarrow> u16 \<Rightarrow> u16 \<Rightarrow> u16 \<Rightarrow> 's \<Rightarrow> PCIDeviceDescriptor" where
  "descriptor_head rd bus device func s =
     \<lparr>port_base = replicate 6 0, mem_base = replicate 6 0, port_base_is_io = replicate 6 False, bar_size = replicate 6 0,
      pci_bus = bus, pci_device = device, pci_function = func,
      vendor_id = ucast (PCI_Read rd bus device func 0x00 s), device_id = ucast (PCI_Read rd bus device func 0x02 s),
      class_id = ucast (PCI_Read rd bus device func 0x0B s), subclass_id = ucast (PCI_Read rd bus device func 0x0A s),
      interface_id = ucast (PCI_Read rd bus device func 0x09 s), revision = ucast (PCI_Read rd bus device func 0x08 s),
      interrupt = ucast (PCI_Read rd bus device func 0x3C s)\<rparr>"

text \<open>One base address register: its kind and base, and its size by writing ones and reading back; then it is written back.\<close>

definition probe_bar ::
  "(u32 \<Rightarrow> 's \<Rightarrow> u32) \<Rightarrow> (u32 \<Rightarrow> u32 \<Rightarrow> 's \<Rightarrow> 's) \<Rightarrow> u16 \<Rightarrow> u16 \<Rightarrow> u16 \<Rightarrow> nat \<Rightarrow> PCIDeviceDescriptor \<times> 's \<Rightarrow> PCIDeviceDescriptor \<times> 's" where
  "probe_bar rd wr bus device func i ds =
     (let (d, s) = ds; offset = 0x10 + of_nat i * 4; bar = PCI_Read rd bus device func offset s
      in if bar = 0 then (d, s)
         else let s1 = PCI_Write wr bus device func offset 0xFFFFFFFF s;
                  sized = PCI_Read rd bus device func offset s1;
                  s2 = PCI_Write wr bus device func offset bar s1
              in if bar AND 0x1 \<noteq> 0
                 then (d\<lparr>port_base_is_io := (port_base_is_io d)[i := True], port_base := (port_base d)[i := bar AND 0xFFFFFFFC],
                         bar_size := (bar_size d)[i := NOT (sized AND 0xFFFFFFFC) + 1]\<rparr>, s2)
                 else (d\<lparr>port_base_is_io := (port_base_is_io d)[i := False], mem_base := (mem_base d)[i := bar AND 0xFFFFFFF0],
                         bar_size := (bar_size d)[i := NOT (sized AND 0xFFFFFFF0) + 1]\<rparr>, s2))"

definition GetDeviceDescriptor ::
  "(u32 \<Rightarrow> 's \<Rightarrow> u32) \<Rightarrow> (u32 \<Rightarrow> u32 \<Rightarrow> 's \<Rightarrow> 's) \<Rightarrow> u16 \<Rightarrow> u16 \<Rightarrow> u16 \<Rightarrow> 's \<Rightarrow> PCIDeviceDescriptor \<times> 's" where
  "GetDeviceDescriptor rd wr bus device func s =
     fold (probe_bar rd wr bus device func) [0..<6] (descriptor_head rd bus device func s, s)"

section \<open>Selecting drivers\<close>

datatype driver = ATADriver PCIDeviceDescriptor | RTL8139Driver PCIDeviceDescriptor

definition GetDriver :: "PCIDeviceDescriptor \<Rightarrow> driver option" where
  "GetDriver desc =
     (if class_id desc = 0x01 \<and> subclass_id desc = 0x01 then Some (ATADriver desc)
      else if class_id desc = 0x02 \<and> subclass_id desc = 0x00 \<and> vendor_id desc = 0x10EC \<and> device_id desc = 0x8139
      then Some (RTL8139Driver desc)
      else None)"

text \<open>\<^verbatim>\<open>TypeID\<close> of the driver classes, by which the kernel finds them again.\<close>

definition TypeID :: "driver \<Rightarrow> u32" where
  "TypeID d = (case d of ATADriver _ \<Rightarrow> 0x0101 | RTL8139Driver _ \<Rightarrow> 0x8139)"

definition print_device :: "PCIDeviceDescriptor \<Rightarrow> VGA \<Rightarrow> VGA option" where
  "print_device desc v = do {
     v \<leftarrow> VGA_Print (ascii ''PCI 0x'') v;
     v \<leftarrow> PrintHex (class_id desc) v;
     v \<leftarrow> PrintHex (subclass_id desc) v;
     v \<leftarrow> VGA_PutChar 0x2F v;
     v \<leftarrow> PrintHex (ucast (drop_bit 8 (vendor_id desc))) v;
     v \<leftarrow> PrintHex (ucast (vendor_id desc AND 0xFF)) v;
     v \<leftarrow> VGA_PutChar 0x3A v;
     v \<leftarrow> PrintHex (ucast (drop_bit 8 (device_id desc))) v;
     v \<leftarrow> PrintHex (ucast (device_id desc AND 0xFF)) v;
     VGA_PutChar 0x0A v
   }"

definition scan_function ::
  "(u32 \<Rightarrow> 's \<Rightarrow> u32) \<Rightarrow> (u32 \<Rightarrow> u32 \<Rightarrow> 's \<Rightarrow> 's) \<Rightarrow> u16 \<Rightarrow> u16 \<Rightarrow> nat \<Rightarrow> driver list \<times> 's \<times> VGA \<Rightarrow> (driver list \<times> 's \<times> VGA) option" where
  "scan_function rd wr bus device func st = do {
     let (ds, s, v) = st;
     let (desc, s) = GetDeviceDescriptor rd wr bus device (of_nat func) s;
     if vendor_id desc = 0xFFFF then Some (ds, s, v)
     else do {
       v \<leftarrow> print_device desc v;
       Some (case GetDriver desc of None \<Rightarrow> ds | Some drv \<Rightarrow> AddDriver drv ds, s, v)
     }
   }"

definition SelectDrivers ::
  "(u32 \<Rightarrow> 's \<Rightarrow> u32) \<Rightarrow> (u32 \<Rightarrow> u32 \<Rightarrow> 's \<Rightarrow> 's) \<Rightarrow> driver list \<times> 's \<times> VGA \<Rightarrow> (driver list \<times> 's \<times> VGA) option" where
  "SelectDrivers rd wr st =
     fold_opt (\<lambda>bus. fold_opt (\<lambda>device st.
         fold_opt (scan_function rd wr (of_nat bus) (of_nat device))
           [0..<(if DeviceHasFunctions rd (of_nat bus) (of_nat device) (fst (snd st)) then 8 else 1)] st) [0..<32]) [0..<8] st"

section \<open>The scan finds the drivers\<close>

lemma fold_opt_acc:
  assumes "\<And>x acc s. x \<in> set xs \<Longrightarrow> R acc s \<Longrightarrow> \<exists>s'. g x s = Some s' \<and> R (acc @ f x) s'" and "R acc s"
  shows "\<exists>s'. fold_opt g xs s = Some s' \<and> R (acc @ concat (map f xs)) s'"
  using assms
proof (induction xs arbitrary: acc s)
  case (Cons x xs)
  obtain s1 where s1: "g x s = Some s1" "R (acc @ f x) s1" using Cons.prems(1) [of x acc s] Cons.prems(2) by auto
  then show ?case using Cons.IH [of "acc @ f x" s1] Cons.prems(1) by simp
qed simp

text \<open>What the scan relies on of the hardware: a base address register that is overwritten and then written back with
  its old value reads as before, and so does every other register.\<close>

definition bars_restore :: "(u32 \<Rightarrow> 's \<Rightarrow> u32) \<Rightarrow> (u32 \<Rightarrow> u32 \<Rightarrow> 's \<Rightarrow> 's) \<Rightarrow> bool" where
  "bars_restore rd wr \<longleftrightarrow> (\<forall>bus device func i s x a. i < 6 \<longrightarrow>
     (let r = pci_address bus device func (0x10 + of_nat i * 4) in rd a (wr r (rd r s) (wr r x s)) = rd a s))"

text \<open>The drivers a bus should give, by type and place.\<close>

definition driver_id :: "driver \<Rightarrow> u32 \<times> u16 \<times> u16 \<times> u16" where
  "driver_id drv = (TypeID drv, case drv of ATADriver d \<Rightarrow> (pci_bus d, pci_device d, pci_function d)
     | RTL8139Driver d \<Rightarrow> (pci_bus d, pci_device d, pci_function d))"

definition function_driver :: "(u32 \<Rightarrow> 's \<Rightarrow> u32) \<Rightarrow> 's \<Rightarrow> u16 \<Rightarrow> u16 \<Rightarrow> u16 \<Rightarrow> (u32 \<times> u16 \<times> u16 \<times> u16) list" where
  "function_driver rd s bus device func =
     (let d = descriptor_head rd bus device func s
      in if vendor_id d = 0xFFFF then []
         else if class_id d = 0x01 \<and> subclass_id d = 0x01 then [(0x0101, bus, device, func)]
         else if class_id d = 0x02 \<and> subclass_id d = 0x00 \<and> vendor_id d = 0x10EC \<and> device_id d = 0x8139 then [(0x8139, bus, device, func)]
         else [])"

definition device_drivers :: "(u32 \<Rightarrow> 's \<Rightarrow> u32) \<Rightarrow> 's \<Rightarrow> u16 \<Rightarrow> u16 \<Rightarrow> (u32 \<times> u16 \<times> u16 \<times> u16) list" where
  "device_drivers rd s bus device =
     concat (map (\<lambda>func. function_driver rd s bus device (of_nat func)) [0..<(if DeviceHasFunctions rd bus device s then 8 else 1)])"

definition bus_drivers :: "(u32 \<Rightarrow> 's \<Rightarrow> u32) \<Rightarrow> 's \<Rightarrow> (u32 \<times> u16 \<times> u16 \<times> u16) list" where
  "bus_drivers rd s = concat (map (\<lambda>bus. concat (map (\<lambda>device. device_drivers rd s (of_nat bus) (of_nat device)) [0..<32])) [0..<8])"

lemma bar_offset: "i < 6 \<Longrightarrow> (0x10 + of_nat i * 4 :: u32) mod 4 = 0"
proof -
  assume "i < 6"
  then consider "i = 0" | "i = 1" | "i = 2" | "i = 3" | "i = 4" | "i = 5" by linarith
  then show ?thesis by cases simp_all
qed

definition same_head :: "PCIDeviceDescriptor \<Rightarrow> PCIDeviceDescriptor \<Rightarrow> bool" where
  "same_head d e \<longleftrightarrow> pci_bus e = pci_bus d \<and> pci_device e = pci_device d \<and> pci_function e = pci_function d \<and>
     vendor_id e = vendor_id d \<and> device_id e = device_id d \<and> class_id e = class_id d \<and> subclass_id e = subclass_id d"

lemma probe_bar_keeps:
  assumes "bars_restore rd wr" and "i < 6"
  shows "same_head d (fst (probe_bar rd wr bus device func i (d, s))) \<and>
    (\<forall>a. rd a (snd (probe_bar rd wr bus device func i (d, s))) = rd a s)"
proof -
  let ?r = "pci_address bus device func (0x10 + of_nat i * 4)"
  have "rd a (wr ?r (rd ?r s) (wr ?r 0xFFFFFFFF s)) = rd a s" for a using assms unfolding bars_restore_def Let_def by blast
  then show ?thesis
    using bar_offset [OF assms(2)] by (simp add: probe_bar_def PCI_Read_def PCI_Write_def Let_def same_head_def)
qed

lemma GetDeviceDescriptor_keeps:
  assumes "bars_restore rd wr"
  shows "same_head (descriptor_head rd bus device func s) (fst (GetDeviceDescriptor rd wr bus device func s)) \<and>
    (\<forall>a. rd a (snd (GetDeviceDescriptor rd wr bus device func s)) = rd a s)"
proof -
  have "same_head d0 (fst (fold (probe_bar rd wr bus device func) js ds)) \<and> (\<forall>a. rd a (snd (fold (probe_bar rd wr bus device func) js ds)) = rd a s)"
    if "\<forall>i \<in> set js. i < 6" "same_head d0 (fst ds)" "\<forall>a. rd a (snd ds) = rd a s" for js ds d0
    using that
  proof (induction js arbitrary: ds)
    case (Cons i js)
    obtain d t where ds: "ds = (d, t)" by fastforce
    have "same_head d (fst (probe_bar rd wr bus device func i ds)) \<and> (\<forall>a. rd a (snd (probe_bar rd wr bus device func i ds)) = rd a t)"
      unfolding ds using probe_bar_keeps [OF assms] Cons.prems(1) by simp
    then show ?case using Cons.IH [of "probe_bar rd wr bus device func i ds"] Cons.prems ds by (simp add: same_head_def)
  qed simp
  from this [of "[0..<6]" "descriptor_head rd bus device func s" "(descriptor_head rd bus device func s, s)"] show ?thesis
    by (simp add: GetDeviceDescriptor_def same_head_def)
qed

lemma descriptor_head_cong: "\<forall>a. rd a t = rd a s \<Longrightarrow> descriptor_head rd bus device func t = descriptor_head rd bus device func s"
  by (simp add: descriptor_head_def PCI_Read_def)

lemma print_ok_bind:
  assumes "\<And>v. screen_ok v \<Longrightarrow> \<exists>w. f v = Some w \<and> screen_ok w" and "\<And>v. screen_ok v \<Longrightarrow> \<exists>w. g v = Some w \<and> screen_ok w" and "screen_ok v"
  shows "\<exists>w. Option.bind (f v) g = Some w \<and> screen_ok w"
  using assms(1) [OF assms(3)] assms(2) by force

lemma PrintHex_ok: "screen_ok v \<Longrightarrow> \<exists>w. PrintHex x v = Some w \<and> screen_ok w"
  unfolding PrintHex_def by (rule print_ok_bind) (use VGA_PutChar_ok in blast)+

lemma print_device_ok: "screen_ok v \<Longrightarrow> \<exists>w. print_device d v = Some w \<and> screen_ok w"
  unfolding print_device_def
  by (intro print_ok_bind) (use VGA_PutChar_ok VGA_Print_ok PrintHex_ok in blast)+

text \<open>The state of the scan after the functions whose drivers are \<open>acc\<close>.\<close>

definition scanned :: "(u32 \<Rightarrow> 's \<Rightarrow> u32) \<Rightarrow> 's \<Rightarrow> (u32 \<times> u16 \<times> u16 \<times> u16) list \<Rightarrow> driver list \<times> 's \<times> VGA \<Rightarrow> bool" where
  "scanned rd s acc st \<longleftrightarrow> map driver_id (fst st) = take 256 acc \<and> (\<forall>a. rd a (fst (snd st)) = rd a s) \<and> screen_ok (snd (snd st))"

lemma AddDriver_ids: "map driver_id ds = take 256 acc \<Longrightarrow> map driver_id (AddDriver drv ds) = take 256 (acc @ [driver_id drv])"
proof -
  assume a: "map driver_id ds = take 256 acc"
  then have "length ds = min (length acc) 256" by (metis length_map length_take min.commute)
  then show ?thesis using a by (auto simp: AddDriver_def MAX_DRIVERS_def)
qed

lemma scan_function_ok:
  assumes b: "bars_restore rd wr" and i: "scanned rd s acc st"
  shows "\<exists>st'. scan_function rd wr bus device func st = Some st' \<and> scanned rd s (acc @ function_driver rd s bus device (of_nat func)) st'"
proof -
  obtain ds t v where st: "st = (ds, t, v)" by (metis prod.exhaust)
  have x: "map driver_id ds = take 256 acc" "\<forall>a. rd a t = rd a s" "screen_ok v" using i by (simp_all add: scanned_def st)
  let ?f = "of_nat func :: u16"
  obtain desc t' where g: "GetDeviceDescriptor rd wr bus device ?f t = (desc, t')" by fastforce
  let ?h = "descriptor_head rd bus device ?f s"
  have h: "same_head ?h desc" "\<forall>a. rd a t' = rd a s"
    using GetDeviceDescriptor_keeps [OF b, of bus device ?f t] x(2) descriptor_head_cong [OF x(2)] by (simp_all add: g)
  have p: "pci_bus desc = bus" "pci_device desc = device" "pci_function desc = ?f" using h(1) by (simp_all add: same_head_def descriptor_head_def)
  show ?thesis
  proof (cases "vendor_id desc = 0xFFFF")
    case True
    then have "function_driver rd s bus device ?f = []" using h(1) by (simp add: function_driver_def Let_def same_head_def)
    then show ?thesis using True x h(2) by (simp add: scan_function_def st g scanned_def)
  next
    case False
    obtain w where w: "print_device desc v = Some w" "screen_ok w" using print_device_ok [OF x(3)] by blast
    have "function_driver rd s bus device ?f = (case GetDriver desc of None \<Rightarrow> [] | Some drv \<Rightarrow> [driver_id drv])"
      using False h(1) p by (auto simp: function_driver_def Let_def same_head_def GetDriver_def driver_id_def TypeID_def)
    then show ?thesis
      using False x h(2) w AddDriver_ids [OF x(1)] by (auto simp: scan_function_def st g scanned_def split: option.split)
  qed
qed

lemma DeviceHasFunctions_cong: "\<forall>a. rd a t = rd a s \<Longrightarrow> DeviceHasFunctions rd bus device t = DeviceHasFunctions rd bus device s"
  by (simp add: DeviceHasFunctions_def PCI_Read_def)

text \<open>C25: the bus scan finds exactly the supported devices. If a base address register can be restored by writing back what
  was read, the scan of the eight buses succeeds and leaves every configuration register
  as it was; and the drivers it creates are those of the disk controllers and network cards that are present, in the order of bus,
  device and function, up to the 256 that the manager can hold. The functions 1 to 7 of a device are looked at only if it says that it has several.\<close>

theorem SelectDrivers_finds:
  assumes "bars_restore rd wr" and "screen_ok v"
  shows "\<exists>ds s' w. SelectDrivers rd wr ([], s, v) = Some (ds, s', w) \<and> map driver_id ds = take 256 (bus_drivers rd s) \<and>
    (\<forall>a. rd a s' = rd a s) \<and> screen_ok w"
proof -
  have dev: "\<exists>st'. fold_opt (scan_function rd wr bus device)
      [0..<(if DeviceHasFunctions rd bus device (fst (snd st)) then 8 else 1)] st = Some st' \<and>
      scanned rd s (acc @ device_drivers rd s bus device) st'" if st: "scanned rd s acc st" for acc st bus device
  proof -
    have "DeviceHasFunctions rd bus device (fst (snd st)) = DeviceHasFunctions rd bus device s"
      using st by (intro DeviceHasFunctions_cong) (simp add: scanned_def)
    then show ?thesis unfolding device_drivers_def
      using fold_opt_acc [of _ "scanned rd s" "scan_function rd wr bus device" "\<lambda>func. function_driver rd s bus device (of_nat func)", OF scan_function_ok [OF assms(1)] st]
      by simp
  qed
  have "\<exists>st'. SelectDrivers rd wr ([], s, v) = Some st' \<and> scanned rd s ([] @ bus_drivers rd s) st'"
    unfolding SelectDrivers_def bus_drivers_def
  proof (rule fold_opt_acc)
    fix bus :: nat and acc st
    assume "scanned rd s acc st"
    then show "\<exists>st'. fold_opt (\<lambda>device st. fold_opt (scan_function rd wr (of_nat bus) (of_nat device))
          [0..<(if DeviceHasFunctions rd (of_nat bus) (of_nat device) (fst (snd st)) then 8 else 1)] st) [0..<32] st = Some st' \<and>
        scanned rd s (acc @ concat (map (\<lambda>device. device_drivers rd s (of_nat bus) (of_nat device)) [0..<32])) st'"
      by (intro fold_opt_acc dev)
  next
    show "scanned rd s [] ([], s, v)" using assms(2) by (simp add: scanned_def)
  qed
  then show ?thesis by (auto simp: scanned_def)
qed

text \<open>A machine with one disk controller, as function 1 of device 1: its registers as a function, which keep what is written.\<close>

definition demo_config :: "u32 \<Rightarrow> u32" where
  "demo_config a = (if a = 0x80000800 then 0x70008086 else if a = 0x8000080C then 0x00800000
     else if a = 0x80000900 then 0x70108086 else if a = 0x80000908 then 0x01018000 else if a = 0x80000920 then 0x0000C001
     else if a AND 0xFF = 0 then 0xFFFFFFFF else 0)"

definition demo_text :: VGA where
  "demo_text = \<lparr>text_buffer = replicate 2000 0, vga_cursor = 0, vga_color = 0x0F, graphics_mode = False,
     framebuffer = (\<lambda>i. 0), port_log = []\<rparr>"

theorem SelectDrivers_finds_witness:
  "(\<exists>ds s' w. SelectDrivers (\<lambda>a s. s a) (\<lambda>a x s. s(a := x)) ([], demo_config, demo_text) = Some (ds, s', w) \<and>
     map driver_id ds = take 256 (bus_drivers (\<lambda>a s. s a) demo_config) \<and> screen_ok w) \<and>
   function_driver (\<lambda>a s. s a) demo_config 0 1 1 = [(0x0101, 0, 1, 1)]"
proof
  have b: "bars_restore (\<lambda>a (s :: u32 \<Rightarrow> u32). s a) (\<lambda>a x s. s(a := x))" by (simp add: bars_restore_def Let_def)
  have "screen_ok demo_text" by (simp add: screen_ok_def demo_text_def)
  from SelectDrivers_finds [OF b this, of demo_config]
  show "\<exists>ds s' w. SelectDrivers (\<lambda>a s. s a) (\<lambda>a x s. s(a := x)) ([], demo_config, demo_text) = Some (ds, s', w) \<and>
     map driver_id ds = take 256 (bus_drivers (\<lambda>a s. s a) demo_config) \<and> screen_ok w" by blast
  show "function_driver (\<lambda>a s. s a) demo_config 0 1 1 = [(0x0101, 0, 1, 1)]"
    by (simp add: function_driver_def descriptor_head_def PCI_Read_def pci_address_def demo_config_def Let_def)
qed

end
