(* ===== verification/Kernel_Heap.thy ===== *)
theory Kernel_Heap
  imports Prelude
begin

text \<open>
  The kernel heap, \<^verbatim>\<open>src/src/memory/memorymanagement.h\<close> and
  \<^verbatim>\<open>memorymanagement.cpp\<close>, with the global operators of \<^verbatim>\<open>allocator.cpp\<close>.

  The chunk headers live in the byte memory, as packed structs of 13 bytes: \<open>prev\<close> at
  offset 0, \<open>next\<close> at 4, \<open>allocated\<close> at 8 and \<open>size\<close> at 9. \<open>malloc\<close> walks the list
  until it meets a null pointer, so it is a partial function: \<open>None\<close> is a walk that never
  ends. The lemmas give a specification on a list of blocks (\<open>first_fit\<close>, \<open>release\<close>), show
  that a list of headers in memory that represents such a block list is kept by both
  operations (a refinement), and that the walk ends.
\<close>

section \<open>Chunk headers in memory\<close>

definition sizeof_MemoryChunk :: u32 where
  "sizeof_MemoryChunk = 13"

definition chunk_prev :: "mem \<Rightarrow> u32 \<Rightarrow> u32" where
  "chunk_prev m c = rd32 m c"

definition chunk_next :: "mem \<Rightarrow> u32 \<Rightarrow> u32" where
  "chunk_next m c = rd32 m (c + 4)"

definition chunk_allocated :: "mem \<Rightarrow> u32 \<Rightarrow> bool" where
  "chunk_allocated m c \<longleftrightarrow> m (c + 8) \<noteq> 0"

definition chunk_size :: "mem \<Rightarrow> u32 \<Rightarrow> u32" where
  "chunk_size m c = rd32 m (c + 9)"

definition set_prev :: "mem \<Rightarrow> u32 \<Rightarrow> u32 \<Rightarrow> mem" where
  "set_prev m c v = wr32 m c v"

definition set_next :: "mem \<Rightarrow> u32 \<Rightarrow> u32 \<Rightarrow> mem" where
  "set_next m c v = wr32 m (c + 4) v"

definition set_allocated :: "mem \<Rightarrow> u32 \<Rightarrow> bool \<Rightarrow> mem" where
  "set_allocated m c b = m(c + 8 := (if b then 1 else 0))"

definition set_size :: "mem \<Rightarrow> u32 \<Rightarrow> u32 \<Rightarrow> mem" where
  "set_size m c v = wr32 m (c + 9) v"

section \<open>The operations\<close>

record MemoryManager =
  first_chunk :: u32

definition MemoryManager_new :: "mem \<Rightarrow> u32 \<Rightarrow> u32 \<Rightarrow> MemoryManager \<times> mem" where
  "MemoryManager_new m start sz =
     (let m1 = set_prev m start 0;
          m2 = set_next m1 start 0;
          m3 = set_allocated m2 start False;
          m4 = set_size m3 start (sz - sizeof_MemoryChunk)
      in (\<lparr>first_chunk = start\<rparr>, m4))"

definition split_chunk :: "mem \<Rightarrow> u32 \<Rightarrow> u32 \<Rightarrow> mem" where
  "split_chunk m chunk sz =
     (let new_chunk = chunk + sizeof_MemoryChunk + sz;
          m1 = set_size m new_chunk (chunk_size m chunk - sz - sizeof_MemoryChunk);
          m2 = set_prev m1 new_chunk chunk;
          m3 = set_next m2 new_chunk (chunk_next m2 chunk);
          m4 = set_allocated m3 new_chunk False;
          m5 = (if chunk_next m4 chunk \<noteq> 0 then set_prev m4 (chunk_next m4 chunk) new_chunk
                else m4);
          m6 = set_next m5 chunk new_chunk
      in set_size m6 chunk sz)"

partial_function (option) malloc_loop :: "mem \<Rightarrow> u32 \<Rightarrow> u32 \<Rightarrow> (u32 \<times> mem) option" where
  "malloc_loop m chunk sz =
     (if chunk = 0 then Some (0, m)
      else if chunk_allocated m chunk \<or> chunk_size m chunk < sz
      then malloc_loop m (chunk_next m chunk) sz
      else let m1 = (if chunk_size m chunk > sz + sizeof_MemoryChunk
                     then split_chunk m chunk sz else m)
           in Some (chunk + sizeof_MemoryChunk, set_allocated m1 chunk True))"

definition malloc :: "MemoryManager \<Rightarrow> mem \<Rightarrow> u32 \<Rightarrow> (u32 \<times> mem) option" where
  "malloc mm m sz = malloc_loop m (first_chunk mm) sz"

definition free_merge_next :: "mem \<Rightarrow> u32 \<Rightarrow> mem" where
  "free_merge_next m chunk =
     (if chunk_next m chunk \<noteq> 0 \<and> \<not> chunk_allocated m (chunk_next m chunk)
      then let m1 = set_size m chunk (chunk_size m chunk
                      + (sizeof_MemoryChunk + chunk_size m (chunk_next m chunk)));
               m2 = set_next m1 chunk (chunk_next m1 (chunk_next m1 chunk))
           in if chunk_next m2 chunk \<noteq> 0 then set_prev m2 (chunk_next m2 chunk) chunk else m2
      else m)"

definition free_merge_prev :: "mem \<Rightarrow> u32 \<Rightarrow> mem" where
  "free_merge_prev m chunk =
     (if chunk_prev m chunk \<noteq> 0 \<and> \<not> chunk_allocated m (chunk_prev m chunk)
      then let m1 = set_size m (chunk_prev m chunk) (chunk_size m (chunk_prev m chunk)
                      + (sizeof_MemoryChunk + chunk_size m chunk));
               m2 = set_next m1 (chunk_prev m1 chunk) (chunk_next m1 chunk)
           in if chunk_next m2 chunk \<noteq> 0
              then set_prev m2 (chunk_next m2 chunk) (chunk_prev m2 chunk) else m2
      else m)"

definition heap_free :: "mem \<Rightarrow> u32 \<Rightarrow> mem" where
  "heap_free m ptr =
     (let chunk = ptr - sizeof_MemoryChunk;
          m1 = set_allocated m chunk False;
          m2 = free_merge_next m1 chunk
      in free_merge_prev m2 chunk)"

definition operator_new :: "MemoryManager \<Rightarrow> mem \<Rightarrow> u32 \<Rightarrow> (u32 \<times> mem) option" where
  "operator_new active_memory_manager m sz = malloc active_memory_manager m sz"

definition operator_delete :: "mem \<Rightarrow> u32 \<Rightarrow> mem" where
  "operator_delete m ptr = heap_free m ptr"

section \<open>Specification on a list of blocks\<close>

text \<open>
  A block is (allocated, payload size). The blocks tile the heap: a block at \<open>a\<close> with
  payload size \<open>s\<close> has its header in \<open>a ..< a + 13\<close> and its payload in the \<open>s\<close> bytes
  behind it, where the next block starts.
\<close>

type_synonym blk = "bool \<times> nat"

fun hsize :: "blk list \<Rightarrow> nat" where
  "hsize [] = 0"
| "hsize ((_, s) # bs) = 13 + s + hsize bs"

fun first_fit :: "nat \<Rightarrow> nat \<Rightarrow> blk list \<Rightarrow> (nat \<times> blk list) option" where
  "first_fit a n [] = None"
| "first_fit a n ((al, s) # bs) =
     (if al \<or> s < n then map_option (\<lambda>(q, bs'). (q, (al, s) # bs')) (first_fit (a + 13 + s) n bs)
      else if s > n + 13 then Some (a + 13, (True, n) # (False, s - n - 13) # bs)
      else Some (a + 13, (True, s) # bs))"

fun join_free :: "blk \<Rightarrow> blk list \<Rightarrow> blk list" where
  "join_free (False, s) ((False, t) # bs) = (False, s + 13 + t) # bs"
| "join_free b bs = b # bs"

fun release :: "nat \<Rightarrow> nat \<Rightarrow> blk list \<Rightarrow> blk list" where
  "release a q [] = []"
| "release a q ((al, s) # bs) =
     (if q = a + 13 then join_free (False, s) bs
      else join_free (al, s) (release (a + 13 + s) q bs))"

text \<open>No two neighbouring blocks are free: what eager merging is to keep.\<close>

fun merged :: "blk list \<Rightarrow> bool" where
  "merged ((False, s) # (False, t) # bs) = False"
| "merged (b # bs) = merged bs"
| "merged [] = True"

text \<open>The allocated payloads, as (address, size).\<close>

fun live :: "nat \<Rightarrow> blk list \<Rightarrow> (nat \<times> nat) set" where
  "live a [] = {}"
| "live a ((al, s) # bs) = (if al then {(a + 13, s)} else {}) \<union> live (a + 13 + s) bs"

text \<open>The header addresses.\<close>

fun hdrs :: "nat \<Rightarrow> blk list \<Rightarrow> nat set" where
  "hdrs a [] = {}"
| "hdrs a ((al, s) # bs) = {a..<a + 13} \<union> hdrs (a + 13 + s) bs"

text \<open>
  \<open>chain m p a bs e\<close>: the doubly linked list that starts at \<open>a\<close> in memory \<open>m\<close>, whose first
  header has \<open>p\<close> as its predecessor and whose last has \<open>e\<close> as its successor, represents \<open>bs\<close>.
\<close>

fun chain :: "mem \<Rightarrow> u32 \<Rightarrow> nat \<Rightarrow> blk list \<Rightarrow> u32 \<Rightarrow> bool" where
  "chain m p a [] e = True"
| "chain m p a ((al, s) # bs) e =
     (chunk_prev m (of_nat a) = p \<and>
      chunk_next m (of_nat a) = (if bs = [] then e else of_nat (a + 13 + s)) \<and>
      chunk_allocated m (of_nat a) = al \<and>
      chunk_size m (of_nat a) = of_nat s \<and>
      chain m (of_nat a) (a + 13 + s) bs e)"

text \<open>A whole heap at \<open>a\<close>: it does not start at address 0 and ends within the address space.\<close>

definition heap_repr :: "mem \<Rightarrow> nat \<Rightarrow> blk list \<Rightarrow> bool" where
  "heap_repr m a bs \<longleftrightarrow>
     0 < a \<and> a + hsize bs < 4294967296 \<and> bs \<noteq> [] \<and> chain m 0 a bs 0 \<and> merged bs"

section \<open>Header accesses\<close>

lemmas chunk_defs =
  chunk_prev_def chunk_next_def chunk_allocated_def chunk_size_def
  set_prev_def set_next_def set_allocated_def set_size_def

text \<open>Fields of one header: a field just written reads back, the others are unchanged.\<close>

lemma chunk_same [mem_simps]:
  "chunk_prev (set_prev m c v) c = v"
  "chunk_next (set_prev m c v) c = chunk_next m c"
  "chunk_allocated (set_prev m c v) c = chunk_allocated m c"
  "chunk_size (set_prev m c v) c = chunk_size m c"
  "chunk_prev (set_next m c v) c = chunk_prev m c"
  "chunk_next (set_next m c v) c = v"
  "chunk_allocated (set_next m c v) c = chunk_allocated m c"
  "chunk_size (set_next m c v) c = chunk_size m c"
  "chunk_prev (set_allocated m c b) c = chunk_prev m c"
  "chunk_next (set_allocated m c b) c = chunk_next m c"
  "chunk_allocated (set_allocated m c b) c = b"
  "chunk_size (set_allocated m c b) c = chunk_size m c"
  "chunk_prev (set_size m c v) c = chunk_prev m c"
  "chunk_next (set_size m c v) c = chunk_next m c"
  "chunk_allocated (set_size m c v) c = chunk_allocated m c"
  "chunk_size (set_size m c v) c = v"
  by (simp_all add: chunk_defs) (simp_all add: rd32_def wr32_def add.assoc)

text \<open>Bytes outside the 13 bytes of a header are not touched by writes to its fields.\<close>

definition outside :: "nat \<Rightarrow> nat \<Rightarrow> bool" where
  "outside c x \<longleftrightarrow> c + 13 \<le> 4294967296 \<and> x < 4294967296 \<and> \<not> (c \<le> x \<and> x < c + 13)"

lemma outside_apart:
  assumes "outside c x" and "k + n \<le> 13" and "0 < n"
  shows "apart (of_nat c + of_nat k) n (of_nat x) 1"
proof -
  have "unat (of_nat c + of_nat k :: u32) = c + k"
    using assms by (simp add: outside_def u32_simps)
  with assms show ?thesis by (auto simp: outside_def apart_def u32_simps)
qed

lemma set_outside [mem_simps]:
  assumes "outside c x"
  shows "set_prev m (of_nat c) v (of_nat x) = m (of_nat x)"
    and "set_next m (of_nat c) v (of_nat x) = m (of_nat x)"
    and "set_allocated m (of_nat c) b (of_nat x) = m (of_nat x)"
    and "set_size m (of_nat c) v (of_nat x) = m (of_nat x)"
  using outside_apart [OF assms, of 0 4] outside_apart [OF assms, of 4 4]
    outside_apart [OF assms, of 8 1] outside_apart [OF assms, of 9 4]
    apart_neq [OF outside_apart [OF assms, of 8 1], of 0 0]
  by (simp_all add: chunk_defs wr32_outside)

lemma chunk_cong:
  assumes "\<And>i. i < 13 \<Longrightarrow> m (c + of_nat i) = m' (c + of_nat i)"
  shows "chunk_prev m c = chunk_prev m' c" and "chunk_next m c = chunk_next m' c"
    and "chunk_allocated m c = chunk_allocated m' c" and "chunk_size m c = chunk_size m' c"
proof -
  have "rd32 m (c + of_nat k) = rd32 m' (c + of_nat k)" if "k + 4 \<le> 13" for k
    using that assms [of "k + i" for i] by (intro rd32_cong) (simp add: add.assoc)
  from this [of 0] this [of 4] this [of 9] assms [of 8]
  show "chunk_prev m c = chunk_prev m' c" "chunk_next m c = chunk_next m' c"
    "chunk_allocated m c = chunk_allocated m' c" "chunk_size m c = chunk_size m' c"
    by (simp_all add: chunk_defs)
qed

text \<open>Only the header bytes of a chain matter.\<close>

lemma chain_cong:
  "a + hsize bs \<le> 4294967296 \<Longrightarrow> (\<And>x. x \<in> hdrs a bs \<Longrightarrow> m' (of_nat x) = m (of_nat x)) \<Longrightarrow>
   chain m' p a bs e = chain m p a bs e"
proof (induction m p a bs e rule: chain.induct)
  case (2 m p a al s bs e)
  have "m' (of_nat a + of_nat i) = m (of_nat a + of_nat i)" if "i < 13" for i
    using 2(3) [of "a + i"] that by simp
  note hdr = chunk_cong [of m' "of_nat a" m, OF this]
  have "chain m' (of_nat a) (a + 13 + s) bs e = chain m (of_nat a) (a + 13 + s) bs e"
    using 2(2,3) by (intro 2(1)) (auto simp: add.assoc)
  with hdr show ?case by simp
qed simp

text \<open>Two headers that do not overlap: a write to one is not seen through the other.\<close>

definition hapart :: "nat \<Rightarrow> nat \<Rightarrow> bool" where
  "hapart c d \<longleftrightarrow> c + 13 \<le> 4294967296 \<and> d + 13 \<le> 4294967296 \<and> (c + 13 \<le> d \<or> d + 13 \<le> c)"

lemma hapart_outside: "hapart c d \<Longrightarrow> i < 13 \<Longrightarrow> outside c (d + i)"
  by (auto simp: hapart_def outside_def)

lemma chunk_other [mem_simps]:
  assumes "hapart c d"
  shows "chunk_prev (set_prev m (of_nat c) v) (of_nat d) = chunk_prev m (of_nat d)"
    "chunk_next (set_prev m (of_nat c) v) (of_nat d) = chunk_next m (of_nat d)"
    "chunk_allocated (set_prev m (of_nat c) v) (of_nat d) = chunk_allocated m (of_nat d)"
    "chunk_size (set_prev m (of_nat c) v) (of_nat d) = chunk_size m (of_nat d)"
    "chunk_prev (set_next m (of_nat c) v) (of_nat d) = chunk_prev m (of_nat d)"
    "chunk_next (set_next m (of_nat c) v) (of_nat d) = chunk_next m (of_nat d)"
    "chunk_allocated (set_next m (of_nat c) v) (of_nat d) = chunk_allocated m (of_nat d)"
    "chunk_size (set_next m (of_nat c) v) (of_nat d) = chunk_size m (of_nat d)"
    "chunk_prev (set_allocated m (of_nat c) b) (of_nat d) = chunk_prev m (of_nat d)"
    "chunk_next (set_allocated m (of_nat c) b) (of_nat d) = chunk_next m (of_nat d)"
    "chunk_allocated (set_allocated m (of_nat c) b) (of_nat d) = chunk_allocated m (of_nat d)"
    "chunk_size (set_allocated m (of_nat c) b) (of_nat d) = chunk_size m (of_nat d)"
    "chunk_prev (set_size m (of_nat c) v) (of_nat d) = chunk_prev m (of_nat d)"
    "chunk_next (set_size m (of_nat c) v) (of_nat d) = chunk_next m (of_nat d)"
    "chunk_allocated (set_size m (of_nat c) v) (of_nat d) = chunk_allocated m (of_nat d)"
    "chunk_size (set_size m (of_nat c) v) (of_nat d) = chunk_size m (of_nat d)"
  using set_outside [OF hapart_outside [OF assms]]
  by (auto intro!: chunk_cong)

lemma set_prev_cong: "m x = m' x \<Longrightarrow> set_prev m c v x = set_prev m' c v x"
  by (simp add: set_prev_def wr32_def)

section \<open>Chains and blocks\<close>

lemma hsize_append [simp]: "hsize (xs @ ys) = hsize xs + hsize ys"
  by (induction xs rule: hsize.induct) auto

lemma hdrs_bounds: "x \<in> hdrs a bs \<Longrightarrow> a \<le> x \<and> x < a + hsize bs"
  by (induction a bs rule: hdrs.induct) auto

lemma hdrs_head: "bs \<noteq> [] \<Longrightarrow> a \<le> x \<Longrightarrow> x < a + 13 \<Longrightarrow> x \<in> hdrs a bs"
  by (cases bs rule: hsize.cases) auto

lemma hdrs_outside: "\<not> (a \<le> x \<and> x < a + hsize bs) \<Longrightarrow> x \<notin> hdrs a bs"
  using hdrs_bounds by blast

lemma hsize_Cons_ge: "bs \<noteq> [] \<Longrightarrow> 13 \<le> hsize bs"
  by (cases bs rule: hsize.cases) auto

lemma chain_set_prev:
  assumes "chain m p a bs e" and "a + hsize bs \<le> 4294967296" and "bs \<noteq> []"
  shows "chain (set_prev m (of_nat a) p') p' a bs e"
proof -
  obtain al s bs' where bs: "bs = (al, s) # bs'" using assms(3) by (cases bs) auto
  have "chain (set_prev m (of_nat a) p') (of_nat a) (a + 13 + s) bs' e =
    chain m (of_nat a) (a + 13 + s) bs' e"
    using assms(2) by (intro chain_cong set_outside) (auto simp: bs outside_def dest: hdrs_bounds)
  with assms(1) show ?thesis by (auto simp: bs mem_simps)
qed

lemma split_chunk_chain:
  assumes ch: "chain m p a ((al, s) # bs) 0" and n: "n + 13 < s"
    and hi: "a + hsize ((al, s) # bs) < 4294967296"
  shows "chain (split_chunk m (of_nat a) (of_nat n)) p a ((al, n) # (False, s - n - 13) # bs) 0"
    and "x < 4294967296 \<Longrightarrow> x \<notin> hdrs a ((al, n) # (False, s - n - 13) # bs) \<Longrightarrow>
      split_chunk m (of_nat a) (of_nat n) (of_nat x) = m (of_nat x)"
proof -
  define c where "c = a + 13 + n"
  define d where "d = a + 13 + s"
  let ?m4 = "set_allocated (set_next (set_prev (set_size m (of_nat c)
      (of_nat s - of_nat n - 13)) (of_nat c) (of_nat a)) (of_nat c)
      (chunk_next m (of_nat a))) (of_nat c) False"
  let ?m5 = "if bs \<noteq> [] then set_prev ?m4 (of_nat d) (of_nat c) else ?m4"
  let ?m7 = "set_size (set_next ?m5 (of_nat a) (of_nat c)) (of_nat a) (of_nat n)"
  have cd: "d = c + 13 + (s - n - 13)" "a + 13 \<le> c" "c + 13 \<le> d" "d + hsize bs < 4294967296"
    using n hi by (auto simp: c_def d_def)
  have ap: "hapart a c" "hapart c a"
    "bs \<noteq> [] \<Longrightarrow> hapart a d" "bs \<noteq> [] \<Longrightarrow> hapart d a" "bs \<noteq> [] \<Longrightarrow> hapart c d" "bs \<noteq> [] \<Longrightarrow> hapart d c"
    using cd hsize_Cons_ge [of bs] by (auto simp: hapart_def)
  have nx: "chunk_next m (of_nat a) = (if bs = [] then 0 else of_nat d)"
    using ch by (auto simp: d_def add.assoc)
  have d0: "bs \<noteq> [] \<Longrightarrow> (of_nat d :: u32) \<noteq> 0"
    using cd(2-4) by (simp add: u32_simps)
  have cw: "of_nat a + sizeof_MemoryChunk + of_nat n = (of_nat c :: u32)"
    by (simp add: c_def sizeof_MemoryChunk_def)
  have sz: "chunk_size m (of_nat a) = of_nat s" using ch by simp
  have eq: "split_chunk m (of_nat a) (of_nat n) = ?m7"
    unfolding split_chunk_def Let_def cw
    using nx d0 sz by (simp add: mem_simps ap sizeof_MemoryChunk_def)
  have szeq: "(of_nat s - of_nat n - 13 :: u32) = of_nat (s - n - 13)"
    using n by (simp add: of_nat_diff)
  have tail: "chain ?m7 (of_nat c) d bs 0"
  proof (cases "bs = []")
    case False
    have "chain (set_prev m (of_nat d) (of_nat c)) (of_nat c) d bs 0"
      using ch cd False by (intro chain_set_prev) (auto simp: d_def)
    moreover have "?m7 (of_nat x) = set_prev m (of_nat d) (of_nat c) (of_nat x)"
      if "x \<in> hdrs d bs" for x
    proof -
      have "outside a x" "outside c x"
        using hdrs_bounds [OF that] cd by (auto simp: outside_def)
      then show ?thesis using False by (auto simp: mem_simps intro: set_prev_cong)
    qed
    ultimately show ?thesis
      using chain_cong [of d bs ?m7 "set_prev m (of_nat d) (of_nat c)"] cd by auto
  qed simp
  have hd_c: "chunk_prev ?m7 (of_nat c) = of_nat a"
    "chunk_next ?m7 (of_nat c) = (if bs = [] then 0 else of_nat d)"
    "chunk_allocated ?m7 (of_nat c) = False" "chunk_size ?m7 (of_nat c) = of_nat (s - n - 13)"
    using ap nx szeq by (auto simp: mem_simps)
  have hd_a: "chunk_prev ?m7 (of_nat a) = p" "chunk_next ?m7 (of_nat a) = of_nat c"
    "chunk_allocated ?m7 (of_nat a) = al" "chunk_size ?m7 (of_nat a) = of_nat n"
    using ap ch by (auto simp: mem_simps)
  show "chain (split_chunk m (of_nat a) (of_nat n)) p a ((al, n) # (False, s - n - 13) # bs) 0"
    unfolding eq chain.simps
    using hd_a hd_c tail cd by (simp add: c_def [symmetric] cd(1) [symmetric])
  show "split_chunk m (of_nat a) (of_nat n) (of_nat x) = m (of_nat x)"
    if x: "x < 4294967296" "x \<notin> hdrs a ((al, n) # (False, s - n - 13) # bs)"
  proof -
    have "hdrs a ((al, n) # (False, s - n - 13) # bs) = {a..<a + 13} \<union> ({c..<c + 13} \<union> hdrs d bs)"
      unfolding hdrs.simps c_def [symmetric] cd(1) [symmetric] ..
    then have "outside a x" "outside c x" "bs \<noteq> [] \<Longrightarrow> outside d x"
      using x cd(2-4) hsize_Cons_ge [of bs] hdrs_head [of bs d x] by (auto simp: outside_def)
    then show ?thesis unfolding eq by (auto simp: mem_simps)
  qed
qed

section \<open>malloc\<close>

text \<open>
  The walk over a chain ends; its result is that of \<open>first_fit\<close>, the memory it leaves
  represents the new block list, and only bytes of its headers have changed.
\<close>

definition malloc_post :: "mem \<Rightarrow> u32 \<Rightarrow> nat \<Rightarrow> nat \<Rightarrow> blk list \<Rightarrow> u32 \<Rightarrow> mem \<Rightarrow> bool" where
  "malloc_post m p a n bs q m' \<longleftrightarrow>
     (case first_fit a n bs of
        None \<Rightarrow> q = 0 \<and> m' = m
      | Some (r, bs') \<Rightarrow> q = of_nat r \<and> chain m' p a bs' 0 \<and>
          (\<forall>x < 4294967296. x \<notin> hdrs a bs' \<longrightarrow> m' (of_nat x) = m (of_nat x))) \<and>
     (\<forall>x < 4294967296. \<not> (a \<le> x \<and> x < a + hsize bs) \<longrightarrow> m' (of_nat x) = m (of_nat x))"

lemma malloc_here:
  assumes ch: "chain m p a ((False, s) # bs) 0" and n: "n \<le> s"
    and hi: "a + hsize ((False, s) # bs) < 4294967296"
  shows "malloc_post m p a n ((False, s) # bs) (of_nat (a + 13))
    (set_allocated (if n + 13 < s then split_chunk m (of_nat a) (of_nat n) else m) (of_nat a) True)"
proof -
  let ?m1 = "if n + 13 < s then split_chunk m (of_nat a) (of_nat n) else m"
  let ?bs1 = "if n + 13 < s then (False, s - n - 13) # bs else bs"
  let ?s1 = "if n + 13 < s then n else s"
  have ch1: "chain ?m1 p a ((False, ?s1) # ?bs1) 0"
    using split_chunk_chain(1) [OF ch _ hi, of n] ch by auto
  have fr: "?m1 (of_nat x) = m (of_nat x)" if "x < 4294967296" "x \<notin> hdrs a ((True, ?s1) # ?bs1)" for x
    using split_chunk_chain(2) [OF ch _ hi that(1), of n] that(2) by auto
  have hs: "a + 13 + ?s1 + hsize ?bs1 < 4294967296" using hi by auto
  have "chain (set_allocated ?m1 (of_nat a) True) (of_nat a) (a + 13 + ?s1) ?bs1 0 =
    chain ?m1 (of_nat a) (a + 13 + ?s1) ?bs1 0"
    using hs by (intro chain_cong set_outside) (auto simp: outside_def dest!: hdrs_bounds)
  with ch1 have ch2: "chain (set_allocated ?m1 (of_nat a) True) p a ((True, ?s1) # ?bs1) 0"
    by (simp add: mem_simps)
  have hd: "set_allocated ?m1 (of_nat a) True (of_nat x) = m (of_nat x)"
    if "x < 4294967296" "x \<notin> hdrs a ((True, ?s1) # ?bs1)" for x
  proof -
    have "outside a x" using that hi by (auto simp: outside_def)
    then show ?thesis using fr [OF that] by (simp add: mem_simps)
  qed
  have "set_allocated ?m1 (of_nat a) True (of_nat x) = m (of_nat x)"
    if x: "x < 4294967296" "\<not> (a \<le> x \<and> x < a + hsize ((False, s) # bs))" for x
  proof -
    have "hsize ((True, ?s1) # ?bs1) = hsize ((False, s) # bs)" using n by simp
    then have "\<not> (a \<le> x \<and> x < a + hsize ((True, ?s1) # ?bs1))" using x(2) by (simp only:) simp
    then show ?thesis by (rule hd [OF x(1) hdrs_outside])
  qed
  moreover have "first_fit a n ((False, s) # bs) = Some (a + 13, (True, ?s1) # ?bs1)" using n by simp
  ultimately show ?thesis unfolding malloc_post_def using ch2 hd by (simp only: option.case prod.case) blast
qed

lemma first_fit_skip:
  "al \<or> s < n \<Longrightarrow> first_fit a n ((al, s) # bs) =
     map_option (\<lambda>(q, bs'). (q, (al, s) # bs')) (first_fit (a + 13 + s) n bs)"
  by simp

lemma malloc_post_Cons:
  assumes ch: "chain m p a ((al, s) # bs) 0" and skip: "al \<or> s < n"
    and hi: "a + hsize ((al, s) # bs) < 4294967296"
    and post: "malloc_post m (of_nat a) (a + 13 + s) n bs q m'"
  shows "malloc_post m p a n ((al, s) # bs) q m'"
proof -
  have fr: "m' (of_nat x) = m (of_nat x)"
    if "x < 4294967296" "\<not> (a + 13 + s \<le> x \<and> x < a + hsize ((al, s) # bs))" for x
    using post that by (auto simp: malloc_post_def add.assoc)
  have "m' (of_nat a + of_nat i) = m (of_nat a + of_nat i)" if "i < 13" for i
    using fr [of "a + i"] that hi by simp
  note hdr = chunk_cong [of m' "of_nat a" m, OF this]
  have ne: "first_fit (a + 13 + s) n bs = Some (r, bs') \<Longrightarrow> (bs' = []) = (bs = [])" for r bs'
    by (cases bs rule: hsize.cases) (auto split: if_splits)
  show ?thesis
  proof (cases "first_fit (a + 13 + s) n bs")
    case None
    then show ?thesis using post skip by (auto simp: malloc_post_def)
  next
    case (Some rb)
    then obtain r bs' where rb: "first_fit (a + 13 + s) n bs = Some (r, bs')" by (cases rb) auto
    then have "chain m' p a ((al, s) # bs') 0"
      using ch hdr ne [OF rb] post by (auto simp: malloc_post_def)
    then show ?thesis
      using rb skip post fr by (auto simp: malloc_post_def first_fit_skip)
  qed
qed

lemma malloc_loop_0 [simp]: "malloc_loop m 0 n = Some (0, m)"
  by (simp add: malloc_loop.simps)

lemma malloc_loop_chain:
  assumes "chain m p a bs 0" and "0 < a" and "a + hsize bs < 4294967296"
    and "n < 4294967296"
  shows "\<exists>q m'. malloc_loop m (if bs = [] then 0 else of_nat a) (of_nat n) = Some (q, m') \<and>
    malloc_post m p a n bs q m'"
  using assms
proof (induction bs arbitrary: p a)
  case Nil
  then show ?case by (simp add: malloc_post_def)
next
  case (Cons b bs)
  obtain al s where b: "b = (al, s)" by (cases b)
  note ch = Cons.prems(1) [unfolded b] and hi = Cons.prems(3) [unfolded b]
  have s: "s < 4294967296" and a: "(of_nat a :: u32) \<noteq> 0"
    using hi Cons.prems(2) by (auto simp: u32_simps)
  have szlt: "chunk_size m (of_nat a) < of_nat n \<longleftrightarrow> s < n"
    using ch s Cons.prems(4) by (simp add: u32_simps)
  show ?case
  proof (cases "al \<or> s < n")
    case True
    have "chain m (of_nat a) (a + 13 + s) bs 0" "0 < a + 13 + s" "a + 13 + s + hsize bs < 4294967296"
      using ch hi by (auto simp: add.assoc)
    from Cons.IH [OF this Cons.prems(4)] obtain q m' where
      step: "malloc_loop m (if bs = [] then 0 else of_nat (a + 13 + s)) (of_nat n) = Some (q, m')"
      and post: "malloc_post m (of_nat a) (a + 13 + s) n bs q m'" by blast
    have "malloc_loop m (of_nat a) (of_nat n) = Some (q, m')"
      using True a ch szlt step by (subst malloc_loop.simps) (auto split: if_splits)
    then show ?thesis using malloc_post_Cons [OF ch True hi post] b by auto
  next
    case False
    then have al: "\<not> al" and n: "n \<le> s" by auto
    have big: "chunk_size m (of_nat a) > of_nat n + sizeof_MemoryChunk \<longleftrightarrow> n + 13 < s"
      using ch s n hi of_nat_u32_less_iff [of "n + 13" s] by (simp add: sizeof_MemoryChunk_def)
    have "malloc_loop m (of_nat a) (of_nat n) =
      Some (of_nat (a + 13), set_allocated (if n + 13 < s then split_chunk m (of_nat a) (of_nat n)
        else m) (of_nat a) True)"
      using False a ch szlt big
      by (subst malloc_loop.simps) (simp add: Let_def sizeof_MemoryChunk_def)
    then show ?thesis using malloc_here [of m p a s bs n] ch hi al n b by auto
  qed
qed

section \<open>free\<close>

text \<open>Merging with the successor: the free chunk at \<open>c\<close> is the first of the chain.\<close>

lemma free_merge_next_chain:
  assumes ch: "chain m p c ((False, s) # ys) 0" and hi: "c + hsize ((False, s) # ys) < 4294967296"
  shows "chain (free_merge_next m (of_nat c)) p c (join_free (False, s) ys) 0"
    and "x < 4294967296 \<Longrightarrow> x \<notin> hdrs c ((False, s) # ys) \<Longrightarrow>
      free_merge_next m (of_nat c) (of_nat x) = m (of_nat x)"
proof -
  consider (nil) "ys = []" | (alloc) t zs where "ys = (True, t) # zs"
    | (merge) t zs where "ys = (False, t) # zs"
    by (cases ys) (use surj_pair in auto)
  then have "chain (free_merge_next m (of_nat c)) p c (join_free (False, s) ys) 0 \<and>
    (\<forall>x < 4294967296. x \<notin> hdrs c ((False, s) # ys) \<longrightarrow>
      free_merge_next m (of_nat c) (of_nat x) = m (of_nat x))"
  proof cases
    case nil
    with ch show ?thesis by (simp add: free_merge_next_def)
  next
    case alloc
    with ch show ?thesis by (simp add: free_merge_next_def)
  next
    case merge
    define d where "d = c + 13 + s"
    define e where "e = d + 13 + t"
    let ?m2 = "set_next (set_size m (of_nat c) (of_nat s + (13 + of_nat t))) (of_nat c)
      (if zs = [] then 0 else of_nat e)"
    let ?m3 = "if zs = [] then ?m2 else set_prev ?m2 (of_nat e) (of_nat c)"
    have le: "c + 13 \<le> d" "d + 13 \<le> e" "e + hsize zs < 4294967296"
      "c + hsize ((False, s) # ys) = e + hsize zs"
      using hi by (auto simp: merge d_def e_def)
    have ap: "hapart c d" "hapart d c" "zs \<noteq> [] \<Longrightarrow> hapart c e" "zs \<noteq> [] \<Longrightarrow> hapart e c"
      using le hsize_Cons_ge [of zs] by (auto simp: hapart_def)
    have d0: "(of_nat d :: u32) \<noteq> 0" "zs \<noteq> [] \<Longrightarrow> (of_nat e :: u32) \<noteq> 0"
      using le by (auto simp: u32_simps)
    have c_hd: "chunk_prev m (of_nat c) = p" "chunk_next m (of_nat c) = of_nat d"
      "chunk_allocated m (of_nat c) = False" "chunk_size m (of_nat c) = of_nat s"
      using ch by (auto simp: merge d_def)
    have d_hd: "chunk_next m (of_nat d) = (if zs = [] then 0 else of_nat e)"
      "chunk_allocated m (of_nat d) = False" "chunk_size m (of_nat d) = of_nat t"
      "chain m (of_nat d) e zs 0"
      using ch by (auto simp: merge d_def e_def add.assoc)
    have eq: "free_merge_next m (of_nat c) = ?m3"
      unfolding free_merge_next_def Let_def sizeof_MemoryChunk_def
      using d0 c_hd d_hd by (simp add: mem_simps ap)
    have tail: "chain ?m3 (of_nat c) e zs 0"
    proof (cases "zs = []")
      case False
      have "chain (set_prev m (of_nat e) (of_nat c)) (of_nat c) e zs 0"
        using d_hd(4) le(3) False by (intro chain_set_prev) auto
      moreover have "?m3 (of_nat x) = set_prev m (of_nat e) (of_nat c) (of_nat x)"
        if "x \<in> hdrs e zs" for x
      proof -
        have "outside c x" using hdrs_bounds [OF that] le by (auto simp: outside_def)
        then show ?thesis using False by (auto simp: mem_simps intro: set_prev_cong)
      qed
      ultimately show ?thesis
        using chain_cong [of e zs ?m3 "set_prev m (of_nat e) (of_nat c)"] le(3) by auto
    qed simp
    have "chunk_prev ?m3 (of_nat c) = p"
      "chunk_next ?m3 (of_nat c) = (if zs = [] then 0 else of_nat e)"
      "chunk_allocated ?m3 (of_nat c) = False" "chunk_size ?m3 (of_nat c) = of_nat (s + 13 + t)"
      using ap c_hd by (auto simp: mem_simps)
    with tail have "chain ?m3 p c ((False, s + 13 + t) # zs) 0"
      by (simp add: e_def d_def ac_simps)
    moreover have "?m3 (of_nat x) = m (of_nat x)"
      if x: "x < 4294967296" "x \<notin> hdrs c ((False, s) # ys)" for x
    proof -
      have "hdrs c ((False, s) # ys) = {c..<c + 13} \<union> ({d..<d + 13} \<union> hdrs e zs)"
        unfolding merge hdrs.simps d_def e_def ..
      then have "outside c x" "zs \<noteq> [] \<Longrightarrow> outside e x"
        using x le hsize_Cons_ge [of zs] hdrs_head [of zs e x] by (auto simp: outside_def)
      then show ?thesis by (auto simp: mem_simps)
    qed
    ultimately show ?thesis unfolding eq using merge by auto
  qed
  then show "chain (free_merge_next m (of_nat c)) p c (join_free (False, s) ys) 0"
    and "x < 4294967296 \<Longrightarrow> x \<notin> hdrs c ((False, s) # ys) \<Longrightarrow>
      free_merge_next m (of_nat c) (of_nat x) = m (of_nat x)"
    by blast+
qed

text \<open>Merging with the predecessor, a free chunk at \<open>b\<close>.\<close>

lemma free_merge_prev_chain:
  assumes ch: "chain m p b ((False, r) # (False, s) # ys) 0" and b: "0 < b"
    and hi: "b + hsize ((False, r) # (False, s) # ys) < 4294967296"
    and c: "c = b + 13 + r"
  shows "chain (free_merge_prev m (of_nat c)) p b ((False, r + 13 + s) # ys) 0"
    and "x < 4294967296 \<Longrightarrow> x \<notin> hdrs b ((False, r) # (False, s) # ys) \<Longrightarrow>
      free_merge_prev m (of_nat c) (of_nat x) = m (of_nat x)"
proof -
  define e where "e = c + 13 + s"
  let ?m2 = "set_next (set_size m (of_nat b) (of_nat r + (13 + of_nat s))) (of_nat b)
    (if ys = [] then 0 else of_nat e)"
  let ?m3 = "if ys = [] then ?m2 else set_prev ?m2 (of_nat e) (of_nat b)"
  have le: "b + 13 \<le> c" "c + 13 \<le> e" "e + hsize ys < 4294967296"
    "b + hsize ((False, r) # (False, s) # ys) = e + hsize ys"
    using hi by (auto simp: c e_def)
  have ap: "hapart b c" "hapart c b" "ys \<noteq> [] \<Longrightarrow> hapart b e" "ys \<noteq> [] \<Longrightarrow> hapart e b"
    using le hsize_Cons_ge [of ys] by (auto simp: hapart_def)
  have b0: "(of_nat b :: u32) \<noteq> 0" "ys \<noteq> [] \<Longrightarrow> (of_nat e :: u32) \<noteq> 0"
    using le b by (auto simp: u32_simps)
  have b_hd: "chunk_prev m (of_nat b) = p" "chunk_allocated m (of_nat b) = False"
    "chunk_size m (of_nat b) = of_nat r"
    and c_hd: "chunk_prev m (of_nat c) = of_nat b" "chunk_size m (of_nat c) = of_nat s"
    "chunk_next m (of_nat c) = (if ys = [] then 0 else of_nat e)" "chain m (of_nat c) e ys 0"
    using ch by (auto simp: c e_def add.assoc)
  have eq: "free_merge_prev m (of_nat c) = ?m3"
    unfolding free_merge_prev_def Let_def sizeof_MemoryChunk_def
    using b0 b_hd c_hd by (simp add: mem_simps ap)
  have tail: "chain ?m3 (of_nat b) e ys 0"
  proof (cases "ys = []")
    case False
    have "chain (set_prev m (of_nat e) (of_nat b)) (of_nat b) e ys 0"
      using c_hd(4) le(3) False by (intro chain_set_prev) auto
    moreover have "?m3 (of_nat x) = set_prev m (of_nat e) (of_nat b) (of_nat x)"
      if "x \<in> hdrs e ys" for x
    proof -
      have "outside b x" using hdrs_bounds [OF that] le by (auto simp: outside_def)
      then show ?thesis using False by (auto simp: mem_simps intro: set_prev_cong)
    qed
    ultimately show ?thesis
      using chain_cong [of e ys ?m3 "set_prev m (of_nat e) (of_nat b)"] le(3) by auto
  qed simp
  have "chunk_prev ?m3 (of_nat b) = p"
    "chunk_next ?m3 (of_nat b) = (if ys = [] then 0 else of_nat e)"
    "chunk_allocated ?m3 (of_nat b) = False" "chunk_size ?m3 (of_nat b) = of_nat (r + 13 + s)"
    using ap b_hd by (auto simp: mem_simps)
  with tail show "chain (free_merge_prev m (of_nat c)) p b ((False, r + 13 + s) # ys) 0"
    unfolding eq by (simp add: e_def c ac_simps)
  show "free_merge_prev m (of_nat c) (of_nat x) = m (of_nat x)"
    if x: "x < 4294967296" "x \<notin> hdrs b ((False, r) # (False, s) # ys)"
  proof -
    have "hdrs b ((False, r) # (False, s) # ys) = {b..<b + 13} \<union> ({c..<c + 13} \<union> hdrs e ys)"
      unfolding hdrs.simps c e_def ..
    then have "outside b x" "ys \<noteq> [] \<Longrightarrow> outside e x"
      using x le hsize_Cons_ge [of ys] hdrs_head [of ys e x] by (auto simp: outside_def)
    then show ?thesis unfolding eq by (auto simp: mem_simps)
  qed
qed

lemma live_bounds: "(q, s) \<in> live a bs \<Longrightarrow> a + 13 \<le> q \<and> q + s \<le> a + hsize bs"
  by (induction a bs rule: live.induct) (auto split: if_splits)

lemma heap_free_alt:
  "heap_free m (of_nat (c + 13)) =
     free_merge_prev (free_merge_next (set_allocated m (of_nat c) False) (of_nat c)) (of_nat c)"
  by (simp add: heap_free_def sizeof_MemoryChunk_def Let_def)

text \<open>The first two steps of \<open>free\<close> on the first chunk of a chain.\<close>

lemma free_first_steps:
  assumes ch: "chain m p c ((True, s) # ys) 0" and hi: "c + hsize ((True, s) # ys) < 4294967296"
  defines "m2 \<equiv> free_merge_next (set_allocated m (of_nat c) False) (of_nat c)"
  shows "chain m2 p c (join_free (False, s) ys) 0"
    and "x < 4294967296 \<Longrightarrow> x \<notin> hdrs c ((True, s) # ys) \<Longrightarrow> m2 (of_nat x) = m (of_nat x)"
proof -
  let ?m1 = "set_allocated m (of_nat c) False"
  have "chain ?m1 (of_nat c) (c + 13 + s) ys 0 = chain m (of_nat c) (c + 13 + s) ys 0"
    using hi by (intro chain_cong set_outside) (auto simp: outside_def dest!: hdrs_bounds)
  with ch have ch1: "chain ?m1 p c ((False, s) # ys) 0" by (simp add: mem_simps)
  have hi1: "c + hsize ((False, s) # ys) < 4294967296" using hi by simp
  show "chain m2 p c (join_free (False, s) ys) 0"
    unfolding m2_def by (rule free_merge_next_chain(1) [OF ch1 hi1])
  show "m2 (of_nat x) = m (of_nat x)"
    if "x < 4294967296" "x \<notin> hdrs c ((True, s) # ys)"
  proof -
    have "outside c x" using that hi by (auto simp: outside_def)
    then show ?thesis
      unfolding m2_def using free_merge_next_chain(2) [OF ch1 hi1, of x] that
      by (simp add: mem_simps)
  qed
qed

lemma join_free_shape: "\<exists>s' ys'. join_free (False, s) ys = (False, s') # ys' \<and>
    hsize ((False, s') # ys') = hsize ((False, s) # ys)"
  by (cases "((False, s), ys)" rule: join_free.cases) auto

lemma hdrs_join_free: "hdrs a (join_free (False, s) ys) \<subseteq> hdrs a ((False, s) # ys)"
proof (cases "((False, s), ys)" rule: join_free.cases)
  case (1 s t bs)
  then show ?thesis by (auto simp: ac_simps)
qed auto

lemma hsize_join_free [simp]: "hsize (join_free b bs) = hsize (b # bs)"
  by (induction b bs rule: join_free.induct) auto

lemma hsize_release [simp]: "hsize (release a q bs) = hsize bs"
  by (induction a q bs rule: release.induct) auto

lemma chain_head_frame:
  assumes ch: "chain m p a ((al, s) # bs) e" and hi: "a + hsize ((al, s) # bs) < 4294967296"
    and tl: "chain m' (of_nat a) (a + 13 + s) bs' e" and ne: "bs' = [] \<longleftrightarrow> bs = []"
    and fr: "\<And>x. x < 4294967296 \<Longrightarrow> \<not> (a + 13 + s \<le> x \<and> x < a + hsize ((al, s) # bs)) \<Longrightarrow>
      m' (of_nat x) = m (of_nat x)"
  shows "chain m' p a ((al, s) # bs') e"
proof -
  have "m' (of_nat a + of_nat i) = m (of_nat a + of_nat i)" if "i < 13" for i
    using fr [of "a + i"] that hi by simp
  from chunk_cong [of m' "of_nat a" m, OF this] show ?thesis using ch tl ne by simp
qed

text \<open>
  The predecessor of the first chunk is not merged: there is none, or it is in use and lies
  below the chain.
\<close>

definition prev_kept :: "mem \<Rightarrow> u32 \<Rightarrow> nat \<Rightarrow> bool" where
  "prev_kept m p a \<longleftrightarrow> p = 0 \<or> (\<exists>b. p = of_nat b \<and> b + 13 \<le> a \<and> chunk_allocated m p)"

lemma free_first:
  assumes ch: "chain m p c ((True, s) # ys) 0" and hi: "c + hsize ((True, s) # ys) < 4294967296"
    and pk: "prev_kept m p c"
  shows "chain (heap_free m (of_nat (c + 13))) p c (join_free (False, s) ys) 0"
    and "x < 4294967296 \<Longrightarrow> x \<notin> hdrs c ((True, s) # ys) \<Longrightarrow>
      heap_free m (of_nat (c + 13)) (of_nat x) = m (of_nat x)"
proof -
  let ?m2 = "free_merge_next (set_allocated m (of_nat c) False) (of_nat c)"
  note st = free_first_steps [OF ch hi]
  obtain s' ys' where sh: "join_free (False, s) ys = (False, s') # ys'"
    using join_free_shape by blast
  have p: "chunk_prev ?m2 (of_nat c) = p" using st(1) sh by simp
  have "p = 0 \<or> chunk_allocated ?m2 p"
  proof (cases "p = 0")
    case False
    then obtain b where b: "p = of_nat b" "b + 13 \<le> c" "chunk_allocated m p"
      using pk by (auto simp: prev_kept_def)
    have "?m2 (of_nat b + of_nat i) = m (of_nat b + of_nat i)" if "i < 13" for i
      using st(2) [of "b + i"] hdrs_outside [of c "b + i" "(True, s) # ys"] b(2) hi that by (simp del: hdrs.simps)
    from chunk_cong(3) [of ?m2 "of_nat b" m, OF this] b show ?thesis by simp
  qed simp
  then have eq: "heap_free m (of_nat (c + 13)) = ?m2"
    unfolding heap_free_alt free_merge_prev_def p by auto
  show "chain (heap_free m (of_nat (c + 13))) p c (join_free (False, s) ys) 0"
    unfolding eq by (rule st(1))
  show "x < 4294967296 \<Longrightarrow> x \<notin> hdrs c ((True, s) # ys) \<Longrightarrow>
      heap_free m (of_nat (c + 13)) (of_nat x) = m (of_nat x)"
    unfolding eq by (rule st(2))
qed

lemma release_Nil_iff [simp]: "release a q bs = [] \<longleftrightarrow> bs = []"
proof (cases bs)
  case (Cons b bs')
  have "join_free b' cs \<noteq> []" for b' cs by (cases "(b', cs)" rule: join_free.cases) auto
  then show ?thesis using Cons by (cases b) auto
qed simp

lemma join_free_allocated [simp]: "join_free (True, s) bs = (True, s) # bs"
  by (cases "((True, s), bs)" rule: join_free.cases) auto

lemma merged_tl: "merged (b # bs) \<Longrightarrow> merged bs"
  by (cases "b # bs" rule: merged.cases) auto

lemma merged_free_hd: "merged ((False, s) # b # bs) \<Longrightarrow> fst b"
  by (cases b; cases "fst b") auto

lemma merged_Cons_iff:
  "merged (b # bs) \<longleftrightarrow> merged bs \<and> (\<not> fst b \<longrightarrow> bs \<noteq> [] \<longrightarrow> fst (hd bs))"
  by (cases "b # bs" rule: merged.cases) auto

text \<open>Freeing the second chunk of a chain whose first chunk is free: both merges may happen.\<close>

lemma free_second:
  assumes ch: "chain m p a ((False, r) # (True, s) # ys) 0" and a: "0 < a"
    and hi: "a + hsize ((False, r) # (True, s) # ys) < 4294967296" and c: "c = a + 13 + r"
  shows "chain (heap_free m (of_nat (c + 13))) p a
      (join_free (False, r) (join_free (False, s) ys)) 0"
    and "x < 4294967296 \<Longrightarrow> x \<notin> hdrs a ((False, r) # (True, s) # ys) \<Longrightarrow>
      heap_free m (of_nat (c + 13)) (of_nat x) = m (of_nat x)"
proof -
  let ?m2 = "free_merge_next (set_allocated m (of_nat c) False) (of_nat c)"
  obtain s' ys' where sh: "join_free (False, s) ys = (False, s') # ys'"
    and hs: "hsize ((False, s') # ys') = hsize ((False, s) # ys)"
    using join_free_shape by blast
  have tl: "chain m (of_nat a) c ((True, s) # ys) 0" "c + hsize ((True, s) # ys) < 4294967296"
    using ch hi by (auto simp: c add.assoc)
  note st = free_first_steps [OF tl]
  have ch2: "chain ?m2 p a ((False, r) # (False, s') # ys') 0"
  proof (rule chain_head_frame [OF ch hi])
    show "?m2 (of_nat x) = m (of_nat x)"
      if "x < 4294967296" "\<not> (a + 13 + r \<le> x \<and> x < a + hsize ((False, r) # (True, s) # ys))" for x
      using st(2) [OF that(1) hdrs_outside] that(2) by (auto simp: c add.assoc)
  qed (use st in \<open>auto simp: sh c add.assoc\<close>)
  have hi2: "a + hsize ((False, r) # (False, s') # ys') < 4294967296"
    using hi hs by simp
  note mp = free_merge_prev_chain [OF ch2 a hi2 c]
  show "chain (heap_free m (of_nat (c + 13))) p a (join_free (False, r) (join_free (False, s) ys)) 0"
    unfolding heap_free_alt using mp(1) by (simp add: sh)
  show "heap_free m (of_nat (c + 13)) (of_nat x) = m (of_nat x)"
    if x: "x < 4294967296" "x \<notin> hdrs a ((False, r) # (True, s) # ys)"
  proof -
    have "x \<notin> hdrs c ((True, s) # ys)" using x(2) by (simp add: c)
    moreover have "hdrs a ((False, r) # (False, s') # ys') \<subseteq> hdrs a ((False, r) # (True, s) # ys)"
      using hdrs_join_free [of c s ys] sh by (auto simp: c)
    then have "x \<notin> hdrs a ((False, r) # (False, s') # ys')" using x(2) by blast
    ultimately show ?thesis unfolding heap_free_alt using mp(2) [OF x(1)] st(2) [OF x(1)] by simp
  qed
qed

lemma heap_free_chain:
  assumes "chain m p a bs 0" and "merged bs" and "0 < a" and "a + hsize bs < 4294967296"
    and "(q, s) \<in> live a bs" and "q = a + 13 \<longrightarrow> prev_kept m p a"
  shows "chain (heap_free m (of_nat q)) p a (release a q bs) 0 \<and>
    (\<forall>x < 4294967296. x \<notin> hdrs a bs \<longrightarrow> heap_free m (of_nat q) (of_nat x) = m (of_nat x))"
  using assms
proof (induction bs arbitrary: p a)
  case (Cons b bs)
  obtain al t where b: "b = (al, t)" by (cases b)
  note ch = Cons.prems(1) [unfolded b] and hi = Cons.prems(4) [unfolded b]
  have tl: "chain m (of_nat a) (a + 13 + t) bs 0" "merged bs" "0 < a + 13 + t"
    "a + 13 + t + hsize bs < 4294967296"
    using ch hi merged_tl [OF Cons.prems(2)] by (auto simp: add.assoc)
  show ?case
  proof (cases "q = a + 13")
    case True
    then have "(q, s) \<notin> live (a + 13 + t) bs" by (auto dest: live_bounds)
    then have "al" using Cons.prems(5) b by (auto split: if_splits)
    then show ?thesis
      using free_first [of m p a t bs] ch hi Cons.prems(6) True b by auto
  next
    case False
    then have lv: "(q, s) \<in> live (a + 13 + t) bs" using Cons.prems(5) b by (auto split: if_splits)
    show ?thesis
    proof (cases "q = a + 13 + t + 13 \<and> \<not> al")
      case True
      obtain al2 t2 bs2 where bs: "bs = (al2, t2) # bs2" using lv by (cases bs) auto
      have "al2" using merged_free_hd [of t "(al2, t2)" bs2] Cons.prems(2) b bs True by auto
      then show ?thesis
        using free_second [of m p a t t2 bs2 "a + 13 + t"] ch hi Cons.prems(3) b bs True False
        by auto
    next
      case other: False
      have "prev_kept m (of_nat a) (a + 13 + t)" if "q = a + 13 + t + 13"
        using other that ch by (auto simp: prev_kept_def intro!: exI [of _ a])
      with Cons.IH [OF tl lv] have IH: "chain (heap_free m (of_nat q)) (of_nat a) (a + 13 + t)
          (release (a + 13 + t) q bs) 0"
        and fr: "\<And>x. x < 4294967296 \<Longrightarrow> x \<notin> hdrs (a + 13 + t) bs \<Longrightarrow>
          heap_free m (of_nat q) (of_nat x) = m (of_nat x)" by auto
      have "chain (heap_free m (of_nat q)) p a ((al, t) # release (a + 13 + t) q bs) 0"
      proof (rule chain_head_frame [OF ch hi])
        show "heap_free m (of_nat q) (of_nat x) = m (of_nat x)"
          if "x < 4294967296" "\<not> (a + 13 + t \<le> x \<and> x < a + hsize ((al, t) # bs))" for x
          using fr [OF that(1) hdrs_outside] that(2) by (auto simp: add.assoc)
      qed (use IH in auto)
      moreover have "release a q (b # bs) = (al, t) # release (a + 13 + t) q bs"
      proof (cases al)
        case True
        then show ?thesis using b False by simp
      next
        case al: False
        obtain al2 t2 bs2 where bs: "bs = (al2, t2) # bs2" using lv by (cases bs) auto
        have "al2" using merged_free_hd [of t "(al2, t2)" bs2] Cons.prems(2) b bs al by auto
        then show ?thesis using b bs al False other by auto
      qed
      ultimately show ?thesis using fr b by (auto simp: add.assoc)
    qed
  qed
qed simp

section \<open>Properties of the block operations\<close>

lemma first_fit_None_iff: "first_fit a n bs = None \<longleftrightarrow> (\<forall>(al, s) \<in> set bs. al \<or> s < n)"
  by (induction a n bs rule: first_fit.induct) auto

lemma first_fit_size:
  "first_fit a n bs = Some (q, bs') \<Longrightarrow> hsize bs' = hsize bs \<and> bs' \<noteq> []"
  by (induction a n bs arbitrary: q bs' rule: first_fit.induct) (auto split: if_splits)

lemma first_fit_live:
  "first_fit a n bs = Some (q, bs') \<Longrightarrow>
     \<exists>s \<ge> n. live a bs' = insert (q, s) (live a bs) \<and> (\<forall>t. (q, t) \<notin> live a bs)"
proof (induction a n bs arbitrary: q bs' rule: first_fit.induct)
  case (2 a n al s bs)
  show ?case
  proof (cases "al \<or> s < n")
    case True
    with "2.prems" obtain cs where cs: "first_fit (a + 13 + s) n bs = Some (q, cs)"
      "bs' = (al, s) # cs" by auto
    from "2.IH" [OF True cs(1)] obtain t where "t \<ge> n"
      "live (a + 13 + s) cs = insert (q, t) (live (a + 13 + s) bs)"
      "\<forall>u. (q, u) \<notin> live (a + 13 + s) bs" by blast
    moreover from this have "a + 13 + s + 13 \<le> q" using live_bounds by blast
    ultimately show ?thesis by (auto simp: cs(2) intro!: exI [of _ t])
  next
    case False
    have "(a + 13, t) \<notin> live (a + 13 + s) bs" for t by (auto dest: live_bounds)
    note here = this
    show ?thesis
    proof (cases "n + 13 < s")
      case True
      then obtain k where "s = n + 13 + k" using less_imp_add_positive by blast
      then show ?thesis
        using False True "2.prems" here by (intro exI [of _ n]) (auto simp: ac_simps)
    next
      case big: False
      then show ?thesis using False "2.prems" here by (intro exI [of _ s]) auto
    qed
  qed
qed simp

lemma first_fit_merged: "first_fit a n bs = Some (q, bs') \<Longrightarrow> merged bs \<Longrightarrow> merged bs'"
proof (induction a n bs arbitrary: q bs' rule: first_fit.induct)
  case (2 a n al s bs)
  show ?case
  proof (cases "al \<or> s < n")
    case True
    with "2.prems"(1) obtain cs where cs: "first_fit (a + 13 + s) n bs = Some (q, cs)"
      "bs' = (al, s) # cs" by auto
    have "merged cs" using "2.IH" [OF True cs(1)] merged_tl [OF "2.prems"(2)] by blast
    moreover have "fst (hd cs)" if "\<not> al"
      using that cs(1) "2.prems"(2) by (cases bs) (auto simp: merged_Cons_iff split: if_splits)
    ultimately show ?thesis by (auto simp: cs(2) merged_Cons_iff)
  next
    case False
    with "2.prems" show ?thesis by (auto simp: merged_Cons_iff split: if_splits)
  qed
qed simp

lemma live_join_free: "live a (join_free b bs) = live a (b # bs)"
  by (cases "(b, bs)" rule: join_free.cases) (auto simp: add.assoc)

lemma release_live:
  "(q, s) \<in> live a bs \<Longrightarrow> live a (release a q bs) = live a bs - {(q, s)}"
proof (induction a q bs rule: release.induct)
  case (2 a q al t bs)
  show ?case
  proof (cases "q = a + 13")
    case True
    then have "(q, u) \<notin> live (a + 13 + t) bs" for u by (auto dest: live_bounds)
    with True "2.prems" show ?thesis by (auto simp: live_join_free split: if_splits)
  next
    case False
    then have "(q, s) \<in> live (a + 13 + t) bs" using "2.prems" by (auto split: if_splits)
    with False "2.IH" show ?thesis by (auto simp: live_join_free)
  qed
qed simp

lemma merged_join_free: "merged bs \<Longrightarrow> merged (join_free b bs)"
  by (cases "(b, bs)" rule: join_free.cases) (auto simp: merged_Cons_iff)

lemma release_merged: "merged bs \<Longrightarrow> merged (release a q bs)"
  by (induction a q bs rule: release.induct) (auto intro: merged_join_free dest: merged_tl)

text \<open>Allocation followed by the release of the same block restores the block list.\<close>

lemma release_first_fit:
  "first_fit a n bs = Some (q, bs') \<Longrightarrow> merged bs \<Longrightarrow> release a q bs' = bs"
proof (induction a n bs arbitrary: q bs' rule: first_fit.induct)
  case (2 a n al s bs)
  show ?case
  proof (cases "al \<or> s < n")
    case True
    with "2.prems"(1) obtain cs where cs: "first_fit (a + 13 + s) n bs = Some (q, cs)"
      "bs' = (al, s) # cs" by auto
    have "release (a + 13 + s) q cs = bs"
      using "2.IH" [OF True cs(1)] merged_tl [OF "2.prems"(2)] by blast
    moreover obtain t where "(q, t) \<in> live (a + 13 + s) cs" using first_fit_live [OF cs(1)] by auto
    then have "q \<noteq> a + 13" by (auto dest: live_bounds)
    moreover have "join_free (al, s) bs = (al, s) # bs"
      using "2.prems"(2) by (cases "((al, s), bs)" rule: join_free.cases) auto
    ultimately show ?thesis by (simp add: cs(2))
  next
    case False
    have "join_free (al, s) bs = (al, s) # bs"
      using "2.prems"(2) by (cases "((al, s), bs)" rule: join_free.cases) auto
    with False "2.prems"(1) show ?thesis by (auto split: if_splits)
  qed
qed simp

text \<open>The allocated payloads are pairwise disjoint and contain no header byte.\<close>

lemma live_disjoint:
  "(q, s) \<in> live a bs \<Longrightarrow> (r, t) \<in> live a bs \<Longrightarrow> (q, s) \<noteq> (r, t) \<Longrightarrow>
     q + s \<le> r \<or> r + t \<le> q"
proof (induction a bs rule: live.induct)
  case (2 a al u bs)
  have b: "a + 13 + u + 13 \<le> q'" if "(q', s') \<in> live (a + 13 + u) bs" for q' s'
    using live_bounds [OF that] by simp
  show ?case using 2 b by (auto split: if_splits) (use b in force)+
qed simp

lemma live_no_header: "(q, s) \<in> live a bs \<Longrightarrow> x \<in> hdrs a bs \<Longrightarrow> \<not> (q \<le> x \<and> x < q + s)"
proof (induction a bs rule: live.induct)
  case (2 a al u bs)
  have "a + 13 + u \<le> x" if "x \<in> hdrs (a + 13 + u) bs" using hdrs_bounds [OF that] by simp
  moreover have "a + 13 + u + 13 \<le> q" if "(q, s) \<in> live (a + 13 + u) bs"
    using live_bounds [OF that] by simp
  ultimately show ?case using 2 by (force split: if_splits)
qed simp

section \<open>The heap as a whole\<close>

lemma heap_repr_new:
  assumes "0 < start" and "13 \<le> n" and "start + n < 4294967296"
  shows "heap_repr (snd (MemoryManager_new m (of_nat start) (of_nat n))) start [(False, n - 13)]"
proof -
  have "(of_nat n - 13 :: u32) = of_nat (n - 13)" using assms(2) by (simp add: of_nat_diff)
  with assms show ?thesis
    by (simp add: heap_repr_def MemoryManager_new_def Let_def sizeof_MemoryChunk_def mem_simps)
qed

lemma heap_repr_malloc:
  assumes hr: "heap_repr m a bs" and n: "n < 4294967296"
  shows "\<exists>q m'. malloc \<lparr>first_chunk = of_nat a\<rparr> m (of_nat n) = Some (q, m') \<and>
    (case first_fit a n bs of
       None \<Rightarrow> q = 0 \<and> m' = m
     | Some (r, bs') \<Rightarrow> q = of_nat r \<and> heap_repr m' a bs') \<and>
    (\<forall>x < 4294967296. \<not> (a \<le> x \<and> x < a + hsize bs) \<longrightarrow> m' (of_nat x) = m (of_nat x))"
proof -
  have r: "0 < a" "a + hsize bs < 4294967296" "bs \<noteq> []" "chain m 0 a bs 0" "merged bs"
    using hr by (auto simp: heap_repr_def)
  from malloc_loop_chain [OF r(4,1,2) n] r(3) obtain q m' where
    mq: "malloc_loop m (of_nat a) (of_nat n) = Some (q, m')" and post: "malloc_post m 0 a n bs q m'"
    by auto
  have "heap_repr m' a bs'" if "first_fit a n bs = Some (k, bs')" for k bs'
    using that post r first_fit_size [OF that] first_fit_merged [OF that]
    by (auto simp: heap_repr_def malloc_post_def)
  with mq post show ?thesis
    by (auto simp: malloc_def malloc_post_def split: option.splits)
qed

lemma heap_repr_free:
  assumes hr: "heap_repr m a bs" and lv: "(q, s) \<in> live a bs"
  shows "heap_repr (heap_free m (of_nat q)) a (release a q bs)"
    and "x < 4294967296 \<Longrightarrow> x \<notin> hdrs a bs \<Longrightarrow> heap_free m (of_nat q) (of_nat x) = m (of_nat x)"
    and "x < 4294967296 \<Longrightarrow> \<not> (a \<le> x \<and> x < a + hsize bs) \<Longrightarrow>
      heap_free m (of_nat q) (of_nat x) = m (of_nat x)"
proof -
  have r: "0 < a" "a + hsize bs < 4294967296" "bs \<noteq> []" "chain m 0 a bs 0" "merged bs"
    using hr by (auto simp: heap_repr_def)
  have "prev_kept m 0 a" by (simp add: prev_kept_def)
  then have "q = a + 13 \<longrightarrow> prev_kept m 0 a" by simp
  note fc = heap_free_chain [OF r(4,5,1,2) lv this]
  show "heap_repr (heap_free m (of_nat q)) a (release a q bs)"
    using r conjunct1 [OF fc] by (auto simp: heap_repr_def release_merged)
  show fr: "x < 4294967296 \<Longrightarrow> x \<notin> hdrs a bs \<Longrightarrow> heap_free m (of_nat q) (of_nat x) = m (of_nat x)"
    using conjunct2 [OF fc] by blast
  show "x < 4294967296 \<Longrightarrow> \<not> (a \<le> x \<and> x < a + hsize bs) \<Longrightarrow>
      heap_free m (of_nat q) (of_nat x) = m (of_nat x)"
    using fr hdrs_outside by blast
qed

lemma heap_repr_cong:
  assumes hr: "heap_repr m a bs" and eq: "\<And>x. x \<in> hdrs a bs \<Longrightarrow> m' (of_nat x) = m (of_nat x)"
  shows "heap_repr m' a bs"
  using hr chain_cong [of a bs m' m 0 0] eq by (auto simp: heap_repr_def)

text \<open>A buffer taken from the heap and given back: only headers are written.\<close>

lemma buffer_new:
  assumes hr: "heap_repr m a bs" and n: "n < 4294967296" and ff: "first_fit a n bs = Some (r, bs')"
  shows "\<exists>m'. operator_new \<lparr>first_chunk = of_nat a\<rparr> m (of_nat n) = Some (of_nat r, m') \<and> heap_repr m' a bs' \<and>
    (\<forall>x < 4294967296. x \<notin> hdrs a bs' \<longrightarrow> m' (of_nat x) = m (of_nat x))"
proof -
  have r: "0 < a" "a + hsize bs < 4294967296" "bs \<noteq> []" "chain m 0 a bs 0" using hr by (auto simp: heap_repr_def)
  obtain q m' where l: "malloc_loop m (of_nat a) (of_nat n) = Some (q, m')" "malloc_post m 0 a n bs q m'"
    using malloc_loop_chain [OF r(4,1,2) n] r(3) by auto
  then have q: "q = of_nat r" "\<forall>x < 4294967296. x \<notin> hdrs a bs' \<longrightarrow> m' (of_nat x) = m (of_nat x)"
    using ff by (simp_all add: malloc_post_def)
  have "heap_repr m' a bs'" using heap_repr_malloc [OF hr n] l(1) ff by (auto simp: malloc_def)
  then show ?thesis using l(1) q by (simp add: operator_new_def malloc_def)
qed

lemma buffer_delete:
  assumes hr: "heap_repr m a bs'" and ff: "first_fit a n bs = Some (r, bs')" and mg: "merged bs"
  shows "heap_repr (operator_delete m (of_nat r)) a bs"
    "x < 4294967296 \<Longrightarrow> x \<notin> hdrs a bs' \<Longrightarrow> operator_delete m (of_nat r) (of_nat x) = m (of_nat x)"
proof -
  obtain s where lv: "(r, s) \<in> live a bs'" using first_fit_live [OF ff] by auto
  show "heap_repr (operator_delete m (of_nat r)) a bs"
    using heap_repr_free(1) [OF hr lv] release_first_fit [OF ff mg] by (simp add: operator_delete_def)
  show "x < 4294967296 \<Longrightarrow> x \<notin> hdrs a bs' \<Longrightarrow> operator_delete m (of_nat r) (of_nat x) = m (of_nat x)"
    using heap_repr_free(2) [OF hr lv] by (simp add: operator_delete_def)
qed

lemma chain_unique:
  "chain m p a bs 0 \<Longrightarrow> chain m p a cs 0 \<Longrightarrow> bs \<noteq> [] \<Longrightarrow> cs \<noteq> [] \<Longrightarrow>
   a + hsize bs < 4294967296 \<Longrightarrow> a + hsize cs < 4294967296 \<Longrightarrow> bs = cs"
proof (induction bs arbitrary: p a cs)
  case (Cons b bs)
  obtain al s where b: "b = (al, s)" by (cases b)
  obtain al' s' cs' where cs: "cs = (al', s') # cs'" using Cons.prems(4) by (cases cs) auto
  have hi: "a + 13 + s < 4294967296" "a + 13 + s' < 4294967296"
    using Cons.prems(5,6) b cs by auto
  have ss: "s' = s" using Cons.prems(1,2) hi b cs of_nat_u32_eq_iff [of s s'] by auto
  have al: "al' = al" using Cons.prems(1,2) b cs by auto
  have nz: "(of_nat (a + 13 + s) :: u32) \<noteq> 0"
    using hi of_nat_u32_eq_0_iff [of "a + 13 + s"] by simp
  have nil: "cs' = [] \<longleftrightarrow> bs = []"
    using Cons.prems(1,2) b cs nz ss by (simp del: of_nat_add split: if_splits)
  have tl: "chain m (of_nat a) (a + 13 + s) bs 0" "chain m (of_nat a) (a + 13 + s) cs' 0"
    "a + 13 + s + hsize bs < 4294967296" "a + 13 + s + hsize cs' < 4294967296"
    using Cons.prems b cs ss by (simp_all add: add.assoc)
  have "bs = cs'"
  proof (cases "bs = []")
    case False
    then show ?thesis using Cons.IH [OF tl(1,2) _ _ tl(3,4)] nil by blast
  qed (use nil in simp)
  then show ?case using b cs ss al by simp
qed simp

lemma heap_repr_unique: "heap_repr m a bs \<Longrightarrow> heap_repr m a cs \<Longrightarrow> bs = cs"
  using chain_unique [of m 0 a bs cs] by (simp add: heap_repr_def)

section \<open>The allocator interface\<close>

text \<open>
  What the rest of the kernel relies on when it uses \<open>new\<close> and \<open>delete\<close>: an allocator ends,
  hands out blocks that are large enough and disjoint from all blocks in use, and a released
  block is forgotten and nothing else.
\<close>

locale allocator =
  fixes inv :: "'s \<Rightarrow> bool"
    and blocks :: "'s \<Rightarrow> (nat \<times> nat) set"
    and alloc :: "'s \<Rightarrow> nat \<Rightarrow> (nat \<times> 's) option"
    and dealloc :: "'s \<Rightarrow> nat \<Rightarrow> 's"
  assumes alloc_ends: "inv s \<Longrightarrow> n < 4294967296 \<Longrightarrow> \<exists>q s'. alloc s n = Some (q, s')"
    and alloc_inv: "inv s \<Longrightarrow> n < 4294967296 \<Longrightarrow> alloc s n = Some (q, s') \<Longrightarrow> inv s'"
    and alloc_null: "inv s \<Longrightarrow> n < 4294967296 \<Longrightarrow> alloc s n = Some (0, s') \<Longrightarrow> s' = s"
    and alloc_block: "inv s \<Longrightarrow> n < 4294967296 \<Longrightarrow> alloc s n = Some (q, s') \<Longrightarrow> q \<noteq> 0 \<Longrightarrow>
      \<exists>k \<ge> n. blocks s' = insert (q, k) (blocks s) \<and> (\<forall>t. (q, t) \<notin> blocks s)"
    and dealloc_inv: "inv s \<Longrightarrow> (q, k) \<in> blocks s \<Longrightarrow> inv (dealloc s q)"
    and dealloc_blocks: "inv s \<Longrightarrow> (q, k) \<in> blocks s \<Longrightarrow>
      blocks (dealloc s q) = blocks s - {(q, k)}"
    and blocks_disjoint: "inv s \<Longrightarrow> (q, k) \<in> blocks s \<Longrightarrow> (r, l) \<in> blocks s \<Longrightarrow>
      (q, k) \<noteq> (r, l) \<Longrightarrow> q + k \<le> r \<or> r + l \<le> q"
begin

text \<open>A new block shares no byte with a block that was in use before.\<close>

lemma alloc_fresh:
  assumes "inv s" and "n < 4294967296" and "alloc s n = Some (q, s')" and "q \<noteq> 0"
    and "(r, l) \<in> blocks s"
  shows "q + n \<le> r \<or> r + l \<le> q"
proof -
  obtain k where k: "n \<le> k" "blocks s' = insert (q, k) (blocks s)" "\<forall>t. (q, t) \<notin> blocks s"
    using alloc_block [OF assms(1-4)] by blast
  then have "(q, k) \<noteq> (r, l)" using assms(5) by auto
  with blocks_disjoint [OF alloc_inv [OF assms(1-3)], of q k r l] k assms(5) show ?thesis by auto
qed

text \<open>A scratch buffer (\<open>new\<close>, use, \<open>delete\<close>) leaves the blocks in use as they were.\<close>

lemma scratch_buffer:
  assumes "inv s" and "n < 4294967296" and "alloc s n = Some (q, s')" and "q \<noteq> 0"
  shows "inv (dealloc s' q)" and "blocks (dealloc s' q) = blocks s"
proof -
  obtain k where k: "blocks s' = insert (q, k) (blocks s)" "\<forall>t. (q, t) \<notin> blocks s"
    using alloc_block [OF assms] by blast
  then show "inv (dealloc s' q)" "blocks (dealloc s' q) = blocks s"
    using dealloc_inv [OF alloc_inv [OF assms(1-3)], of q k]
      dealloc_blocks [OF alloc_inv [OF assms(1-3)], of q k] by auto
qed

end

text \<open>The kernel heap provides it. The state is the manager object and the memory.\<close>

type_synonym heap_state = "MemoryManager \<times> mem"

definition heap_inv :: "heap_state \<Rightarrow> bool" where
  "heap_inv s \<longleftrightarrow> (\<exists>bs. heap_repr (snd s) (unat (first_chunk (fst s))) bs)"

definition heap_blocks :: "heap_state \<Rightarrow> (nat \<times> nat) set" where
  "heap_blocks s =
     {b. \<exists>bs. heap_repr (snd s) (unat (first_chunk (fst s))) bs \<and>
         b \<in> live (unat (first_chunk (fst s))) bs}"

definition heap_alloc :: "heap_state \<Rightarrow> nat \<Rightarrow> (nat \<times> heap_state) option" where
  "heap_alloc s n =
     map_option (\<lambda>(q, m'). (unat q, (fst s, m'))) (operator_new (fst s) (snd s) (of_nat n))"

definition heap_dealloc :: "heap_state \<Rightarrow> nat \<Rightarrow> heap_state" where
  "heap_dealloc s q = (fst s, operator_delete (snd s) (of_nat q))"

lemma heap_blocks_eq:
  "heap_repr m (unat (first_chunk mm)) bs \<Longrightarrow>
     heap_blocks (mm, m) = live (unat (first_chunk mm)) bs"
  by (auto simp: heap_blocks_def dest: heap_repr_unique)

lemma heap_alloc_cases:
  assumes hr: "heap_repr m (unat (first_chunk mm)) bs" and n: "n < 4294967296"
  shows "\<exists>q m'. heap_alloc (mm, m) n = Some (q, (mm, m')) \<and>
    (case first_fit (unat (first_chunk mm)) n bs of
       None \<Rightarrow> q = 0 \<and> m' = m
     | Some (r, bs') \<Rightarrow> q = r \<and> 0 < r \<and> heap_repr m' (unat (first_chunk mm)) bs')"
proof -
  let ?a = "unat (first_chunk mm)"
  have mm: "\<lparr>first_chunk = of_nat ?a\<rparr> = mm" by simp
  from heap_repr_malloc [OF hr n] obtain q m' where
    mq: "malloc mm m (of_nat n) = Some (q, m')" and
    post: "case first_fit ?a n bs of None \<Rightarrow> q = 0 \<and> m' = m
      | Some (r, bs') \<Rightarrow> q = of_nat r \<and> heap_repr m' ?a bs'"
    unfolding mm by blast
  have "unat q = r \<and> 0 < r" if ff: "first_fit ?a n bs = Some (r, bs')" for r bs'
  proof -
    obtain s where "(r, s) \<in> live ?a bs'" using first_fit_live [OF ff] by auto
    then have "?a + 13 \<le> r" "r \<le> ?a + hsize bs'" by (auto dest: live_bounds)
    moreover have "?a + hsize bs' < 4294967296"
      using hr first_fit_size [OF ff] by (simp add: heap_repr_def)
    ultimately show ?thesis using post ff by (auto simp: u32_simps)
  qed
  with mq post show ?thesis
    by (auto simp: heap_alloc_def operator_new_def split: option.splits)
qed

lemma heap_invD: "heap_inv s \<Longrightarrow> \<exists>bs. heap_repr (snd s) (unat (first_chunk (fst s))) bs \<and>
    heap_blocks s = live (unat (first_chunk (fst s))) bs"
  using heap_blocks_eq [of "snd s" "fst s"] by (auto simp: heap_inv_def)

lemma heap_allocD:
  assumes "heap_inv s" and "n < 4294967296"
  shows "\<exists>q m' bs. heap_alloc s n = Some (q, (fst s, m')) \<and>
    heap_repr (snd s) (unat (first_chunk (fst s))) bs \<and>
    heap_blocks s = live (unat (first_chunk (fst s))) bs \<and>
    (case first_fit (unat (first_chunk (fst s))) n bs of
       None \<Rightarrow> q = 0 \<and> m' = snd s
     | Some (r, bs') \<Rightarrow> q = r \<and> 0 < r \<and> heap_repr m' (unat (first_chunk (fst s))) bs')"
proof -
  obtain bs where bs: "heap_repr (snd s) (unat (first_chunk (fst s))) bs"
    "heap_blocks s = live (unat (first_chunk (fst s))) bs"
    using heap_invD [OF assms(1)] by blast
  note cs = heap_alloc_cases [OF bs(1) assms(2), unfolded prod.collapse]
  show ?thesis using cs bs by blast
qed

interpretation kheap: allocator heap_inv heap_blocks heap_alloc heap_dealloc
proof (unfold_locales, goal_cases)
  case (1 s n)
  then show ?case using heap_allocD by blast
next
  case (2 s n q s')
  from heap_allocD [OF 2(1,2)] 2(3) show ?case
    by (auto simp: heap_inv_def split: option.splits)
next
  case (3 s n s')
  from heap_allocD [OF 3(1,2)] 3(3) show ?case by (auto split: option.splits)
next
  case (4 s n q s')
  from heap_allocD [OF 4(1,2)] 4(3,4) obtain bs bs' m' where
    ff: "first_fit (unat (first_chunk (fst s))) n bs = Some (q, bs')"
    and s': "s' = (fst s, m')" "heap_repr m' (unat (first_chunk (fst s))) bs'"
    and bl: "heap_blocks s = live (unat (first_chunk (fst s))) bs"
    by (auto split: option.splits)
  show ?case
    using first_fit_live [OF ff] heap_blocks_eq [OF s'(2)] by (simp add: s'(1) bl)
next
  case (5 s q k)
  then obtain bs where "heap_repr (snd s) (unat (first_chunk (fst s))) bs"
    "(q, k) \<in> live (unat (first_chunk (fst s))) bs"
    by (auto dest: heap_invD)
  from heap_repr_free(1) [OF this] show ?case
    by (auto simp: heap_inv_def heap_dealloc_def operator_delete_def)
next
  case (6 s q k)
  obtain bs where bs: "heap_repr (snd s) (unat (first_chunk (fst s))) bs"
    "heap_blocks s = live (unat (first_chunk (fst s))) bs"
    using heap_invD [OF 6(1)] by blast
  have lv: "(q, k) \<in> live (unat (first_chunk (fst s))) bs" using 6(2) bs(2) by simp
  show ?case
    using heap_blocks_eq [OF heap_repr_free(1) [OF bs(1) lv]] release_live [OF lv]
    by (simp add: heap_dealloc_def operator_delete_def bs(2))
next
  case (7 s q k r l)
  obtain bs where "heap_blocks s = live (unat (first_chunk (fst s))) bs"
    using heap_invD [OF 7(1)] by blast
  with 7 show ?case by (metis live_disjoint)
qed

section \<open>Properties\<close>

text \<open>A fresh heap of 113 bytes at 4096, for the concrete instances below.\<close>

definition demo_heap :: mem where
  "demo_heap = snd (MemoryManager_new (\<lambda>_. 0) 4096 113)"

lemma demo_heap_repr: "heap_repr demo_heap 4096 [(False, 100)]"
  using heap_repr_new [of 4096 113 "\<lambda>_. 0"] by (simp add: demo_heap_def)

text \<open>C1: \<open>malloc\<close> on a well-formed heap always returns, and it implements first fit. It returns
  the null pointer and changes nothing exactly when every chunk is in use or too small;
  otherwise it returns the non-null payload address that first fit chooses and the new memory
  represents the new block list (which is again well formed, with no two free neighbours).
  Memory outside the heap's region is not written.\<close>

theorem malloc_refines_first_fit:
  assumes "heap_repr m a bs" and "n < 4294967296"
  shows "\<exists>q m'. malloc \<lparr>first_chunk = of_nat a\<rparr> m (of_nat n) = Some (q, m') \<and>
    (q = 0 \<longleftrightarrow> (\<forall>(al, s) \<in> set bs. al \<or> s < n)) \<and>
    (case first_fit a n bs of
       None \<Rightarrow> m' = m
     | Some (r, bs') \<Rightarrow> unat q = r \<and> heap_repr m' a bs') \<and>
    (\<forall>x < 4294967296. \<not> (a \<le> x \<and> x < a + hsize bs) \<longrightarrow> m' (of_nat x) = m (of_nat x))"
proof -
  obtain q m' where mq: "malloc \<lparr>first_chunk = of_nat a\<rparr> m (of_nat n) = Some (q, m')"
    and post: "case first_fit a n bs of None \<Rightarrow> q = 0 \<and> m' = m
      | Some (r, bs') \<Rightarrow> q = of_nat r \<and> heap_repr m' a bs'"
    and fr: "\<forall>x < 4294967296. \<not> (a \<le> x \<and> x < a + hsize bs) \<longrightarrow> m' (of_nat x) = m (of_nat x)"
    using heap_repr_malloc [OF assms] by blast
  have a: "unat (of_nat a :: u32) = a" using assms(1) by (simp add: heap_repr_def u32_simps)
  have "unat q = r \<and> 0 < r" if "first_fit a n bs = Some (r, bs')" for r bs'
    using heap_alloc_cases [of m "\<lparr>first_chunk = of_nat a\<rparr>" bs n] assms a mq that
    by (simp add: heap_alloc_def operator_new_def)
  with mq post fr show ?thesis
    using first_fit_None_iff [of a n bs] by (auto split: option.splits)
qed

theorem malloc_refines_first_fit_witness:
  "heap_repr demo_heap 4096 [(False, 100)] \<and>
   (\<exists>q m'. malloc \<lparr>first_chunk = 4096\<rparr> demo_heap 20 = Some (q, m') \<and> unat q = 4109 \<and>
     heap_repr m' 4096 [(True, 20), (False, 67)])"
  using malloc_refines_first_fit [OF demo_heap_repr, of 20] demo_heap_repr by auto

text \<open>A block handed out by \<open>operator new\<close> overlaps no block that is already in use.\<close>

theorem new_block_is_fresh:
  assumes "heap_inv s" and "n < 4294967296"
    and "operator_new (fst s) (snd s) (of_nat n) = Some (q, m')" and "q \<noteq> 0"
    and "(r, l) \<in> heap_blocks s"
  shows "unat q + n \<le> r \<or> r + l \<le> unat q"
proof -
  have "heap_alloc s n = Some (unat q, (fst s, m'))" using assms(3) by (simp add: heap_alloc_def)
  moreover have "unat q \<noteq> 0" using assms(4) by (simp add: unat_eq_zero)
  ultimately show ?thesis using kheap.alloc_fresh [OF assms(1,2)] assms(5) by blast
qed

text \<open>C2: \<open>free\<close> of a block in use implements the specification: the block is marked free and
  merged with a free successor and with a free predecessor, so that the new block list again
  has no two free neighbours; every other block stays in use at its address; memory outside
  the heap's region is not written.\<close>

theorem free_refines_release:
  assumes "heap_repr m a bs" and "(q, s) \<in> live a bs"
  shows "heap_repr (heap_free m (of_nat q)) a (release a q bs) \<and>
    live a (release a q bs) = live a bs - {(q, s)} \<and> hsize (release a q bs) = hsize bs \<and>
    (\<forall>x < 4294967296. \<not> (a \<le> x \<and> x < a + hsize bs) \<longrightarrow>
      heap_free m (of_nat q) (of_nat x) = m (of_nat x))"
  using heap_repr_free [OF assms] release_live [OF assms(2)] by simp

text \<open>Freeing a block right after allocating it restores the layout of the heap exactly: the
  split is undone.\<close>

theorem malloc_free_round_trip:
  assumes "heap_repr m a bs" and "n < 4294967296"
    and "malloc \<lparr>first_chunk = of_nat a\<rparr> m (of_nat n) = Some (q, m')" and "q \<noteq> 0"
  shows "heap_repr (heap_free m' q) a bs"
proof -
  obtain r bs' where ff: "first_fit a n bs = Some (r, bs')" and q: "q = of_nat r"
    and hr: "heap_repr m' a bs'"
    using heap_repr_malloc [OF assms(1,2)] assms(3,4) by (auto split: option.splits)
  obtain s where "(r, s) \<in> live a bs'" using first_fit_live [OF ff] by auto
  from heap_repr_free(1) [OF hr this] release_first_fit [OF ff] assms(1) q show ?thesis
    by (simp add: heap_repr_def)
qed


text \<open>The concrete instances: a 20-byte block is allocated in the fresh heap.\<close>

lemma demo_heap_alloc:
  "\<exists>m'. malloc \<lparr>first_chunk = 4096\<rparr> demo_heap 20 = Some (4109, m') \<and>
    heap_repr m' 4096 [(True, 20), (False, 67)]"
  using heap_repr_malloc [OF demo_heap_repr, of 20] by auto

theorem new_block_is_fresh_witness:
  "\<exists>m q m'. heap_inv (\<lparr>first_chunk = 4096\<rparr>, m) \<and>
    heap_blocks (\<lparr>first_chunk = 4096\<rparr>, m) = {(4109, 20)} \<and>
    operator_new \<lparr>first_chunk = 4096\<rparr> m 30 = Some (q, m') \<and> unat q = 4142 \<and>
    (unat q + 30 \<le> 4109 \<or> 4109 + 20 \<le> unat q)"
proof -
  obtain m where hr: "heap_repr m 4096 [(True, 20), (False, 67)]" using demo_heap_alloc by blast
  then have s: "heap_inv (\<lparr>first_chunk = 4096\<rparr>, m)"
    "heap_blocks (\<lparr>first_chunk = 4096\<rparr>, m) = {(4109, 20)}"
    using heap_blocks_eq [of m "\<lparr>first_chunk = 4096\<rparr>"] by (auto simp: heap_inv_def)
  obtain m' where m': "malloc \<lparr>first_chunk = 4096\<rparr> m 30 = Some (4142, m')"
    using heap_repr_malloc [OF hr, of 30] by auto
  then have "operator_new \<lparr>first_chunk = 4096\<rparr> m 30 = Some (4142, m')"
    by (simp add: operator_new_def)
  with s new_block_is_fresh [OF s(1), of 30 4142 m' 4109 20] show ?thesis by auto
qed

theorem free_refines_release_witness:
  "\<exists>m. heap_repr m 4096 [(True, 20), (False, 67)] \<and> (4109, 20) \<in> live 4096 [(True, 20), (False, 67)] \<and>
    heap_repr (heap_free m 4109) 4096 [(False, 100)]"
proof -
  obtain m where hr: "heap_repr m 4096 [(True, 20), (False, 67)]" using demo_heap_alloc by blast
  have lv: "(4109, 20) \<in> live 4096 [(True, 20), (False, 67)]" by simp
  show ?thesis using hr lv free_refines_release [OF hr lv] by auto
qed

theorem malloc_free_round_trip_witness:
  "\<exists>m'. malloc \<lparr>first_chunk = 4096\<rparr> demo_heap 20 = Some (4109, m') \<and>
    heap_repr (heap_free m' 4109) 4096 [(False, 100)]"
proof -
  obtain m' where m': "malloc \<lparr>first_chunk = 4096\<rparr> demo_heap 20 = Some (4109, m')"
    using demo_heap_alloc by blast
  then show ?thesis using malloc_free_round_trip [OF demo_heap_repr, of 20 4109 m'] by auto
qed


end
