(* ===== verification/Frame_Allocator.thy ===== *)
theory Frame_Allocator
  imports Prelude
begin

text \<open>
  The physical memory manager, \<^verbatim>\<open>src/src/memory/pmm.h\<close> and \<^verbatim>\<open>pmm.cpp\<close>: one bit per
  4 KiB frame in the static array \<open>pmm_bitmap\<close> of 32768 dwords (a set bit is a frame in use),
  the number of frames and a running count of the free ones. The class is static, so its
  state is one record. Frame numbers and counts are 32-bit words, as in the code; the lemmas
  read them as natural numbers and describe the state by its set of free frames.
\<close>

section \<open>State and operations\<close>

record pmm =
  bitmap :: "u32 list"
  total_frames :: u32
  free_frames :: u32

definition bit_mask :: "u32 \<Rightarrow> u32" where
  "bit_mask frame = push_bit (unat (frame mod 32)) 1"

definition SetBit :: "pmm \<Rightarrow> u32 \<Rightarrow> pmm" where
  "SetBit s frame =
     s\<lparr>bitmap := (bitmap s)[unat (frame div 32) :=
        bitmap s ! unat (frame div 32) OR bit_mask frame]\<rparr>"

definition ClearBit :: "pmm \<Rightarrow> u32 \<Rightarrow> pmm" where
  "ClearBit s frame =
     s\<lparr>bitmap := (bitmap s)[unat (frame div 32) :=
        bitmap s ! unat (frame div 32) AND NOT (bit_mask frame)]\<rparr>"

definition TestBit :: "pmm \<Rightarrow> u32 \<Rightarrow> bool" where
  "TestBit s frame \<longleftrightarrow> (bitmap s ! unat (frame div 32)) AND bit_mask frame \<noteq> 0"

definition PMM_Init :: "pmm \<Rightarrow> u32 \<Rightarrow> pmm" where
  "PMM_Init s mem_size =
     (let tf = mem_size div 4096; dwords = (tf + 31) div 32
      in \<lparr>bitmap = replicate (unat dwords) 0xFFFFFFFF @ drop (unat dwords) (bitmap s),
          total_frames = tf, free_frames = 0\<rparr>)"

text \<open>The inner loop of \<open>FirstFree\<close>: the first clear bit of dword \<open>i\<close> that is a frame.\<close>

definition FirstFree_dword :: "pmm \<Rightarrow> nat \<Rightarrow> u32 option" where
  "FirstFree_dword s i =
     (if bitmap s ! i \<noteq> 0xFFFFFFFF
      then let inv = NOT (bitmap s ! i)
           in map_option (\<lambda>b. of_nat i * 32 + of_nat b)
                (find (\<lambda>b. inv AND push_bit b 1 \<noteq> 0 \<and> of_nat i * 32 + of_nat b < total_frames s)
                   [0..<32])
      else None)"

definition FirstFree :: "pmm \<Rightarrow> int" where
  "FirstFree s =
     (let dwords = (total_frames s + 31) div 32
      in case first_some (FirstFree_dword s) [0..<unat dwords] of
           None \<Rightarrow> -1
         | Some frame \<Rightarrow> sint frame)"

definition AllocFrame :: "pmm \<Rightarrow> u32 \<times> pmm" where
  "AllocFrame s =
     (let frame = FirstFree s
      in if frame < 0 then (0, s)
         else let s1 = SetBit s (of_int frame);
                  s2 = (if free_frames s1 > 0 then s1\<lparr>free_frames := free_frames s1 - 1\<rparr> else s1)
              in (of_int frame * 4096, s2))"

definition FreeFrame :: "pmm \<Rightarrow> u32 \<Rightarrow> pmm" where
  "FreeFrame s addr =
     (let s1 = ClearBit s (addr div 4096) in s1\<lparr>free_frames := free_frames s1 + 1\<rparr>)"

definition MarkUsed_body :: "nat \<Rightarrow> pmm \<Rightarrow> pmm" where
  "MarkUsed_body i s =
     (let s1 = (if \<not> TestBit s (of_nat i) \<and> free_frames s > 0
                then s\<lparr>free_frames := free_frames s - 1\<rparr> else s)
      in SetBit s1 (of_nat i))"

definition MarkUsed :: "pmm \<Rightarrow> u32 \<Rightarrow> u32 \<Rightarrow> pmm" where
  "MarkUsed s addr len =
     (let start = addr div 4096; stop = (addr + len + 4095) div 4096
      in fold MarkUsed_body [unat start..<min (unat stop) (unat (total_frames s))] s)"

definition MarkFree_body :: "nat \<Rightarrow> pmm \<Rightarrow> pmm" where
  "MarkFree_body i s =
     (let s1 = (if TestBit s (of_nat i) then s\<lparr>free_frames := free_frames s + 1\<rparr> else s)
      in ClearBit s1 (of_nat i))"

definition MarkFree :: "pmm \<Rightarrow> u32 \<Rightarrow> u32 \<Rightarrow> pmm" where
  "MarkFree s addr len =
     (let start = addr div 4096; stop = (addr + len) div 4096
      in fold MarkFree_body [unat start..<min (unat stop) (unat (total_frames s))] s)"

definition FreeFrameCount :: "pmm \<Rightarrow> u32" where
  "FreeFrameCount s = free_frames s"

definition TotalFrameCount :: "pmm \<Rightarrow> u32" where
  "TotalFrameCount s = total_frames s"

section \<open>Specification: the set of free frames\<close>

definition used_bit :: "pmm \<Rightarrow> nat \<Rightarrow> bool" where
  "used_bit s f \<longleftrightarrow> bit (bitmap s ! (f div 32)) (f mod 32)"

definition free_set :: "pmm \<Rightarrow> nat set" where
  "free_set s = {f. f < unat (total_frames s) \<and> \<not> used_bit s f}"

text \<open>
  The array has its 32768 dwords, so the bit of every 32-bit address exists; there are at most
  \<open>2 ^ 20\<close> frames; the running count is the number of free frames.
\<close>

definition pmm_wf :: "pmm \<Rightarrow> bool" where
  "pmm_wf s \<longleftrightarrow> length (bitmap s) = 32768 \<and> unat (total_frames s) \<le> 1048576"

definition pmm_inv :: "pmm \<Rightarrow> bool" where
  "pmm_inv s \<longleftrightarrow> pmm_wf s \<and> unat (free_frames s) = card (free_set s)"

section \<open>Bits\<close>

lemma unat_frame_div_mod [simp]:
  "f < 4294967296 \<Longrightarrow> unat ((of_nat f :: u32) div 32) = f div 32"
  "f < 4294967296 \<Longrightarrow> unat ((of_nat f :: u32) mod 32) = f mod 32"
  by (simp_all add: unat_div unat_mod u32_simps)

lemma TestBit_iff: "f < 4294967296 \<Longrightarrow> TestBit s (of_nat f) \<longleftrightarrow> used_bit s f"
  by (simp add: TestBit_def used_bit_def bit_mask_def bit_iff_and_push_bit_not_eq_0)

lemma frame_bit_eq_iff: "(f :: nat) div 32 = g div 32 \<and> f mod 32 = g mod 32 \<longleftrightarrow> f = g"
  by (metis div_mult_mod_eq)

lemma used_bit_SetBit:
  assumes "pmm_wf s" and "f < 1048576" and "g < 1048576"
  shows "used_bit (SetBit s (of_nat f)) g \<longleftrightarrow> used_bit s g \<or> g = f"
proof -
  have "f div 32 < length (bitmap s)" using assms by (simp add: pmm_wf_def less_mult_imp_div_less)
  then show ?thesis
    using assms frame_bit_eq_iff [of f g]
    by (auto simp: used_bit_def SetBit_def bit_mask_def bit_simps nth_list_update)
qed

lemma used_bit_ClearBit:
  assumes "pmm_wf s" and "f < 1048576" and "g < 1048576"
  shows "used_bit (ClearBit s (of_nat f)) g \<longleftrightarrow> used_bit s g \<and> g \<noteq> f"
proof -
  have "f div 32 < length (bitmap s)" using assms by (simp add: pmm_wf_def less_mult_imp_div_less)
  then show ?thesis
    using assms frame_bit_eq_iff [of f g]
    by (auto simp: used_bit_def ClearBit_def bit_mask_def bit_simps nth_list_update)
qed

lemma SetBit_frame [simp]:
  "length (bitmap (SetBit s f)) = length (bitmap s)" "total_frames (SetBit s f) = total_frames s"
  "free_frames (SetBit s f) = free_frames s"
  by (simp_all add: SetBit_def)

lemma ClearBit_frame [simp]:
  "length (bitmap (ClearBit s f)) = length (bitmap s)" "total_frames (ClearBit s f) = total_frames s"
  "free_frames (ClearBit s f) = free_frames s"
  by (simp_all add: ClearBit_def)

lemma used_bit_free_frames [simp]: "used_bit (s\<lparr>free_frames := n\<rparr>) f = used_bit s f"
  by (simp add: used_bit_def)

lemma pmm_wf_simps [simp]:
  "pmm_wf (SetBit s f) = pmm_wf s" "pmm_wf (ClearBit s f) = pmm_wf s"
  "pmm_wf (s\<lparr>free_frames := n\<rparr>) = pmm_wf s"
  by (simp_all add: pmm_wf_def)

lemma free_set_bound: "pmm_wf s \<Longrightarrow> f \<in> free_set s \<Longrightarrow> f < 1048576"
  by (auto simp: free_set_def pmm_wf_def)

lemma finite_free_set [simp]: "finite (free_set s)"
  by (simp add: free_set_def)

lemma card_free_set_le: "pmm_wf s \<Longrightarrow> card (free_set s) \<le> 1048576"
  using card_mono [of "{..<1048576}" "free_set s"] free_set_bound [of s] by fastforce

lemma free_set_SetBit:
  "pmm_wf s \<Longrightarrow> f < unat (total_frames s) \<Longrightarrow> free_set (SetBit s (of_nat f)) = free_set s - {f}"
  using used_bit_SetBit [of s f] by (auto simp: free_set_def pmm_wf_def)

lemma free_set_ClearBit:
  "pmm_wf s \<Longrightarrow> f < unat (total_frames s) \<Longrightarrow> free_set (ClearBit s (of_nat f)) = insert f (free_set s)"
  using used_bit_ClearBit [of s f] by (auto simp: free_set_def pmm_wf_def)

lemma free_set_free_frames [simp]: "free_set (s\<lparr>free_frames := n\<rparr>) = free_set s"
  by (simp add: free_set_def)

section \<open>FirstFree finds the lowest free frame\<close>

lemma unat_frame_of: "i < 32768 \<Longrightarrow> b < 32 \<Longrightarrow> unat (of_nat i * 32 + of_nat b :: u32) = i * 32 + b"
  using unat_u32_of_nat [of "i * 32 + b"] by simp

lemma bit_eq_NOT_and: "b < 32 \<Longrightarrow> NOT (w :: u32) AND 2 ^ b = 0 \<longleftrightarrow> bit w b"
  using bit_iff_and_push_bit_not_eq_0 [of "NOT w" b] by (simp add: bit_not_iff)

lemma all_ones_bit: "b < 32 \<Longrightarrow> bit (0xFFFFFFFF :: u32) b"
proof -
  have "(0xFFFFFFFF :: u32) = - 1" by simp
  then show "b < 32 \<Longrightarrow> bit (0xFFFFFFFF :: u32) b" by (simp only: bit_minus_1_iff) simp
qed

lemma dword_pred_iff:
  assumes "i < 32768" and "b < 32"
  shows "NOT (bitmap s ! i) AND push_bit b 1 \<noteq> 0 \<and> of_nat i * 32 + of_nat b < total_frames s \<longleftrightarrow>
    i * 32 + b \<in> free_set s"
  using assms by (auto simp: bit_eq_NOT_and free_set_def used_bit_def word_less_nat_alt unat_frame_of)

lemma FirstFree_dword_None:
  assumes "i < 32768" and "FirstFree_dword s i = None" and "b < 32"
  shows "i * 32 + b \<notin> free_set s"
proof (cases "bitmap s ! i = 0xFFFFFFFF")
  case True
  then show ?thesis using all_ones_bit [OF assms(3)] assms(3) by (simp add: free_set_def used_bit_def)
next
  case False
  then show ?thesis
    using assms(2) dword_pred_iff [OF assms(1), of _ s] assms(3)
    by (auto simp: FirstFree_dword_def find_None_iff Let_def)
qed

lemma FirstFree_dword_Some:
  assumes "i < 32768" and "FirstFree_dword s i = Some y"
  shows "\<exists>b < 32. y = of_nat (i * 32 + b) \<and> i * 32 + b \<in> free_set s \<and>
    (\<forall>c < b. i * 32 + c \<notin> free_set s)"
proof -
  obtain b where y: "y = of_nat i * 32 + of_nat b"
    and fb: "find (\<lambda>b. NOT (bitmap s ! i) AND push_bit b 1 \<noteq> 0 \<and>
      of_nat i * 32 + of_nat b < total_frames s) [0..<32] = Some b"
    using assms(2) by (auto simp: FirstFree_dword_def Let_def split: if_splits)
  from find_upt_Some [OF fb] have b: "b < 32"
    "NOT (bitmap s ! i) AND push_bit b 1 \<noteq> 0 \<and> of_nat i * 32 + of_nat b < total_frames s"
    "\<forall>c < b. \<not> (NOT (bitmap s ! i) AND push_bit c 1 \<noteq> 0 \<and>
      of_nat i * 32 + of_nat c < total_frames s)" by auto
  have "i * 32 + b \<in> free_set s" using b dword_pred_iff [OF assms(1) b(1), of s] by blast
  moreover have "i * 32 + c \<notin> free_set s" if "c < b" for c
    using b that dword_pred_iff [OF assms(1), of c s] by auto
  ultimately show ?thesis using y b(1) by auto
qed

lemma dwords_unat:
  assumes "pmm_wf s"
  shows "unat ((total_frames s + 31) div 32) = (unat (total_frames s) + 31) div 32"
  using assms by (simp add: pmm_wf_def unat_div unat_u32_plus)

lemma FirstFree_eq:
  assumes wf: "pmm_wf s"
  shows "FirstFree s = (if free_set s = {} then -1 else int (Min (free_set s)))"
proof -
  let ?n = "(unat (total_frames s) + 31) div 32"
  have n: "?n \<le> 32768"
    using wf div_le_mono [of "unat (total_frames s) + 31" 1048607 32] by (simp add: pmm_wf_def)
  have in_n: "f div 32 < ?n" if "f \<in> free_set s" for f
    using that by (auto simp: free_set_def)
  have low: "f \<notin> free_set s" if "f div 32 < ?n" "FirstFree_dword s (f div 32) = None" for f
    using FirstFree_dword_None [of "f div 32" s "f mod 32"] that n by simp
  show ?thesis
  proof (cases "first_some (FirstFree_dword s) [0..<?n]")
    case None
    then have "free_set s = {}" using low in_n by (auto simp: first_some_None_iff)
    then show ?thesis using None by (simp add: FirstFree_def dwords_unat [OF wf] Let_def)
  next
    case (Some y)
    from first_some_upt_Some [OF this] obtain i where i: "i < ?n" "FirstFree_dword s i = Some y"
      "\<forall>j < i. FirstFree_dword s j = None" by auto
    obtain b where b: "b < 32" "y = of_nat (i * 32 + b)" "i * 32 + b \<in> free_set s"
      "\<forall>c < b. i * 32 + c \<notin> free_set s"
      using FirstFree_dword_Some [of i s y] i n by auto
    have "i * 32 + b \<le> f" if "f \<in> free_set s" for f
    proof (rule ccontr)
      assume "\<not> i * 32 + b \<le> f"
      then have f: "f < i * 32 + b" by simp
      with b(1) have "f < Suc i * 32" by simp
      then have "f div 32 \<le> i" using less_mult_imp_div_less [of f "Suc i" 32] by simp
      moreover have "f mod 32 < b" if "f div 32 = i" using f that div_mult_mod_eq [of f 32] by simp
      ultimately consider "f div 32 < i" | "f div 32 = i" "f mod 32 < b" by linarith
      then show False
      proof cases
        case 1
        then show ?thesis using low [of f] i in_n [OF that] that by auto
      next
        case 2
        then show ?thesis using b(4) that div_mult_mod_eq [of f 32] by auto
      qed
    qed
    then have mn: "Min (free_set s) = i * 32 + b" using b(3) by (intro Min_eqI) auto
    have "i * 32 + b < 1048576" using free_set_bound [OF wf b(3)] .
    then have "sint y = int (i * 32 + b)" unfolding b(2) by (intro sint_u32_of_nat) simp
    then show ?thesis using Some b(3) mn by (auto simp: FirstFree_def dwords_unat [OF wf] Let_def)
  qed
qed

section \<open>Effect of the operations on the set of free frames\<close>

lemma AllocFrame_None:
  "pmm_wf s \<Longrightarrow> free_set s = {} \<Longrightarrow> AllocFrame s = (0, s)"
  by (simp add: AllocFrame_def FirstFree_eq Let_def)

lemma AllocFrame_Some:
  assumes inv: "pmm_inv s" and ne: "free_set s \<noteq> {}"
  shows "fst (AllocFrame s) = of_nat (Min (free_set s)) * 4096"
    and "free_set (snd (AllocFrame s)) = free_set s - {Min (free_set s)}"
    and "pmm_inv (snd (AllocFrame s))"
    and "total_frames (snd (AllocFrame s)) = total_frames s"
    and "unat (free_frames (snd (AllocFrame s))) = card (free_set s) - 1"
proof -
  let ?f = "Min (free_set s)"
  have wf: "pmm_wf s" and cnt: "unat (free_frames s) = card (free_set s)"
    using inv by (auto simp: pmm_inv_def)
  have f: "?f \<in> free_set s" using ne by simp
  then have ft: "?f < unat (total_frames s)" by (simp add: free_set_def)
  have c: "0 < card (free_set s)" using ne by (simp add: card_gt_0_iff)
  then have pos: "0 < free_frames s" using cnt by (simp add: word_less_nat_alt)
  have un: "unat (free_frames s - 1) = card (free_set s) - 1"
    using cnt c by (simp add: unat_u32_minus)
  have eq: "AllocFrame s =
    (of_nat ?f * 4096, (SetBit s (of_nat ?f))\<lparr>free_frames := free_frames s - 1\<rparr>)"
    using ne pos by (simp add: AllocFrame_def FirstFree_eq [OF wf] Let_def)
  show "fst (AllocFrame s) = of_nat ?f * 4096"
    and fs: "free_set (snd (AllocFrame s)) = free_set s - {?f}"
    and "total_frames (snd (AllocFrame s)) = total_frames s"
    and ff: "unat (free_frames (snd (AllocFrame s))) = card (free_set s) - 1"
    unfolding eq using free_set_SetBit [OF wf ft] un by simp_all
  have "pmm_wf (snd (AllocFrame s))" unfolding eq using wf by simp
  then show "pmm_inv (snd (AllocFrame s))" using fs ff f by (simp add: pmm_inv_def)
qed

lemma Min_free_set: "free_set s \<noteq> {} \<Longrightarrow> Min (free_set s) \<in> free_set s"
  by simp

lemma unat_frame_addr: "f < 1048576 \<Longrightarrow> unat (of_nat f * 4096 :: u32) = f * 4096"
  using unat_u32_of_nat [of "f * 4096"] by simp

lemma FreeFrame_free_set:
  assumes wf: "pmm_wf s" and f: "unat addr div 4096 < unat (total_frames s)"
  shows "free_set (FreeFrame s addr) = insert (unat addr div 4096) (free_set s)"
    and "pmm_wf (FreeFrame s addr)" and "free_frames (FreeFrame s addr) = free_frames s + 1"
    and "total_frames (FreeFrame s addr) = total_frames s"
proof -
  have "unat addr div 4096 < 4294967296"
    using div_le_dividend [of "unat addr" 4096] unat_u32_lt [of addr] by linarith
  then have a: "addr div 4096 = of_nat (unat addr div 4096)"
    by (simp add: u32_eq_iff_unat unat_div unat_u32_of_nat)
  show "free_set (FreeFrame s addr) = insert (unat addr div 4096) (free_set s)"
    unfolding FreeFrame_def a Let_def using free_set_ClearBit [OF wf f] by simp
  show "pmm_wf (FreeFrame s addr)" "free_frames (FreeFrame s addr) = free_frames s + 1"
    "total_frames (FreeFrame s addr) = total_frames s"
    using wf by (simp_all add: FreeFrame_def Let_def)
qed

lemma FreeFrame_inv:
  assumes inv: "pmm_inv s" and f: "unat addr div 4096 < unat (total_frames s)"
    and used: "unat addr div 4096 \<notin> free_set s"
  shows "pmm_inv (FreeFrame s addr)"
proof -
  have wf: "pmm_wf s" using inv by (simp add: pmm_inv_def)
  have "unat (free_frames s + 1) = card (free_set s) + 1"
    using inv card_free_set_le [OF wf] unat_u32_plus [of "free_frames s" 1]
    by (simp add: pmm_inv_def)
  with FreeFrame_free_set [OF wf f] used show ?thesis by (simp add: pmm_inv_def)
qed

lemma MarkFree_body_step:
  assumes inv: "pmm_inv s" and i: "i < unat (total_frames s)"
  shows "pmm_inv (MarkFree_body i s)" and "free_set (MarkFree_body i s) = insert i (free_set s)"
    and "total_frames (MarkFree_body i s) = total_frames s"
proof -
  have wf: "pmm_wf s" and cnt: "unat (free_frames s) = card (free_set s)"
    using inv by (auto simp: pmm_inv_def)
  have i32: "i < 4294967296" using i unat_u32_lt [of "total_frames s"] by linarith
  have t: "TestBit s (of_nat i) \<longleftrightarrow> i \<notin> free_set s"
    using i by (simp add: TestBit_iff [OF i32] free_set_def)
  show fs: "free_set (MarkFree_body i s) = insert i (free_set s)"
    using free_set_ClearBit [of _ i] wf i by (simp add: MarkFree_body_def Let_def)
  show "total_frames (MarkFree_body i s) = total_frames s"
    by (simp add: MarkFree_body_def Let_def)
  have "unat (free_frames s + 1) = card (free_set s) + 1"
    using cnt card_free_set_le [OF wf] unat_u32_plus [of "free_frames s" 1] by simp
  then have "unat (free_frames (MarkFree_body i s)) = card (insert i (free_set s))"
    using t cnt by (auto simp: MarkFree_body_def Let_def card_insert_if)
  then show "pmm_inv (MarkFree_body i s)"
    using wf fs by (simp add: pmm_inv_def) (simp add: MarkFree_body_def Let_def)
qed

lemma MarkUsed_body_step:
  assumes inv: "pmm_inv s" and i: "i < unat (total_frames s)"
  shows "pmm_inv (MarkUsed_body i s)" and "free_set (MarkUsed_body i s) = free_set s - {i}"
    and "total_frames (MarkUsed_body i s) = total_frames s"
proof -
  have wf: "pmm_wf s" and cnt: "unat (free_frames s) = card (free_set s)"
    using inv by (auto simp: pmm_inv_def)
  have i32: "i < 4294967296" using i unat_u32_lt [of "total_frames s"] by linarith
  have t: "TestBit s (of_nat i) \<longleftrightarrow> i \<notin> free_set s"
    using i by (simp add: TestBit_iff [OF i32] free_set_def)
  show fs: "free_set (MarkUsed_body i s) = free_set s - {i}"
    using free_set_SetBit [of _ i] wf i by (simp add: MarkUsed_body_def Let_def)
  show "total_frames (MarkUsed_body i s) = total_frames s"
    by (simp add: MarkUsed_body_def Let_def)
  have "0 < free_frames s \<and> unat (free_frames s - 1) = card (free_set s) - 1" if "i \<in> free_set s"
  proof -
    have "0 < card (free_set s)" using that by (auto simp: card_gt_0_iff)
    then show ?thesis using cnt by (simp add: word_less_nat_alt unat_u32_minus)
  qed
  then have "unat (free_frames (MarkUsed_body i s)) = card (free_set s - {i})"
    using t cnt by (auto simp: MarkUsed_body_def Let_def)
  then show "pmm_inv (MarkUsed_body i s)"
    using wf fs by (simp add: pmm_inv_def) (simp add: MarkUsed_body_def Let_def)
qed

lemma fold_MarkFree:
  "pmm_inv s \<Longrightarrow> \<forall>i \<in> set is. i < unat (total_frames s) \<Longrightarrow>
     pmm_inv (fold MarkFree_body is s) \<and>
     free_set (fold MarkFree_body is s) = free_set s \<union> set is \<and>
     total_frames (fold MarkFree_body is s) = total_frames s"
  by (induction "is" arbitrary: s) (auto simp: MarkFree_body_step)

lemma fold_MarkUsed:
  "pmm_inv s \<Longrightarrow> \<forall>i \<in> set is. i < unat (total_frames s) \<Longrightarrow>
     pmm_inv (fold MarkUsed_body is s) \<and>
     free_set (fold MarkUsed_body is s) = free_set s - set is \<and>
     total_frames (fold MarkUsed_body is s) = total_frames s"
  by (induction "is" arbitrary: s) (auto simp: MarkUsed_body_step)

lemma PMM_Init_inv:
  assumes "length (bitmap s) = 32768"
  shows "pmm_inv (PMM_Init s mem_size)" and "free_set (PMM_Init s mem_size) = {}"
    and "unat (total_frames (PMM_Init s mem_size)) = unat mem_size div 4096"
proof -
  let ?t = "unat mem_size div 4096"
  have t: "unat (total_frames (PMM_Init s mem_size)) = ?t" "?t < 1048576"
    by (simp_all add: PMM_Init_def Let_def unat_div less_mult_imp_div_less)
  have "unat (mem_size div 4096 + 31) = ?t + 31"
    using t(2) by (simp add: unat_u32_plus unat_div)
  then have d: "unat ((mem_size div 4096 + 31) div 32) = (?t + 31) div 32"
    by (simp add: unat_div)
  have d32: "(?t + 31) div 32 \<le> 32768" using t(2) div_le_mono [of "?t + 31" 1048607 32] by simp
  have "used_bit (PMM_Init s mem_size) f" if "f < ?t" for f
  proof -
    have "f div 32 < (?t + 31) div 32" using that by simp
    then show ?thesis
      using all_ones_bit [of "f mod 32"]
      by (simp add: used_bit_def PMM_Init_def Let_def d nth_append)
  qed
  then show fs: "free_set (PMM_Init s mem_size) = {}" using t(1) by (auto simp: free_set_def)
  have "length (bitmap (PMM_Init s mem_size)) = 32768"
    using assms d d32 by (simp add: PMM_Init_def Let_def)
  then show "pmm_inv (PMM_Init s mem_size)"
    using fs t by (simp add: pmm_inv_def pmm_wf_def) (simp add: PMM_Init_def Let_def)
  show "unat (total_frames (PMM_Init s mem_size)) = ?t" by (rule t(1))
qed

section \<open>The frame pool interface\<close>

text \<open>
  What paging relies on: a frame that is handed out was free and no longer is, the pool says 0
  when it is empty, and a frame given back becomes free again.
\<close>

locale frame_pool =
  fixes inv :: "'s \<Rightarrow> bool"
    and frees :: "'s \<Rightarrow> nat set"
    and total :: "'s \<Rightarrow> nat"
    and alloc :: "'s \<Rightarrow> u32 \<times> 's"
    and give_back :: "'s \<Rightarrow> u32 \<Rightarrow> 's"
  assumes alloc_empty: "inv s \<Longrightarrow> frees s = {} \<Longrightarrow> alloc s = (0, s)"
    and alloc_frame: "inv s \<Longrightarrow> frees s \<noteq> {} \<Longrightarrow>
      \<exists>f \<in> frees s. alloc s = (of_nat f * 4096, snd (alloc s)) \<and>
        frees (snd (alloc s)) = frees s - {f}"
    and alloc_inv: "inv s \<Longrightarrow> inv (snd (alloc s)) \<and> total (snd (alloc s)) = total s"
    and frees_bound: "inv s \<Longrightarrow> f \<in> frees s \<Longrightarrow> f < total s \<and> total s \<le> 1048576"
    and give_back_frees: "inv s \<Longrightarrow> unat a div 4096 < total s \<Longrightarrow> unat a div 4096 \<notin> frees s \<Longrightarrow>
      inv (give_back s a) \<and> total (give_back s a) = total s \<and>
      frees (give_back s a) = insert (unat a div 4096) (frees s)"
begin

lemma frees_finite: "inv s \<Longrightarrow> finite (frees s)"
  using frees_bound [of s] by (auto intro!: finite_subset [of "frees s" "{..<1048576}"]) force

text \<open>With frame 0 outside the pool, a null result means exactly that the pool is empty.\<close>

lemma alloc_null_iff:
  assumes "inv s" and "0 \<notin> frees s"
  shows "fst (alloc s) = 0 \<longleftrightarrow> frees s = {}"
proof (cases "frees s = {}")
  case True
  then show ?thesis using alloc_empty [OF assms(1)] by simp
next
  case False
  then obtain f where f: "f \<in> frees s" "fst (alloc s) = of_nat f * 4096"
    using alloc_frame [OF assms(1)] by (metis fst_conv)
  have "0 < f" "f < 1048576" using f(1) assms frees_bound [OF assms(1) f(1)] by (auto intro: gr0I)
  then have "unat (of_nat f * 4096 :: u32) = f * 4096"
    using unat_u32_of_nat [of "f * 4096"] by simp
  with \<open>0 < f\<close> f(2) False show ?thesis by (auto simp: u32_eq_iff_unat)
qed

text \<open>A frame handed out is page aligned and was free; it is the only one removed.\<close>

lemma alloc_aligned:
  assumes "inv s" and "frees s \<noteq> {}"
  shows "unat (fst (alloc s)) mod 4096 = 0 \<and> unat (fst (alloc s)) div 4096 \<in> frees s \<and>
    frees (snd (alloc s)) = frees s - {unat (fst (alloc s)) div 4096}"
proof -
  obtain f where f: "f \<in> frees s" "fst (alloc s) = of_nat f * 4096"
    "frees (snd (alloc s)) = frees s - {f}"
    using alloc_frame [OF assms] by (metis fst_conv)
  have "f < 1048576" using frees_bound [OF assms(1) f(1)] by simp
  then have "unat (of_nat f * 4096 :: u32) = f * 4096"
    using unat_u32_of_nat [of "f * 4096"] by simp
  with f show ?thesis by simp
qed

lemma alloc_give_back:
  assumes "inv s" and "frees s \<noteq> {}"
  shows "inv (give_back (snd (alloc s)) (fst (alloc s))) \<and>
    frees (give_back (snd (alloc s)) (fst (alloc s))) = frees s"
proof -
  note al = alloc_aligned [OF assms]
  have "unat (fst (alloc s)) div 4096 < total (snd (alloc s))"
    using al alloc_inv [OF assms(1)] frees_bound [OF assms(1)] by metis
  with al give_back_frees [of "snd (alloc s)" "fst (alloc s)"] alloc_inv [OF assms(1)]
  show ?thesis by auto
qed

end

interpretation pool: frame_pool pmm_inv free_set "\<lambda>s. unat (total_frames s)" AllocFrame FreeFrame
proof (unfold_locales, goal_cases)
  case (1 s)
  then show ?case by (simp add: AllocFrame_None pmm_inv_def)
next
  case (2 s)
  note al = AllocFrame_Some [OF 2]
  from al(1) have "AllocFrame s = (of_nat (Min (free_set s)) * 4096, snd (AllocFrame s))"
    by (metis prod.collapse)
  with al(2) Min_free_set [OF 2(2)] show ?case by blast
next
  case (3 s)
  show ?case
  proof (cases "free_set s = {}")
    case True
    then show ?thesis using 3 by (simp add: AllocFrame_None pmm_inv_def)
  next
    case False
    then show ?thesis using AllocFrame_Some [OF 3] by simp
  qed
next
  case (4 s f)
  then show ?case by (auto simp: pmm_inv_def pmm_wf_def free_set_def)
next
  case (5 s a)
  then show ?case
    using FreeFrame_inv [OF 5] FreeFrame_free_set [of s a] by (simp add: pmm_inv_def)
qed

section \<open>Properties\<close>

text \<open>C4: \<open>AllocFrame\<close> hands out the lowest free frame, as its page-aligned physical address, marks
  exactly that frame used and keeps the running count exact; when no frame is free it returns 0
  and changes nothing.\<close>

theorem AllocFrame_lowest_free:
  assumes "pmm_inv s"
  shows "if free_set s = {} then AllocFrame s = (0, s)
    else unat (fst (AllocFrame s)) = 4096 * Min (free_set s) \<and>
      free_set (snd (AllocFrame s)) = free_set s - {Min (free_set s)} \<and>
      pmm_inv (snd (AllocFrame s)) \<and>
      unat (FreeFrameCount (snd (AllocFrame s))) = card (free_set s) - 1"
proof (cases "free_set s = {}")
  case True
  then show ?thesis using assms by (simp add: AllocFrame_None pmm_inv_def)
next
  case False
  have "Min (free_set s) < 1048576"
    using free_set_bound [of s] Min_free_set [OF False] assms by (simp add: pmm_inv_def)
  from unat_frame_addr [OF this] AllocFrame_Some [OF assms False] False show ?thesis
    by (simp add: FreeFrameCount_def mult.commute)
qed

lemma MarkFree_range:
  assumes "pmm_inv s" and "unat addr + unat len < 4294967296"
  shows "pmm_inv (MarkFree s addr len) \<and>
    free_set (MarkFree s addr len) = free_set s \<union>
      {f. unat addr div 4096 \<le> f \<and> f < (unat addr + unat len) div 4096 \<and> f < unat (total_frames s)} \<and>
    total_frames (MarkFree s addr len) = total_frames s"
proof -
  have "unat (addr + len) = unat addr + unat len" using assms(2) by (simp add: unat_u32_plus)
  then show ?thesis
    using fold_MarkFree [OF assms(1), of "[unat addr div 4096..<
        min ((unat addr + unat len) div 4096) (unat (total_frames s))]"]
    by (auto simp: MarkFree_def Let_def unat_div)
qed

lemma MarkUsed_range:
  assumes "pmm_inv s" and "unat addr + unat len + 4095 < 4294967296"
  shows "pmm_inv (MarkUsed s addr len) \<and>
    free_set (MarkUsed s addr len) = free_set s -
      {f. unat addr div 4096 \<le> f \<and> f < (unat addr + unat len + 4095) div 4096} \<and>
    total_frames (MarkUsed s addr len) = total_frames s"
proof -
  have "unat (addr + len + 4095) = unat addr + unat len + 4095"
    using assms(2) by (simp add: unat_u32_plus)
  moreover have "free_set s - {unat addr div 4096..<min ((unat addr + unat len + 4095) div 4096)
      (unat (total_frames s))} =
    free_set s - {f. unat addr div 4096 \<le> f \<and> f < (unat addr + unat len + 4095) div 4096}"
    by (auto simp: free_set_def)
  ultimately show ?thesis
    using fold_MarkUsed [OF assms(1), of "[unat addr div 4096..<
        min ((unat addr + unat len + 4095) div 4096) (unat (total_frames s))]"]
    by (simp add: MarkUsed_def Let_def unat_div)
qed

text \<open>\<open>MarkFree\<close> and \<open>MarkUsed\<close> on a range that does not wrap change exactly the frames they
  should: \<open>MarkFree\<close> frees the frames from the first touched one up to the last one that ends
  within the range, \<open>MarkUsed\<close> takes every frame the range touches, both limited to existing
  frames; the count stays exact, whatever the state of the frames before.\<close>

theorem MarkFree_MarkUsed_exact:
  assumes "pmm_inv s" and "unat addr + unat len + 4095 < 4294967296"
  shows "pmm_inv (MarkFree s addr len) \<and>
    free_set (MarkFree s addr len) = free_set s \<union>
      {f. unat addr div 4096 \<le> f \<and> f < (unat addr + unat len) div 4096 \<and> f < unat (total_frames s)} \<and>
    pmm_inv (MarkUsed s addr len) \<and>
    free_set (MarkUsed s addr len) = free_set s -
      {f. unat addr div 4096 \<le> f \<and> f < (unat addr + unat len + 4095) div 4096}"
  using MarkFree_range [OF assms(1), of addr len] MarkUsed_range [OF assms] assms(2) by simp

text \<open>Giving a frame back right after it was allocated restores the pool: the same frames are
  free and the count is exact again.\<close>

theorem AllocFrame_FreeFrame_round_trip:
  assumes "pmm_inv s" and "free_set s \<noteq> {}"
  shows "free_set (FreeFrame (snd (AllocFrame s)) (fst (AllocFrame s))) = free_set s \<and>
    FreeFrameCount (FreeFrame (snd (AllocFrame s)) (fst (AllocFrame s))) = FreeFrameCount s"
proof -
  note gb = pool.alloc_give_back [OF assms]
  then have "unat (free_frames (FreeFrame (snd (AllocFrame s)) (fst (AllocFrame s)))) =
    unat (free_frames s)"
    using assms(1) by (simp add: pmm_inv_def)
  with gb show ?thesis by (simp add: FreeFrameCount_def u32_eq_iff_unat)
qed

text \<open>\<open>FreeFrame\<close> does not look at the bit it clears. Giving back a frame that is already free
  changes no bit but still counts it, so from then on \<open>FreeFrameCount\<close> is one too many.\<close>

theorem FreeFrame_twice_miscounts:
  assumes "pmm_inv s" and "unat addr div 4096 \<in> free_set s"
  shows "free_set (FreeFrame s addr) = free_set s \<and>
    unat (FreeFrameCount (FreeFrame s addr)) = card (free_set (FreeFrame s addr)) + 1"
proof -
  have wf: "pmm_wf s" using assms(1) by (simp add: pmm_inv_def)
  have "unat addr div 4096 < unat (total_frames s)" using assms(2) by (simp add: free_set_def)
  note ff = FreeFrame_free_set [OF wf this]
  have "unat (free_frames s + 1) = card (free_set s) + 1"
    using assms(1) card_free_set_le [OF wf] unat_u32_plus [of "free_frames s" 1]
    by (simp add: pmm_inv_def)
  with ff assms(2) show ?thesis by (simp add: FreeFrameCount_def insert_absorb)
qed

text \<open>A machine of 8 frames whose frames 3, 4 and 5 are the pool, for the concrete instances.\<close>

definition demo_pmm0 :: pmm where
  "demo_pmm0 = PMM_Init \<lparr>bitmap = replicate 32768 0, total_frames = 0, free_frames = 0\<rparr> 0x8000"

definition demo_pmm :: pmm where
  "demo_pmm = MarkFree demo_pmm0 0x3000 0x3000"

lemma demo_pmm0_inv:
  "pmm_inv demo_pmm0" "free_set demo_pmm0 = {}" "unat (total_frames demo_pmm0) = 8"
  using PMM_Init_inv [of "\<lparr>bitmap = replicate 32768 0, total_frames = 0, free_frames = 0\<rparr>" "0x8000"]
  by (simp_all add: demo_pmm0_def)

theorem MarkFree_MarkUsed_exact_witness:
  "pmm_inv demo_pmm0 \<and> free_set (MarkFree demo_pmm0 0x3000 0x3000) = {3, 4, 5}"
proof -
  have "{f :: nat. 3 \<le> f \<and> f < 6 \<and> f < 8} = {3, 4, 5}" by auto
  then show ?thesis
    using MarkFree_MarkUsed_exact [OF demo_pmm0_inv(1), of "0x3000" "0x3000"] demo_pmm0_inv by simp
qed

lemma demo_pmm_inv: "pmm_inv demo_pmm" "free_set demo_pmm = {3, 4, 5}"
proof -
  have "{f :: nat. 3 \<le> f \<and> f < 6 \<and> f < 8} = {3, 4, 5}" by auto
  then show "pmm_inv demo_pmm" "free_set demo_pmm = {3, 4, 5}"
    using MarkFree_range [OF demo_pmm0_inv(1), of "0x3000" "0x3000"] demo_pmm0_inv
    by (simp_all add: demo_pmm_def)
qed

theorem AllocFrame_lowest_free_witness:
  "pmm_inv demo_pmm \<and> unat (fst (AllocFrame demo_pmm)) = 12288 \<and>
    free_set (snd (AllocFrame demo_pmm)) = {4, 5} \<and>
    unat (FreeFrameCount (snd (AllocFrame demo_pmm))) = 2"
proof -
  have "{3, 4, 5} - {3 :: nat} = {4, 5}" by auto
  then show ?thesis
    using AllocFrame_lowest_free [OF demo_pmm_inv(1)] demo_pmm_inv by simp
qed

theorem AllocFrame_FreeFrame_round_trip_witness:
  "pmm_inv demo_pmm \<and> free_set demo_pmm \<noteq> {} \<and>
    free_set (FreeFrame (snd (AllocFrame demo_pmm)) (fst (AllocFrame demo_pmm))) = {3, 4, 5}"
  using AllocFrame_FreeFrame_round_trip [OF demo_pmm_inv(1)] demo_pmm_inv by simp

theorem FreeFrame_twice_miscounts_witness:
  "pmm_inv demo_pmm \<and> unat (0x3000 :: u32) div 4096 \<in> free_set demo_pmm \<and>
    unat (FreeFrameCount (FreeFrame demo_pmm 0x3000)) = 4"
  using FreeFrame_twice_miscounts [OF demo_pmm_inv(1), of "0x3000"] demo_pmm_inv by simp

end
