(* ===== verification/Paging.thy ===== *)
theory Paging
  imports Frame_Allocator
begin

text \<open>
  Page directories, \<^verbatim>\<open>src/src/memory/paging.h\<close> and \<^verbatim>\<open>paging.cpp\<close>. The directory and its page
  tables are frames of the physical memory \<open>mem\<close>, taken from the frame allocator; the object
  also keeps the addresses of its tables in the array \<open>page_tables\<close>. The kernel runs identity
  mapped, so a table is read and written at its physical address. Objects of the class are kept
  in a list, and a pointer to one is its position there, because the destructor and the
  processes compare such pointers. \<open>mmu_walk\<close> is the translation the processor performs from
  CR3; the lemmas relate it to what the class reports.
\<close>

section \<open>State and operations\<close>

definition PAGE_PRESENT :: u32 where "PAGE_PRESENT = 0x001"
definition PAGE_WRITE :: u32 where "PAGE_WRITE = 0x002"
definition PAGE_USER :: u32 where "PAGE_USER = 0x004"
definition PAGE_KERNEL :: u32 where "PAGE_KERNEL = PAGE_PRESENT OR PAGE_WRITE"
definition PAGE_USER_RW :: u32 where "PAGE_USER_RW = PAGE_PRESENT OR PAGE_WRITE OR PAGE_USER"

record phys =
  pm_mem :: mem
  pm_frames :: pmm

record PageDirectory =
  phys_dir :: u32
  page_tables :: "u32 list"

text \<open>An array of dwords in memory.\<close>

definition rd_ent :: "mem \<Rightarrow> u32 \<Rightarrow> nat \<Rightarrow> u32" where
  "rd_ent m base i = rd32 m (base + of_nat (4 * i))"

definition wr_ent :: "mem \<Rightarrow> u32 \<Rightarrow> nat \<Rightarrow> u32 \<Rightarrow> mem" where
  "wr_ent m base i v = wr32 m (base + of_nat (4 * i)) v"

definition memzero32 :: "mem \<Rightarrow> u32 \<Rightarrow> nat \<Rightarrow> mem" where
  "memzero32 m ptr count = fold (\<lambda>i m. wr_ent m ptr i 0) [0..<count] m"

definition pd_index :: "u32 \<Rightarrow> nat" where
  "pd_index virtual_addr = unat (drop_bit 22 virtual_addr)"

definition pt_index :: "u32 \<Rightarrow> nat" where
  "pt_index virtual_addr = unat (drop_bit 12 virtual_addr AND 0x3FF)"

definition PageDirectory_new :: "phys \<Rightarrow> PageDirectory \<times> phys" where
  "PageDirectory_new p =
     (let (a, frames) = AllocFrame (pm_frames p)
      in (\<lparr>phys_dir = a, page_tables = replicate 1024 0\<rparr>,
          \<lparr>pm_mem = memzero32 (pm_mem p) a 1024, pm_frames = frames\<rparr>))"

definition GetOrCreatePageTable ::
  "PageDirectory \<Rightarrow> phys \<Rightarrow> nat \<Rightarrow> u32 \<Rightarrow> u32 \<times> PageDirectory \<times> phys" where
  "GetOrCreatePageTable d p i flags =
     (let pde = rd_ent (pm_mem p) (phys_dir d) i
      in if pde AND PAGE_PRESENT \<noteq> 0
         then (page_tables d ! i, d,
               if flags AND PAGE_USER \<noteq> 0
               then p\<lparr>pm_mem := wr_ent (pm_mem p) (phys_dir d) i (pde OR PAGE_USER)\<rparr> else p)
         else let (a, frames) = AllocFrame (pm_frames p)
              in if a = 0 then (0, d, p\<lparr>pm_frames := frames\<rparr>)
                 else let m = memzero32 (pm_mem p) a 1024;
                          m = wr_ent m (phys_dir d) i
                                (a OR PAGE_PRESENT OR PAGE_WRITE OR (flags AND PAGE_USER))
                      in (a, d\<lparr>page_tables := (page_tables d)[i := a]\<rparr>,
                          \<lparr>pm_mem = m, pm_frames = frames\<rparr>))"

definition MapPage :: "PageDirectory \<Rightarrow> phys \<Rightarrow> u32 \<Rightarrow> u32 \<Rightarrow> u32 \<Rightarrow> PageDirectory \<times> phys" where
  "MapPage d p virtual_addr physical_addr flags =
     (let (pt, d, p) = GetOrCreatePageTable d p (pd_index virtual_addr) flags
      in if pt = 0 then (d, p)
         else (d, p\<lparr>pm_mem := wr_ent (pm_mem p) pt (pt_index virtual_addr)
                 ((physical_addr AND 0xFFFFF000) OR (flags AND 0xFFF))\<rparr>))"

text \<open>\<open>invlpg\<close> drops the stale translation of the processor; the model has no translation cache.\<close>

definition UnmapPage :: "PageDirectory \<Rightarrow> phys \<Rightarrow> u32 \<Rightarrow> phys" where
  "UnmapPage d p virtual_addr =
     (let i = pd_index virtual_addr
      in if rd_ent (pm_mem p) (phys_dir d) i AND PAGE_PRESENT = 0 then p
         else if page_tables d ! i = 0 then p
         else p\<lparr>pm_mem := wr_ent (pm_mem p) (page_tables d ! i) (pt_index virtual_addr) 0\<rparr>)"

definition GetPhysical :: "PageDirectory \<Rightarrow> mem \<Rightarrow> u32 \<Rightarrow> u32" where
  "GetPhysical d m virtual_addr =
     (let i = pd_index virtual_addr
      in if rd_ent m (phys_dir d) i AND PAGE_PRESENT = 0 then 0
         else if page_tables d ! i = 0 then 0
         else let pte = rd_ent m (page_tables d ! i) (pt_index virtual_addr)
              in if pte AND PAGE_PRESENT = 0 then 0
                 else (pte AND 0xFFFFF000) OR (virtual_addr AND 0xFFF))"

definition IsMapped :: "PageDirectory \<Rightarrow> mem \<Rightarrow> u32 \<Rightarrow> bool" where
  "IsMapped d m virtual_addr =
     (let i = pd_index virtual_addr
      in if rd_ent m (phys_dir d) i AND PAGE_PRESENT = 0 then False
         else if page_tables d ! i = 0 then False
         else rd_ent m (page_tables d ! i) (pt_index virtual_addr) AND PAGE_PRESENT \<noteq> 0)"

definition GetCR3 :: "PageDirectory \<Rightarrow> u32" where
  "GetCR3 d = phys_dir d"

text \<open>
  The loop \<^verbatim>\<open>for (addr = lo; addr < hi; addr += 0x1000)\<close>: the values of \<open>addr\<close>, for a \<open>hi\<close>
  of at most \<open>0xFFFFF000\<close>, where the increment cannot wrap.
\<close>

definition page_addrs :: "u32 \<Rightarrow> u32 \<Rightarrow> u32 list" where
  "page_addrs lo hi =
     map (\<lambda>i. lo + of_nat i * 0x1000) [0..<(unat hi - unat lo + 4095) div 4096]"

definition MapIdentity :: "u32 \<Rightarrow> u32 \<Rightarrow> u32 \<Rightarrow> PageDirectory \<times> phys \<Rightarrow> PageDirectory \<times> phys" where
  "MapIdentity lo hi flags dp =
     fold (\<lambda>addr (d, p). MapPage d p addr addr flags) (page_addrs lo hi) dp"

definition CreateKernel :: "phys \<Rightarrow> PageDirectory \<times> phys" where
  "CreateKernel p = MapIdentity 0x00000000 0x01000000 PAGE_KERNEL (PageDirectory_new p)"

text \<open>The state of \<open>PagingManager\<close>, the live directory objects and the control registers.\<close>

record paging =
  pg_phys :: phys
  pg_dirs :: "PageDirectory list"
  kernel_dir :: "nat option"
  cr0 :: u32
  cr3 :: u32

definition CreateUser :: "paging \<Rightarrow> nat \<Rightarrow> nat \<times> paging" where
  "CreateUser s k =
     (let (d, p) = PageDirectory_new (pg_phys s);
          kd = pg_dirs s ! k;
          m = fold (\<lambda>i m. wr_ent m (phys_dir d) i (rd_ent m (phys_dir kd) i)) [0..<1024] (pm_mem p);
          d = d\<lparr>page_tables := page_tables kd\<rparr>
      in (length (pg_dirs s), s\<lparr>pg_phys := p\<lparr>pm_mem := m\<rparr>, pg_dirs := pg_dirs s @ [d]\<rparr>))"

definition PageDirectory_delete :: "paging \<Rightarrow> nat \<Rightarrow> paging" where
  "PageDirectory_delete s this =
     (let d = pg_dirs s ! this;
          kpt = (\<lambda>i. case kernel_dir s of
                       Some k \<Rightarrow> if this \<noteq> k then page_tables (pg_dirs s ! k) ! i else 0
                     | None \<Rightarrow> 0);
          frames = fold (\<lambda>i f. if page_tables d ! i \<noteq> 0 \<and> page_tables d ! i \<noteq> kpt i
                               then FreeFrame f (page_tables d ! i) else f)
                     [0..<1024] (pm_frames (pg_phys s))
      in s\<lparr>pg_phys := (pg_phys s)\<lparr>pm_frames := FreeFrame frames (phys_dir d)\<rparr>\<rparr>)"

definition PagingManager_Init :: "paging \<Rightarrow> paging" where
  "PagingManager_Init s =
     (let (d, p) = CreateKernel (pg_phys s)
      in s\<lparr>pg_phys := p, pg_dirs := pg_dirs s @ [d], kernel_dir := Some (length (pg_dirs s))\<rparr>)"

definition PagingManager_Enable :: "paging \<Rightarrow> nat \<Rightarrow> paging" where
  "PagingManager_Enable s k = s\<lparr>cr3 := GetCR3 (pg_dirs s ! k), cr0 := cr0 s OR 0x80000001\<rparr>"

definition SwitchDirectory :: "paging \<Rightarrow> nat \<Rightarrow> paging" where
  "SwitchDirectory s k = s\<lparr>cr3 := GetCR3 (pg_dirs s ! k)\<rparr>"

definition GetKernelDirectory :: "paging \<Rightarrow> nat option" where
  "GetKernelDirectory s = kernel_dir s"

section \<open>What the processor does\<close>

text \<open>
  The two-level walk of the i386 from CR3, with the frame the page-table entry names and the
  user and write bits of both levels combined.
\<close>

definition mmu_pte :: "mem \<Rightarrow> u32 \<Rightarrow> u32 \<Rightarrow> u32 option" where
  "mmu_pte m cr v =
     (let pde = rd_ent m (cr AND 0xFFFFF000) (pd_index v)
      in if pde AND PAGE_PRESENT = 0 then None
         else let pte = rd_ent m (pde AND 0xFFFFF000) (pt_index v)
              in if pte AND PAGE_PRESENT = 0 then None else Some pte)"

definition mmu_walk :: "mem \<Rightarrow> u32 \<Rightarrow> u32 \<Rightarrow> u32 option" where
  "mmu_walk m cr v = map_option (\<lambda>pte. (pte AND 0xFFFFF000) OR (v AND 0xFFF)) (mmu_pte m cr v)"

definition mmu_user :: "mem \<Rightarrow> u32 \<Rightarrow> u32 \<Rightarrow> bool" where
  "mmu_user m cr v \<longleftrightarrow>
     (case mmu_pte m cr v of None \<Rightarrow> False
      | Some pte \<Rightarrow> rd_ent m (cr AND 0xFFFFF000) (pd_index v) AND PAGE_USER \<noteq> 0 \<and> pte AND PAGE_USER \<noteq> 0)"

section \<open>Arrays of entries in page frames\<close>

definition page_frame :: "u32 \<Rightarrow> bool" where
  "page_frame a \<longleftrightarrow> unat a mod 4096 = 0"

lemma page_frame_bound: "page_frame a \<Longrightarrow> unat a + 4096 \<le> 4294967296"
proof -
  assume "page_frame a"
  then obtain k where "unat a = 4096 * k" by (auto simp: page_frame_def mod_eq_0_iff_dvd)
  with unat_u32_lt [of a] show ?thesis by simp
qed

lemma page_frame_unat_eq:
  assumes "page_frame a" and "page_frame b"
  shows "unat a div 4096 = unat b div 4096 \<longleftrightarrow> a = b"
proof
  assume "unat a div 4096 = unat b div 4096"
  then have "unat a = unat b"
    using assms dvd_div_mult_self [of 4096 "unat a"] dvd_div_mult_self [of 4096 "unat b"]
    unfolding page_frame_def mod_eq_0_iff_dvd by argo
  then show "a = b" by (simp only: u32_eq_iff_unat)
qed simp

lemma unat_ent: "page_frame a \<Longrightarrow> i < 1024 \<Longrightarrow> unat (a + of_nat (4 * i)) = unat a + 4 * i"
  using unat_u32_offset [of a 4096 "4 * i"] page_frame_bound by simp

lemma ent_apart:
  assumes "page_frame a" and "page_frame b" and "i < 1024" and "j < 1024" and "a \<noteq> b \<or> i \<noteq> j"
  shows "apart (a + of_nat (4 * i)) 4 (b + of_nat (4 * j)) 4"
proof -
  note ua = unat_ent [OF assms(1,3)] and ub = unat_ent [OF assms(2,4)]
  have "unat a + 4096 \<le> unat b \<or> unat b + 4096 \<le> unat a" if "a \<noteq> b"
  proof -
    obtain k l where "unat a = 4096 * k" "unat b = 4096 * l"
      using assms(1,2) unfolding page_frame_def mod_eq_0_iff_dvd dvd_def by blast
    moreover from this that have "k \<noteq> l" by (auto simp: u32_eq_iff_unat)
    ultimately show ?thesis by auto
  qed
  then show ?thesis
    using assms(3-5) page_frame_bound [OF assms(1)] page_frame_bound [OF assms(2)] ua ub
    unfolding apart_def by (cases "a = b") auto
qed

lemma rd_wr_ent_same [mem_simps, simp]: "rd_ent (wr_ent m a i v) a i = v"
  by (simp add: rd_ent_def wr_ent_def)

lemma rd_wr_ent_other [mem_simps]:
  assumes "page_frame a" and "page_frame b" and "i < 1024" and "j < 1024" and "a \<noteq> b \<or> i \<noteq> j"
  shows "rd_ent (wr_ent m a i v) b j = rd_ent m b j"
  unfolding rd_ent_def wr_ent_def by (rule rd32_wr32_apart, rule ent_apart, fact+)

lemma rd_ent_memzero32:
  assumes "page_frame a" and "page_frame b" and "n \<le> 1024" and "j < 1024"
  shows "rd_ent (memzero32 m a n) b j = (if a = b \<and> j < n then 0 else rd_ent m b j)"
  using assms(3)
proof (induction n)
  case 0
  then show ?case by (simp add: memzero32_def)
next
  case (Suc n)
  then have "memzero32 m a (Suc n) = wr_ent (memzero32 m a n) a n 0" by (simp add: memzero32_def)
  then show ?case
    using Suc assms by (cases "a = b \<and> n = j") (auto simp: rd_wr_ent_other)
qed

section \<open>Indices, masks and flags\<close>

lemma and_3FF: "(x :: u32) AND 0x3FF = take_bit 10 x"
  by (simp add: take_bit_eq_mask mask_eq_exp_minus_1)

lemma pd_index_nat: "pd_index v = unat v div 4194304"
  by (simp add: pd_index_def drop_bit_eq_div unat_div)

lemma pt_index_nat: "pt_index v = unat v div 4096 mod 1024"
  by (simp add: pt_index_def and_3FF take_bit_eq_mod drop_bit_eq_div unat_div unat_mod)

lemma pd_index_lt [simp]: "pd_index v < 1024"
  using unat_u32_lt [of v] by (simp add: pd_index_nat less_mult_imp_div_less)

lemma pt_index_lt [simp]: "pt_index v < 1024"
  by (simp add: pt_index_nat)

lemma same_page_iff:
  "pd_index v = pd_index w \<and> pt_index v = pt_index w \<longleftrightarrow> unat v div 4096 = unat w div 4096"
proof -
  have *: "pd_index x = unat x div 4096 div 1024" for x by (simp add: pd_index_nat div_mult2_eq [symmetric])
  show ?thesis unfolding * pt_index_nat by (metis div_mult_mod_eq)
qed

lemma page_masks: "(0xFFFFF000 :: u32) = NOT (mask 12)" "(0xFFF :: u32) = mask 12"
  by (simp_all add: mask_eq_exp_minus_1)

lemma page_frame_and: "page_frame (x AND 0xFFFFF000)"
proof -
  have "take_bit 12 (x AND NOT (mask 12)) = 0"
    by (rule bit_eqI) (auto simp: bit_simps)
  then have "unat (take_bit 12 (x AND NOT (mask 12))) = 0" by simp
  then show ?thesis
    by (simp only: page_frame_def page_masks unsigned_take_bit_eq) (simp add: take_bit_eq_mod)
qed

lemma page_frame_low_bits: "page_frame a \<longleftrightarrow> take_bit 12 a = 0"
proof -
  have "unat (take_bit 12 a) = unat a mod 4096" by (simp add: take_bit_eq_mod unat_mod)
  then show ?thesis by (auto simp: page_frame_def u32_eq_iff_unat)
qed

lemma page_frame_bits: "page_frame a \<Longrightarrow> n < 12 \<Longrightarrow> \<not> bit a n"
  using bit_take_bit_iff [of 12 a n] by (simp add: page_frame_low_bits)

lemma page_frame_id: "page_frame a \<Longrightarrow> a AND 0xFFFFF000 = a"
  unfolding page_masks by (rule bit_eqI) (auto simp: bit_simps dest: page_frame_bits)

lemma present_iff: "x AND PAGE_PRESENT = 0 \<longleftrightarrow> \<not> bit x 0"
  unfolding PAGE_PRESENT_def using bit_iff_and_push_bit_not_eq_0 [of x 0]
  by (simp only: push_bit_0_id id_apply) simp

lemma user_iff: "x AND PAGE_USER = 0 \<longleftrightarrow> \<not> bit x 2"
  using bit_iff_and_push_bit_not_eq_0 [of x 2] by (simp add: PAGE_USER_def)

lemma bit_pow2_u32: "k < 32 \<Longrightarrow> bit (2 ^ k :: u32) n \<longleftrightarrow> n = k"
  by (auto simp: bit_exp_iff)

lemma bit_flags [simp]:
  "bit PAGE_PRESENT n \<longleftrightarrow> n = 0" "bit PAGE_WRITE n \<longleftrightarrow> n = 1" "bit PAGE_USER n \<longleftrightarrow> n = 2"
  using bit_pow2_u32 [of 0 n] bit_pow2_u32 [of 1 n] bit_pow2_u32 [of 2 n]
  by (simp_all add: PAGE_PRESENT_def PAGE_WRITE_def PAGE_USER_def)

lemma pte_bits:
  "bit ((x AND 0xFFFFF000) OR (f AND 0xFFF) :: u32) n \<longleftrightarrow> (if n < 12 then bit f n else bit x n)"
  unfolding page_masks by (auto simp: bit_simps dest: bit_imp_le_length)

lemma pte_mask: "((x AND 0xFFFFF000) OR (f AND 0xFFF)) AND 0xFFFFF000 = (x :: u32) AND 0xFFFFF000"
  by (rule bit_eqI) (simp only: bit_and_iff pte_bits, simp only: page_masks bit_simps, auto)

lemma pde_bits:
  "page_frame a \<Longrightarrow> bit (a OR PAGE_PRESENT OR PAGE_WRITE OR (f AND PAGE_USER)) n \<longleftrightarrow>
     (if n < 12 then n = 0 \<or> n = 1 \<or> n = 2 \<and> bit f 2 else bit a n)"
  by (auto simp: bit_or_iff bit_and_iff dest: page_frame_bits)

lemma pde_mask:
  "page_frame a \<Longrightarrow> (a OR PAGE_PRESENT OR PAGE_WRITE OR (f AND PAGE_USER)) AND 0xFFFFF000 = a"
  by (rule bit_eqI) (simp only: bit_and_iff pde_bits, simp only: page_masks bit_simps,
      auto dest: page_frame_bits)

lemma or_user_mask: "(x OR PAGE_USER) AND 0xFFFFF000 = x AND 0xFFFFF000"
  unfolding page_masks by (rule bit_eqI) (auto simp: bit_simps)

section \<open>The directory invariant\<close>

text \<open>
  A present directory entry names the table the object remembers, an absent one goes with a null
  pointer, and the directory and its tables are distinct frames. All of them are in use, and
  frame 0, whose address the allocator cannot tell from failure, is not in the pool.
\<close>

definition dir_wf :: "PageDirectory \<Rightarrow> mem \<Rightarrow> bool" where
  "dir_wf d m \<longleftrightarrow> page_frame (phys_dir d) \<and> length (page_tables d) = 1024 \<and>
     (\<forall>i < 1024. if bit (rd_ent m (phys_dir d) i) 0
        then page_tables d ! i = rd_ent m (phys_dir d) i AND 0xFFFFF000 \<and> page_tables d ! i \<noteq> 0 \<and>
             page_tables d ! i \<noteq> phys_dir d
        else page_tables d ! i = 0) \<and>
     (\<forall>i < 1024. \<forall>j < 1024. i \<noteq> j \<longrightarrow> page_tables d ! i \<noteq> 0 \<longrightarrow> page_tables d ! i \<noteq> page_tables d ! j)"

definition phys_inv :: "phys \<Rightarrow> bool" where
  "phys_inv p \<longleftrightarrow> pmm_inv (pm_frames p) \<and> 0 \<notin> free_set (pm_frames p)"

definition used_frame :: "phys \<Rightarrow> u32 \<Rightarrow> bool" where
  "used_frame p a \<longleftrightarrow> page_frame a \<and> unat a div 4096 < unat (total_frames (pm_frames p)) \<and>
     unat a div 4096 \<notin> free_set (pm_frames p)"

definition dir_frames :: "PageDirectory \<Rightarrow> u32 set" where
  "dir_frames d = insert (phys_dir d) (set (page_tables d) - {0})"

definition dir_inv :: "PageDirectory \<Rightarrow> phys \<Rightarrow> bool" where
  "dir_inv d p \<longleftrightarrow> phys_inv p \<and> dir_wf d (pm_mem p) \<and> (\<forall>a \<in> dir_frames d. used_frame p a)"

lemma dir_wf_present:
  assumes "dir_wf d m" and "i < 1024" and "bit (rd_ent m (phys_dir d) i) 0"
  shows "rd_ent m (phys_dir d) i AND 0xFFFFF000 = page_tables d ! i" and "page_tables d ! i \<noteq> 0"
    and "page_tables d ! i \<noteq> phys_dir d" and "page_frame (page_tables d ! i)"
proof -
  show eq: "rd_ent m (phys_dir d) i AND 0xFFFFF000 = page_tables d ! i" and "page_tables d ! i \<noteq> 0"
    and "page_tables d ! i \<noteq> phys_dir d"
    using assms unfolding dir_wf_def by metis+
  show "page_frame (page_tables d ! i)"
    using page_frame_and [of "rd_ent m (phys_dir d) i"] eq by simp
qed

lemma dir_wf_table_iff:
  "dir_wf d m \<Longrightarrow> i < 1024 \<Longrightarrow> page_tables d ! i = 0 \<longleftrightarrow> \<not> bit (rd_ent m (phys_dir d) i) 0"
  unfolding dir_wf_def by metis

lemma dir_wf_distinct:
  assumes "dir_wf d m" and "i < 1024" and "j < 1024" and "i \<noteq> j" and "page_tables d ! i \<noteq> 0"
  shows "page_tables d ! j \<noteq> page_tables d ! i"
  using assms unfolding dir_wf_def by metis

lemma dir_wf_frame: "dir_wf d m \<Longrightarrow> page_frame (phys_dir d)"
  by (simp add: dir_wf_def)

lemma dir_wf_length: "dir_wf d m \<Longrightarrow> length (page_tables d) = 1024"
  by (simp add: dir_wf_def)

lemma table_in_dir_frames:
  "dir_wf d m \<Longrightarrow> i < 1024 \<Longrightarrow> page_tables d ! i \<noteq> 0 \<Longrightarrow> page_tables d ! i \<in> dir_frames d"
  by (simp add: dir_frames_def dir_wf_length)

text \<open>What the class reports is what the processor does with the directory in CR3.\<close>

lemma mmu_walk_eq:
  assumes "dir_wf d m"
  shows "mmu_walk m (GetCR3 d) v = (if IsMapped d m v then Some (GetPhysical d m v) else None)"
proof (cases "bit (rd_ent m (phys_dir d) (pd_index v)) 0")
  case True
  note pr = dir_wf_present [OF assms pd_index_lt True]
  show ?thesis
    using True pr page_frame_id [OF dir_wf_frame [OF assms]]
    by (simp add: mmu_walk_def mmu_pte_def IsMapped_def GetPhysical_def GetCR3_def Let_def present_iff
        cong del: if_weak_cong)
next
  case False
  then show ?thesis
    using page_frame_id [OF dir_wf_frame [OF assms]]
    by (simp add: mmu_walk_def mmu_pte_def IsMapped_def GetPhysical_def GetCR3_def Let_def present_iff)
qed

lemma mmu_pte_eq:
  assumes "dir_wf d m"
  shows "mmu_pte m (phys_dir d) v =
    (if bit (rd_ent m (phys_dir d) (pd_index v)) 0 \<and>
        bit (rd_ent m (page_tables d ! pd_index v) (pt_index v)) 0
     then Some (rd_ent m (page_tables d ! pd_index v) (pt_index v)) else None)"
  using dir_wf_present [OF assms pd_index_lt, of v] page_frame_id [OF dir_wf_frame [OF assms]]
  by (simp add: mmu_pte_def Let_def present_iff)

section \<open>Taking a frame for a table\<close>

lemma AllocFrame_fresh:
  assumes inv: "phys_inv p" and ne: "free_set (pm_frames p) \<noteq> {}"
    and al: "AllocFrame (pm_frames p) = (a, fr)"
  shows "a \<noteq> 0" and "page_frame a" and "unat a div 4096 \<in> free_set (pm_frames p)"
    and "free_set fr = free_set (pm_frames p) - {unat a div 4096}" and "pmm_inv fr"
    and "total_frames fr = total_frames (pm_frames p)"
proof -
  have i: "pmm_inv (pm_frames p)" "0 \<notin> free_set (pm_frames p)" using inv by (auto simp: phys_inv_def)
  show "a \<noteq> 0" using pool.alloc_null_iff [OF i] ne al by simp
  show "page_frame a" and "unat a div 4096 \<in> free_set (pm_frames p)"
    and "free_set fr = free_set (pm_frames p) - {unat a div 4096}"
    using pool.alloc_aligned [OF i(1) ne] al by (simp_all add: page_frame_def)
  show "pmm_inv fr" and "total_frames fr = total_frames (pm_frames p)"
    using AllocFrame_Some(3,4) [OF i(1) ne] al by simp_all
qed

lemma used_frame_Alloc:
  assumes inv: "phys_inv p" and ne: "free_set (pm_frames p) \<noteq> {}"
    and al: "AllocFrame (pm_frames p) = (a, fr)"
  shows "used_frame \<lparr>pm_mem = m, pm_frames = fr\<rparr> a" and "\<not> used_frame p a"
    and "used_frame p b \<Longrightarrow> used_frame \<lparr>pm_mem = m, pm_frames = fr\<rparr> b"
    and "phys_inv \<lparr>pm_mem = m, pm_frames = fr\<rparr>"
proof -
  note af = AllocFrame_fresh [OF assms]
  have "unat a div 4096 < unat (total_frames (pm_frames p))" using af(3) by (simp add: free_set_def)
  with af show "used_frame \<lparr>pm_mem = m, pm_frames = fr\<rparr> a" by (simp add: used_frame_def)
  show "\<not> used_frame p a" using af(3) by (simp add: used_frame_def)
  show "used_frame p b \<Longrightarrow> used_frame \<lparr>pm_mem = m, pm_frames = fr\<rparr> b"
    using af by (simp add: used_frame_def)
  show "phys_inv \<lparr>pm_mem = m, pm_frames = fr\<rparr>" using af inv by (simp add: phys_inv_def)
qed

lemma used_frame_mem [simp]: "used_frame (p\<lparr>pm_mem := m\<rparr>) a = used_frame p a"
  by (simp add: used_frame_def)

lemma phys_inv_mem [simp]: "phys_inv (p\<lparr>pm_mem := m\<rparr>) = phys_inv p"
  by (simp add: phys_inv_def)

text \<open>
  What \<open>GetOrCreatePageTable\<close> achieves: the entry is present and names a table of the directory,
  which is zeroed if it is new; no other entry of any table has changed.
\<close>

definition got_table :: "PageDirectory \<Rightarrow> phys \<Rightarrow> nat \<Rightarrow> u32 \<Rightarrow> u32 \<Rightarrow> PageDirectory \<Rightarrow> phys \<Rightarrow> bool" where
  "got_table d p i f pt d' p' \<longleftrightarrow> dir_inv d' p' \<and> phys_dir d' = phys_dir d \<and>
     page_tables d' ! i = pt \<and> pt \<noteq> 0 \<and> bit (rd_ent (pm_mem p') (phys_dir d) i) 0 \<and>
     (\<forall>j < 1024. j \<noteq> i \<longrightarrow> page_tables d' ! j = page_tables d ! j) \<and>
     (\<forall>b j. page_frame b \<longrightarrow> j < 1024 \<longrightarrow> (b = phys_dir d \<longrightarrow> j \<noteq> i) \<longrightarrow>
        rd_ent (pm_mem p') b j =
          (if b = pt \<and> page_tables d ! i = 0 then 0 else rd_ent (pm_mem p) b j)) \<and>
     (bit (rd_ent (pm_mem p') (phys_dir d) i) 2 \<longleftrightarrow>
        bit f 2 \<or> page_tables d ! i \<noteq> 0 \<and> bit (rd_ent (pm_mem p) (phys_dir d) i) 2) \<and>
     (if page_tables d ! i = 0 then \<not> used_frame p pt else d' = d \<and> pm_frames p' = pm_frames p) \<and>
     free_set (pm_frames p') =
       free_set (pm_frames p) - (if page_tables d ! i = 0 then {unat pt div 4096} else {}) \<and>
     total_frames (pm_frames p') = total_frames (pm_frames p)"

lemma dir_wf_set_flags:
  assumes wf: "dir_wf d m" and i: "i < 1024" and pr: "bit (rd_ent m (phys_dir d) i) 0"
    and v: "bit v 0" "v AND 0xFFFFF000 = rd_ent m (phys_dir d) i AND 0xFFFFF000"
  shows "dir_wf d (wr_ent m (phys_dir d) i v)"
proof -
  have rd: "rd_ent (wr_ent m (phys_dir d) i v) (phys_dir d) j = (if j = i then v else rd_ent m (phys_dir d) j)"
    if "j < 1024" for j
    using rd_wr_ent_other [OF dir_wf_frame [OF wf] dir_wf_frame [OF wf] i that] by auto
  then show ?thesis
    using wf pr v i unfolding dir_wf_def by (simp cong: conj_cong) metis
qed

lemma got_table_present:
  assumes inv: "dir_inv d p" and i: "i < 1024" and pr: "bit (rd_ent (pm_mem p) (phys_dir d) i) 0"
    and eq: "GetOrCreatePageTable d p i f = (pt, d', p')"
  shows "got_table d p i f pt d' p'"
proof -
  let ?pd = "phys_dir d" and ?pde = "rd_ent (pm_mem p) (phys_dir d) i"
  have wf: "dir_wf d (pm_mem p)" using inv by (simp add: dir_inv_def)
  note fr = dir_wf_frame [OF wf] and ps = dir_wf_present [OF wf i pr]
  show ?thesis
  proof (cases "bit f 2")
    case True
    let ?m = "wr_ent (pm_mem p) ?pd i (?pde OR PAGE_USER)"
    have e: "pt = page_tables d ! i" "d' = d" "p' = p\<lparr>pm_mem := ?m\<rparr>"
      using eq pr True by (auto simp: GetOrCreatePageTable_def Let_def present_iff user_iff)
    have "dir_wf d ?m"
      by (rule dir_wf_set_flags [OF wf i pr]) (use pr in \<open>simp_all add: bit_or_iff or_user_mask\<close>)
    moreover have "rd_ent ?m b j = rd_ent (pm_mem p) b j"
      if "page_frame b" "j < 1024" "b = ?pd \<longrightarrow> j \<noteq> i" for b j
      using rd_wr_ent_other [OF fr that(1) i that(2)] that(3) by auto
    ultimately show ?thesis
      using inv ps(2) pr True by (simp add: got_table_def e dir_inv_def bit_or_iff)
  next
    case False
    have e: "pt = page_tables d ! i" "d' = d" "p' = p"
      using eq pr False by (auto simp: GetOrCreatePageTable_def Let_def present_iff user_iff)
    show ?thesis using inv ps(2) pr False by (simp add: got_table_def e)
  qed
qed

lemma dir_wfI:
  assumes eq: "phys_dir d = pd" "page_tables d = t" and "page_frame pd" and "length t = 1024"
    and "\<And>i. i < 1024 \<Longrightarrow> if bit (rd_ent m pd i) 0
        then t ! i = rd_ent m pd i AND 0xFFFFF000 \<and> t ! i \<noteq> 0 \<and> t ! i \<noteq> pd else t ! i = 0"
    and "\<And>i j. i < 1024 \<Longrightarrow> j < 1024 \<Longrightarrow> i \<noteq> j \<Longrightarrow> t ! i \<noteq> 0 \<Longrightarrow> t ! i \<noteq> t ! j"
  shows "dir_wf d m"
  unfolding dir_wf_def eq using assms(3-) by blast

lemma dir_wf_add_table:
  assumes wf: "dir_wf d m" and i: "i < 1024" and ab: "page_tables d ! i = 0"
    and a: "page_frame a" "a \<noteq> 0" "a \<notin> dir_frames d" and v: "bit v 0" "v AND 0xFFFFF000 = a"
    and m': "\<And>j. j < 1024 \<Longrightarrow>
      rd_ent m' (phys_dir d) j = (if j = i then v else rd_ent m (phys_dir d) j)"
  shows "dir_wf (d\<lparr>page_tables := (page_tables d)[i := a]\<rparr>) m'"
proof -
  let ?t = "page_tables d"
  note len = dir_wf_length [OF wf]
  have na: "?t ! j \<noteq> a" if "j < 1024" for j
    using table_in_dir_frames [OF wf that] a by auto
  have "a \<noteq> phys_dir d" using a(3) by (simp add: dir_frames_def)
  then have "if bit (rd_ent m' (phys_dir d) j) 0
      then ?t[i := a] ! j = rd_ent m' (phys_dir d) j AND 0xFFFFF000 \<and> ?t[i := a] ! j \<noteq> 0 \<and>
        ?t[i := a] ! j \<noteq> phys_dir d
      else ?t[i := a] ! j = 0" if "j < 1024" for j
    using dir_wf_present [OF wf that] dir_wf_table_iff [OF wf that] that v a(2) len i
    by (cases "j = i") (simp_all add: m')
  moreover have "?t[i := a] ! j \<noteq> ?t[i := a] ! k"
    if "j < 1024" "k < 1024" "j \<noteq> k" "?t[i := a] ! j \<noteq> 0" for j k
    using that dir_wf_distinct [OF wf that(1,2,3)] na [OF that(1)] na [OF that(2)] len i
    by (cases "j = i"; cases "k = i") auto
  ultimately show ?thesis
    by (rule dir_wfI [rotated 4]) (simp_all add: len dir_wf_frame [OF wf])
qed

lemma dir_frames_add:
  "length (page_tables d) = 1024 \<Longrightarrow>
    dir_frames (d\<lparr>page_tables := (page_tables d)[i := a]\<rparr>) \<subseteq> insert a (dir_frames d)"
  using set_update_subset_insert [of "page_tables d" i a] by (auto simp: dir_frames_def)

lemma got_table_new:
  assumes inv: "dir_inv d p" and i: "i < 1024" and ab: "\<not> bit (rd_ent (pm_mem p) (phys_dir d) i) 0"
    and ne: "free_set (pm_frames p) \<noteq> {}"
    and eq: "GetOrCreatePageTable d p i f = (pt, d', p')"
  shows "got_table d p i f pt d' p'"
proof -
  let ?pd = "phys_dir d"
  have wf: "dir_wf d (pm_mem p)" and pinv: "phys_inv p" and us: "\<forall>a \<in> dir_frames d. used_frame p a"
    using inv by (simp_all add: dir_inv_def)
  note fr = dir_wf_frame [OF wf]
  have t0: "page_tables d ! i = 0" using ab dir_wf_table_iff [OF wf i] by simp
  obtain a fs where al: "AllocFrame (pm_frames p) = (a, fs)" by (cases "AllocFrame (pm_frames p)")
  note af = AllocFrame_fresh [OF pinv ne al] and ua = used_frame_Alloc [OF pinv ne al]
  let ?v = "a OR PAGE_PRESENT OR PAGE_WRITE OR (f AND PAGE_USER)"
  let ?m = "wr_ent (memzero32 (pm_mem p) a 1024) ?pd i ?v"
  have e: "pt = a" "d' = d\<lparr>page_tables := (page_tables d)[i := a]\<rparr>" "p' = \<lparr>pm_mem = ?m, pm_frames = fs\<rparr>"
    using eq ab al af(1) by (auto simp: GetOrCreatePageTable_def Let_def present_iff)
  have na: "a \<notin> dir_frames d" using ua(2) us by blast
  then have apd: "a \<noteq> ?pd" by (simp add: dir_frames_def)
  have rd: "rd_ent ?m b j = (if b = a then 0 else rd_ent (pm_mem p) b j)"
    if "page_frame b" "j < 1024" "b = ?pd \<longrightarrow> j \<noteq> i" for b j
    using rd_wr_ent_other [OF fr that(1) i that(2), of "memzero32 (pm_mem p) a 1024" ?v] that(3)
      rd_ent_memzero32 [OF af(2) that(1) le_refl that(2)] that(2) by auto
  have v: "bit ?v 0" "?v AND 0xFFFFF000 = a" "bit ?v 2 \<longleftrightarrow> bit f 2"
    using pde_mask [OF af(2)] pde_bits [OF af(2)] by simp_all
  have pdr: "rd_ent ?m ?pd j = (if j = i then ?v else rd_ent (pm_mem p) ?pd j)" if "j < 1024" for j
    using rd [OF fr that] apd by auto
  have wf': "dir_wf d' (pm_mem p')"
    unfolding e using dir_wf_add_table [OF wf i t0 af(2,1) na v(1,2) pdr] by simp
  have "\<forall>b \<in> dir_frames d'. used_frame p' b"
    using dir_frames_add [OF dir_wf_length [OF wf], of i a] us ua(1,3) unfolding e by blast
  with wf' have "dir_inv d' p'" using ua(4) by (simp add: dir_inv_def e)
  then show ?thesis
    using af ua(2) dir_wf_length [OF wf] i t0 v rd pdr [OF i] by (simp add: got_table_def e)
qed

lemma got_table:
  assumes "dir_inv d p" and "i < 1024" and "page_tables d ! i \<noteq> 0 \<or> free_set (pm_frames p) \<noteq> {}"
    and "GetOrCreatePageTable d p i f = (pt, d', p')"
  shows "got_table d p i f pt d' p'"
  using assms got_table_present [OF assms(1,2) _ assms(4)] got_table_new [OF assms(1,2) _ _ assms(4)]
    dir_wf_table_iff [of d "pm_mem p" i] by (auto simp: dir_inv_def)

section \<open>MapPage\<close>

definition make_pte :: "u32 \<Rightarrow> u32 \<Rightarrow> u32" where
  "make_pte physical_addr flags = (physical_addr AND 0xFFFFF000) OR (flags AND 0xFFF)"

lemma bit_make_pte [simp]: "n < 12 \<Longrightarrow> bit (make_pte a f) n \<longleftrightarrow> bit f n"
  unfolding make_pte_def by (simp only: pte_bits) simp

lemma dir_wf_cong:
  assumes wf: "dir_wf d m"
    and eq: "\<And>k. k < 1024 \<Longrightarrow> rd_ent m' (phys_dir d) k = rd_ent m (phys_dir d) k"
  shows "dir_wf d m'"
proof (rule dir_wfI [OF refl refl])
  fix i :: nat
  assume i: "i < 1024"
  show "if bit (rd_ent m' (phys_dir d) i) 0
      then page_tables d ! i = rd_ent m' (phys_dir d) i AND 0xFFFFF000 \<and> page_tables d ! i \<noteq> 0 \<and>
        page_tables d ! i \<noteq> phys_dir d
      else page_tables d ! i = 0"
    using wf i unfolding dir_wf_def eq [OF i] by blast
qed (use wf in \<open>auto simp: dir_wf_def\<close>)

text \<open>Writing one entry of a table of the directory keeps the directory well formed.\<close>

lemma dir_wf_write_pte:
  assumes wf: "dir_wf d m" and i: "i < 1024" "page_tables d ! i \<noteq> 0" and j: "j < 1024"
  shows "dir_wf d (wr_ent m (page_tables d ! i) j v)"
proof -
  have pr: "bit (rd_ent m (phys_dir d) i) 0" using dir_wf_table_iff [OF wf i(1)] i(2) by simp
  note ps = dir_wf_present [OF wf i(1) pr]
  have "rd_ent (wr_ent m (page_tables d ! i) j v) (phys_dir d) k = rd_ent m (phys_dir d) k"
    if "k < 1024" for k
    using rd_wr_ent_other [OF ps(4) dir_wf_frame [OF wf] j that] ps(3) by simp
  with wf show ?thesis by (rule dir_wf_cong)
qed

text \<open>
  The effect of \<open>MapPage\<close>: the directory still satisfies its invariant, the one entry of the table
  it reaches is set, and every other entry in every other frame is as it was, save that a new
  table starts out zero and the directory entry of the page changes.
\<close>

definition page_mapped :: "PageDirectory \<Rightarrow> phys \<Rightarrow> u32 \<Rightarrow> u32 \<Rightarrow> u32 \<Rightarrow> PageDirectory \<Rightarrow> phys \<Rightarrow> bool" where
  "page_mapped d p v a f d' p' \<longleftrightarrow> dir_inv d' p' \<and> phys_dir d' = phys_dir d \<and>
     (\<forall>j < 1024. j \<noteq> pd_index v \<longrightarrow> page_tables d' ! j = page_tables d ! j) \<and>
     page_tables d' ! pd_index v \<noteq> 0 \<and>
     (\<forall>b j. page_frame b \<longrightarrow> j < 1024 \<longrightarrow> (b = phys_dir d \<longrightarrow> j \<noteq> pd_index v) \<longrightarrow>
        rd_ent (pm_mem p') b j =
          (if b = page_tables d' ! pd_index v
           then if j = pt_index v then make_pte a f
                else if page_tables d ! pd_index v = 0 then 0 else rd_ent (pm_mem p) b j
           else rd_ent (pm_mem p) b j)) \<and>
     (bit (rd_ent (pm_mem p') (phys_dir d) (pd_index v)) 2 \<longleftrightarrow> bit f 2 \<or>
        page_tables d ! pd_index v \<noteq> 0 \<and> bit (rd_ent (pm_mem p) (phys_dir d) (pd_index v)) 2) \<and>
     (if page_tables d ! pd_index v = 0 then \<not> used_frame p (page_tables d' ! pd_index v)
      else d' = d \<and> pm_frames p' = pm_frames p) \<and>
     free_set (pm_frames p') = free_set (pm_frames p) -
       (if page_tables d ! pd_index v = 0 then {unat (page_tables d' ! pd_index v) div 4096} else {}) \<and>
     total_frames (pm_frames p') = total_frames (pm_frames p)"

lemma page_mapped:
  assumes inv: "dir_inv d p"
    and ok: "page_tables d ! pd_index v \<noteq> 0 \<or> free_set (pm_frames p) \<noteq> {}"
    and eq: "MapPage d p v a f = (d', p')"
  shows "page_mapped d p v a f d' p'"
proof -
  obtain pt d1 p1 where g: "GetOrCreatePageTable d p (pd_index v) f = (pt, d1, p1)"
    by (metis prod_cases3)
  note gt = got_table [OF inv pd_index_lt ok g]
  have inv1: "dir_inv d1 p1" and pt: "page_tables d1 ! pd_index v = pt" "pt \<noteq> 0"
    and pd: "phys_dir d1 = phys_dir d"
    and pr1: "bit (rd_ent (pm_mem p1) (phys_dir d1) (pd_index v)) 0"
    using gt by (simp_all add: got_table_def)
  have wf1: "dir_wf d1 (pm_mem p1)" using inv1 by (simp add: dir_inv_def)
  note ps = dir_wf_present [OF wf1 pd_index_lt pr1]
  have fr: "page_frame pt" "pt \<noteq> phys_dir d" using ps(3,4) pt pd by simp_all
  let ?m = "wr_ent (pm_mem p1) pt (pt_index v) (make_pte a f)"
  have e: "d' = d1" "p' = p1\<lparr>pm_mem := ?m\<rparr>"
    using eq g pt(2) by (auto simp: MapPage_def make_pte_def)
  have "dir_wf d1 ?m" using dir_wf_write_pte [OF wf1 pd_index_lt [of v] _ pt_index_lt] pt by simp
  then have inv': "dir_inv d' p'" using inv1 by (simp add: dir_inv_def e)
  have rd: "rd_ent ?m b j = (if b = pt \<and> j = pt_index v then make_pte a f else rd_ent (pm_mem p1) b j)"
    if "page_frame b" "j < 1024" for b j
    using rd_wr_ent_other [OF fr(1) that(1) pt_index_lt that(2)] by auto
  have pdr: "rd_ent ?m (phys_dir d) j = rd_ent (pm_mem p1) (phys_dir d) j" if "j < 1024" for j
    using rd [OF _ that, of "phys_dir d"] fr(2) dir_wf_frame [OF wf1] pd by simp
  show ?thesis
    using gt inv' fr(2) rd pdr [OF pd_index_lt]
    unfolding got_table_def page_mapped_def e by (simp add: pt)
qed

section \<open>What mapping and unmapping mean for the processor\<close>

lemma same_page_mask:
  assumes "unat v div 4096 = unat (w :: u32) div 4096"
  shows "v AND 0xFFFFF000 = w AND 0xFFFFF000"
proof -
  have "unat (drop_bit 12 v) = unat (drop_bit 12 w)"
    using assms by (simp add: drop_bit_eq_div unat_div)
  then have eq: "drop_bit 12 v = drop_bit 12 w" by (simp only: u32_eq_iff_unat)
  have "bit v n = bit w n" if "12 \<le> n" for n
    using arg_cong [OF eq, of "\<lambda>x. bit x (n - 12)"] that by (simp add: bit_drop_bit_eq)
  then show ?thesis unfolding page_masks by (intro bit_eqI) (auto simp: bit_simps)
qed

lemma mask_or_offset: "((w :: u32) AND 0xFFFFF000) OR (w AND 0xFFF) = w"
  by (rule bit_eqI) (simp add: pte_bits)

lemma make_pte_mask: "make_pte a f AND 0xFFFFF000 = a AND 0xFFFFF000"
  unfolding make_pte_def by (rule pte_mask)

lemma dir_inv_wf: "dir_inv d p \<Longrightarrow> dir_wf d (pm_mem p)"
  by (simp add: dir_inv_def)

lemma mmu_pte_MapPage:
  assumes inv: "dir_inv d p" and pm: "page_mapped d p v a f d' p'"
  shows "mmu_pte (pm_mem p') (phys_dir d') w =
    (if unat w div 4096 = unat v div 4096 then if bit f 0 then Some (make_pte a f) else None
     else mmu_pte (pm_mem p) (phys_dir d) w)"
proof -
  let ?i = "pd_index v" and ?k = "pd_index w"
  have wf: "dir_wf d (pm_mem p)" and wf': "dir_wf d' (pm_mem p')"
    using inv pm by (simp_all add: dir_inv_def page_mapped_def)
  have pd: "phys_dir d' = phys_dir d" and t: "page_tables d' ! ?i \<noteq> 0"
    and oth: "\<And>j. j < 1024 \<Longrightarrow> j \<noteq> ?i \<Longrightarrow> page_tables d' ! j = page_tables d ! j"
    and old: "page_tables d ! ?i \<noteq> 0 \<Longrightarrow> d' = d"
    and rd: "\<And>b j. page_frame b \<Longrightarrow> j < 1024 \<Longrightarrow> (b = phys_dir d \<longrightarrow> j \<noteq> ?i) \<Longrightarrow>
       rd_ent (pm_mem p') b j = (if b = page_tables d' ! ?i
         then if j = pt_index v then make_pte a f
              else if page_tables d ! ?i = 0 then 0 else rd_ent (pm_mem p) b j
         else rd_ent (pm_mem p) b j)"
    using pm unfolding page_mapped_def by (simp_all split: if_splits)
  have pr': "bit (rd_ent (pm_mem p') (phys_dir d') j) 0 \<longleftrightarrow> page_tables d' ! j \<noteq> 0" if "j < 1024" for j
    using dir_wf_table_iff [OF wf' that] by simp
  have pr: "bit (rd_ent (pm_mem p) (phys_dir d) j) 0 \<longleftrightarrow> page_tables d ! j \<noteq> 0" if "j < 1024" for j
    using dir_wf_table_iff [OF wf that] by simp
  show ?thesis
  proof (cases "?k = ?i")
    case True
    have fr: "page_frame (page_tables d' ! ?i)" "page_tables d' ! ?i \<noteq> phys_dir d"
      using dir_wf_present [OF wf' pd_index_lt] pr' [OF pd_index_lt] t pd by simp_all
    have "unat w div 4096 = unat v div 4096 \<longleftrightarrow> pt_index w = pt_index v"
      using same_page_iff [of w v] True by auto
    then show ?thesis
      unfolding mmu_pte_eq [OF wf] mmu_pte_eq [OF wf']
      using rd [OF fr(1) pt_index_lt, of w] fr(2) t True old pr pr'
      by (cases "pt_index w = pt_index v"; cases "page_tables d ! ?i = 0") simp_all
  next
    case False
    have np: "unat w div 4096 \<noteq> unat v div 4096" using same_page_iff [of w v] False by auto
    have eq: "page_tables d' ! ?k = page_tables d ! ?k" using oth False by simp
    show ?thesis
    proof (cases "page_tables d ! ?k = 0")
      case True
      then show ?thesis using np pr pr' eq by (simp add: mmu_pte_eq [OF wf] mmu_pte_eq [OF wf'])
    next
      case ne: False
      then have fr: "page_frame (page_tables d ! ?k)" "page_tables d ! ?k \<noteq> phys_dir d"
        using dir_wf_present [OF wf pd_index_lt] pr by simp_all
      have "page_tables d' ! ?i \<noteq> page_tables d ! ?k"
        using dir_wf_distinct [OF wf', of ?k ?i] False eq ne by simp
      then show ?thesis
        using rd [OF fr(1) pt_index_lt, of w] fr(2) np pr pr' eq ne
        by (simp add: mmu_pte_eq [OF wf] mmu_pte_eq [OF wf'])
    qed
  qed
qed

text \<open>C5: mapping a page makes the processor translate exactly that page to the frame given, with the
  flags given, provided its table exists or a frame for it is left; every other page is translated
  as before, whatever tables had to be created, and the directory keeps its invariant.
  \<open>GetPhysical\<close> reports what the processor does.\<close>

theorem MapPage_translates:
  assumes "dir_inv d p" and "page_tables d ! pd_index v \<noteq> 0 \<or> free_set (pm_frames p) \<noteq> {}"
    and "MapPage d p v a f = (d', p')"
  shows "dir_inv d' p' \<and>
    (\<forall>w. mmu_walk (pm_mem p') (GetCR3 d') w =
      (if unat w div 4096 = unat v div 4096
       then if bit f 0 then Some ((a AND 0xFFFFF000) OR (w AND 0xFFF)) else None
       else mmu_walk (pm_mem p) (GetCR3 d) w)) \<and>
    (\<forall>w. mmu_walk (pm_mem p') (GetCR3 d') w =
      (if IsMapped d' (pm_mem p') w then Some (GetPhysical d' (pm_mem p') w) else None))"
proof -
  note pm = page_mapped [OF assms]
  then have inv': "dir_inv d' p'" by (simp add: page_mapped_def)
  have "mmu_walk (pm_mem p') (GetCR3 d') w =
      (if unat w div 4096 = unat v div 4096
       then if bit f 0 then Some ((a AND 0xFFFFF000) OR (w AND 0xFFF)) else None
       else mmu_walk (pm_mem p) (GetCR3 d) w)" for w
    by (simp add: mmu_walk_def GetCR3_def make_pte_mask mmu_pte_MapPage [OF assms(1) pm])
  with inv' mmu_walk_eq [OF dir_inv_wf [OF inv']] show ?thesis by blast
qed

text \<open>When the page needs a new table and no frame is left, \<open>MapPage\<close> returns without mapping
  anything and without any sign of it: the memory, the directory and the pool are as before.\<close>

theorem MapPage_without_frames:
  assumes "dir_inv d p" and "page_tables d ! pd_index v = 0" and "free_set (pm_frames p) = {}"
  shows "MapPage d p v a f = (d, p) \<and> \<not> IsMapped d (pm_mem p) v"
proof -
  have "\<not> bit (rd_ent (pm_mem p) (phys_dir d) (pd_index v)) 0"
    using dir_wf_table_iff [OF dir_inv_wf [OF assms(1)] pd_index_lt] assms(2) by simp
  moreover have "AllocFrame (pm_frames p) = (0, pm_frames p)"
    using assms(1,3) by (intro AllocFrame_None) (simp_all add: dir_inv_def phys_inv_def pmm_inv_def)
  ultimately show ?thesis
    by (simp add: MapPage_def GetOrCreatePageTable_def IsMapped_def Let_def present_iff)
qed

text \<open>Unmapping a page removes its translation, and no other.\<close>

theorem UnmapPage_removes:
  assumes inv: "dir_inv d p"
  shows "dir_inv d (UnmapPage d p v) \<and>
    (\<forall>w. mmu_walk (pm_mem (UnmapPage d p v)) (GetCR3 d) w =
      (if unat w div 4096 = unat v div 4096 then None else mmu_walk (pm_mem p) (GetCR3 d) w))"
proof (cases "page_tables d ! pd_index v = 0")
  case True
  note wf = dir_inv_wf [OF inv]
  have pr: "\<not> bit (rd_ent (pm_mem p) (phys_dir d) (pd_index v)) 0"
    using dir_wf_table_iff [OF wf pd_index_lt] True by simp
  then have "UnmapPage d p v = p" by (simp add: UnmapPage_def Let_def present_iff)
  moreover have "mmu_pte (pm_mem p) (phys_dir d) w = None" if "unat w div 4096 = unat v div 4096" for w
    using pr same_page_iff [of w v] that by (simp add: mmu_pte_eq [OF wf])
  ultimately show ?thesis using inv by (simp add: mmu_walk_def GetCR3_def)
next
  case False
  note wf = dir_inv_wf [OF inv]
  let ?t = "page_tables d ! pd_index v"
  let ?m = "wr_ent (pm_mem p) ?t (pt_index v) 0"
  have pr: "bit (rd_ent (pm_mem p) (phys_dir d) (pd_index v)) 0"
    using dir_wf_table_iff [OF wf pd_index_lt] False by simp
  note ps = dir_wf_present [OF wf pd_index_lt pr]
  have eq: "UnmapPage d p v = p\<lparr>pm_mem := ?m\<rparr>"
    using pr False by (simp add: UnmapPage_def Let_def present_iff)
  have wf': "dir_wf d ?m" using dir_wf_write_pte [OF wf pd_index_lt False pt_index_lt] .
  have rd: "rd_ent ?m b j = (if b = ?t \<and> j = pt_index v then 0 else rd_ent (pm_mem p) b j)"
    if "page_frame b" "j < 1024" for b j
    using rd_wr_ent_other [OF ps(4) that(1) pt_index_lt that(2)] by auto
  have pdr: "rd_ent ?m (phys_dir d) j = rd_ent (pm_mem p) (phys_dir d) j" if "j < 1024" for j
    using rd [OF dir_wf_frame [OF wf] that] ps(3) by simp
  have "mmu_pte ?m (phys_dir d) w =
    (if unat w div 4096 = unat v div 4096 then None else mmu_pte (pm_mem p) (phys_dir d) w)" for w
  proof (cases "page_tables d ! pd_index w = 0")
    case True
    then have "pd_index w \<noteq> pd_index v" using False by auto
    then show ?thesis
      using True dir_wf_table_iff [OF wf pd_index_lt, of w] same_page_iff [of w v]
      by (auto simp: mmu_pte_eq [OF wf] mmu_pte_eq [OF wf'] pdr)
  next
    case ne: False
    have fr: "page_frame (page_tables d ! pd_index w)"
      using dir_wf_present(4) [OF wf pd_index_lt] dir_wf_table_iff [OF wf pd_index_lt, of w] ne by simp
    have "page_tables d ! pd_index w = ?t \<and> pt_index w = pt_index v \<longleftrightarrow> unat w div 4096 = unat v div 4096"
      using dir_wf_distinct [OF wf pd_index_lt [of v] pd_index_lt [of w]] False same_page_iff [of w v]
      by metis
    then show ?thesis
      using rd [OF fr pt_index_lt [of w]] by (simp add: mmu_pte_eq [OF wf] mmu_pte_eq [OF wf'] pdr)
  qed
  then show ?thesis using inv wf' by (simp add: eq mmu_walk_def GetCR3_def dir_inv_def)
qed

section \<open>The kernel directory\<close>

definition fresh_dir :: "phys \<Rightarrow> PageDirectory \<Rightarrow> phys \<Rightarrow> bool" where
  "fresh_dir p d p' \<longleftrightarrow> dir_inv d p' \<and> page_tables d = replicate 1024 0 \<and>
     (\<forall>j < 1024. rd_ent (pm_mem p') (phys_dir d) j = 0) \<and>
     (\<forall>b j. page_frame b \<longrightarrow> j < 1024 \<longrightarrow> b \<noteq> phys_dir d \<longrightarrow>
        rd_ent (pm_mem p') b j = rd_ent (pm_mem p) b j) \<and>
     unat (phys_dir d) div 4096 \<in> free_set (pm_frames p) \<and>
     free_set (pm_frames p') = free_set (pm_frames p) - {unat (phys_dir d) div 4096} \<and>
     total_frames (pm_frames p') = total_frames (pm_frames p)"

lemma PageDirectory_new_fresh:
  assumes inv: "phys_inv p" and ne: "free_set (pm_frames p) \<noteq> {}"
    and eq: "PageDirectory_new p = (d, p')"
  shows "fresh_dir p d p'"
proof -
  obtain a fs where al: "AllocFrame (pm_frames p) = (a, fs)" by (cases "AllocFrame (pm_frames p)")
  note af = AllocFrame_fresh [OF inv ne al] and ua = used_frame_Alloc [OF inv ne al]
  let ?m = "memzero32 (pm_mem p) a 1024"
  have e: "d = \<lparr>phys_dir = a, page_tables = replicate 1024 0\<rparr>" "p' = \<lparr>pm_mem = ?m, pm_frames = fs\<rparr>"
    using eq al by (auto simp: PageDirectory_new_def)
  have rd: "rd_ent ?m b j = (if b = a then 0 else rd_ent (pm_mem p) b j)"
    if "page_frame b" "j < 1024" for b j
    using rd_ent_memzero32 [OF af(2) that(1) le_refl that(2)] that(2) by auto
  have "dir_wf d ?m" unfolding e by (rule dir_wfI [OF refl refl]) (simp_all add: af(2) rd)
  then have "dir_inv d p'" using ua(1,4) by (simp add: dir_inv_def e dir_frames_def)
  then show ?thesis using af rd by (simp add: fresh_dir_def e)
qed

lemma fresh_dir_unmapped: "fresh_dir p d p' \<Longrightarrow> mmu_pte (pm_mem p') (phys_dir d) w = None"
  by (simp add: fresh_dir_def mmu_pte_eq dir_inv_wf)

text \<open>
  After \<open>n\<close> pages from address 0 have been mapped on themselves, one table for each 1024 of them
  has been taken from the pool.
\<close>

definition identity_upto :: "phys \<Rightarrow> u32 \<Rightarrow> nat \<Rightarrow> PageDirectory \<times> phys \<Rightarrow> bool" where
  "identity_upto p f n dp \<longleftrightarrow> dir_inv (fst dp) (snd dp) \<and>
     (\<forall>w. mmu_pte (pm_mem (snd dp)) (phys_dir (fst dp)) w =
        (if unat w div 4096 < n then Some (make_pte w f) else None)) \<and>
     (\<forall>i < 1024. page_tables (fst dp) ! i \<noteq> 0 \<longleftrightarrow> i < (n + 1023) div 1024) \<and>
     card (free_set (pm_frames (snd dp))) + (n + 1023) div 1024 = card (free_set (pm_frames p)) \<and>
     free_set (pm_frames (snd dp)) \<subseteq> free_set (pm_frames p) \<and>
     total_frames (pm_frames (snd dp)) = total_frames (pm_frames p)"

lemma tables_for_pages:
  "(Suc n + 1023) div 1024 = Suc (n div 1024)"
  "(n + 1023) div 1024 = (if n mod 1024 = 0 then n div 1024 else Suc (n div 1024))"
proof -
  show "(Suc n + 1023) div 1024 = Suc (n div 1024)" by simp
  obtain q r where n: "n = r + q * 1024" and r: "r < 1024" "n div 1024 = q" "n mod 1024 = r"
    using div_mult_mod_eq [of n 1024] by (metis add.commute mod_less_divisor zero_less_numeral)
  have "(n + 1023) div 1024 = q + (r + 1023) div 1024" using n by simp
  moreover have "(r + 1023) div 1024 = (if r = 0 then 0 else 1)"
    using r(1) by (cases r) simp_all
  ultimately show "(n + 1023) div 1024 = (if n mod 1024 = 0 then n div 1024 else Suc (n div 1024))"
    using r by simp
qed

lemma make_pte_same_page:
  "unat v div 4096 = unat w div 4096 \<Longrightarrow> make_pte v f = make_pte w f"
  unfolding make_pte_def using same_page_mask [of v w] by simp

lemma identity_step:
  assumes up: "identity_upto p f n (d, q)" and n: "n < 1048576" and f: "bit f 0"
    and c: "n div 1024 < card (free_set (pm_frames p))"
  shows "identity_upto p f (Suc n) (MapPage d q (of_nat n * 0x1000) (of_nat n * 0x1000) f)"
proof -
  let ?v = "of_nat n * 0x1000 :: u32"
  have uv: "unat ?v = n * 4096" using unat_u32_of_nat [of "n * 4096"] n by simp
  then have pdv: "pd_index ?v = n div 1024" and pg: "unat ?v div 4096 = n"
    by (simp_all add: pd_index_nat)
  have inv: "dir_inv d q" and tb: "\<And>i. i < 1024 \<Longrightarrow> page_tables d ! i \<noteq> 0 \<longleftrightarrow> i < (n + 1023) div 1024"
    and cd: "card (free_set (pm_frames q)) + (n + 1023) div 1024 = card (free_set (pm_frames p))"
    using up by (simp_all add: identity_upto_def)
  obtain d' q' where mp: "MapPage d q ?v ?v f = (d', q')" by (cases "MapPage d q ?v ?v f")
  have i: "n div 1024 < 1024" using n by (simp add: less_mult_imp_div_less)
  have old: "page_tables d ! pd_index ?v \<noteq> 0 \<longleftrightarrow> n mod 1024 \<noteq> 0"
    using tb [OF i] pdv by (simp add: tables_for_pages(2))
  have "free_set (pm_frames q) \<noteq> {}" if "n mod 1024 = 0"
    using cd c that by (auto simp: tables_for_pages(2))
  then have "page_tables d ! pd_index ?v \<noteq> 0 \<or> free_set (pm_frames q) \<noteq> {}" using old by blast
  note pm = page_mapped [OF inv this mp]
  have inv': "dir_inv d' q'" using pm by (simp add: page_mapped_def)
  have pte: "mmu_pte (pm_mem q') (phys_dir d') w =
    (if unat w div 4096 < Suc n then Some (make_pte w f) else None)" for w
    using mmu_pte_MapPage [OF inv pm, of w] up f make_pte_same_page [of w ?v f] pg
    by (auto simp: identity_upto_def)
  have tb': "page_tables d' ! i \<noteq> 0 \<longleftrightarrow> i < (Suc n + 1023) div 1024" if "i < 1024" for i
  proof (cases "i = n div 1024")
    case True
    then show ?thesis using pm pdv by (simp add: page_mapped_def tables_for_pages(1))
  next
    case False
    then have "i < (Suc n + 1023) div 1024 \<longleftrightarrow> i < (n + 1023) div 1024"
      by (simp only: tables_for_pages(1) tables_for_pages(2) [of n] less_Suc_eq) auto
    then show ?thesis using pm pdv tb [OF that] that False by (simp add: page_mapped_def)
  qed
  have fs: "free_set (pm_frames q') = free_set (pm_frames q) -
      (if n mod 1024 = 0 then {unat (page_tables d' ! pd_index ?v) div 4096} else {})"
    using pm old by (simp add: page_mapped_def split: if_splits)
  have cd': "card (free_set (pm_frames q')) + (Suc n + 1023) div 1024 = card (free_set (pm_frames p))"
  proof (cases "n mod 1024 = 0")
    case True
    let ?t = "page_tables d' ! pd_index ?v"
    have "?t \<in> dir_frames d'" using table_in_dir_frames [OF dir_inv_wf [OF inv'] pd_index_lt] pm
      by (simp add: page_mapped_def)
    then have "used_frame q' ?t" using inv' by (simp add: dir_inv_def)
    moreover have "\<not> used_frame q ?t" "total_frames (pm_frames q') = total_frames (pm_frames q)"
      using pm old True by (simp_all add: page_mapped_def split: if_splits)
    ultimately have "unat ?t div 4096 \<in> free_set (pm_frames q)" by (auto simp: used_frame_def)
    then have "card (free_set (pm_frames q')) + 1 = card (free_set (pm_frames q))"
      using fs True card_Suc_Diff1 [OF finite_free_set] by simp
    moreover have "(Suc n + 1023) div 1024 = (n + 1023) div 1024 + 1"
      using True by (simp only: tables_for_pages(1) tables_for_pages(2) [of n]) simp
    ultimately show ?thesis using cd by simp
  next
    case False
    then have "(Suc n + 1023) div 1024 = (n + 1023) div 1024" by (simp only: tables_for_pages(1) tables_for_pages(2) [of n]) simp
    then show ?thesis using cd fs False by simp
  qed
  show ?thesis
    unfolding identity_upto_def mp fst_conv snd_conv
    using inv' pte tb' cd' fs up pm by (auto simp: identity_upto_def page_mapped_def)
qed

lemma identity_loop:
  assumes "identity_upto p f 0 dp" and "n \<le> 1048576" and "bit f 0"
    and "(n + 1023) div 1024 \<le> card (free_set (pm_frames p))"
  shows "identity_upto p f n
    (fold (\<lambda>addr (d, p). MapPage d p addr addr f) (map (\<lambda>i. of_nat i * 0x1000) [0..<n]) dp)"
  using assms(2,4)
proof (induction n)
  case 0
  then show ?case using assms(1) by simp
next
  case (Suc n)
  let ?dp = "fold (\<lambda>addr (d, p). MapPage d p addr addr f) (map (\<lambda>i. of_nat i * 0x1000) [0..<n]) dp"
  have "n div 1024 < (Suc n + 1023) div 1024" "(n + 1023) div 1024 \<le> (Suc n + 1023) div 1024"
    by (simp_all only: tables_for_pages(1) tables_for_pages(2) [of n]) auto
  moreover obtain d q where dq: "?dp = (d, q)" by (cases ?dp)
  ultimately show ?case
    using Suc identity_step [of p f n d q] assms(3) by simp
qed

lemma CreateKernel_identity:
  assumes inv: "phys_inv p" and fr: "5 \<le> card (free_set (pm_frames p))"
    and eq: "CreateKernel p = (d, p')"
  shows "dir_inv d p'"
    and "mmu_pte (pm_mem p') (phys_dir d) v =
      (if unat v < 0x01000000 then Some (make_pte v PAGE_KERNEL) else None)"
    and "card (free_set (pm_frames p')) + 5 = card (free_set (pm_frames p))"
    and "free_set (pm_frames p') \<subseteq> free_set (pm_frames p)"
    and "total_frames (pm_frames p') = total_frames (pm_frames p)"
    and "i < 1024 \<Longrightarrow> page_tables d ! i \<noteq> 0 \<longleftrightarrow> i < 4"
proof -
  obtain d0 p0 where nw: "PageDirectory_new p = (d0, p0)" by (cases "PageDirectory_new p")
  have "free_set (pm_frames p) \<noteq> {}" using fr by auto
  note fd = PageDirectory_new_fresh [OF inv this nw]
  have c0: "Suc (card (free_set (pm_frames p0))) = card (free_set (pm_frames p))"
    using fd card_Suc_Diff1 [OF finite_free_set, of "unat (phys_dir d0) div 4096" "pm_frames p"]
    by (auto simp: fresh_dir_def)
  have "identity_upto p0 PAGE_KERNEL 0 (d0, p0)"
    using fd fresh_dir_unmapped [OF fd] by (simp add: identity_upto_def fresh_dir_def)
  moreover have "bit PAGE_KERNEL 0" by (simp add: PAGE_KERNEL_def bit_or_iff)
  ultimately have "identity_upto p0 PAGE_KERNEL 4096
    (fold (\<lambda>addr (d, p). MapPage d p addr addr PAGE_KERNEL)
      (map (\<lambda>i. of_nat i * 0x1000) [0..<4096]) (d0, p0))"
    using c0 fr by (intro identity_loop) auto
  then have up: "identity_upto p0 PAGE_KERNEL 4096 (d, p')"
    using eq nw by (simp add: CreateKernel_def MapIdentity_def page_addrs_def)
  have "unat v div 4096 < 4096 \<longleftrightarrow> unat v < 0x01000000" by (simp add: div_less_iff_less_mult)
  with up show "mmu_pte (pm_mem p') (phys_dir d) v =
      (if unat v < 0x01000000 then Some (make_pte v PAGE_KERNEL) else None)"
    unfolding identity_upto_def by simp
  show "dir_inv d p'" and "card (free_set (pm_frames p')) + 5 = card (free_set (pm_frames p))"
    and "free_set (pm_frames p') \<subseteq> free_set (pm_frames p)"
    and "total_frames (pm_frames p') = total_frames (pm_frames p)"
    and "i < 1024 \<Longrightarrow> page_tables d ! i \<noteq> 0 \<longleftrightarrow> i < 4"
    using up c0 fd by (auto simp: identity_upto_def fresh_dir_def)
qed

text \<open>With five frames in the pool, the kernel directory maps every address below 16 MiB to itself
  and nothing else, no page of it is accessible from ring 3, and five frames are used.\<close>

theorem CreateKernel_maps_first_16MB:
  assumes "phys_inv p" and "5 \<le> card (free_set (pm_frames p))" and "CreateKernel p = (d, p')"
  shows "dir_inv d p' \<and>
    (\<forall>v. mmu_walk (pm_mem p') (GetCR3 d) v = (if v < 0x01000000 then Some v else None)) \<and>
    (\<forall>v. \<not> mmu_user (pm_mem p') (GetCR3 d) v) \<and>
    card (free_set (pm_frames p')) = card (free_set (pm_frames p)) - 5"
proof -
  note ck = CreateKernel_identity [OF assms]
  have "\<not> bit (make_pte v PAGE_KERNEL) 2" for v by (simp add: PAGE_KERNEL_def bit_or_iff)
  then have "\<not> mmu_user (pm_mem p') (GetCR3 d) v" for v
    by (simp add: mmu_user_def GetCR3_def ck(2) user_iff)
  moreover have "mmu_walk (pm_mem p') (GetCR3 d) v = (if v < 0x01000000 then Some v else None)" for v
    by (simp add: mmu_walk_def GetCR3_def ck(2) make_pte_mask mask_or_offset word_less_nat_alt)
  ultimately show ?thesis using ck(1,3) by simp
qed

section \<open>Directories that share tables\<close>

text \<open>How a mapping made through \<open>d\<close> shows in another directory \<open>e\<close>.\<close>

definition disjoint_dirs :: "PageDirectory \<Rightarrow> PageDirectory \<Rightarrow> bool" where
  "disjoint_dirs d e \<longleftrightarrow> phys_dir d \<notin> dir_frames e \<and> phys_dir e \<notin> dir_frames d"

lemma other_dir_after_MapPage:
  assumes inv: "dir_inv d p" and inve: "dir_inv e p" and dj: "disjoint_dirs d e"
    and pm: "page_mapped d p v a f d' p'"
  shows "dir_inv e p'" and "disjoint_dirs d' e"
    and "mmu_pte (pm_mem p') (phys_dir e) w =
      (if page_tables e ! pd_index w \<noteq> 0 \<and>
          page_tables e ! pd_index w = page_tables d' ! pd_index v \<and> pt_index w = pt_index v
       then if bit f 0 then Some (make_pte a f) else None
       else mmu_pte (pm_mem p) (phys_dir e) w)"
    and "j < 1024 \<Longrightarrow> rd_ent (pm_mem p') (phys_dir e) j = rd_ent (pm_mem p) (phys_dir e) j"
proof -
  let ?i = "pd_index v"
  let ?t = "page_tables d' ! pd_index v"
  note wf = dir_inv_wf [OF inv] and wfe = dir_inv_wf [OF inve]
  have inv': "dir_inv d' p'" and pd: "phys_dir d' = phys_dir d" and t: "?t \<noteq> 0"
    and oth: "\<And>j. j < 1024 \<Longrightarrow> j \<noteq> ?i \<Longrightarrow> page_tables d' ! j = page_tables d ! j"
    and new: "page_tables d ! ?i = 0 \<Longrightarrow> \<not> used_frame p ?t"
    and old: "page_tables d ! ?i \<noteq> 0 \<Longrightarrow> d' = d"
    and rd: "\<And>b j. page_frame b \<Longrightarrow> j < 1024 \<Longrightarrow> b \<noteq> phys_dir d \<Longrightarrow>
       rd_ent (pm_mem p') b j = (if b = ?t
         then if j = pt_index v then make_pte a f
              else if page_tables d ! ?i = 0 then 0 else rd_ent (pm_mem p) b j
         else rd_ent (pm_mem p) b j)"
    and fs: "free_set (pm_frames p') \<subseteq> free_set (pm_frames p)"
    and tot: "total_frames (pm_frames p') = total_frames (pm_frames p)"
    using pm unfolding page_mapped_def by (auto split: if_splits)
  have used: "used_frame p b" "b \<noteq> phys_dir d" if "b \<in> dir_frames e" for b
    using that inve dj by (auto simp: dir_inv_def disjoint_dirs_def)
  have ed: "phys_dir e \<in> dir_frames e" by (simp add: dir_frames_def)
  have et: "phys_dir e \<noteq> ?t"
  proof (cases "page_tables d ! ?i = 0")
    case True
    then show ?thesis using new used(1) [OF ed] by auto
  next
    case False
    then have "?t \<in> dir_frames d" using old table_in_dir_frames [OF wf pd_index_lt] by auto
    then show ?thesis using dj by (auto simp: disjoint_dirs_def)
  qed
  show rde: "rd_ent (pm_mem p') (phys_dir e) j = rd_ent (pm_mem p) (phys_dir e) j" if "j < 1024" for j
    using rd [OF dir_wf_frame [OF wfe] that used(2) [OF ed]] et by simp
  have wfe': "dir_wf e (pm_mem p')" by (rule dir_wf_cong [OF wfe rde])
  have "used_frame p' b" if "b \<in> dir_frames e" for b
    using used(1) [OF that] fs tot by (auto simp: used_frame_def)
  then show "dir_inv e p'" using wfe' inv' by (simp add: dir_inv_def)
  have "dir_frames d' \<subseteq> insert ?t (dir_frames d)"
  proof
    fix b assume "b \<in> dir_frames d'"
    then consider "b = phys_dir d" | j where "j < 1024" "b = page_tables d' ! j" "b \<noteq> 0"
      using pd dir_wf_length [OF dir_inv_wf [OF inv']] by (auto simp: dir_frames_def in_set_conv_nth)
    then show "b \<in> insert ?t (dir_frames d)"
    proof cases
      case 2
      then show ?thesis using oth [OF 2(1)] table_in_dir_frames [OF wf 2(1)] by (cases "j = ?i") auto
    qed (simp add: dir_frames_def)
  qed
  then show "disjoint_dirs d' e" using dj et pd by (auto simp: disjoint_dirs_def)
  show "mmu_pte (pm_mem p') (phys_dir e) w =
      (if page_tables e ! pd_index w \<noteq> 0 \<and> page_tables e ! pd_index w = ?t \<and> pt_index w = pt_index v
       then if bit f 0 then Some (make_pte a f) else None
       else mmu_pte (pm_mem p) (phys_dir e) w)"
  proof (cases "page_tables e ! pd_index w = 0")
    case True
    then show ?thesis
      using dir_wf_table_iff [OF wfe pd_index_lt, of w]
      by (simp add: mmu_pte_eq [OF wfe] mmu_pte_eq [OF wfe'] rde)
  next
    case False
    let ?b = "page_tables e ! pd_index w"
    have b: "?b \<in> dir_frames e" using table_in_dir_frames [OF wfe pd_index_lt] False by simp
    have "page_tables d ! ?i = 0 \<Longrightarrow> ?b \<noteq> ?t" using new used(1) [OF b] by auto
    moreover have "page_frame ?b" using used(1) [OF b] by (simp add: used_frame_def)
    ultimately show ?thesis
      using rd [OF _ pt_index_lt, of ?b w] used(2) [OF b] False
        dir_wf_table_iff [OF wfe pd_index_lt, of w]
      by (auto simp: mmu_pte_eq [OF wfe] mmu_pte_eq [OF wfe'] rde)
  qed
qed

lemma rd_ent_copy:
  assumes "page_frame a" and "page_frame b" and "a \<noteq> b" and "n \<le> 1024" and "page_frame c" and "j < 1024"
  shows "rd_ent (fold (\<lambda>i m. wr_ent m a i (rd_ent m b i)) [0..<n] m) c j =
    (if c = a \<and> j < n then rd_ent m b j else rd_ent m c j)"
  using assms(4)
proof (induction n)
  case (Suc n)
  let ?m = "fold (\<lambda>i m. wr_ent m a i (rd_ent m b i)) [0..<n] m"
  have bn: "rd_ent ?m b n = rd_ent m b n"
  proof -
    have "rd_ent (fold (\<lambda>i m. wr_ent m a i (rd_ent m b i)) [0..<k] m) b n = rd_ent m b n" if "k \<le> n" for k
      using that
    proof (induction k)
      case (Suc k)
      then show ?case
        using rd_wr_ent_other [of a b k n] assms Suc.prems \<open>Suc n \<le> 1024\<close> by simp
    qed simp
    then show ?thesis by simp
  qed
  show ?case
    using Suc bn rd_wr_ent_other [of a c n j ?m "rd_ent ?m b n"] assms
    by (cases "c = a \<and> j = n") (auto simp: less_Suc_eq)
qed simp

text \<open>
  A directory made by \<open>CreateUser\<close>: its own frame, the kernel's entries, the kernel's tables.
\<close>

definition user_dir :: "PageDirectory \<Rightarrow> phys \<Rightarrow> PageDirectory \<Rightarrow> phys \<Rightarrow> bool" where
  "user_dir kd p d p' \<longleftrightarrow> dir_inv kd p' \<and> dir_inv d p' \<and> disjoint_dirs d kd \<and>
     page_tables d = page_tables kd \<and>
     (\<forall>j < 1024. rd_ent (pm_mem p') (phys_dir d) j = rd_ent (pm_mem p) (phys_dir kd) j) \<and>
     (\<forall>b j. page_frame b \<longrightarrow> j < 1024 \<longrightarrow> b \<noteq> phys_dir d \<longrightarrow>
        rd_ent (pm_mem p') b j = rd_ent (pm_mem p) b j) \<and>
     unat (phys_dir d) div 4096 \<in> free_set (pm_frames p) \<and>
     free_set (pm_frames p') = free_set (pm_frames p) - {unat (phys_dir d) div 4096} \<and>
     total_frames (pm_frames p') = total_frames (pm_frames p)"

lemma CreateUser_user_dir:
  assumes inv: "dir_inv (pg_dirs s ! k) (pg_phys s)" and ne: "free_set (pm_frames (pg_phys s)) \<noteq> {}"
    and eq: "CreateUser s k = (u, s')"
  shows "u = length (pg_dirs s)" and "\<exists>d. pg_dirs s' = pg_dirs s @ [d] \<and> 
    user_dir (pg_dirs s ! k) (pg_phys s) d (pg_phys s')"
    and "kernel_dir s' = kernel_dir s" and "cr3 s' = cr3 s" and "cr0 s' = cr0 s"
proof -
  let ?kd = "pg_dirs s ! k"
  obtain d0 p0 where nw: "PageDirectory_new (pg_phys s) = (d0, p0)"
    by (cases "PageDirectory_new (pg_phys s)")
  have pinv: "phys_inv (pg_phys s)" using inv by (simp add: dir_inv_def)
  note fd = PageDirectory_new_fresh [OF pinv ne nw]
  let ?a = "phys_dir d0"
  let ?m = "fold (\<lambda>i m. wr_ent m ?a i (rd_ent m (phys_dir ?kd) i)) [0..<1024] (pm_mem p0)"
  define d where "d = d0\<lparr>page_tables := page_tables ?kd\<rparr>"
  have e: "u = length (pg_dirs s)" "s' = s\<lparr>pg_phys := p0\<lparr>pm_mem := ?m\<rparr>, pg_dirs := pg_dirs s @ [d]\<rparr>"
    using eq nw unfolding d_def by (auto simp: CreateUser_def Let_def)
  have fra: "page_frame ?a" and i0: "dir_inv d0 p0" using fd dir_wf_frame by (auto simp: fresh_dir_def dir_inv_def)
  have usedk: "used_frame (pg_phys s) b" if "b \<in> dir_frames ?kd" for b
    using inv that by (simp add: dir_inv_def)
  have na: "?a \<notin> dir_frames ?kd" using usedk fd by (auto simp: used_frame_def fresh_dir_def)
  then have ak: "?a \<noteq> phys_dir ?kd" by (auto simp: dir_frames_def)
  note wfk = dir_inv_wf [OF inv]
  have rd: "rd_ent ?m c j = (if c = ?a then rd_ent (pm_mem (pg_phys s)) (phys_dir ?kd) j
      else rd_ent (pm_mem (pg_phys s)) c j)" if "page_frame c" "j < 1024" for c j
    using rd_ent_copy [OF fra dir_wf_frame [OF wfk] ak le_refl that, of "pm_mem p0"] fd that
      dir_wf_frame [OF wfk] ak by (auto simp: fresh_dir_def)
  have wfk': "dir_wf ?kd ?m"
    using rd [OF dir_wf_frame [OF wfk]] ak by (intro dir_wf_cong [OF wfk]) auto
  have "page_tables ?kd ! i \<noteq> ?a" if "i < 1024" "page_tables ?kd ! i \<noteq> 0" for i
    using na table_in_dir_frames [OF wfk that] by auto
  moreover have dist: "page_tables ?kd ! i \<noteq> page_tables ?kd ! j"
    if "i < 1024" "j < 1024" "i \<noteq> j" "page_tables ?kd ! i \<noteq> 0" for i j
    using dir_wf_distinct [OF wfk that] by simp
  ultimately have wfd: "dir_wf d ?m"
    using dir_wf_present [OF wfk] dir_wf_table_iff [OF wfk] fra rd dir_wf_length [OF wfk]
    by (intro dir_wfI [OF _ _ _ _ _ dist, of _ ?a]) (auto simp: d_def)
  have us: "used_frame p0 b" if "used_frame (pg_phys s) b" for b
    using that fd by (auto simp: used_frame_def fresh_dir_def)
  have ua: "used_frame p0 ?a" using i0 by (simp add: dir_inv_def dir_frames_def)
  have "page_tables ?kd ! i \<noteq> phys_dir ?kd" if "i < 1024" "page_tables ?kd ! i \<noteq> 0" for i
    using dir_wf_present(3) [OF wfk that(1)] dir_wf_table_iff [OF wfk that(1)] that(2) by simp
  then have fdd: "dir_frames d = insert ?a (dir_frames ?kd - {phys_dir ?kd})"
    by (auto simp: dir_frames_def d_def in_set_conv_nth dir_wf_length [OF wfk]) metis
  have "dir_inv ?kd (p0\<lparr>pm_mem := ?m\<rparr>)" "dir_inv d (p0\<lparr>pm_mem := ?m\<rparr>)"
    using wfk' wfd usedk us ua i0 fdd by (auto simp: dir_inv_def)
  moreover have "disjoint_dirs d ?kd" using na fdd ak by (auto simp: disjoint_dirs_def d_def)
  ultimately have "user_dir ?kd (pg_phys s) d (p0\<lparr>pm_mem := ?m\<rparr>)"
    using rd fra fd by (simp add: user_dir_def d_def fresh_dir_def)
  then show "\<exists>d. pg_dirs s' = pg_dirs s @ [d] \<and> user_dir ?kd (pg_phys s) d (pg_phys s')"
    by (intro exI [of _ d]) (simp add: e)
  show "u = length (pg_dirs s)" "kernel_dir s' = kernel_dir s" "cr3 s' = cr3 s" "cr0 s' = cr0 s"
    by (simp_all add: e)
qed

lemma user_dir_pte:
  assumes "user_dir kd p d p'" and "dir_wf kd (pm_mem p)"
  shows "mmu_pte (pm_mem p') (phys_dir d) w = mmu_pte (pm_mem p) (phys_dir kd) w"
proof (cases "page_tables kd ! pd_index w = 0")
  case True
  then show ?thesis
    using assms dir_wf_table_iff [OF assms(2) pd_index_lt, of w]
    by (simp add: user_dir_def mmu_pte_eq dir_inv_wf)
next
  case False
  have wfd: "dir_wf d (pm_mem p')" and eq: "page_tables d = page_tables kd"
    using assms(1) by (simp_all add: user_dir_def dir_inv_def)
  have "bit (rd_ent (pm_mem p') (phys_dir d) (pd_index w)) 0"
    using dir_wf_table_iff [OF wfd pd_index_lt, of w] eq False by simp
  note ps = dir_wf_present [OF wfd pd_index_lt this]
  show ?thesis using assms ps(3,4) by (simp add: user_dir_def mmu_pte_eq dir_inv_wf)
qed

text \<open>C6: a directory made by \<open>CreateUser\<close> starts with the kernel's translations. A page mapped through
  it afterwards stays private only where the kernel has no page table: where it has one, the table
  is shared and the kernel's own translation of that page changes with the user's.\<close>

theorem CreateUser_shares_kernel_tables:
  assumes inv: "dir_inv (pg_dirs s ! k) (pg_phys s)" and ne: "free_set (pm_frames (pg_phys s)) \<noteq> {}"
    and cu: "CreateUser s k = (u, s')"
    and ok: "page_tables (pg_dirs s ! k) ! pd_index v \<noteq> 0 \<or> free_set (pm_frames (pg_phys s')) \<noteq> {}"
    and mp: "MapPage (pg_dirs s' ! u) (pg_phys s') v a f = (d', p')"
  shows "(\<forall>w. mmu_walk (pm_mem (pg_phys s')) (GetCR3 (pg_dirs s' ! u)) w =
      mmu_walk (pm_mem (pg_phys s)) (GetCR3 (pg_dirs s ! k)) w) \<and>
    (\<forall>w. mmu_walk (pm_mem p') (GetCR3 (pg_dirs s ! k)) w =
      (if page_tables (pg_dirs s ! k) ! pd_index v \<noteq> 0 \<and> unat w div 4096 = unat v div 4096
       then if bit f 0 then Some ((a AND 0xFFFFF000) OR (w AND 0xFFF)) else None
       else mmu_walk (pm_mem (pg_phys s)) (GetCR3 (pg_dirs s ! k)) w))"
proof -
  let ?kd = "pg_dirs s ! k"
  obtain d where dirs: "pg_dirs s' = pg_dirs s @ [d]" and ud: "user_dir ?kd (pg_phys s) d (pg_phys s')"
    using CreateUser_user_dir(2) [OF inv ne cu] by blast
  have du: "pg_dirs s' ! u = d" using CreateUser_user_dir(1) [OF inv ne cu] dirs by simp
  note wfk = dir_inv_wf [OF inv]
  have invd: "dir_inv d (pg_phys s')" and invk: "dir_inv ?kd (pg_phys s')" and dj: "disjoint_dirs d ?kd"
    and tabs: "page_tables d = page_tables ?kd"
    using ud by (simp_all add: user_dir_def)
  have pm: "page_mapped d (pg_phys s') v a f d' p'"
    using page_mapped [OF invd _ mp [unfolded du]] ok tabs by simp
  have kp: "mmu_pte (pm_mem (pg_phys s')) (phys_dir ?kd) w = mmu_pte (pm_mem (pg_phys s)) (phys_dir ?kd) w" for w
  proof -
    have fr: "page_frame (page_tables ?kd ! pd_index w) \<and> page_tables ?kd ! pd_index w \<noteq> phys_dir d"
      if "page_tables ?kd ! pd_index w \<noteq> 0"
      using table_in_dir_frames [OF dir_inv_wf [OF invk] pd_index_lt that] invk dj
      by (auto simp: dir_inv_def used_frame_def disjoint_dirs_def)
    have "phys_dir ?kd \<noteq> phys_dir d" using dj by (auto simp: disjoint_dirs_def dir_frames_def)
    then show ?thesis
      using fr ud dir_wf_table_iff [OF wfk pd_index_lt, of w] dir_wf_frame [OF wfk]
      by (auto simp: user_dir_def mmu_pte_eq [OF wfk] mmu_pte_eq [OF dir_inv_wf [OF invk]])
  qed
  have shared: "page_tables ?kd ! pd_index w \<noteq> 0 \<and>
        page_tables ?kd ! pd_index w = page_tables d' ! pd_index v \<and> pt_index w = pt_index v \<longleftrightarrow>
      page_tables ?kd ! pd_index v \<noteq> 0 \<and> unat w div 4096 = unat v div 4096" for w
  proof (cases "page_tables ?kd ! pd_index v = 0")
    case True
    then have "\<not> used_frame (pg_phys s') (page_tables d' ! pd_index v)"
      using pm tabs by (simp add: page_mapped_def)
    then show ?thesis
      using True table_in_dir_frames [OF wfk pd_index_lt, of w] invk by (auto simp: dir_inv_def)
  next
    case False
    then have "d' = d" using pm tabs by (simp add: page_mapped_def)
    then show ?thesis
      using False tabs dir_wf_distinct [OF wfk pd_index_lt [of v] pd_index_lt [of w]]
        same_page_iff [of w v] by metis
  qed
  have "mmu_pte (pm_mem p') (phys_dir ?kd) w =
    (if page_tables ?kd ! pd_index v \<noteq> 0 \<and> unat w div 4096 = unat v div 4096
     then if bit f 0 then Some (make_pte a f) else None
     else mmu_pte (pm_mem (pg_phys s)) (phys_dir ?kd) w)" for w
    unfolding other_dir_after_MapPage(3) [OF invd invk dj pm] shared kp ..
  then show ?thesis
    using user_dir_pte [OF ud wfk] by (simp add: mmu_walk_def GetCR3_def du make_pte_mask)
qed

section \<open>Deleting a directory\<close>

lemma free_tables:
  assumes "pmm_inv fr" and "distinct is"
    and "\<And>i. i \<in> set is \<Longrightarrow> P i \<Longrightarrow> unat (t i) div 4096 < unat (total_frames fr) \<and>
           unat (t i) div 4096 \<notin> free_set fr"
    and "inj_on (\<lambda>i. unat (t i) div 4096) {i \<in> set is. P i}"
  shows "pmm_inv (fold (\<lambda>i f. if P i then FreeFrame f (t i) else f) is fr) \<and>
    total_frames (fold (\<lambda>i f. if P i then FreeFrame f (t i) else f) is fr) = total_frames fr \<and>
    free_set (fold (\<lambda>i f. if P i then FreeFrame f (t i) else f) is fr) =
      free_set fr \<union> (\<lambda>i. unat (t i) div 4096) ` {i \<in> set is. P i}"
  using assms
proof (induction "is" arbitrary: fr)
  case (Cons a as)
  show ?case
  proof (cases "P a")
    case True
    let ?fr = "FreeFrame fr (t a)"
    have a: "unat (t a) div 4096 < unat (total_frames fr)" "unat (t a) div 4096 \<notin> free_set fr"
      using Cons.prems(3) True by auto
    have gb: "pmm_inv ?fr" "unat (total_frames ?fr) = unat (total_frames fr)"
      "free_set ?fr = insert (unat (t a) div 4096) (free_set fr)"
      using pool.give_back_frees [OF Cons.prems(1) a] by simp_all
    have sub: "{i \<in> set as. P i} \<subseteq> {i \<in> set (a # as). P i}" by auto
    have "unat (t i) div 4096 < unat (total_frames ?fr) \<and> unat (t i) div 4096 \<notin> free_set ?fr"
      if i: "i \<in> set as" "P i" for i
      using Cons.prems(2,3) i True gb inj_onD [OF Cons.prems(4), of i a] by auto
    then have "pmm_inv (fold (\<lambda>i f. if P i then FreeFrame f (t i) else f) as ?fr) \<and>
      total_frames (fold (\<lambda>i f. if P i then FreeFrame f (t i) else f) as ?fr) = total_frames ?fr \<and>
      free_set (fold (\<lambda>i f. if P i then FreeFrame f (t i) else f) as ?fr) =
        free_set ?fr \<union> (\<lambda>i. unat (t i) div 4096) ` {i \<in> set as. P i}"
      using Cons.prems(2) inj_on_subset [OF Cons.prems(4) sub] gb(1) by (intro Cons.IH) auto
    moreover have "{i \<in> set (a # as). P i} = insert a {i \<in> set as. P i}" using True by auto
    ultimately show ?thesis
      using True gb by (simp add: u32_eq_iff_unat)
  next
    case False
    then have "{i \<in> set (a # as). P i} = {i \<in> set as. P i}" by auto
    then show ?thesis using Cons False by simp
  qed
qed simp

text \<open>C7: deleting a directory gives back its own frame and exactly the page tables that are not the
  kernel's, each once: the free count stays exact.\<close>

theorem PageDirectory_delete_frees_private:
  assumes inv: "dir_inv (pg_dirs s ! this) (pg_phys s)" and k: "kernel_dir s = Some k" "k \<noteq> this"
  shows "pmm_inv (pm_frames (pg_phys (PageDirectory_delete s this))) \<and>
    free_set (pm_frames (pg_phys (PageDirectory_delete s this))) =
      free_set (pm_frames (pg_phys s)) \<union> {unat (phys_dir (pg_dirs s ! this)) div 4096} \<union>
      {unat (page_tables (pg_dirs s ! this) ! i) div 4096 | i. i < 1024 \<and>
         page_tables (pg_dirs s ! this) ! i \<noteq> 0 \<and>
         page_tables (pg_dirs s ! this) ! i \<noteq> page_tables (pg_dirs s ! k) ! i}"
proof -
  let ?d = "pg_dirs s ! this" and ?fr = "pm_frames (pg_phys s)"
  let ?P = "\<lambda>i. page_tables ?d ! i \<noteq> 0 \<and> page_tables ?d ! i \<noteq> page_tables (pg_dirs s ! k) ! i"
  define g where "g = fold (\<lambda>i f. if ?P i then FreeFrame f (page_tables ?d ! i) else f) [0..<1024] ?fr"
  note wf = dir_inv_wf [OF inv]
  have us: "used_frame (pg_phys s) a" if "a \<in> dir_frames ?d" for a
    using inv that by (simp add: dir_inv_def)
  have ut: "used_frame (pg_phys s) (page_tables ?d ! i)" if "i < 1024" "page_tables ?d ! i \<noteq> 0" for i
    using us table_in_dir_frames [OF wf that] by simp
  have ud: "used_frame (pg_phys s) (phys_dir ?d)" using us by (simp add: dir_frames_def)
  have inj: "inj_on (\<lambda>i. unat (page_tables ?d ! i) div 4096) {i \<in> set [0..<1024]. ?P i}"
  proof (rule inj_onI, rule ccontr)
    fix i j
    assume ij: "i \<in> {i \<in> set [0..<1024]. ?P i}" "j \<in> {i \<in> set [0..<1024]. ?P i}"
      "unat (page_tables ?d ! i) div 4096 = unat (page_tables ?d ! j) div 4096" "i \<noteq> j"
    then have "page_tables ?d ! i = page_tables ?d ! j"
      using ut page_frame_unat_eq by (simp add: used_frame_def)
    then show False using dir_wf_distinct [OF wf, of i j] ij by auto
  qed
  have ft: "pmm_inv g" "total_frames g = total_frames ?fr"
    "free_set g = free_set ?fr \<union> (\<lambda>i. unat (page_tables ?d ! i) div 4096) ` {i \<in> set [0..<1024]. ?P i}"
    using free_tables [of ?fr "[0..<1024]" ?P "\<lambda>i. page_tables ?d ! i"] inj ut inv
    by (simp_all add: g_def used_frame_def dir_inv_def phys_inv_def)
  have "unat (phys_dir ?d) div 4096 \<notin> free_set g"
  proof
    assume "unat (phys_dir ?d) div 4096 \<in> free_set g"
    then obtain i where i: "i < 1024" "?P i"
      "unat (phys_dir ?d) div 4096 = unat (page_tables ?d ! i) div 4096"
      using ft(3) ud by (auto simp: used_frame_def)
    then have "page_tables ?d ! i = phys_dir ?d"
      using ut ud page_frame_unat_eq by (simp add: used_frame_def)
    then show False using dir_wf_present(3) [OF wf i(1)] dir_wf_table_iff [OF wf i(1)] i(2) by simp
  qed
  then have gb: "pmm_inv (FreeFrame g (phys_dir ?d))"
    "free_set (FreeFrame g (phys_dir ?d)) = insert (unat (phys_dir ?d) div 4096) (free_set g)"
    using pool.give_back_frees [OF ft(1), of "phys_dir ?d"] ft(2) ud by (simp_all add: used_frame_def)
  have "pm_frames (pg_phys (PageDirectory_delete s this)) = FreeFrame g (phys_dir ?d)"
    using k by (simp add: PageDirectory_delete_def g_def Let_def)
  then show ?thesis using gb ft(3) by auto
qed

section \<open>Concrete instances\<close>

text \<open>A machine of 16 frames with \<open>n\<close> frames in the pool, from frame 3 on.\<close>

definition demo_phys :: "nat \<Rightarrow> phys" where
  "demo_phys n = \<lparr>pm_mem = (\<lambda>_. 0), pm_frames =
     MarkFree (PMM_Init \<lparr>bitmap = replicate 32768 0, total_frames = 0, free_frames = 0\<rparr> 0x10000)
       0x3000 (of_nat (n * 4096))\<rparr>"

lemma demo_phys_inv:
  assumes "n \<le> 10"
  shows "phys_inv (demo_phys n)" and "free_set (pm_frames (demo_phys n)) = {3..<3 + n}"
proof -
  let ?s = "PMM_Init \<lparr>bitmap = replicate 32768 0, total_frames = 0, free_frames = 0\<rparr> 0x10000"
  have i: "pmm_inv ?s" "free_set ?s = {}" "unat (total_frames ?s) = 16"
    using PMM_Init_inv [of "\<lparr>bitmap = replicate 32768 0, total_frames = 0, free_frames = 0\<rparr>" "0x10000"]
    by simp_all
  have un: "unat (of_nat (n * 4096) :: u32) = n * 4096" using assms by (intro unat_u32_of_nat) simp
  note mr = MarkFree_range [OF i(1), of "0x3000" "of_nat (n * 4096)", unfolded un]
  have "free_set (MarkFree ?s 0x3000 (of_nat (n * 4096))) = {3..<3 + n}"
  proof -
    have "(12288 + n * 4096) div 4096 = 3 + n" by simp
    then show ?thesis using mr assms i by auto
  qed
  then show "phys_inv (demo_phys n)" "free_set (pm_frames (demo_phys n)) = {3..<3 + n}"
    using mr assms i by (simp_all add: demo_phys_def phys_inv_def)
qed

definition demo_dir :: "nat \<Rightarrow> PageDirectory \<times> phys" where
  "demo_dir n = PageDirectory_new (demo_phys n)"

lemma demo_dir_inv:
  assumes "0 < n" "n \<le> 10"
  shows "dir_inv (fst (demo_dir n)) (snd (demo_dir n))"
    and "page_tables (fst (demo_dir n)) = replicate 1024 0"
    and "card (free_set (pm_frames (snd (demo_dir n)))) = n - 1"
proof -
  have "fresh_dir (demo_phys n) (fst (demo_dir n)) (snd (demo_dir n))"
    using PageDirectory_new_fresh [OF demo_phys_inv(1) [OF assms(2)]] demo_phys_inv(2) [OF assms(2)] assms
    by (simp add: demo_dir_def)
  then show "dir_inv (fst (demo_dir n)) (snd (demo_dir n))"
    "page_tables (fst (demo_dir n)) = replicate 1024 0"
    "card (free_set (pm_frames (snd (demo_dir n)))) = n - 1"
    using demo_phys_inv(2) [OF assms(2)] by (auto simp: fresh_dir_def)
qed

theorem MapPage_translates_witness:
  "dir_inv (fst (demo_dir 5)) (snd (demo_dir 5)) \<and>
   (case MapPage (fst (demo_dir 5)) (snd (demo_dir 5)) 0x400000 0x7000 PAGE_USER_RW of (d, p) \<Rightarrow>
      mmu_walk (pm_mem p) (GetCR3 d) 0x400123 = Some 0x7123)"
proof -
  obtain d p where mp: "MapPage (fst (demo_dir 5)) (snd (demo_dir 5)) 0x400000 0x7000 PAGE_USER_RW = (d, p)"
    by (cases "MapPage (fst (demo_dir 5)) (snd (demo_dir 5)) 0x400000 0x7000 PAGE_USER_RW")
  have fs: "free_set (pm_frames (snd (demo_dir 5))) \<noteq> {}" using demo_dir_inv(3) [of 5] by auto
  have "bit PAGE_USER_RW 0" by (simp add: PAGE_USER_RW_def bit_or_iff)
  then show ?thesis
    using MapPage_translates [OF demo_dir_inv(1) [of 5] _ mp] fs demo_dir_inv(1) [of 5] mp by simp
qed

theorem MapPage_without_frames_witness:
  "dir_inv (fst (demo_dir 1)) (snd (demo_dir 1)) \<and>
   MapPage (fst (demo_dir 1)) (snd (demo_dir 1)) 0x400000 0x7000 7 = demo_dir 1"
proof -
  have "card (free_set (pm_frames (snd (demo_dir 1)))) = 0" using demo_dir_inv(3) [of 1] by simp
  then have fs: "free_set (pm_frames (snd (demo_dir 1))) = {}" by simp
  show ?thesis
    using MapPage_without_frames [OF demo_dir_inv(1) [of 1], of "0x400000"] demo_dir_inv(1) [of 1]
      demo_dir_inv(2) [of 1] fs by simp
qed

definition demo_mapped :: "PageDirectory \<times> phys" where
  "demo_mapped = MapPage (fst (demo_dir 5)) (snd (demo_dir 5)) 0x400000 0x7000 PAGE_USER_RW"

lemma demo_mapped_inv: "dir_inv (fst demo_mapped) (snd demo_mapped)"
proof -
  have fs: "free_set (pm_frames (snd (demo_dir 5))) \<noteq> {}" using demo_dir_inv(3) [of 5] by auto
  have "page_mapped (fst (demo_dir 5)) (snd (demo_dir 5)) 0x400000 0x7000 PAGE_USER_RW
      (fst demo_mapped) (snd demo_mapped)"
    using page_mapped [OF demo_dir_inv(1) [of 5]] fs by (simp add: demo_mapped_def)
  then show ?thesis by (simp add: page_mapped_def)
qed

theorem UnmapPage_removes_witness:
  "dir_inv (fst demo_mapped) (snd demo_mapped) \<and>
   mmu_walk (pm_mem (UnmapPage (fst demo_mapped) (snd demo_mapped) 0x400000)) (GetCR3 (fst demo_mapped))
     0x400FFF = None"
  using UnmapPage_removes [OF demo_mapped_inv, of "0x400000"] demo_mapped_inv by simp

theorem CreateKernel_maps_first_16MB_witness:
  "phys_inv (demo_phys 9) \<and>
   (case CreateKernel (demo_phys 9) of (d, p) \<Rightarrow>
      mmu_walk (pm_mem p) (GetCR3 d) 0xB8000 = Some 0xB8000 \<and>
      mmu_walk (pm_mem p) (GetCR3 d) 0x1000000 = None \<and> card (free_set (pm_frames p)) = 4)"
proof -
  obtain d p where ck: "CreateKernel (demo_phys 9) = (d, p)" by (cases "CreateKernel (demo_phys 9)")
  show ?thesis
    using CreateKernel_maps_first_16MB [OF demo_phys_inv(1) [of 9] _ ck] demo_phys_inv [of 9] ck by simp
qed

definition demo_paging :: paging where
  "demo_paging = PagingManager_Init
     \<lparr>pg_phys = demo_phys 10, pg_dirs = [], kernel_dir = None, cr0 = 0, cr3 = 0\<rparr>"

lemma demo_paging_inv:
  "dir_inv (pg_dirs demo_paging ! 0) (pg_phys demo_paging)" "length (pg_dirs demo_paging) = 1"
  "kernel_dir demo_paging = Some 0" "card (free_set (pm_frames (pg_phys demo_paging))) = 5"
  "i < 1024 \<Longrightarrow> page_tables (pg_dirs demo_paging ! 0) ! i \<noteq> 0 \<longleftrightarrow> i < 4"
proof -
  obtain d p where ck: "CreateKernel (demo_phys 10) = (d, p)" by (cases "CreateKernel (demo_phys 10)")
  have fs: "free_set (pm_frames (demo_phys 10)) = {3..<13}" using demo_phys_inv(2) [of 10] by simp
  note ci = CreateKernel_identity [OF demo_phys_inv(1) [of 10] _ ck]
  show "dir_inv (pg_dirs demo_paging ! 0) (pg_phys demo_paging)" "length (pg_dirs demo_paging) = 1"
    "kernel_dir demo_paging = Some 0" "card (free_set (pm_frames (pg_phys demo_paging))) = 5"
    "i < 1024 \<Longrightarrow> page_tables (pg_dirs demo_paging ! 0) ! i \<noteq> 0 \<longleftrightarrow> i < 4"
    using ci fs ck by (simp_all add: demo_paging_def PagingManager_Init_def)
qed

definition demo_user :: paging where
  "demo_user = snd (CreateUser demo_paging 0)"

lemma demo_user_inv:
  "CreateUser demo_paging 0 = (1, demo_user)" "dir_inv (pg_dirs demo_user ! 1) (pg_phys demo_user)"
  "kernel_dir demo_user = Some 0"
proof -
  have ne: "free_set (pm_frames (pg_phys demo_paging)) \<noteq> {}" using demo_paging_inv(4) by auto
  obtain u s' where cu: "CreateUser demo_paging 0 = (u, s')" by (cases "CreateUser demo_paging 0")
  note us = CreateUser_user_dir [OF demo_paging_inv(1) ne cu]
  have u: "u = 1" "demo_user = s'" using us(1) demo_paging_inv(2) cu by (simp_all add: demo_user_def)
  with cu show "CreateUser demo_paging 0 = (1, demo_user)" by simp
  show "kernel_dir demo_user = Some 0" using us(3) u demo_paging_inv(3) by simp
  obtain d where "pg_dirs s' = pg_dirs demo_paging @ [d]"
    "user_dir (pg_dirs demo_paging ! 0) (pg_phys demo_paging) d (pg_phys s')" using us(2) by blast
  then show "dir_inv (pg_dirs demo_user ! 1) (pg_phys demo_user)"
    using u demo_paging_inv(2) by (simp add: user_dir_def nth_append)
qed

theorem CreateUser_shares_kernel_tables_witness:
  "dir_inv (pg_dirs demo_paging ! 0) (pg_phys demo_paging) \<and>
   (case MapPage (pg_dirs demo_user ! 1) (pg_phys demo_user) 0x400000 0x7000 PAGE_USER_RW of (d, p) \<Rightarrow>
      mmu_walk (pm_mem p) (GetCR3 (pg_dirs demo_paging ! 0)) 0x400000 = Some 0x7000)"
proof -
  obtain d p where mp: "MapPage (pg_dirs demo_user ! 1) (pg_phys demo_user) 0x400000 0x7000 PAGE_USER_RW = (d, p)"
    by (cases "MapPage (pg_dirs demo_user ! 1) (pg_phys demo_user) 0x400000 0x7000 PAGE_USER_RW")
  have ne: "free_set (pm_frames (pg_phys demo_paging)) \<noteq> {}" using demo_paging_inv(4) by auto
  have t: "page_tables (pg_dirs demo_paging ! 0) ! pd_index 0x400000 \<noteq> 0"
    using demo_paging_inv(5) [of 1] by (simp add: pd_index_nat)
  have "bit PAGE_USER_RW 0" by (simp add: PAGE_USER_RW_def bit_or_iff)
  with t show ?thesis
    using CreateUser_shares_kernel_tables [OF demo_paging_inv(1) ne demo_user_inv(1) _ mp]
      demo_paging_inv(1) mp by simp
qed

theorem PageDirectory_delete_frees_private_witness:
  "dir_inv (pg_dirs demo_user ! 1) (pg_phys demo_user) \<and>
   unat (phys_dir (pg_dirs demo_user ! 1)) div 4096 \<in>
     free_set (pm_frames (pg_phys (PageDirectory_delete demo_user 1)))"
  using PageDirectory_delete_frees_private [OF demo_user_inv(2,3)] demo_user_inv(2) by simp

end
