(* ===== verification/Processes.thy ===== *)
theory Processes
  imports Paging
begin

text \<open>
  Processes, \<^verbatim>\<open>src/src/kernel/process.h\<close> and \<^verbatim>\<open>process.cpp\<close>: the constructor builds on the kernel
  stack of the new process the frame that the interrupt stub will pop to enter ring 3, and gives
  the process a page directory. The kernel stack is an array inside the object; its address is
  that of the storage \<open>operator new\<close> returned, a parameter here. The registers the constructor
  does not set keep what that storage held, also a parameter.
\<close>

section \<open>State and operations\<close>

datatype ProcessState = PROCESS_RUNNING | PROCESS_READY | PROCESS_BLOCKED | PROCESS_DEAD

record CPUState =
  c_eax :: u32
  c_ebx :: u32
  c_ecx :: u32
  c_edx :: u32
  c_esi :: u32
  c_edi :: u32
  c_ebp :: u32
  c_eip :: u32
  c_cs :: u32
  c_eflags :: u32
  c_esp :: u32
  c_ss :: u32

record Process =
  p_pid :: u32
  p_state :: ProcessState
  p_cpu :: CPUState
  p_page_dir :: "nat option"
  p_exit_code :: int
  p_parent_pid :: int
  p_wait_pid :: int
  p_kernel_stack :: u32

definition KERNEL_STACK_SIZE :: u32 where
  "KERNEL_STACK_SIZE = 4096"

definition KernelStackTop :: "Process \<Rightarrow> u32" where
  "KernelStackTop p = p_kernel_stack p + KERNEL_STACK_SIZE"

text \<open>The statement \<^verbatim>\<open>*(--kstack) = v\<close>.\<close>

definition push32 :: "u32 \<Rightarrow> u32 \<times> mem \<Rightarrow> u32 \<times> mem" where
  "push32 v sm = (let sp = fst sm - 4 in (sp, wr32 (snd sm) sp v))"

definition user_stack_top :: "u32 \<Rightarrow> u32" where
  "user_stack_top pid = 0x00C00000 + pid * 0x10000"

text \<open>
  The values in the order the constructor pushes them: the frame \<open>iret\<close> pops, then the general
  registers of \<open>popa\<close>, then the segment registers of the stub.
\<close>

definition start_frame :: "u32 \<Rightarrow> u32 \<Rightarrow> u32 list" where
  "start_frame entry_point pid =
     [0x23, user_stack_top pid, 0x202, 0x1B, entry_point,
      0, 0, 0, 0, 0, 0, 0, 0,
      0x23, 0x23, 0x23, 0x23, 0x10]"

text \<open>The two mapping loops of the constructor work on the new directory through its pointer.\<close>

definition dir_MapIdentity :: "nat \<Rightarrow> u32 \<Rightarrow> u32 \<Rightarrow> u32 \<Rightarrow> paging \<Rightarrow> paging" where
  "dir_MapIdentity u lo hi flags s =
     (let (d, p) = MapIdentity lo hi flags (pg_dirs s ! u, pg_phys s)
      in s\<lparr>pg_phys := p, pg_dirs := (pg_dirs s)[u := d]\<rparr>)"

definition Process_new :: "u32 \<Rightarrow> u32 \<Rightarrow> u32 \<Rightarrow> CPUState \<Rightarrow> paging \<Rightarrow> Process \<times> paging" where
  "Process_new entry_point pid kernel_stack cpu s =
     (let (sp, m) = fold push32 (start_frame entry_point pid)
            (kernel_stack + KERNEL_STACK_SIZE, pm_mem (pg_phys s));
          s = s\<lparr>pg_phys := (pg_phys s)\<lparr>pm_mem := m\<rparr>\<rparr>;
          (pd, s) = (case GetKernelDirectory s of
              None \<Rightarrow> (None, s)
            | Some k \<Rightarrow>
                let (u, s) = CreateUser s k;
                    s = dir_MapIdentity u 0x00400000 0x00500000 PAGE_USER_RW s;
                    stack_base = 0x00C00000 + pid * 0x10000;
                    s = dir_MapIdentity u (stack_base - 0x10000) stack_base PAGE_USER_RW s
                in (Some u, s))
      in (\<lparr>p_pid = pid, p_state = PROCESS_READY, p_cpu = cpu\<lparr>c_esp := sp, c_ss := 0x10\<rparr>,
           p_page_dir = pd, p_exit_code = 0, p_parent_pid = -1, p_wait_pid = -1,
           p_kernel_stack = kernel_stack\<rparr>, s))"

definition Process_delete :: "Process \<Rightarrow> paging \<Rightarrow> paging" where
  "Process_delete p s =
     (case p_page_dir p of None \<Rightarrow> s
      | Some u \<Rightarrow> if GetKernelDirectory s \<noteq> Some u then PageDirectory_delete s u else s)"

section \<open>Mapping ranges whose tables exist\<close>

definition has_tables :: "PageDirectory \<Rightarrow> u32 list \<Rightarrow> bool" where
  "has_tables d vs \<longleftrightarrow> (\<forall>v \<in> set vs. page_tables d ! pd_index v \<noteq> 0)"

definition in_pages :: "u32 list \<Rightarrow> u32 \<Rightarrow> bool" where
  "in_pages vs w \<longleftrightarrow> (\<exists>v \<in> set vs. unat w div 4096 = unat v div 4096)"

text \<open>
  The pages of a list have been mapped on themselves through \<open>d\<close>. Only page-table entries
  and the user bits of directory entries change, so bytes outside the directory's frames do not.
\<close>

definition range_mapped :: "PageDirectory \<Rightarrow> u32 \<Rightarrow> u32 list \<Rightarrow> phys \<Rightarrow> phys \<Rightarrow> bool" where
  "range_mapped d f vs p p' \<longleftrightarrow> dir_inv d p' \<and> pm_frames p' = pm_frames p \<and>
     (\<forall>w. mmu_pte (pm_mem p') (phys_dir d) w =
        (if in_pages vs w then Some (make_pte w f) else mmu_pte (pm_mem p) (phys_dir d) w)) \<and>
     (\<forall>i < 1024. bit (rd_ent (pm_mem p') (phys_dir d) i) 2 \<longleftrightarrow>
        bit (rd_ent (pm_mem p) (phys_dir d) i) 2 \<or> bit f 2 \<and> i \<in> pd_index ` set vs) \<and>
     (\<forall>x. (\<forall>b \<in> dir_frames d. unat x div 4096 \<noteq> unat b div 4096) \<longrightarrow> pm_mem p' x = pm_mem p x)"

lemma wr_ent_bytes:
  assumes "page_frame a" and "i < 1024" and "unat x div 4096 \<noteq> unat a div 4096"
  shows "wr_ent m a i v x = m x"
proof -
  obtain k where k: "unat a = 4096 * k"
    using assms(1) unfolding page_frame_def mod_eq_0_iff_dvd dvd_def by blast
  have "unat x < unat a \<or> unat a + 4096 \<le> unat x"
  proof (rule ccontr)
    assume "\<not> ?thesis"
    then have "4096 * k \<le> unat x" "unat x < 4096 * k + 4096" using k by auto
    then have "unat x div 4096 = k" by (intro div_nat_eqI) auto
    with k assms(3) show False by simp
  qed
  moreover have "unat x + 1 \<le> 4294967296" using unat_u32_lt [of x] by linarith
  ultimately have "apart (a + of_nat (4 * i)) 4 x 1"
    using unat_ent [OF assms(1,2)] page_frame_bound [OF assms(1)] assms(2)
    by (auto simp: apart_def)
  then show ?thesis by (simp add: wr_ent_def wr32_outside)
qed

lemma MapPage_present_bytes:
  assumes inv: "dir_inv d p" and t: "page_tables d ! pd_index v \<noteq> 0"
    and x: "\<forall>b \<in> dir_frames d. unat x div 4096 \<noteq> unat b div 4096"
  shows "pm_mem (snd (MapPage d p v a f)) x = pm_mem p x"
proof -
  note wf = dir_inv_wf [OF inv]
  have pr: "bit (rd_ent (pm_mem p) (phys_dir d) (pd_index v)) 0"
    using dir_wf_table_iff [OF wf pd_index_lt] t by simp
  have xd: "unat x div 4096 \<noteq> unat (phys_dir d) div 4096" using x by (simp add: dir_frames_def)
  have xt: "unat x div 4096 \<noteq> unat (page_tables d ! pd_index v) div 4096"
    using x table_in_dir_frames [OF wf pd_index_lt t] by blast
  note fr = dir_wf_frame [OF wf] dir_wf_present(4) [OF wf pd_index_lt pr]
  show ?thesis
    using wr_ent_bytes [OF fr(1) pd_index_lt xd] wr_ent_bytes [OF fr(2) pt_index_lt xt] pr t
    by (simp add: MapPage_def GetOrCreatePageTable_def Let_def present_iff)
qed

lemma range_mapped_step:
  assumes inv: "dir_inv d p" and t: "page_tables d ! pd_index v \<noteq> 0" and f: "bit f 0"
  shows "\<exists>p'. MapPage d p v v f = (d, p') \<and> range_mapped d f [v] p p'"
proof -
  obtain d' p' where mp: "MapPage d p v v f = (d', p')" by (cases "MapPage d p v v f")
  have pm: "page_mapped d p v v f d' p'" using page_mapped [OF inv _ mp] t by simp
  then have d': "d' = d" and inv': "dir_inv d p'" and fr: "pm_frames p' = pm_frames p"
    using t by (auto simp: page_mapped_def)
  have bits: "bit (rd_ent (pm_mem p') (phys_dir d) i) 2 \<longleftrightarrow>
      bit (rd_ent (pm_mem p) (phys_dir d) i) 2 \<or> bit f 2 \<and> i = pd_index v" if "i < 1024" for i
  proof (cases "i = pd_index v")
    case False
    have "page_tables d ! pd_index v \<noteq> phys_dir d"
      using dir_wf_present(3) [OF dir_inv_wf [OF inv] pd_index_lt]
        dir_wf_table_iff [OF dir_inv_wf [OF inv] pd_index_lt] t by simp
    then have "rd_ent (pm_mem p') (phys_dir d) i = rd_ent (pm_mem p) (phys_dir d) i"
      using pm d' that False dir_wf_frame [OF dir_inv_wf [OF inv]] by (simp add: page_mapped_def)
    then show ?thesis using False by simp
  next
    case True
    then show ?thesis using pm t by (auto simp: page_mapped_def)
  qed
  have "mmu_pte (pm_mem p') (phys_dir d) w =
      (if unat w div 4096 = unat v div 4096 then Some (make_pte w f) else mmu_pte (pm_mem p) (phys_dir d) w)"
    for w
    using mmu_pte_MapPage [OF inv pm, of w] d' f make_pte_same_page [of w v f] by simp
  then have "range_mapped d f [v] p p'"
    using inv' fr bits MapPage_present_bytes [OF inv t, of _ v f] mp
    by (auto simp: range_mapped_def in_pages_def)
  then show ?thesis using mp d' by blast
qed

lemma range_mapped_trans:
  "range_mapped d f vs p p' \<Longrightarrow> range_mapped d f ws p' p'' \<Longrightarrow> range_mapped d f (vs @ ws) p p''"
  unfolding range_mapped_def in_pages_def by (auto simp: image_Un)

lemma range_mapped_fold:
  assumes "dir_inv d p" and "has_tables d vs" and "bit f 0"
  shows "\<exists>p'. fold (\<lambda>addr (d, p). MapPage d p addr addr f) vs (d, p) = (d, p') \<and> range_mapped d f vs p p'"
  using assms(1,2)
proof (induction vs arbitrary: p)
  case Nil
  then show ?case by (auto simp: range_mapped_def in_pages_def)
next
  case (Cons v vs)
  then obtain p1 where p1: "MapPage d p v v f = (d, p1)" "range_mapped d f [v] p p1"
    using range_mapped_step [OF Cons.prems(1) _ assms(3), of v] by (auto simp: has_tables_def)
  then have "dir_inv d p1" by (simp add: range_mapped_def)
  then obtain p2 where "fold (\<lambda>addr (d, p). MapPage d p addr addr f) vs (d, p1) = (d, p2)"
    "range_mapped d f vs p1 p2"
    using Cons.IH Cons.prems(2) by (auto simp: has_tables_def)
  then show ?case using p1 range_mapped_trans [OF p1(2), of vs p2] by auto
qed

section \<open>The start frame\<close>

lemma fold_push32_Cons: "fold push32 (v # vs) (sp, m) = fold push32 vs (sp - 4, wr32 m (sp - 4) v)"
  by (simp add: push32_def Let_def)

lemma fold_push32_sp: "fst (fold push32 vs (sp, m)) = sp - of_nat (4 * length vs)"
proof (induction vs arbitrary: sp m)
  case (Cons v vs)
  have "fst (fold push32 (v # vs) (sp, m)) = sp - 4 - of_nat (4 * length vs)"
    unfolding fold_push32_Cons by (rule Cons)
  then show ?case by (simp add: algebra_simps)
qed simp

lemma fold_push32_outside:
  assumes "4 * length vs \<le> unat sp" and "unat x < unat sp - 4 * length vs \<or> unat sp \<le> unat x"
  shows "snd (fold push32 vs (sp, m)) x = m x"
  using assms
proof (induction vs arbitrary: sp m)
  case (Cons v vs)
  have u: "unat (sp - 4) = unat sp - 4" using Cons.prems by (simp add: unat_u32_minus)
  have "unat x + 1 \<le> 4294967296" "unat sp < 4294967296" using unat_u32_lt [of x] unat_u32_lt [of sp] by linarith+
  then have "apart (sp - 4) 4 x 1" using u Cons.prems by (auto simp: apart_def)
  then have "wr32 m (sp - 4) v x = m x" by (rule wr32_outside)
  moreover have "snd (fold push32 vs (sp - 4, wr32 m (sp - 4) v)) x = wr32 m (sp - 4) v x"
    by (rule Cons.IH) (use u Cons.prems in auto)
  ultimately show ?case unfolding fold_push32_Cons by simp
qed simp

lemma fold_push32_rd:
  assumes "4 * length vs \<le> unat sp" and "i < length vs"
  shows "rd32 (snd (fold push32 vs (sp, m))) (sp - of_nat (4 * length vs) + of_nat (4 * i)) =
    vs ! (length vs - 1 - i)"
  using assms
proof (induction vs arbitrary: sp m)
  case (Cons v vs)
  have u: "unat (sp - 4) = unat sp - 4" using Cons.prems by (simp add: unat_u32_minus)
  have eq: "sp - of_nat (4 * length (v # vs)) = (sp - 4) - of_nat (4 * length vs)" by (simp add: algebra_simps)
  show ?case
  proof (cases "i < length vs")
    case True
    then have "(v # vs) ! (length (v # vs) - 1 - i) = vs ! (length vs - 1 - i)" by (simp add: nth_Cons')
    then show ?thesis
      using Cons.IH [of "sp - 4" "wr32 m (sp - 4) v"] Cons.prems u True
      unfolding fold_push32_Cons eq by simp
  next
    case False
    then have i: "i = length vs" using Cons.prems by simp
    have same: "snd (fold push32 vs (sp - 4, wr32 m (sp - 4) v)) (sp - 4 + of_nat j) =
        wr32 m (sp - 4) v (sp - 4 + of_nat j)" if "j < 4" for j
    proof -
      have "unat (sp - 4) + 4 \<le> 4294967296" using u Cons.prems unat_u32_lt [of sp] by simp
      then have "unat (sp - 4 + of_nat j) = unat (sp - 4) + j" using that by (rule unat_u32_offset)
      then show ?thesis using u Cons.prems by (intro fold_push32_outside) auto
    qed
    have "sp - 4 - of_nat (4 * length vs) + of_nat (4 * i) = sp - 4" using i by simp
    moreover have "rd32 (snd (fold push32 vs (sp - 4, wr32 m (sp - 4) v))) (sp - 4) = v"
      using rd32_cong [of "snd (fold push32 vs (sp - 4, wr32 m (sp - 4) v))" "sp - 4", OF same] by simp
    ultimately show ?thesis unfolding fold_push32_Cons eq using i by simp
  qed
qed simp

section \<open>The address space of a new process\<close>

lemma rd_ent_cong_bytes:
  assumes b: "page_frame b" "j < 1024"
    and eq: "\<And>x. unat x div 4096 = unat b div 4096 \<Longrightarrow> m' x = m x"
  shows "rd_ent m' b j = rd_ent m b j"
  unfolding rd_ent_def
proof (rule rd32_cong)
  fix i :: nat
  assume i: "i < 4"
  have "unat (b + of_nat (4 * j) + of_nat i) = unat b + (4 * j + i)"
    using unat_u32_offset [of b 4096 "4 * j + i"] page_frame_bound [OF b(1)] b(2) i
    by (simp add: add.assoc)
  moreover obtain k where "unat b = 4096 * k"
    using b(1) unfolding page_frame_def mod_eq_0_iff_dvd dvd_def by blast
  ultimately have "unat (b + of_nat (4 * j) + of_nat i) div 4096 = unat b div 4096"
    using b(2) i by simp
  then show "m' (b + of_nat (4 * j) + of_nat i) = m (b + of_nat (4 * j) + of_nat i)" by (rule eq)
qed

lemma shared_pte:
  assumes "dir_wf d m" and "dir_wf e m" and "page_tables d = page_tables e"
  shows "mmu_pte m (phys_dir d) w = mmu_pte m (phys_dir e) w"
  using dir_wf_table_iff [OF assms(1) pd_index_lt, of w] dir_wf_table_iff [OF assms(2) pd_index_lt, of w]
    assms(3) by (simp add: mmu_pte_eq [OF assms(1)] mmu_pte_eq [OF assms(2)])

lemma dir_inv_bytes:
  assumes inv: "dir_inv d p" and fr: "pm_frames p' = pm_frames p"
    and eq: "\<And>x. unat x div 4096 = unat (phys_dir d) div 4096 \<Longrightarrow> pm_mem p' x = pm_mem p x"
  shows "dir_inv d p'"
proof -
  note wf = dir_inv_wf [OF inv]
  have "dir_wf d (pm_mem p')"
    by (rule dir_wf_cong [OF wf], rule rd_ent_cong_bytes [OF dir_wf_frame [OF wf] _ eq])
  then show ?thesis using inv fr by (simp add: dir_inv_def phys_inv_def used_frame_def)
qed

lemma mmu_pte_bytes:
  assumes inv: "dir_inv d p"
    and eq: "\<And>x b. b \<in> dir_frames d \<Longrightarrow> unat x div 4096 = unat b div 4096 \<Longrightarrow> pm_mem p' x = pm_mem p x"
  shows "mmu_pte (pm_mem p') (phys_dir d) w = mmu_pte (pm_mem p) (phys_dir d) w"
proof -
  note wf = dir_inv_wf [OF inv]
  have fr: "page_frame b" if "b \<in> dir_frames d" for b
    using inv that by (simp add: dir_inv_def used_frame_def)
  have rd: "rd_ent (pm_mem p') b j = rd_ent (pm_mem p) b j" if "b \<in> dir_frames d" "j < 1024" for b j
    using rd_ent_cong_bytes [OF fr [OF that(1)] that(2) eq [OF that(1)]] .
  have pd: "phys_dir d \<in> dir_frames d" by (simp add: dir_frames_def)
  then have wf': "dir_wf d (pm_mem p')" by (intro dir_wf_cong [OF wf]) (rule rd)
  show ?thesis
  proof (cases "page_tables d ! pd_index w = 0")
    case True
    then show ?thesis
      using dir_wf_table_iff [OF wf pd_index_lt, of w]
      by (simp add: mmu_pte_eq [OF wf] mmu_pte_eq [OF wf'] rd [OF pd])
  next
    case False
    then show ?thesis
      using rd [OF table_in_dir_frames [OF wf pd_index_lt False] pt_index_lt]
      by (simp add: mmu_pte_eq [OF wf] mmu_pte_eq [OF wf'] rd [OF pd])
  qed
qed

text \<open>The paging state the constructor runs in: a kernel directory that maps the first 16 MiB.\<close>

definition paging_ok :: "paging \<Rightarrow> nat \<Rightarrow> bool" where
  "paging_ok s k \<longleftrightarrow> kernel_dir s = Some k \<and> k < length (pg_dirs s) \<and>
     dir_inv (pg_dirs s ! k) (pg_phys s) \<and> (\<forall>i < 4. page_tables (pg_dirs s ! k) ! i \<noteq> 0)"

text \<open>The kernel stack is apart from the frame pool and from the kernel's page tables.\<close>

definition stack_ok :: "paging \<Rightarrow> nat \<Rightarrow> u32 \<Rightarrow> bool" where
  "stack_ok s k ks \<longleftrightarrow> unat ks + 4096 < 4294967296 \<and>
     (\<forall>x :: u32. unat ks \<le> unat x \<and> unat x < unat ks + 4096 \<longrightarrow>
        unat x div 4096 \<notin> free_set (pm_frames (pg_phys s)) \<and>
        (\<forall>b \<in> dir_frames (pg_dirs s ! k). unat x div 4096 \<noteq> unat b div 4096))"

definition user_pages :: "u32 \<Rightarrow> u32 list" where
  "user_pages pid = page_addrs 0x00400000 0x00500000 @
     page_addrs (0x00C00000 + pid * 0x10000 - 0x10000) (0x00C00000 + pid * 0x10000)"

lemma in_page_addrs:
  fixes lo hi :: u32
  assumes lh: "unat lo = 4096 * a" "unat hi = 4096 * (a + n)"
  shows "(\<exists>v \<in> set (page_addrs lo hi). unat w div 4096 = unat v div 4096) \<longleftrightarrow> unat lo \<le> unat w \<and> unat w < unat hi"
proof -
  have hi: "4096 * (a + n) < 4294967296" using lh(2) unat_u32_lt [of hi] by simp
  have lo: "lo = of_nat (4096 * a)" using arg_cong [OF lh(1), of "of_nat :: nat \<Rightarrow> u32"] by simp
  have va: "unat (lo + of_nat i * 0x1000) = 4096 * (a + i)" if "i < n" for i
  proof -
    have "lo + of_nat i * 0x1000 = of_nat (4096 * (a + i))" unfolding lo by (simp add: algebra_simps)
    moreover have "unat (of_nat (4096 * (a + i)) :: u32) = 4096 * (a + i)"
      by (rule unat_u32_of_nat) (use hi that in simp)
    ultimately show ?thesis by (simp only:)
  qed
  have "(unat hi - unat lo + 4095) div 4096 = n" using lh by simp
  then have "(\<exists>v \<in> set (page_addrs lo hi). unat w div 4096 = unat v div 4096) \<longleftrightarrow>
      (\<exists>i < n. unat w div 4096 = a + i)"
    by (auto simp: page_addrs_def va)
  also have "\<dots> \<longleftrightarrow> a \<le> unat w div 4096 \<and> unat w div 4096 < a + n"
    by (auto intro: exI [of _ "unat w div 4096 - a"])
  also have "\<dots> \<longleftrightarrow> unat lo \<le> unat w \<and> unat w < unat hi"
    by (simp add: lh less_eq_div_iff_mult_less_eq div_less_iff_less_mult mult.commute)
  finally show ?thesis .
qed

lemma unat_stack_base:
  assumes "unat pid \<le> 64"
  shows "unat (0x00C00000 + pid * 0x10000 :: u32) = 0xC00000 + unat pid * 0x10000"
    and "unat (0x00C00000 + pid * 0x10000 - 0x10000 :: u32) = 0xBF0000 + unat pid * 0x10000"
proof -
  have "unat (pid * 0x10000 :: u32) = unat pid * 0x10000"
    using unat_u32_of_nat [of "unat pid * 0x10000"] assms by simp
  then show "unat (0x00C00000 + pid * 0x10000 :: u32) = 0xC00000 + unat pid * 0x10000"
    "unat (0x00C00000 + pid * 0x10000 - 0x10000 :: u32) = 0xBF0000 + unat pid * 0x10000"
    using assms by (simp_all add: unat_u32_plus)
qed

lemma in_user_pages:
  assumes "unat pid \<le> 64"
  shows "in_pages (user_pages pid) w \<longleftrightarrow> 0x400000 \<le> unat w \<and> unat w < 0x500000 \<or>
    0xBF0000 + unat pid * 0x10000 \<le> unat w \<and> unat w < 0xC00000 + unat pid * 0x10000"
proof -
  have r1: "(\<exists>v \<in> set (page_addrs 0x400000 0x500000). unat w div 4096 = unat v div 4096) \<longleftrightarrow>
      0x400000 \<le> unat w \<and> unat w < 0x500000"
    using in_page_addrs [of "0x400000" 1024 "0x500000" 256] by simp
  have r2: "(\<exists>v \<in> set (page_addrs (0x00C00000 + pid * 0x10000 - 0x10000) (0x00C00000 + pid * 0x10000)).
        unat w div 4096 = unat v div 4096) \<longleftrightarrow>
      0xBF0000 + unat pid * 0x10000 \<le> unat w \<and> unat w < 0xC00000 + unat pid * 0x10000"
    using in_page_addrs [of "0x00C00000 + pid * 0x10000 - 0x10000" "0xBF0 + unat pid * 16"
        "0x00C00000 + pid * 0x10000" 16]
    unfolding unat_stack_base [OF assms] by simp
  show ?thesis unfolding in_pages_def user_pages_def set_append bex_Un r1 r2 by blast
qed

lemma user_pages_tables:
  assumes "unat pid \<le> 64" and "\<forall>i < 4. page_tables d ! i \<noteq> 0"
  shows "has_tables d (user_pages pid)"
  unfolding has_tables_def
proof
  fix v
  assume "v \<in> set (user_pages pid)"
  then have "in_pages (user_pages pid) v" by (auto simp: in_pages_def)
  then have "unat v < 0x1000000" using in_user_pages [OF assms(1)] assms(1) by auto
  then have "pd_index v < 4" by (simp add: pd_index_nat div_less_iff_less_mult)
  then show "page_tables d ! pd_index v \<noteq> 0" using assms(2) by blast
qed

text \<open>
  What the constructor leaves behind: \<open>d\<close> is the new directory, made from the kernel's \<open>kd\<close>, with
  the pages of the process mapped for ring 3. The kernel's directory sees the same entries.
\<close>

definition process_space :: "u32 \<Rightarrow> PageDirectory \<Rightarrow> phys \<Rightarrow> PageDirectory \<Rightarrow> phys \<Rightarrow> bool" where
  "process_space pid kd p d p' \<longleftrightarrow> dir_inv kd p' \<and> dir_inv d p' \<and> disjoint_dirs d kd \<and>
     page_tables d = page_tables kd \<and>
     (\<forall>w. mmu_pte (pm_mem p') (phys_dir d) w =
        (if in_pages (user_pages pid) w then Some (make_pte w PAGE_USER_RW)
         else mmu_pte (pm_mem p) (phys_dir kd) w)) \<and>
     (\<forall>i \<in> pd_index ` set (user_pages pid). bit (rd_ent (pm_mem p') (phys_dir d) i) 2) \<and>
     unat (phys_dir d) div 4096 \<in> free_set (pm_frames p) \<and>
     free_set (pm_frames p') = free_set (pm_frames p) - {unat (phys_dir d) div 4096} \<and>
     (\<forall>x. unat x div 4096 \<notin> free_set (pm_frames p) \<and>
        (\<forall>b \<in> dir_frames kd. unat x div 4096 \<noteq> unat b div 4096) \<longrightarrow> pm_mem p' x = pm_mem p x)"

lemma MapIdentity_append:
  "MapIdentity lo' hi' f (MapIdentity lo hi f dp) =
     fold (\<lambda>addr (d, p). MapPage d p addr addr f) (page_addrs lo hi @ page_addrs lo' hi') dp"
  by (simp add: MapIdentity_def)

lemma CreateUser_bytes:
  assumes inv: "dir_inv (pg_dirs s ! k) (pg_phys s)" and ne: "free_set (pm_frames (pg_phys s)) \<noteq> {}"
    and x: "unat x div 4096 \<notin> free_set (pm_frames (pg_phys s))"
  shows "pm_mem (pg_phys (snd (CreateUser s k))) x = pm_mem (pg_phys s) x"
proof -
  obtain a fs where al: "AllocFrame (pm_frames (pg_phys s)) = (a, fs)"
    by (cases "AllocFrame (pm_frames (pg_phys s))")
  have pinv: "phys_inv (pg_phys s)" using inv by (simp add: dir_inv_def)
  note af = AllocFrame_fresh [OF pinv ne al]
  have xa: "unat x div 4096 \<noteq> unat a div 4096" using af(3) x by auto
  have z: "fold (\<lambda>i m. wr_ent m a i (g i m)) [0..<n] m x = m x" if "n \<le> 1024" for n m g
    using that by (induction n) (auto simp: wr_ent_bytes [OF af(2) _ xa])
  show ?thesis
    using z [of 1024 "\<lambda>i m. 0" "pm_mem (pg_phys s)"]
      z [of 1024 "\<lambda>i m. rd_ent m (phys_dir (pg_dirs s ! k)) i" "memzero32 (pm_mem (pg_phys s)) a 1024"]
    by (simp add: CreateUser_def PageDirectory_new_def al Let_def memzero32_def)
qed

lemma process_space_made:
  assumes inv: "dir_inv kd (pg_phys s)" and tb: "\<forall>i < 4. page_tables kd ! i \<noteq> 0" and kd: "kd = pg_dirs s ! k"
    and ne: "free_set (pm_frames (pg_phys s)) \<noteq> {}" and pid: "unat pid \<le> 64"
    and cu: "CreateUser s k = (u, s1)"
    and s': "s' = dir_MapIdentity u (0x00C00000 + pid * 0x10000 - 0x10000) (0x00C00000 + pid * 0x10000)
      PAGE_USER_RW (dir_MapIdentity u 0x00400000 0x00500000 PAGE_USER_RW s1)"
  shows "\<exists>d. u = length (pg_dirs s) \<and> pg_dirs s' = pg_dirs s @ [d] \<and> kernel_dir s' = kernel_dir s \<and>
    process_space pid kd (pg_phys s) d (pg_phys s')"
proof -
  note us = CreateUser_user_dir [OF inv [unfolded kd] ne cu]
  obtain d where dirs: "pg_dirs s1 = pg_dirs s @ [d]" and ud: "user_dir kd (pg_phys s) d (pg_phys s1)"
    using us(2) kd by blast
  have invd: "dir_inv d (pg_phys s1)" and invk: "dir_inv kd (pg_phys s1)" and dj: "disjoint_dirs d kd"
    and tabs: "page_tables d = page_tables kd"
    using ud by (simp_all add: user_dir_def)
  have t: "\<forall>i < 4. page_tables d ! i \<noteq> 0" using tb tabs by simp
  have "bit PAGE_USER_RW 0" and b2: "bit PAGE_USER_RW 2" by (simp_all add: PAGE_USER_RW_def bit_or_iff)
  then obtain p' where fl: "fold (\<lambda>addr (d, p). MapPage d p addr addr PAGE_USER_RW) (user_pages pid)
      (d, pg_phys s1) = (d, p')" and rm: "range_mapped d PAGE_USER_RW (user_pages pid) (pg_phys s1) p'"
    using range_mapped_fold [OF invd user_pages_tables [OF pid t]] by blast
  have u: "pg_dirs s1 ! u = d" "u < length (pg_dirs s1)" using us(1) dirs by simp_all
  have "s' = s1\<lparr>pg_phys := p', pg_dirs := (pg_dirs s1)[u := d]\<rparr>"
    using fl u unfolding s' user_pages_def MapIdentity_append [symmetric]
    by (simp add: dir_MapIdentity_def case_prod_beta)
  then have e: "pg_phys s' = p'" "pg_dirs s' = pg_dirs s @ [d]" "kernel_dir s' = kernel_dir s"
    using us(1,3) dirs by (simp_all add: list_update_append)
  have frm: "dir_frames d \<subseteq> insert (phys_dir d) (dir_frames kd)" using tabs by (auto simp: dir_frames_def)
  have old: "pm_mem p' x = pm_mem (pg_phys s) x" if x: "unat x div 4096 \<notin> free_set (pm_frames (pg_phys s))"
    "\<forall>b \<in> dir_frames kd. unat x div 4096 \<noteq> unat b div 4096" for x
  proof -
    have "unat (phys_dir d) div 4096 \<in> free_set (pm_frames (pg_phys s))" using ud by (simp add: user_dir_def)
    then have "\<forall>b \<in> dir_frames d. unat x div 4096 \<noteq> unat b div 4096" using x frm by auto
    then have "pm_mem p' x = pm_mem (pg_phys s1) x" using rm by (simp add: range_mapped_def)
    then show ?thesis using CreateUser_bytes [OF inv [unfolded kd] ne x(1)] cu by simp
  qed
  have kfr: "unat (phys_dir kd) div 4096 \<noteq> unat b div 4096" if "b \<in> dir_frames d" for b
  proof -
    have "page_frame b" "b \<noteq> phys_dir kd" using that invd dj by (auto simp: dir_inv_def used_frame_def disjoint_dirs_def)
    then show ?thesis using page_frame_unat_eq dir_wf_frame [OF dir_inv_wf [OF invk]] by metis
  qed
  have "dir_inv kd p'"
    using rm kfr by (intro dir_inv_bytes [OF invk]) (auto simp: range_mapped_def)
  then have "process_space pid kd (pg_phys s) d p'"
    using rm dj tabs old ud user_dir_pte [OF ud dir_inv_wf [OF inv]] b2
    by (auto simp: process_space_def range_mapped_def user_dir_def)
  then show ?thesis using e us(1) by auto
qed

lemma start_frame_length [simp]: "length (start_frame e pid) = 18"
  by (simp add: start_frame_def)

lemma Process_new_spec:
  assumes ok: "paging_ok s k" and st: "stack_ok s k ks"
    and ne: "free_set (pm_frames (pg_phys s)) \<noteq> {}" and pid: "unat pid \<le> 64"
    and pn: "Process_new e pid ks cpu s = (pr, s')"
    and m: "m = snd (fold push32 (start_frame e pid) (ks + KERNEL_STACK_SIZE, pm_mem (pg_phys s)))"
  shows "\<exists>d. pg_dirs s' = pg_dirs s @ [d] \<and> p_page_dir pr = Some (length (pg_dirs s)) \<and>
      process_space pid (pg_dirs s ! k) ((pg_phys s)\<lparr>pm_mem := m\<rparr>) d (pg_phys s')"
    and "paging_ok s' k" and "mmu_pte m (phys_dir (pg_dirs s ! k)) w =
      mmu_pte (pm_mem (pg_phys s)) (phys_dir (pg_dirs s ! k)) w"
    and "p_pid pr = pid" and "p_state pr = PROCESS_READY" and "p_kernel_stack pr = ks"
    and "c_esp (p_cpu pr) = ks + KERNEL_STACK_SIZE - 72"
proof -
  let ?kd = "pg_dirs s ! k"
  let ?p0 = "(pg_phys s)\<lparr>pm_mem := m\<rparr>"
  let ?s0 = "s\<lparr>pg_phys := ?p0\<rparr>"
  have kd: "kernel_dir s = Some k" "k < length (pg_dirs s)" "dir_inv ?kd (pg_phys s)"
    "\<forall>i < 4. page_tables ?kd ! i \<noteq> 0"
    using ok by (auto simp: paging_ok_def)
  have top: "unat (ks + KERNEL_STACK_SIZE) = unat ks + 4096"
    using st by (simp add: stack_ok_def KERNEL_STACK_SIZE_def unat_u32_plus)
  have same: "m x = pm_mem (pg_phys s) x" if "\<not> (unat ks \<le> unat x \<and> unat x < unat ks + 4096)" for x
    unfolding m by (rule fold_push32_outside) (use that top in auto)
  then have kb: "m x = pm_mem (pg_phys s) x" if "b \<in> dir_frames ?kd" "unat x div 4096 = unat b div 4096" for x b
    using that st by (auto simp: stack_ok_def)
  have inv0: "dir_inv ?kd ?p0"
    using kb by (intro dir_inv_bytes [OF kd(3)]) (auto simp: dir_frames_def)
  show "mmu_pte m (phys_dir ?kd) w = mmu_pte (pm_mem (pg_phys s)) (phys_dir ?kd) w"
    using mmu_pte_bytes [OF kd(3), of ?p0] kb by simp
  obtain u s1 where cu: "CreateUser ?s0 k = (u, s1)" by (cases "CreateUser ?s0 k")
  have ff: "fold push32 (start_frame e pid) (ks + KERNEL_STACK_SIZE, pm_mem (pg_phys s)) =
      (ks + KERNEL_STACK_SIZE - 72, m)"
    using fold_push32_sp [of "start_frame e pid" "ks + KERNEL_STACK_SIZE" "pm_mem (pg_phys s)"]
    unfolding m by (simp add: prod_eq_iff)
  have s': "s' = dir_MapIdentity u (0x00C00000 + pid * 0x10000 - 0x10000) (0x00C00000 + pid * 0x10000)
      PAGE_USER_RW (dir_MapIdentity u 0x00400000 0x00500000 PAGE_USER_RW s1)"
    and pr: "p_page_dir pr = Some u" "p_pid pr = pid" "p_state pr = PROCESS_READY" "p_kernel_stack pr = ks"
      "c_esp (p_cpu pr) = ks + KERNEL_STACK_SIZE - 72"
    using pn kd(1) cu ff by (auto simp: Process_new_def GetKernelDirectory_def Let_def)
  have "\<exists>d. u = length (pg_dirs ?s0) \<and> pg_dirs s' = pg_dirs ?s0 @ [d] \<and> kernel_dir s' = kernel_dir ?s0 \<and>
    process_space pid ?kd (pg_phys ?s0) d (pg_phys s')"
    by (rule process_space_made [OF _ kd(4) _ _ pid cu s']) (use inv0 ne in simp_all)
  then obtain d where d: "u = length (pg_dirs s)" "pg_dirs s' = pg_dirs s @ [d]" "kernel_dir s' = kernel_dir s"
    "process_space pid ?kd ?p0 d (pg_phys s')" by auto
  then show "\<exists>d. pg_dirs s' = pg_dirs s @ [d] \<and> p_page_dir pr = Some (length (pg_dirs s)) \<and>
      process_space pid ?kd ?p0 d (pg_phys s')"
    using pr(1) by blast
  show "paging_ok s' k"
    using kd d by (simp add: paging_ok_def nth_append process_space_def)
  show "p_pid pr = pid" "p_state pr = PROCESS_READY" "p_kernel_stack pr = ks"
    "c_esp (p_cpu pr) = ks + KERNEL_STACK_SIZE - 72" by (rule pr)+
qed

section \<open>Properties\<close>

text \<open>The kernel stack of a new process holds, from the saved stack pointer on, exactly the frame
  the interrupt return path pops: the stub's segment registers, zeroed general registers, and
  the \<open>iret\<close> frame that enters ring 3 at the entry point with interrupts enabled and the stack of
  that process. Setting up its address space does not disturb the frame.\<close>

theorem Process_new_enters_ring3:
  assumes ok: "paging_ok s k" and st: "stack_ok s k ks"
    and ne: "free_set (pm_frames (pg_phys s)) \<noteq> {}" and pid: "unat pid \<le> 64"
    and pn: "Process_new entry pid ks cpu s = (pr, s')"
  shows "p_state pr = PROCESS_READY \<and> c_esp (p_cpu pr) + 72 = KernelStackTop pr \<and>
    map (\<lambda>i. rd32 (pm_mem (pg_phys s')) (c_esp (p_cpu pr) + of_nat (4 * i))) [0..<18] =
      [0x10, 0x23, 0x23, 0x23, 0x23, 0, 0, 0, 0, 0, 0, 0, 0,
       entry, 0x1B, 0x202, 0x00C00000 + pid * 0x10000, 0x23]"
proof -
  let ?f = "start_frame entry pid"
  define m where "m = snd (fold push32 ?f (ks + KERNEL_STACK_SIZE, pm_mem (pg_phys s)))"
  note sp = Process_new_spec [OF ok st ne pid pn m_def]
  obtain d where ps: "process_space pid (pg_dirs s ! k) ((pg_phys s)\<lparr>pm_mem := m\<rparr>) d (pg_phys s')"
    using sp(1) by blast
  have top: "unat (ks + KERNEL_STACK_SIZE) = unat ks + 4096"
    using st by (simp add: stack_ok_def KERNEL_STACK_SIZE_def unat_u32_plus)
  define sp0 where "sp0 = ks + KERNEL_STACK_SIZE - 72"
  have usp: "unat sp0 = unat ks + 4024" unfolding sp0_def using top by (simp add: unat_u32_minus)
  have stk: "pm_mem (pg_phys s') x = m x" if "unat ks \<le> unat x" "unat x < unat ks + 4096" for x
    using ps st that by (simp add: process_space_def stack_ok_def)
  have rd: "rd32 (pm_mem (pg_phys s')) (sp0 + of_nat (4 * i)) = ?f ! (17 - i)" if i: "i < 18" for i
  proof -
    have "rd32 (pm_mem (pg_phys s')) (sp0 + of_nat (4 * i)) = rd32 m (sp0 + of_nat (4 * i))"
    proof (rule rd32_cong)
      fix j :: nat
      assume j: "j < 4"
      have "unat (sp0 + of_nat (4 * i + j)) = unat ks + 4024 + (4 * i + j)"
        using unat_u32_offset [of sp0 72 "4 * i + j"] usp i j st by (simp add: stack_ok_def)
      then have "unat (sp0 + of_nat (4 * i) + of_nat j) = unat ks + 4024 + (4 * i + j)"
        by (simp add: add.assoc)
      then show "pm_mem (pg_phys s') (sp0 + of_nat (4 * i) + of_nat j) = m (sp0 + of_nat (4 * i) + of_nat j)"
        using i j by (intro stk) auto
    qed
    then show ?thesis
      using fold_push32_rd [of ?f "ks + KERNEL_STACK_SIZE" i "pm_mem (pg_phys s)"] i top
      by (simp add: m_def sp0_def)
  qed
  have "map (\<lambda>i. rd32 (pm_mem (pg_phys s')) (sp0 + of_nat (4 * i))) [0..<18] = map (\<lambda>i. ?f ! (17 - i)) [0..<18]"
    using rd by (intro map_cong) auto
  also have "\<dots> = rev ?f"
    by (rule nth_equalityI) (simp_all add: rev_nth)
  finally show ?thesis
    using sp(5,6,7) by (simp add: sp0_def KernelStackTop_def start_frame_def user_stack_top_def)
qed

lemma process_space_user:
  assumes ps: "process_space pid kd p d p'" and w: "in_pages (user_pages pid) w"
  shows "mmu_walk (pm_mem p') (GetCR3 d) w = Some w" and "mmu_user (pm_mem p') (GetCR3 d) w"
proof -
  have pte: "mmu_pte (pm_mem p') (phys_dir d) w = Some (make_pte w PAGE_USER_RW)"
    using ps w by (simp add: process_space_def)
  then show "mmu_walk (pm_mem p') (GetCR3 d) w = Some w"
    by (simp add: mmu_walk_def GetCR3_def make_pte_mask mask_or_offset)
  obtain v where v: "v \<in> set (user_pages pid)" "unat w div 4096 = unat v div 4096"
    using w by (auto simp: in_pages_def)
  then have "pd_index w = pd_index v" using same_page_iff [of w v] by simp
  then have "bit (rd_ent (pm_mem p') (phys_dir d) (pd_index w)) 2" using ps v by (simp add: process_space_def)
  moreover have "page_frame (phys_dir d)" using ps by (auto simp: process_space_def dir_inv_def dir_wf_def)
  ultimately show "mmu_user (pm_mem p') (GetCR3 d) w"
    using pte page_frame_id by (simp add: mmu_user_def GetCR3_def user_iff PAGE_USER_RW_def bit_or_iff)
qed

text \<open>The directory of a new process maps its program area and its stack for ring 3, each page on
  itself, and keeps the kernel's translation everywhere else.\<close>

theorem Process_new_address_space:
  assumes ok: "paging_ok s k" and st: "stack_ok s k ks"
    and ne: "free_set (pm_frames (pg_phys s)) \<noteq> {}" and pid: "unat pid \<le> 64"
    and pn: "Process_new entry pid ks cpu s = (pr, s')"
  shows "\<exists>u. p_page_dir pr = Some u \<and>
    (\<forall>w. 0x400000 \<le> unat w \<and> unat w < 0x500000 \<or>
         0xBF0000 + unat pid * 0x10000 \<le> unat w \<and> unat w < 0xC00000 + unat pid * 0x10000 \<longrightarrow>
       mmu_walk (pm_mem (pg_phys s')) (GetCR3 (pg_dirs s' ! u)) w = Some w \<and>
       mmu_user (pm_mem (pg_phys s')) (GetCR3 (pg_dirs s' ! u)) w) \<and>
    (\<forall>w. \<not> (0x400000 \<le> unat w \<and> unat w < 0x500000 \<or>
         0xBF0000 + unat pid * 0x10000 \<le> unat w \<and> unat w < 0xC00000 + unat pid * 0x10000) \<longrightarrow>
       mmu_walk (pm_mem (pg_phys s')) (GetCR3 (pg_dirs s' ! u)) w =
         mmu_walk (pm_mem (pg_phys s)) (GetCR3 (pg_dirs s ! k)) w)"
proof -
  define m where "m = snd (fold push32 (start_frame entry pid) (ks + KERNEL_STACK_SIZE, pm_mem (pg_phys s)))"
  note sp = Process_new_spec [OF ok st ne pid pn m_def]
  obtain d where d: "pg_dirs s' = pg_dirs s @ [d]" "p_page_dir pr = Some (length (pg_dirs s))"
    "process_space pid (pg_dirs s ! k) ((pg_phys s)\<lparr>pm_mem := m\<rparr>) d (pg_phys s')"
    using sp(1) by blast
  have "mmu_walk (pm_mem (pg_phys s')) (GetCR3 d) w = mmu_walk (pm_mem (pg_phys s)) (GetCR3 (pg_dirs s ! k)) w"
    if "\<not> in_pages (user_pages pid) w" for w
    using d(3) that sp(3) by (simp add: process_space_def mmu_walk_def GetCR3_def)
  then show ?thesis
    using process_space_user [OF d(3)] d(1,2) by (simp add: in_user_pages [OF pid])
qed

lemma pd_index_stack:
  assumes "0xC00000 \<le> unat w" and "unat w < 0x1000000"
  shows "pd_index w = 3"
  unfolding pd_index_nat using assms by (intro div_nat_eqI) auto

lemma stack_page_index:
  assumes "1 \<le> unat pid" and "unat pid \<le> 64"
  shows "3 \<in> pd_index ` set (user_pages pid)"
proof -
  let ?lo = "0x00C00000 + pid * 0x10000 - 0x10000 :: u32" and ?hi = "0x00C00000 + pid * 0x10000 :: u32"
  note ub = unat_stack_base [OF assms(2)]
  have "?lo \<in> set (page_addrs ?lo ?hi)"
    unfolding page_addrs_def ub by (auto simp: image_iff intro!: bexI [of _ 0])
  moreover have "pd_index ?lo = 3" by (rule pd_index_stack) (use ub assms in simp_all)
  ultimately show ?thesis by (auto simp: user_pages_def image_iff intro!: bexI [of _ ?lo])
qed

text \<open>C11: processes are not isolated from each other: once a second process exists, its directory lets
  ring 3 reach every byte of the stack of the first, at the same address, because both
  directories use the kernel's page table for that region.\<close>

theorem Processes_share_stacks:
  assumes ok: "paging_ok s k" and st1: "stack_ok s k ks1"
    and fr: "2 \<le> card (free_set (pm_frames (pg_phys s)))"
    and p1: "1 \<le> unat pid1" "unat pid1 \<le> 64" and p2: "1 \<le> unat pid2" "unat pid2 \<le> 64"
    and pn1: "Process_new e1 pid1 ks1 cpu1 s = (pr1, s1)" and st2: "stack_ok s1 k ks2"
    and pn2: "Process_new e2 pid2 ks2 cpu2 s1 = (pr2, s2)" and u2: "p_page_dir pr2 = Some u2"
    and w: "0xBF0000 + unat pid1 * 0x10000 \<le> unat w" "unat w < 0xC00000 + unat pid1 * 0x10000"
  shows "mmu_walk (pm_mem (pg_phys s2)) (GetCR3 (pg_dirs s2 ! u2)) w = Some w \<and>
    mmu_user (pm_mem (pg_phys s2)) (GetCR3 (pg_dirs s2 ! u2)) w"
proof -
  have ne: "free_set (pm_frames (pg_phys s)) \<noteq> {}" using fr by auto
  note sp1 = Process_new_spec [OF ok st1 ne p1(2) pn1 refl]
  obtain d1 where d1: "pg_dirs s1 = pg_dirs s @ [d1]"
    "process_space pid1 (pg_dirs s ! k) ((pg_phys s)\<lparr>pm_mem := snd (fold push32 (start_frame e1 pid1)
       (ks1 + KERNEL_STACK_SIZE, pm_mem (pg_phys s)))\<rparr>) d1 (pg_phys s1)"
    using sp1(1) by blast
  have k: "pg_dirs s1 ! k = pg_dirs s ! k" using ok d1(1) by (simp add: paging_ok_def nth_append)
  have "card (free_set (pm_frames (pg_phys s1))) = card (free_set (pm_frames (pg_phys s))) - 1"
    using d1(2) by (simp add: process_space_def)
  then have ne1: "free_set (pm_frames (pg_phys s1)) \<noteq> {}" using fr by auto
  note sp2 = Process_new_spec [OF sp1(2) st2 ne1 p2(2) pn2 refl]
  let ?m2 = "snd (fold push32 (start_frame e2 pid2) (ks2 + KERNEL_STACK_SIZE, pm_mem (pg_phys s1)))"
  obtain d2 where d2: "pg_dirs s2 = pg_dirs s1 @ [d2]" "p_page_dir pr2 = Some (length (pg_dirs s1))"
    "process_space pid2 (pg_dirs s ! k) ((pg_phys s1)\<lparr>pm_mem := ?m2\<rparr>) d2 (pg_phys s2)"
    using sp2(1) k by auto
  have u: "pg_dirs s2 ! u2 = d2" using d2(1,2) u2 by simp
  have in1: "in_pages (user_pages pid1) w" using in_user_pages [OF p1(2)] w by simp
  have "mmu_pte ?m2 (phys_dir (pg_dirs s ! k)) w = mmu_pte (pm_mem (pg_phys s1)) (phys_dir (pg_dirs s ! k)) w"
    using sp2(3) k by simp
  also have "\<dots> = mmu_pte (pm_mem (pg_phys s1)) (phys_dir d1) w"
    using d1(2) by (intro shared_pte) (simp_all add: process_space_def dir_inv_def)
  also have "\<dots> = Some (make_pte w PAGE_USER_RW)" using d1(2) in1 by (simp add: process_space_def)
  finally have pte: "mmu_pte (pm_mem (pg_phys s2)) (phys_dir d2) w = Some (make_pte w PAGE_USER_RW)"
    using d2(3) by (simp add: process_space_def)
  have "pd_index w = 3" by (rule pd_index_stack) (use w p1 in simp_all)
  then have "bit (rd_ent (pm_mem (pg_phys s2)) (phys_dir d2) (pd_index w)) 2"
    using d2(3) stack_page_index [OF p2] unfolding process_space_def by metis
  moreover have "page_frame (phys_dir d2)" using d2(3) by (auto simp: process_space_def dir_inv_def dir_wf_def)
  ultimately show ?thesis
    using pte page_frame_id
    by (simp add: u mmu_walk_def mmu_user_def GetCR3_def user_iff make_pte_mask mask_or_offset
        PAGE_USER_RW_def bit_or_iff)
qed

section \<open>Concrete instances\<close>

definition demo_cpu :: CPUState where
  "demo_cpu = \<lparr>c_eax = 0, c_ebx = 0, c_ecx = 0, c_edx = 0, c_esi = 0, c_edi = 0, c_ebp = 0,
     c_eip = 0, c_cs = 0, c_eflags = 0, c_esp = 0, c_ss = 0\<rparr>"

lemma demo_paging_ok: "paging_ok demo_paging 0"
  using demo_paging_inv by (simp add: paging_ok_def)

lemma demo_frames_low:
  "b \<in> dir_frames (pg_dirs demo_paging ! 0) \<Longrightarrow> unat b div 4096 < 16"
  "free_set (pm_frames (pg_phys demo_paging)) \<subseteq> {..<16}"
proof -
  obtain d p where ck: "CreateKernel (demo_phys 10) = (d, p)" by (cases "CreateKernel (demo_phys 10)")
  have fs: "free_set (pm_frames (demo_phys 10)) = {3..<13}" using demo_phys_inv(2) [of 10] by simp
  note ci = CreateKernel_identity [OF demo_phys_inv(1) [of 10] _ ck]
  let ?s = "PMM_Init \<lparr>bitmap = replicate 32768 0, total_frames = 0, free_frames = 0\<rparr> 0x10000"
  have "pmm_inv ?s" "unat (total_frames ?s) = 16"
    using PMM_Init_inv [of "\<lparr>bitmap = replicate 32768 0, total_frames = 0, free_frames = 0\<rparr>" "0x10000"]
    by simp_all
  then have "unat (total_frames (pm_frames (demo_phys 10))) = 16"
    using MarkFree_range [of ?s "0x3000" "of_nat (10 * 4096)"] by (simp add: demo_phys_def)
  then have "unat (total_frames (pm_frames p)) = 16" using ci fs by simp
  moreover have "dir_inv d p" using ci fs by simp
  moreover have "pg_dirs demo_paging ! 0 = d" "pg_phys demo_paging = p"
    using ck by (simp_all add: demo_paging_def PagingManager_Init_def)
  ultimately show "b \<in> dir_frames (pg_dirs demo_paging ! 0) \<Longrightarrow> unat b div 4096 < 16"
    "free_set (pm_frames (pg_phys demo_paging)) \<subseteq> {..<16}"
    by (auto simp: dir_inv_def used_frame_def free_set_def)
qed

lemma high_frame: "0x200000 \<le> unat (x :: u32) \<Longrightarrow> 16 \<le> unat x div 4096"
  by (simp add: less_eq_div_iff_mult_less_eq)

lemma demo_stack_ok: "0x200000 \<le> unat ks \<Longrightarrow> unat ks < 0x300000 \<Longrightarrow> stack_ok demo_paging 0 ks"
  using demo_frames_low high_frame by (fastforce simp: stack_ok_def)

lemma demo_free: "free_set (pm_frames (pg_phys demo_paging)) \<noteq> {}"
  using demo_paging_inv(4) by auto

theorem Process_new_enters_ring3_witness:
  "paging_ok demo_paging 0 \<and> stack_ok demo_paging 0 0x200000 \<and>
   (case Process_new 0x400000 1 0x200000 demo_cpu demo_paging of (pr, s) \<Rightarrow>
      c_esp (p_cpu pr) + 72 = KernelStackTop pr)"
proof -
  obtain pr s where pn: "Process_new 0x400000 1 0x200000 demo_cpu demo_paging = (pr, s)"
    by (cases "Process_new 0x400000 1 0x200000 demo_cpu demo_paging")
  show ?thesis
    using Process_new_enters_ring3 [OF demo_paging_ok demo_stack_ok demo_free _ pn] pn
      demo_paging_ok demo_stack_ok [of "0x200000"] by simp
qed

theorem Process_new_address_space_witness:
  "paging_ok demo_paging 0 \<and> stack_ok demo_paging 0 0x200000 \<and>
   (case Process_new 0x400000 1 0x200000 demo_cpu demo_paging of (pr, s) \<Rightarrow>
      \<exists>u. p_page_dir pr = Some u \<and> mmu_user (pm_mem (pg_phys s)) (GetCR3 (pg_dirs s ! u)) 0xC0FFFC)"
proof -
  obtain pr s where pn: "Process_new 0x400000 1 0x200000 demo_cpu demo_paging = (pr, s)"
    by (cases "Process_new 0x400000 1 0x200000 demo_cpu demo_paging")
  obtain u where "p_page_dir pr = Some u" "mmu_user (pm_mem (pg_phys s)) (GetCR3 (pg_dirs s ! u)) 0xC0FFFC"
    using Process_new_address_space [OF demo_paging_ok demo_stack_ok demo_free _ pn] by force
  then show ?thesis using pn demo_paging_ok demo_stack_ok [of "0x200000"] by simp
qed

theorem Processes_share_stacks_witness:
  "paging_ok demo_paging 0 \<and>
   (case Process_new 0x400000 1 0x200000 demo_cpu demo_paging of (pr1, s1) \<Rightarrow>
    case Process_new 0x400000 2 0x202000 demo_cpu s1 of (pr2, s2) \<Rightarrow>
      stack_ok s1 0 0x202000 \<and>
      (\<exists>u2. p_page_dir pr2 = Some u2 \<and>
         mmu_user (pm_mem (pg_phys s2)) (GetCR3 (pg_dirs s2 ! u2)) 0xC0FFFC))"
proof -
  obtain pr1 s1 where pn1: "Process_new 0x400000 1 0x200000 demo_cpu demo_paging = (pr1, s1)"
    by (cases "Process_new 0x400000 1 0x200000 demo_cpu demo_paging")
  obtain pr2 s2 where pn2: "Process_new 0x400000 2 0x202000 demo_cpu s1 = (pr2, s2)"
    by (cases "Process_new 0x400000 2 0x202000 demo_cpu s1")
  have "stack_ok demo_paging 0 0x200000" by (rule demo_stack_ok) simp_all
  note sp1 = Process_new_spec [OF demo_paging_ok this demo_free _ pn1 refl, simplified]
  obtain d where d: "pg_dirs s1 = pg_dirs demo_paging @ [d]"
    "free_set (pm_frames (pg_phys s1)) \<subseteq> free_set (pm_frames (pg_phys demo_paging))"
    "free_set (pm_frames (pg_phys s1)) =
       free_set (pm_frames (pg_phys demo_paging)) - {unat (phys_dir d) div 4096}"
    using sp1(1) by (auto simp: process_space_def)
  have st2: "stack_ok s1 0 0x202000"
    using demo_stack_ok [of "0x202000"] d demo_paging_inv(2) by (auto simp: stack_ok_def nth_append)
  have "card (free_set (pm_frames (pg_phys s1))) \<noteq> 0"
    using d(3) demo_paging_inv(4) by (cases "unat (phys_dir d) div 4096 \<in> free_set (pm_frames (pg_phys demo_paging))") auto
  then have ne1: "free_set (pm_frames (pg_phys s1)) \<noteq> {}" by auto
  obtain u2 where u2: "p_page_dir pr2 = Some u2"
    using Process_new_spec(1) [OF sp1(2) st2 ne1 _ pn2 refl] by auto
  have "mmu_user (pm_mem (pg_phys s2)) (GetCR3 (pg_dirs s2 ! u2)) 0xC0FFFC"
    using Processes_share_stacks [OF demo_paging_ok demo_stack_ok _ _ _ _ _ pn1 st2 pn2 u2, of "0xC0FFFC"]
      demo_paging_inv(4) by simp
  then show ?thesis using pn1 pn2 st2 u2 demo_paging_ok by simp
qed

end
