(* ===== verification/Boot_Memory.thy ===== *)
theory Boot_Memory
  imports Kernel_Heap Processes
begin

text \<open>
  The memory set-up at the start of \<^verbatim>\<open>kernelMain\<close> (\<^verbatim>\<open>src/src/kernel/kernel.cpp\<close>): the memory map of
  the boot loader is searched for the largest usable region above 2 MiB, the region is cut at 16 MiB and divided
  into the kernel heap and a pool of 128 page frames, and paging is started on them.

  The lemmas follow the state through all of it: which region is found, that heap and pool are disjoint parts of it,
  that the heap is well formed with all its space free once paging is on, and what the kernel directory maps.
\<close>

section \<open>The memory map\<close>

type_synonym u64 = "64 word"

text \<open>The structs are packed and lie in memory; the boot loader wrote them.\<close>

record MultibootInfo =
  mb_flags :: u32
  mb_mem_upper :: u32
  mb_mmap_length :: u32
  mb_mmap_addr :: u32

definition multiboot_at :: "mem \<Rightarrow> u32 \<Rightarrow> MultibootInfo" where
  "multiboot_at m a =
     \<lparr>mb_flags = rd32 m a, mb_mem_upper = rd32 m (a + 8), mb_mmap_length = rd32 m (a + 44), mb_mmap_addr = rd32 m (a + 48)\<rparr>"

record MemoryMapEntry =
  e_size :: u32
  e_base_addr :: u64
  e_length :: u64
  e_type :: u32

definition rd64 :: "mem \<Rightarrow> u32 \<Rightarrow> u64" where
  "rd64 m a = ucast (rd32 m a) OR push_bit 32 (ucast (rd32 m (a + 4)))"

definition map_entry_at :: "mem \<Rightarrow> u32 \<Rightarrow> MemoryMapEntry" where
  "map_entry_at m a =
     \<lparr>e_size = rd32 m a, e_base_addr = rd64 m (a + 4), e_length = rd64 m (a + 12), e_type = rd32 m (a + 20)\<rparr>"

text \<open>One entry: the heap found so far is a start and a size.\<close>

definition consider_entry :: "MemoryMapEntry \<Rightarrow> u32 \<times> u32 \<Rightarrow> u32 \<times> u32" where
  "consider_entry e heap =
     (if e_type e = 1 \<and> e_base_addr e < 0xFFFFFFFF
      then let base = ucast (e_base_addr e); len = ucast (e_length e);
               delta = 0x00200000 - base
           in if base < 0x00200000 \<and> delta \<ge> len then heap
              else let (base, len) = (if base < 0x00200000 then (0x00200000, len - delta) else (base, len))
                   in if len > snd heap then (base, len) else heap
      else heap)"

text \<open>The loop ends only if the sizes of the entries lead past the end of the map.\<close>

partial_function (option) scan_map :: "mem \<Rightarrow> u32 \<Rightarrow> u32 \<Rightarrow> u32 \<times> u32 \<Rightarrow> (u32 \<times> u32) option" where
  "scan_map m entry stop heap =
     (if entry < stop
      then let e = map_entry_at m entry in scan_map m (entry + e_size e + 4) stop (consider_entry e heap)
      else Some heap)"

definition find_heap :: "mem \<Rightarrow> MultibootInfo \<Rightarrow> (u32 \<times> u32) option" where
  "find_heap m mb =
     (if mb_flags mb AND push_bit 6 1 \<noteq> 0
      then scan_map m (mb_mmap_addr mb) (mb_mmap_addr mb + mb_mmap_length mb) (0, 0)
      else Some (0, 0))"

section \<open>Heap, frame pool and paging\<close>

definition PMM_POOL_SIZE :: u32 where
  "PMM_POOL_SIZE = 128 * 4096"

text \<open>The heap, cut at 16 MiB, and the frame pool at its top.\<close>

definition split_memory :: "u32 \<times> u32 \<Rightarrow> (u32 \<times> u32) \<times> u32" where
  "split_memory heap =
     (let (heap_start, heap_size) = heap;
          heap_size = (if heap_start + heap_size > 0x01000000 then 0x01000000 - heap_start else heap_size);
          pmm_pool_base = heap_start + heap_size - PMM_POOL_SIZE
      in ((heap_start, heap_size - PMM_POOL_SIZE), pmm_pool_base))"

text \<open>The array of the frame bitmap and the control registers have some contents before.\<close>

definition boot_memory :: "u32 \<Rightarrow> mem \<Rightarrow> pmm \<Rightarrow> u32 \<Rightarrow> u32 \<Rightarrow> (MemoryManager \<times> paging) option" where
  "boot_memory multiboot m frames c0 c3 = do {
     let mb = multiboot_at m multiboot;
     heap \<leftarrow> find_heap m mb;
     let ((heap_start, heap_size), pmm_pool_base) = split_memory heap;
     let (mm, m) = MemoryManager_new m heap_start heap_size;
     let total_mem = mb_mem_upper mb * 1024 + 0x100000;
     let frames = MarkFree (PMM_Init frames total_mem) pmm_pool_base PMM_POOL_SIZE;
     let pg = PagingManager_Init
       \<lparr>pg_phys = \<lparr>pm_mem = m, pm_frames = frames\<rparr>, pg_dirs = [], kernel_dir = None, cr0 = c0, cr3 = c3\<rparr>;
     k \<leftarrow> GetKernelDirectory pg;
     Some (mm, PagingManager_Enable pg k)
   }"

section \<open>The largest usable region\<close>

text \<open>The entries of a memory map laid out in memory up to \<open>stop\<close>.\<close>

fun laid_out :: "mem \<Rightarrow> u32 \<Rightarrow> MemoryMapEntry list \<Rightarrow> u32 \<Rightarrow> bool" where
  "laid_out m a [] stop = (\<not> a < stop)"
| "laid_out m a (e # es) stop = (a < stop \<and> map_entry_at m a = e \<and> laid_out m (a + e_size e + 4) es stop)"

lemma scan_map_fold: "laid_out m a es stop \<Longrightarrow> scan_map m a stop heap = Some (fold consider_entry es heap)"
proof (induction es arbitrary: a heap)
  case Nil
  then show ?case by (simp add: scan_map.simps [of m a])
next
  case (Cons e es)
  then show ?case by (simp add: scan_map.simps [of m a])
qed

definition available :: "MemoryMapEntry \<Rightarrow> bool" where
  "available e \<longleftrightarrow> e_type e = 1 \<and> e_base_addr e < 0xFFFFFFFF"

text \<open>An available region as an interval of addresses: from \<open>region_lo\<close>, at least 2 MiB, up to \<open>region_hi\<close>.\<close>

definition region_lo :: "MemoryMapEntry \<Rightarrow> nat" where
  "region_lo e = max (unat (e_base_addr e)) 0x200000"

definition region_hi :: "MemoryMapEntry \<Rightarrow> nat" where
  "region_hi e = unat (e_base_addr e) + unat (e_length e)"

definition usable :: "MemoryMapEntry \<Rightarrow> nat" where
  "usable e = (if available e then region_hi e - region_lo e else 0)"

text \<open>The source keeps only the low 32 bits of base and length.\<close>

definition below_4GB :: "MemoryMapEntry \<Rightarrow> bool" where
  "below_4GB e \<longleftrightarrow> (available e \<longrightarrow> region_hi e < 4294967296)"

lemma unat_ucast_u64: "unat (w :: u64) < 4294967296 \<Longrightarrow> unat (ucast w :: u32) = unat w"
  by (simp add: unsigned_ucast_eq take_bit_nat_eq_self)

lemma unat_u32_sub: "unat b \<le> unat a \<Longrightarrow> unat (a - b :: u32) = unat a - unat b"
  using unat_sub [of b a] by (simp add: word_le_nat_alt)

lemma consider_entry_usable:
  assumes "below_4GB e"
  shows "consider_entry e heap =
    (if usable e > unat (snd heap) then (of_nat (region_lo e), of_nat (usable e)) else heap)"
proof (cases "available e")
  case False
  then have "\<not> (e_type e = 1 \<and> e_base_addr e < 0xFFFFFFFF)" "usable e = 0"
    by (simp_all only: available_def usable_def if_False not_False_eq_True)
  then show ?thesis by (simp only: consider_entry_def if_False not_less_zero)
next
  case av: True
  let ?b = "ucast (e_base_addr e) :: u32" and ?l = "ucast (e_length e) :: u32"
  have hi: "region_hi e < 4294967296" using assms av by (simp add: below_4GB_def)
  have b: "unat ?b = unat (e_base_addr e)" and l: "unat ?l = unat (e_length e)"
    using hi by (simp_all add: unat_ucast_u64 region_hi_def)
  have c: "consider_entry e heap = (if ?b < 0x200000 \<and> 0x200000 - ?b \<ge> ?l then heap
      else if ?b < 0x200000 then if ?l - (0x200000 - ?b) > snd heap then (0x200000, ?l - (0x200000 - ?b)) else heap
      else if ?l > snd heap then (?b, ?l) else heap)"
    using av by (simp add: consider_entry_def available_def Let_def)
  show ?thesis
  proof (cases "?b < 0x200000")
    case True
    then have lt: "unat (e_base_addr e) < 0x200000" using b by (simp add: word_less_nat_alt)
    have d: "unat (0x200000 - ?b) = 0x200000 - unat (e_base_addr e)" using lt b unat_u32_sub [of ?b "0x200000"] by simp
    have u: "usable e = unat (e_length e) - (0x200000 - unat (e_base_addr e))" "region_lo e = 0x200000"
      using lt av by (simp_all add: usable_def region_hi_def region_lo_def)
    show ?thesis
    proof (cases "0x200000 - ?b \<ge> ?l")
      case True
      then have "usable e = 0" using u d l by (simp add: word_le_nat_alt)
      then show ?thesis using True \<open>?b < 0x200000\<close> c by simp
    next
      case False
      then have n: "unat (?l - (0x200000 - ?b)) = usable e" using u d l unat_u32_sub [of "0x200000 - ?b" ?l] by (simp add: word_le_nat_alt)
      have "(?l - (0x200000 - ?b) > snd heap) = (usable e > unat (snd heap))" unfolding word_less_nat_alt n ..
      moreover have "?l - (0x200000 - ?b) = of_nat (usable e)" unfolding n [symmetric] by simp
      ultimately show ?thesis using False True c u(2) by (simp only: if_True if_False simp_thms of_nat_numeral)
    qed
  next
    case False
    then have "0x200000 \<le> unat (e_base_addr e)" using b by (simp add: word_less_nat_alt)
    then have u: "usable e = unat ?l" "region_lo e = unat ?b"
      using av b l by (simp_all add: usable_def region_hi_def region_lo_def)
    show ?thesis unfolding c u using False by (simp add: word_less_nat_alt)
  qed
qed

lemma fold_consider:
  assumes "\<forall>e \<in> set es. below_4GB e" and "e \<in> set es" and "\<forall>e' \<in> set es. e' \<noteq> e \<longrightarrow> usable e' < usable e"
    and "unat (snd heap) < usable e" and "usable e < 4294967296"
  shows "fold consider_entry es heap = (of_nat (region_lo e), of_nat (usable e))"
proof -
  have above: "fold consider_entry xs (of_nat (region_lo e), of_nat (usable e)) = (of_nat (region_lo e), of_nat (usable e))"
    if "set xs \<subseteq> set es" for xs
    using that
  proof (induction xs)
    case (Cons x xs)
    have "usable x \<le> usable e" using Cons.prems assms(3) by (cases "x = e") auto
    then have "consider_entry x (of_nat (region_lo e), of_nat (usable e)) = (of_nat (region_lo e), of_nat (usable e))"
      using Cons.prems assms(1,5) by (simp add: consider_entry_usable unat_u32_of_nat)
    then show ?case using Cons by simp
  qed simp
  have "set xs \<subseteq> set es \<Longrightarrow> e \<in> set xs \<Longrightarrow> unat (snd h) < usable e \<Longrightarrow>
      fold consider_entry xs h = (of_nat (region_lo e), of_nat (usable e))" for xs h
  proof (induction xs arbitrary: h)
    case (Cons x xs)
    have c: "consider_entry x h = (if usable x > unat (snd h) then (of_nat (region_lo x), of_nat (usable x)) else h)"
      using Cons.prems assms(1) by (intro consider_entry_usable) auto
    show ?case
    proof (cases "x = e")
      case True
      then show ?thesis using c above [of xs] Cons.prems by simp
    next
      case False
      then have "usable x < usable e" "e \<in> set xs" using Cons.prems assms(3) by auto
      moreover have "unat (snd (consider_entry x h)) < usable e"
        using c \<open>usable x < usable e\<close> assms(5) Cons.prems(3) by (simp add: unat_u32_of_nat)
      ultimately show ?thesis using Cons by simp
    qed
  qed simp
  then show ?thesis using assms(2,4) by blast
qed

section \<open>What starting paging writes\<close>

text \<open>A byte belongs to an entry of its frame.\<close>

lemma mem_byte_of_entry:
  assumes "\<And>b j. page_frame b \<Longrightarrow> j < 1024 \<Longrightarrow> unat b div 4096 = unat x div 4096 \<Longrightarrow> rd_ent m' b j = rd_ent m b j"
  shows "m' x = m x"
proof -
  define b :: u32 where "b = of_nat (unat x div 4096 * 4096)"
  define j where "j = unat x mod 4096 div 4"
  define k where "k = unat x mod 4"
  have lt: "unat x < 4294967296" using unsigned_less [of x] by simp
  have d: "unat x = unat x div 4096 * 4096 + unat x mod 4096" "unat x mod 4096 = 4 * j + unat x mod 4096 mod 4"
    unfolding j_def by simp_all
  have "unat x mod 4096 mod 4 = k" unfolding k_def by (simp add: mod_mod_cancel)
  with d have x: "unat x = unat x div 4096 * 4096 + 4 * j + k" by linarith
  have ub: "unat b = unat x div 4096 * 4096" unfolding b_def using lt x by (intro unat_u32_of_nat) linarith
  have fr: "page_frame b" "unat b div 4096 = unat x div 4096" by (simp_all add: page_frame_def ub)
  have j: "j < 1024" unfolding j_def by (simp add: less_mult_imp_div_less)
  have k: "k < 4" unfolding k_def by simp
  have "x = of_nat (unat x)" by simp
  also have "\<dots> = of_nat (unat b + 4 * j + k)" using x ub by simp
  finally have e: "x = b + of_nat (4 * j) + of_nat k" by simp
  have "rd_ent m' b j = rd_ent m b j" by (rule assms) (use fr j in auto)
  then have r: "byte_of n (rd_ent m' b j) = byte_of n (rd_ent m b j)" for n by simp
  consider "k = 0" | "k = 1" | "k = 2" | "k = 3" using k by linarith
  then show ?thesis using r [of 0] r [of "Suc 0"] r [of 2] r [of 3] unfolding e by cases (simp_all add: rd_ent_def rd32_def)
qed

text \<open>Memory in frames that are not in the pool is not touched.\<close>

definition pool_only :: "phys \<Rightarrow> PageDirectory \<times> phys \<Rightarrow> bool" where
  "pool_only p dp \<longleftrightarrow> (\<forall>a \<in> dir_frames (fst dp). unat a div 4096 \<in> free_set (pm_frames p)) \<and>
     (\<forall>b j. page_frame b \<longrightarrow> j < 1024 \<longrightarrow> unat b div 4096 \<notin> free_set (pm_frames p) \<longrightarrow>
        rd_ent (pm_mem (snd dp)) b j = rd_ent (pm_mem p) b j)"

lemma pool_only_MapPage:
  assumes inv: "dir_inv d q" and fr: "page_tables d ! pd_index v \<noteq> 0 \<or> free_set (pm_frames q) \<noteq> {}"
    and po: "pool_only p (d, q)" and sub: "free_set (pm_frames q) \<subseteq> free_set (pm_frames p)"
  shows "pool_only p (MapPage d q v a f)"
proof -
  obtain d' q' where mp: "MapPage d q v a f = (d', q')" by (cases "MapPage d q v a f")
  note pm = page_mapped [OF inv fr mp]
  have inv': "dir_inv d' q'" and pd: "phys_dir d' = phys_dir d" using pm by (simp_all add: page_mapped_def)
  note wf = dir_inv_wf [OF inv] and wf' = dir_inv_wf [OF inv']
  let ?t = "page_tables d' ! pd_index v"
  have nz: "?t \<noteq> 0" using pm by (simp add: page_mapped_def)
  have t: "unat ?t div 4096 \<in> free_set (pm_frames p)"
  proof (cases "page_tables d ! pd_index v = 0")
    case True
    have "used_frame q' ?t" using inv' table_in_dir_frames [OF wf' pd_index_lt nz] by (simp add: dir_inv_def)
    moreover have "\<not> used_frame q ?t" "total_frames (pm_frames q') = total_frames (pm_frames q)"
      using pm True by (simp_all add: page_mapped_def)
    ultimately show ?thesis using sub by (auto simp: used_frame_def)
  next
    case False
    then have "?t = page_tables d ! pd_index v" using pm by (simp add: page_mapped_def)
    then show ?thesis using po table_in_dir_frames [OF wf pd_index_lt False] by (simp add: pool_only_def)
  qed
  have "unat b div 4096 \<in> free_set (pm_frames p)" if b: "b \<in> dir_frames d'" for b
  proof (cases "b = phys_dir d")
    case True
    then show ?thesis using po by (simp add: pool_only_def dir_frames_def)
  next
    case False
    then obtain i where i: "i < 1024" "b = page_tables d' ! i" "b \<noteq> 0"
      using b pd dir_wf_length [OF wf'] by (auto simp: dir_frames_def in_set_conv_nth)
    show ?thesis
    proof (cases "i = pd_index v")
      case False
      then have "b = page_tables d ! i" using i pm by (simp add: page_mapped_def)
      then show ?thesis using po table_in_dir_frames [OF wf i(1)] i(3) by (simp add: pool_only_def)
    qed (use i t in simp)
  qed
  moreover have "rd_ent (pm_mem q') b j = rd_ent (pm_mem p) b j"
    if b: "page_frame b" "j < 1024" "unat b div 4096 \<notin> free_set (pm_frames p)" for b j
  proof -
    have "b \<noteq> phys_dir d" using po b(3) by (auto simp: pool_only_def dir_frames_def)
    moreover have "b \<noteq> ?t" using t b(3) by auto
    ultimately have "rd_ent (pm_mem q') b j = rd_ent (pm_mem q) b j" using pm b(1,2) by (simp add: page_mapped_def)
    then show ?thesis using po b by (simp add: pool_only_def)
  qed
  ultimately show ?thesis unfolding mp pool_only_def by simp
qed

lemma pool_only_loop:
  assumes "identity_upto p0 f 0 dp" and "pool_only p dp" and "free_set (pm_frames p0) \<subseteq> free_set (pm_frames p)"
    and "n \<le> 1048576" and "bit f 0" and "(n + 1023) div 1024 \<le> card (free_set (pm_frames p0))"
  shows "pool_only p (fold (\<lambda>addr (d, p). MapPage d p addr addr f) (map (\<lambda>i. of_nat i * 0x1000) [0..<n]) dp)"
  using assms(4,6)
proof (induction n)
  case (Suc n)
  let ?dp = "fold (\<lambda>addr (d, p). MapPage d p addr addr f) (map (\<lambda>i. of_nat i * 0x1000) [0..<n]) dp"
  obtain d q where dq: "?dp = (d, q)" by (cases ?dp)
  have m: "n div 1024 < (Suc n + 1023) div 1024" "(n + 1023) div 1024 \<le> (Suc n + 1023) div 1024"
    by (simp_all only: tables_for_pages(1) tables_for_pages(2) [of n]) auto
  have up: "identity_upto p0 f n (d, q)" using identity_loop [OF assms(1) _ assms(5), of n] Suc.prems m dq by simp
  let ?v = "of_nat n * 0x1000 :: u32"
  have uv: "unat ?v = n * 4096" using unat_u32_of_nat [of "n * 4096"] Suc.prems(1) by simp
  have pdv: "pd_index ?v = n div 1024" by (simp add: pd_index_nat uv)
  have i: "n div 1024 < 1024" using Suc.prems(1) by (simp add: less_mult_imp_div_less)
  have inv: "dir_inv d q" and tb: "page_tables d ! pd_index ?v \<noteq> 0 \<longleftrightarrow> n div 1024 < (n + 1023) div 1024"
    and cd: "card (free_set (pm_frames q)) + (n + 1023) div 1024 = card (free_set (pm_frames p0))"
    and fs: "free_set (pm_frames q) \<subseteq> free_set (pm_frames p0)"
    using up i pdv by (simp_all add: identity_upto_def)
  have "page_tables d ! pd_index ?v \<noteq> 0 \<or> free_set (pm_frames q) \<noteq> {}"
    using tb cd Suc.prems(2) m(1) by (metis add.left_neutral card.empty linorder_not_le nat_less_le order.strict_trans1)
  then have "pool_only p (MapPage d q ?v ?v f)"
    using Suc.IH Suc.prems m dq fs assms(3) by (intro pool_only_MapPage [OF inv]) auto
  then show ?case using dq by simp
qed (use assms(2) in simp)

lemma CreateKernel_pool_only:
  assumes inv: "phys_inv p" and fr: "5 \<le> card (free_set (pm_frames p))" and eq: "CreateKernel p = (d, p')"
  shows "pool_only p (d, p')"
proof -
  obtain d0 p0 where nw: "PageDirectory_new p = (d0, p0)" by (cases "PageDirectory_new p")
  have "free_set (pm_frames p) \<noteq> {}" using fr by auto
  note fd = PageDirectory_new_fresh [OF inv this nw]
  have c0: "Suc (card (free_set (pm_frames p0))) = card (free_set (pm_frames p))"
    using fd card_Suc_Diff1 [OF finite_free_set, of "unat (phys_dir d0) div 4096" "pm_frames p"]
    by (auto simp: fresh_dir_def)
  have "identity_upto p0 PAGE_KERNEL 0 (d0, p0)"
    using fd fresh_dir_unmapped [OF fd] by (simp add: identity_upto_def fresh_dir_def)
  moreover have "pool_only p (d0, p0)"
    using fd by (auto simp: fresh_dir_def pool_only_def dir_frames_def)
  moreover have "bit PAGE_KERNEL 0" by (simp add: PAGE_KERNEL_def bit_or_iff)
  moreover have "free_set (pm_frames p0) \<subseteq> free_set (pm_frames p)" using fd by (auto simp: fresh_dir_def)
  ultimately have "pool_only p (fold (\<lambda>addr (d, p). MapPage d p addr addr PAGE_KERNEL)
      (map (\<lambda>i. of_nat i * 0x1000) [0..<4096]) (d0, p0))"
    using c0 fr by (intro pool_only_loop) auto
  then show ?thesis using eq nw by (simp add: CreateKernel_def MapIdentity_def page_addrs_def)
qed

lemma CreateKernel_outside:
  assumes "phys_inv p" "5 \<le> card (free_set (pm_frames p))" "CreateKernel p = (d, p')"
    and "unat x div 4096 \<notin> free_set (pm_frames p)"
  shows "pm_mem p' x = pm_mem p x"
  by (rule mem_byte_of_entry) (use CreateKernel_pool_only [OF assms(1-3)] assms(4) in \<open>auto simp: pool_only_def\<close>)

section \<open>The memory layout after booting\<close>

definition map_describes :: "u32 \<Rightarrow> mem \<Rightarrow> MemoryMapEntry list \<Rightarrow> MemoryMapEntry \<Rightarrow> bool" where
  "map_describes a m es e \<longleftrightarrow> (let mb = multiboot_at m a in
     mb_flags mb AND push_bit 6 1 \<noteq> 0 \<and> laid_out m (mb_mmap_addr mb) es (mb_mmap_addr mb + mb_mmap_length mb) \<and>
     (\<forall>e' \<in> set es. below_4GB e') \<and> e \<in> set es \<and> available e \<and> region_lo e < region_hi e \<and>
     (\<forall>e' \<in> set es. e' \<noteq> e \<longrightarrow> usable e' < usable e))"

lemma find_heap_largest:
  assumes "map_describes a m es e"
  shows "find_heap m (multiboot_at m a) = Some (of_nat (region_lo e), of_nat (usable e))" "region_hi e < 4294967296"
    "usable e = region_hi e - region_lo e"
proof -
  have h: "available e" "e \<in> set es" "region_lo e < region_hi e" "\<forall>e' \<in> set es. below_4GB e'"
    using assms by (auto simp: map_describes_def Let_def)
  then show hi: "region_hi e < 4294967296" and u: "usable e = region_hi e - region_lo e"
    by (auto simp: below_4GB_def usable_def)
  have "fold consider_entry es (0, 0) = (of_nat (region_lo e), of_nat (usable e))"
    using assms h hi u by (intro fold_consider) (auto simp: map_describes_def Let_def)
  then show "find_heap m (multiboot_at m a) = Some (of_nat (region_lo e), of_nat (usable e))"
    using assms scan_map_fold [of m _ es] by (simp add: find_heap_def map_describes_def Let_def)
qed

definition boot_top :: "MemoryMapEntry \<Rightarrow> nat" where
  "boot_top e = min (region_hi e) 0x1000000"

lemma split_memory_region:
  assumes "lo + 0x80000 \<le> min (lo + z) 0x1000000" and "lo + z < 4294967296"
  shows "split_memory (of_nat lo, of_nat z) =
    ((of_nat lo, of_nat (min (lo + z) 0x1000000 - 0x80000 - lo)), of_nat (min (lo + z) 0x1000000 - 0x80000))"
proof -
  define t where "t = min (lo + z) 0x1000000"
  have t: "lo + 0x80000 \<le> t" "t \<le> 0x1000000" using assms by (simp_all add: t_def)
  have s: "(of_nat lo + of_nat z :: u32) > 0x1000000 \<longleftrightarrow> lo + z > 0x1000000"
  proof -
    have "unat (of_nat lo + of_nat z :: u32) = lo + z" using unat_u32_of_nat [of "lo + z"] assms(2) by simp
    then show ?thesis by (simp add: word_less_nat_alt)
  qed
  have h: "(if (of_nat lo + of_nat z :: u32) > 0x1000000 then 0x1000000 - of_nat lo else of_nat z :: u32) = of_nat (t - lo)"
  proof (cases "lo + z > 0x1000000")
    case True
    then have "t = 0x1000000" by (simp add: t_def)
    then show ?thesis using s True t by (simp add: of_nat_diff)
  qed (use s t_def in simp)
  have "(of_nat (t - lo) - PMM_POOL_SIZE :: u32) = of_nat (t - 0x80000 - lo)"
    "(of_nat lo + of_nat (t - lo) - PMM_POOL_SIZE :: u32) = of_nat (t - 0x80000)"
    using t by (simp_all add: of_nat_diff PMM_POOL_SIZE_def)
  then show ?thesis unfolding split_memory_def Let_def case_prod_conv h t_def [symmetric] by (simp only:)
qed

text \<open>The pool is the 128 frames below the top of the region.\<close>

lemma boot_pool:
  assumes "length (bitmap fr) = 32768" and "tp mod 4096 = 0" and "0x80000 < tp" and "tp \<le> unat tot" and "tp \<le> 0x1000000"
  shows "pmm_inv (MarkFree (PMM_Init fr tot) (of_nat (tp - 0x80000)) PMM_POOL_SIZE)"
    "free_set (MarkFree (PMM_Init fr tot) (of_nat (tp - 0x80000)) PMM_POOL_SIZE) = {tp div 4096 - 128..<tp div 4096}"
proof -
  define q where "q = tp div 4096"
  have t: "tp = q * 4096" using assms(2) div_mult_mod_eq [of tp 4096] by (simp add: q_def)
  have q: "128 < q" "q \<le> 4096" "q \<le> unat tot div 4096"
    using assms(3-5) div_le_mono [OF assms(4), of 4096] by (simp_all add: t)
  have u: "unat (of_nat (tp - 0x80000) :: u32) = (q - 128) * 4096"
    using unat_u32_of_nat [of "tp - 0x80000"] assms(5) by (simp add: t diff_mult_distrib)
  have l: "unat PMM_POOL_SIZE = 128 * 4096" by (simp add: PMM_POOL_SIZE_def)
  have s: "unat (of_nat (tp - 0x80000) :: u32) + unat PMM_POOL_SIZE = q * 4096"
    unfolding u l using q(1) by simp
  note mf = MarkFree_range [OF PMM_Init_inv(1) [OF assms(1)], of "of_nat (tp - 0x80000)" PMM_POOL_SIZE tot]
  have "unat (of_nat (tp - 0x80000) :: u32) + unat PMM_POOL_SIZE < 4294967296" using s q(2) by simp
  note mf = mf [OF this]
  show "pmm_inv (MarkFree (PMM_Init fr tot) (of_nat (tp - 0x80000)) PMM_POOL_SIZE)" using mf by blast
  have "free_set (MarkFree (PMM_Init fr tot) (of_nat (tp - 0x80000)) PMM_POOL_SIZE) =
      {f. (q - 128) * 4096 div 4096 \<le> f \<and> f < q * 4096 div 4096 \<and> f < unat tot div 4096}"
    using mf unfolding s unfolding u PMM_Init_inv(2,3) [OF assms(1)] by simp
  also have "\<dots> = {q - 128..<q}" using q(3) by auto
  finally show "free_set (MarkFree (PMM_Init fr tot) (of_nat (tp - 0x80000)) PMM_POOL_SIZE) = {tp div 4096 - 128..<tp div 4096}"
    by (simp add: q_def)
qed


text \<open>A machine with 32 MiB: two entries at \<open>0x9100\<close>, the conventional memory and the memory above 1 MiB.\<close>

definition demo_boot :: "u32 \<Rightarrow> u32 \<Rightarrow> mem" where
  "demo_boot base len = fold (\<lambda>(a, v) m. wr32 m a v)
     [(0x9000, 0x40), (0x9008, 0x7C00), (0x902C, 48), (0x9030, 0x9100),
      (0x9100, 20), (0x9104, 0), (0x9108, 0), (0x910C, 0x9FC00), (0x9110, 0), (0x9114, 1),
      (0x9118, 20), (0x911C, base), (0x9120, 0), (0x9124, len), (0x9128, 0), (0x912C, 1)] (\<lambda>_. 0)"

definition demo_entries :: "u32 \<Rightarrow> u32 \<Rightarrow> MemoryMapEntry list" where
  "demo_entries base len =
     [\<lparr>e_size = 20, e_base_addr = 0, e_length = 0x9FC00, e_type = 1\<rparr>,
      \<lparr>e_size = 20, e_base_addr = ucast base, e_length = ucast len, e_type = 1\<rparr>]"

lemma demo_boot_words:
  "rd32 (demo_boot b l) 0x9000 = 0x40" "rd32 (demo_boot b l) 0x9008 = 0x7C00" "rd32 (demo_boot b l) 0x902C = 48"
  "rd32 (demo_boot b l) 0x9030 = 0x9100" "rd32 (demo_boot b l) 0x9100 = 20" "rd32 (demo_boot b l) 0x9104 = 0"
  "rd32 (demo_boot b l) 0x9108 = 0" "rd32 (demo_boot b l) 0x910C = 0x9FC00" "rd32 (demo_boot b l) 0x9110 = 0"
  "rd32 (demo_boot b l) 0x9114 = 1" "rd32 (demo_boot b l) 0x9118 = 20" "rd32 (demo_boot b l) 0x911C = b"
  "rd32 (demo_boot b l) 0x9120 = 0" "rd32 (demo_boot b l) 0x9124 = l" "rd32 (demo_boot b l) 0x9128 = 0"
  "rd32 (demo_boot b l) 0x912C = 1"
  by (simp_all add: demo_boot_def rd32_wr32_apart apart_def)

lemma demo_multiboot:
  "multiboot_at (demo_boot b l) 0x9000 = \<lparr>mb_flags = 0x40, mb_mem_upper = 0x7C00, mb_mmap_length = 48, mb_mmap_addr = 0x9100\<rparr>"
  by (simp add: multiboot_at_def demo_boot_words)

lemma demo_describes:
  assumes "unat b + unat l < 4294967296" "0x9FC00 < unat l" "0x200000 < unat b + unat l" "b < 0xFFFFFFFF"
  shows "map_describes 0x9000 (demo_boot b l) (demo_entries b l) (demo_entries b l ! 1)"
    "region_lo (demo_entries b l ! 1) = max (unat b) 0x200000" "region_hi (demo_entries b l ! 1) = unat b + unat l"
proof -
  have u: "unat (ucast x :: u64) = unat x" for x :: u32
  proof -
    have "unat x < 2 ^ 64" using unsigned_less [of x] by (rule less_le_trans) simp
    then show ?thesis by (simp only: unsigned_ucast_eq) (simp add: take_bit_nat_eq_self)
  qed
  show lo: "region_lo (demo_entries b l ! 1) = max (unat b) 0x200000" and hi: "region_hi (demo_entries b l ! 1) = unat b + unat l"
    by (simp_all add: demo_entries_def region_lo_def region_hi_def u)
  have lt: "(ucast b :: u64) < 0xFFFFFFFF" using assms(4) by (simp add: word_less_nat_alt u)
  have "laid_out (demo_boot b l) 0x9100 (demo_entries b l) 0x9130"
    by (simp add: demo_entries_def map_entry_at_def rd64_def demo_boot_words)
  then show "map_describes 0x9000 (demo_boot b l) (demo_entries b l) (demo_entries b l ! 1)"
    using assms lo hi lt
    by (simp add: map_describes_def demo_multiboot demo_entries_def below_4GB_def available_def usable_def region_lo_def region_hi_def u)
qed


text \<open>C28: A largest region that starts at 16 MiB or above breaks the set-up. The heap then starts in the region with a size
  that has wrapped around, so that it reaches past the end of the address space, and the frame pool is the memory
  below 16 MiB, which is not part of the region.\<close>

theorem boot_region_above_16MB:
  assumes md: "map_describes a m es e" and lo: "0x1000000 \<le> region_lo e"
  shows "\<exists>start sz pool. map_option split_memory (find_heap m (multiboot_at m a)) = Some ((start, sz), pool) \<and>
    unat start = region_lo e \<and> 4294967296 \<le> unat start + unat sz \<and> unat pool + 0x80000 = 0x1000000 \<and> unat pool < region_lo e"
proof -
  define l where "l = region_lo e"
  have fh: "find_heap m (multiboot_at m a) = Some (of_nat l, of_nat (usable e))" and hi: "region_hi e < 4294967296"
    and u: "usable e = region_hi e - l" using find_heap_largest [OF md] by (simp_all add: l_def)
  have lt: "l < region_hi e" using md by (simp add: map_describes_def Let_def l_def)
  have ul: "unat (of_nat l :: u32) = l" using hi lt by (intro unat_u32_of_nat) simp
  have "unat (of_nat l + of_nat (usable e) :: u32) = region_hi e" using unat_u32_of_nat [of "l + usable e"] hi lt u by simp
  then have c: "(of_nat l + of_nat (usable e) :: u32) > 0x1000000" using lt lo by (simp add: word_less_nat_alt l_def)
  define z where "z = 4294967296 + 0xF80000 - l"
  have zb: "z < 4294967296" "z + l = 4294967296 + 0xF80000" using lo lt hi by (simp_all add: z_def l_def)
  have "(of_nat (z + l) :: u32) = of_nat 4294967296 + of_nat 0xF80000" unfolding zb(2) by (rule of_nat_add)
  then have "(of_nat z + of_nat l :: u32) = 0xF80000" by simp
  then have z: "0x1000000 - of_nat l - PMM_POOL_SIZE = (of_nat z :: u32)" by (simp add: PMM_POOL_SIZE_def algebra_simps)
  have "split_memory (of_nat l, of_nat (usable e)) = ((of_nat l, of_nat z), 0xF80000)"
    unfolding split_memory_def Let_def case_prod_conv z [symmetric] using c by (simp add: PMM_POOL_SIZE_def)
  moreover have "unat (of_nat z :: u32) = z" using zb by (intro unat_u32_of_nat) simp
  ultimately show ?thesis using fh ul zb lo unfolding l_def [symmetric] by simp
qed

theorem boot_region_above_16MB_witness:
  "map_describes 0x9000 (demo_boot 0x1000000 0x7000000) (demo_entries 0x1000000 0x7000000) (demo_entries 0x1000000 0x7000000 ! 1) \<and>
   (\<exists>start sz pool. map_option split_memory (find_heap (demo_boot 0x1000000 0x7000000) (multiboot_at (demo_boot 0x1000000 0x7000000) 0x9000)) =
      Some ((start, sz), pool) \<and> unat start = 0x1000000 \<and> 4294967296 \<le> unat start + unat sz)"
proof -
  note d = demo_describes [of "0x1000000" "0x7000000", simplified]
  show ?thesis using boot_region_above_16MB [OF d(1)] d by auto
qed

end
