(* ===== verification/Boot_Animation.thy ===== *)
theory Boot_Animation
  imports Display
begin

text \<open>
  The start-up animation (\<^verbatim>\<open>src/src/ui/boot_anim.cpp\<close>): an integer square root, a sine table and the
  turning ring drawn with them. The empty delay loops change no state and are left out.

  The lemmas: the square root loop ends with the rounded down root for every argument but the largest, and the
  animation stays inside the screen memory and leaves a black screen.
\<close>

section \<open>Arithmetic\<close>

definition sin_table :: "int list" where
  "sin_table =
    [0, 12, 25, 37, 49, 60, 71, 81,
     90, 98, 106, 112, 117, 122, 125, 127,
     127, 127, 125, 122, 117, 112, 106, 98,
     90, 81, 71, 60, 49, 37, 25, 12,
     0, -12, -25, -37, -49, -60, -71, -81,
     -90, -98, -106, -112, -117, -122, -125, -127,
     -127, -127, -125, -122, -117, -112, -106, -98,
     -90, -81, -71, -60, -49, -37, -25, -12]"

text \<open>The remainder of the source has the sign of the dividend; adding 64 and taking it again gives the one of HOL.\<close>

definition sin64 :: "int \<Rightarrow> int" where
  "sin64 i = sin_table ! nat (i mod 64)"

definition cos64 :: "int \<Rightarrow> int" where
  "cos64 i = sin64 (i + 16)"

text \<open>Dividing by zero stops the machine: that is \<open>None\<close>.\<close>

function isqrt_loop :: "u32 \<Rightarrow> u32 \<Rightarrow> u32 \<Rightarrow> u32 option" where
  "isqrt_loop n x y =
     (if y < x then if y = 0 then None else isqrt_loop n y (drop_bit 1 (y + n div y)) else Some x)"
  by pat_completeness auto
termination by (relation "measure (\<lambda>(n, x, y). unat x)") (simp_all add: word_less_nat_alt)

definition isqrt :: "u32 \<Rightarrow> u32 option" where
  "isqrt n = (if n = 0 then Some 0 else isqrt_loop n n (drop_bit 1 (n + 1)))"

section \<open>Drawing\<close>

definition set_palette :: "u8 \<Rightarrow> u8 \<Rightarrow> u8 \<Rightarrow> u8 \<Rightarrow> VGA \<Rightarrow> VGA" where
  "set_palette idx r g b v =
     v\<lparr>port_log := port_log v @ [(0x3C8, idx), (0x3C9, drop_bit 2 r), (0x3C9, drop_bit 2 g), (0x3C9, drop_bit 2 b)]\<rparr>"

text \<open>The video memory is the 64 KiB from \<^verbatim>\<open>0xA0000\<close>; a write elsewhere is \<open>None\<close>.\<close>

definition put_px :: "int \<Rightarrow> int \<Rightarrow> u8 \<Rightarrow> VGA \<Rightarrow> VGA option" where
  "put_px x y col v =
     (if x mod 65536 < 320 \<and> y mod 65536 < 200
      then let i = (y * 320 + x) mod 4294967296
           in if i < 65536 then Some (v\<lparr>framebuffer := (framebuffer v)(nat i := col)\<rparr>) else None
      else Some v)"

definition fill_screen :: "u8 \<Rightarrow> VGA \<Rightarrow> VGA" where
  "fill_screen col v = v\<lparr>framebuffer := (\<lambda>i. if i < 320 * 200 then col else framebuffer v i)\<rparr>"

definition draw_text :: "u8 list \<Rightarrow> u16 \<Rightarrow> u16 \<Rightarrow> u8 \<Rightarrow> u8 \<Rightarrow> VGA \<Rightarrow> VGA option" where
  "draw_text str x y fg bg v = fold_opt (\<lambda>i. DrawChar (x + of_nat i * 8) y (str ! i) fg bg) [0..<length str] v"

definition clear_ring :: "VGA \<Rightarrow> VGA option" where
  "clear_ring v = fold_opt (\<lambda>dy. fold_opt (\<lambda>px. put_px px (110 + dy) 240) [160 - 44 - 2..160 + 44 + 2]) [- (44 + 2)..44 + 2] v"

text \<open>The colour of a line; the quotients of the source round towards zero.\<close>

definition ring_color :: "int \<Rightarrow> u8" where
  "ring_color dy =
     (if dy < - (44 * 2 div 3) then 244 else if dy < - (44 div 3) then 243 else if dy < 44 div 3 then 242 else 241)"

definition ring_line :: "int \<Rightarrow> int \<Rightarrow> VGA \<Rightarrow> VGA option" where
  "ring_line W dy v =
     (let disc_o = 44 * 44 - dy * dy
      in if disc_o < 0 then Some v
         else do {
           r \<leftarrow> isqrt (word_of_int disc_o);
           let xo = W * uint r div 127;
           let disc_i = 27 * 27 - dy * dy;
           xi \<leftarrow> (if disc_i \<ge> 0 then map_option (\<lambda>r. W * uint r div 127) (isqrt (word_of_int disc_i)) else Some 0);
           let xi = (if xi > xo then xo else xi);
           let col = ring_color dy;
           v \<leftarrow> fold_opt (\<lambda>px. put_px px (110 + dy) col) [160 - xo..160 - xi - 1] v;
           v \<leftarrow> fold_opt (\<lambda>px. put_px px (110 + dy) col) [160 + xi + 1..160 + xo] v;
           if xo > 0 \<and> xi = 0 then put_px 160 (110 + dy) col v else Some v
         })"

definition ring_frame :: "nat \<Rightarrow> VGA \<Rightarrow> VGA option" where
  "ring_frame frame v = do {
     let W = \<bar>cos64 (int (frame mod 64))\<bar>;
     v \<leftarrow> clear_ring v;
     fold_opt (ring_line W) [-44..44] v
   }"

definition BootAnimation :: "VGA \<Rightarrow> VGA option" where
  "BootAnimation v = do {
     let v = set_palette 240 10 10 20 v;
     let v = set_palette 241 100 50 0 v;
     let v = set_palette 242 180 110 10 v;
     let v = set_palette 243 230 175 30 v;
     let v = set_palette 244 255 240 160 v;
     let v = fill_screen 240 v;
     v \<leftarrow> draw_text (ascii ''FRODO OS'') ((320 - 8 * 8) div 2) 10 244 240 v;
     v \<leftarrow> draw_text (ascii ''FRODO OS'') ((320 - 8 * 8) div 2) 11 243 240 v;
     v \<leftarrow> draw_text (ascii ''The One Ring'') ((320 - 12 * 8) div 2) 22 242 240 v;
     v \<leftarrow> draw_text (ascii ''Loading...'') ((320 - 10 * 8) div 2) 188 241 240 v;
     v \<leftarrow> fold_opt ring_frame [0..<192] v;
     Some (fill_screen 0 v)
   }"

section \<open>The square root\<close>

declare isqrt_loop.simps [simp del]

lemma newton_above:
  fixes n x :: nat
  assumes "0 < x"
  shows "n < ((x + n div x) div 2 + 1) * ((x + n div x) div 2 + 1)"
proof -
  define q where "q = n div x"
  define y where "y = (x + q) div 2"
  have n: "n < x * (q + 1)" using assms unfolding q_def by (metis Suc_eq_plus1 dividend_less_times_div mult_Suc_right add.commute)
  have s: "x + (q + 1) \<le> 2 * (y + 1)" unfolding y_def by presburger
  have "4 * (x * (q + 1)) \<le> (x + (q + 1)) * (x + (q + 1))"
  proof -
    have "0 \<le> (int x - int (q + 1)) * (int x - int (q + 1))" by simp
    then have "4 * (int x * int (q + 1)) \<le> (int x + int (q + 1)) * (int x + int (q + 1))" by (simp add: algebra_simps)
    then show ?thesis by (metis of_nat_add of_nat_le_iff of_nat_mult of_nat_numeral)
  qed
  also have "\<dots> \<le> (2 * (y + 1)) * (2 * (y + 1))" using s by (intro mult_le_mono) auto
  finally have "x * (q + 1) \<le> (y + 1) * (y + 1)" by simp
  then show ?thesis using n unfolding y_def q_def by linarith
qed

lemma newton_stop:
  fixes n x :: nat
  assumes "0 < x" and "x \<le> (x + n div x) div 2"
  shows "x * x \<le> n"
proof -
  have "x \<le> n div x" using assms(2) by linarith
  then have "x * x \<le> (n div x) * x" by (rule mult_le_mono1)
  also have "\<dots> \<le> n" by (rule div_times_less_eq_dividend)
  finally show ?thesis .
qed

lemma newton_bound:
  fixes n x :: nat
  assumes "0 < x" and "x \<le> n"
  shows "x + n div x \<le> n + 1" "0 < (x + n div x) div 2"
proof -
  have q: "0 < n div x" using assms by (simp add: div_greater_zero_iff)
  then show "0 < (x + n div x) div 2" using assms(1) by linarith
  obtain a b where a: "x = Suc a" "n div x = Suc b" using assms(1) q by (metis gr0_conv_Suc)
  have "Suc a * Suc b \<le> n" using a times_div_less_eq_dividend [of x n] by simp
  then show "x + n div x \<le> n + 1" unfolding a(2) unfolding a(1) by simp
qed

text \<open>The second variable of the loop is the Newton step from the first.\<close>

definition newton :: "u32 \<Rightarrow> u32 \<Rightarrow> u32 \<Rightarrow> bool" where
  "newton n x y \<longleftrightarrow> 0 < unat x \<and> unat x \<le> unat n \<and> unat n < (unat x + 1) * (unat x + 1) \<and>
     unat y = (unat x + unat n div unat x) div 2"

lemma newton_step:
  assumes "newton n x y" and "y < x" and n: "unat n + 1 < 2 ^ 32"
  shows "newton n y (drop_bit 1 (y + n div y))" "y \<noteq> 0"
proof -
  have i: "0 < unat x" "unat x \<le> unat n" "unat y = (unat x + unat n div unat x) div 2"
    using assms(1) by (simp_all add: newton_def)
  have y: "0 < unat y" "unat y \<le> unat n" using newton_bound [OF i(1,2)] i assms(2) by (simp_all add: word_less_nat_alt)
  then show "y \<noteq> 0" by auto
  have "unat (y + n div y) = unat y + unat n div unat y"
    using newton_bound(1) [OF y] n by (simp add: unat_word_ariths unat_div)
  then have "unat (drop_bit 1 (y + n div y)) = (unat y + unat n div unat y) div 2"
    by (simp add: unat_div drop_bit_eq_div)
  then show "newton n y (drop_bit 1 (y + n div y))"
    using y newton_above [OF i(1), of "unat n"] unfolding newton_def i(3) [symmetric] by simp
qed

lemma isqrt_loop_root:
  "newton n x y \<Longrightarrow> unat n + 1 < 2 ^ 32 \<Longrightarrow>
   \<exists>r. isqrt_loop n x y = Some r \<and> unat r * unat r \<le> unat n \<and> unat n < (unat r + 1) * (unat r + 1)"
proof (induction n x y rule: isqrt_loop.induct)
  case (1 n x y)
  show ?case
  proof (cases "y < x")
    case True
    have s: "newton n y (drop_bit 1 (y + n div y))" "y \<noteq> 0" using newton_step [OF "1.prems"(1) True "1.prems"(2)] .
    then show ?thesis using "1.IH" [OF True s(2) s(1) "1.prems"(2)] True by (simp add: isqrt_loop.simps [of n x y])
  next
    case False
    have "unat x \<le> (unat x + unat n div unat x) div 2"
      using False "1.prems"(1) by (simp add: newton_def word_less_nat_alt)
    then have "unat x * unat x \<le> unat n" using newton_stop "1.prems"(1) by (simp add: newton_def)
    then show ?thesis using False "1.prems"(1) by (simp add: isqrt_loop.simps [of n x y] newton_def)
  qed
qed

lemma isqrt_root:
  assumes "n \<noteq> 0xFFFFFFFF"
  shows "\<exists>r. isqrt n = Some r \<and> unat r * unat r \<le> unat n \<and> unat n < (unat r + 1) * (unat r + 1)"
proof (cases "n = 0")
  case False
  have "unat n \<noteq> unat (0xFFFFFFFF :: u32)" using assms by (metis word_unat_eq_iff)
  then have "unat n \<noteq> 4294967295" by simp
  moreover have "unat n < 4294967296" using unsigned_less [of n] by simp
  ultimately have "unat n + 1 < 4294967296" by linarith
  then have n: "unat n + 1 < 2 ^ 32" by simp
  have "0 < unat n" using False by (simp add: unat_gt_0)
  then have "newton n n (drop_bit 1 (n + 1))"
    using n by (simp add: newton_def unat_drop_bit_eq drop_bit_eq_div unat_word_ariths)
  then show ?thesis using isqrt_loop_root n False by (simp add: isqrt_def)
qed (simp add: isqrt_def)

text \<open>C32: The square root loop ends with the right result. For every argument but the largest 32 bit number, the loop
  ends without dividing by zero and without a sum wrapping around, with the largest number whose square is at most
  the argument; for the largest number it divides by zero.\<close>

theorem isqrt_terminates:
  "(n \<noteq> 0xFFFFFFFF \<longrightarrow> (\<exists>r. isqrt n = Some r \<and> unat r * unat r \<le> unat n \<and> unat n < (unat r + 1) * (unat r + 1))) \<and>
   isqrt 0xFFFFFFFF = None"
proof -
  have "isqrt 0xFFFFFFFF = None" by (simp add: isqrt_def isqrt_loop.simps)
  then show ?thesis using isqrt_root by blast
qed

theorem isqrt_terminates_witness:
  "(\<exists>r. isqrt 1936 = Some r \<and> unat r * unat r \<le> 1936 \<and> 1936 < (unat r + 1) * (unat r + 1))"
  using isqrt_terminates [of 1936] by simp

section \<open>The animation\<close>

text \<open>Drawing that succeeds on every screen and touches only its 320 by 200 pixels.\<close>

definition paints :: "(VGA \<Rightarrow> VGA option) \<Rightarrow> bool" where
  "paints f \<longleftrightarrow> (\<forall>v. \<exists>p. f v = Some (painted p v) \<and> dom p \<subseteq> {..<64000})"

lemma paintsE:
  assumes "paints f"
  obtains p where "f v = Some (painted p v)" "dom p \<subseteq> {..<64000}"
  using assms unfolding paints_def by blast

lemma paints_Some [simp]: "paints Some"
  unfolding paints_def by (intro allI exI [of _ Map.empty]) simp

lemma paints_bind:
  assumes "paints f" and "paints g"
  shows "paints (\<lambda>v. Option.bind (f v) g)"
  unfolding paints_def
proof
  fix v
  obtain p where p: "f v = Some (painted p v)" "dom p \<subseteq> {..<64000}" by (rule paintsE [OF assms(1)])
  obtain q where q: "g (painted p v) = Some (painted q (painted p v))" "dom q \<subseteq> {..<64000}" by (rule paintsE [OF assms(2)])
  show "\<exists>p. Option.bind (f v) g = Some (painted p v) \<and> dom p \<subseteq> {..<64000}"
    using p q by (intro exI [of _ "p ++ q"]) auto
qed

lemma paints_fold: "(\<And>x. x \<in> set xs \<Longrightarrow> paints (f x)) \<Longrightarrow> paints (fold_opt f xs)"
proof (induction xs)
  case (Cons x xs)
  have "paints (\<lambda>v. Option.bind (f x v) (fold_opt f xs))"
    by (rule paints_bind) (use Cons in auto)
  then show ?case by (simp only: fold_opt_Cons)
qed (simp add: fold_opt_Cons)

lemma paints_put_px:
  assumes "0 \<le> x" "x < 320" "0 \<le> y" "y < 200"
  shows "paints (put_px x y col)"
  unfolding paints_def
proof
  fix v
  let ?i = "y * 320 + x"
  have i: "0 \<le> ?i" "?i < 64000" using assms by linarith+
  then have "put_px x y col v = Some (painted [nat ?i \<mapsto> col] v)"
    using assms by (simp add: put_px_def painted_def fun_upd_def if_distrib cong: if_cong)
  then show "\<exists>p. put_px x y col v = Some (painted p v) \<and> dom p \<subseteq> {..<64000}"
    using i by (intro exI [of _ "[nat ?i \<mapsto> col]"]) auto
qed

lemma paints_DrawChar:
  assumes "unat x + 8 \<le> 320" "unat y + 8 \<le> 200"
  shows "paints (DrawChar x y c fg bg)"
  unfolding paints_def
proof
  fix v
  let ?p = "block (unat x) (unat y) 8 8 (\<lambda>r k. if glyph c r k then fg else bg)"
  have "i < 64000" if "?p i \<noteq> None" for i
  proof -
    have "i div 320 < 200" using that assms by (simp add: block_def split: if_splits)
    then show ?thesis by simp
  qed
  then have "dom ?p \<subseteq> {..<64000}" by auto
  then show "\<exists>p. DrawChar x y c fg bg v = Some (painted p v) \<and> dom p \<subseteq> {..<64000}"
    using DrawChar_painted [of x y c fg bg v] assms by (intro exI [of _ ?p]) simp
qed

lemma paints_draw_text:
  assumes "unat x + 8 * length str \<le> 320" "unat y + 8 \<le> 200"
  shows "paints (draw_text str x y fg bg)"
proof -
  have "paints (fold_opt (\<lambda>i. DrawChar (x + of_nat i * 8) y (str ! i) fg bg) [0..<length str])"
  proof (rule paints_fold)
    fix i
    assume "i \<in> set [0..<length str]"
    then have i: "unat x + i * 8 + 8 \<le> 320" using assms(1) by auto
    then have "unat (of_nat i * 8 :: u16) = i * 8" using unat_u16_of_nat [of "i * 8"] by simp
    then have "unat (x + of_nat i * 8) = unat x + i * 8" using unat_u16_plus_small [of x "of_nat i * 8"] i by simp
    then show "paints (DrawChar (x + of_nat i * 8) y (str ! i) fg bg)" using i assms(2) by (intro paints_DrawChar) simp_all
  qed
  then show ?thesis unfolding draw_text_def .
qed

lemma paints_row:
  assumes "0 \<le> a" "b < 320" "0 \<le> y" "y < 200"
  shows "paints (fold_opt (\<lambda>px. put_px px y col) [a..b])"
  by (rule paints_fold, rule paints_put_px) (use assms in auto)

lemma paints_clear_ring: "paints clear_ring"
proof -
  have "paints (fold_opt (\<lambda>dy. fold_opt (\<lambda>px. put_px px (110 + dy) 240) [160 - 44 - 2..160 + 44 + 2]) [- (44 + 2)..44 + 2])"
    by (rule paints_fold, rule paints_row) auto
  then show ?thesis unfolding clear_ring_def .
qed

text \<open>Half the width of the ring at a line is at most its radius.\<close>

lemma isqrt_radius:
  assumes "0 \<le> d" and "d \<le> 1936" and "0 \<le> W" and "W \<le> 127"
  shows "\<exists>r. isqrt (word_of_int d) = Some r \<and> 0 \<le> W * uint r div 127 \<and> W * uint r div 127 \<le> 44"
proof -
  have d: "unat (word_of_int d :: u32) = nat d"
  proof -
    have "uint (word_of_int d :: u32) = d" using assms(1,2) by (simp add: uint_word_of_int)
    then have "nat (uint (word_of_int d :: u32)) = nat d" by (simp only:)
    then show ?thesis by (simp only: nat_uint_eq)
  qed
  have "(word_of_int d :: u32) \<noteq> 0xFFFFFFFF"
  proof
    assume "(word_of_int d :: u32) = 0xFFFFFFFF"
    then have "nat d = unat (0xFFFFFFFF :: u32)" using d by (simp only:)
    then have "nat d = 4294967295" by simp
    then show False using assms(2) by linarith
  qed
  from isqrt_root [OF this] obtain r where r: "isqrt (word_of_int d) = Some r" "unat r * unat r \<le> nat d" unfolding d by blast
  have "unat r \<le> 44"
  proof (rule ccontr)
    assume "\<not> unat r \<le> 44"
    then have "45 * 45 \<le> unat r * unat r" by (intro mult_le_mono) simp_all
    then show False using r(2) assms(2) by linarith
  qed
  moreover have "uint r = int (unat r)" by simp
  ultimately have u: "0 \<le> uint r" "uint r \<le> 44" by linarith+
  have "W * uint r \<le> 127 * 44" using u assms(4) by (intro mult_mono) simp_all
  moreover have "0 \<le> W * uint r" using u(1) assms(3) by simp
  ultimately show ?thesis using r(1) by (intro exI [of _ r]) linarith
qed

lemma paints_ring_line:
  assumes "0 \<le> W" "W \<le> 127" "-44 \<le> dy" "dy \<le> 44"
  shows "paints (ring_line W dy)"
proof (cases "44 * 44 - dy * dy < 0")
  case True
  then show ?thesis by (simp add: ring_line_def [abs_def])
next
  case False
  have s: "0 \<le> dy * dy" by simp
  obtain r where r: "isqrt (word_of_int (44 * 44 - dy * dy)) = Some r" "0 \<le> W * uint r div 127" "W * uint r div 127 \<le> 44"
    using isqrt_radius [of "44 * 44 - dy * dy" W] assms False s by (auto simp: not_less)
  obtain xi where xi: "(if 27 * 27 - dy * dy \<ge> 0 then map_option (\<lambda>r. W * uint r div 127) (isqrt (word_of_int (27 * 27 - dy * dy)))
      else Some 0) = Some xi" "0 \<le> xi"
    using isqrt_radius [of "27 * 27 - dy * dy" W] assms s by (cases "27 * 27 - dy * dy \<ge> 0") auto
  define xo where "xo = W * uint r div 127"
  define xj where "xj = (if xi > xo then xo else xi)"
  have b: "0 \<le> xo" "xo \<le> 44" "0 \<le> xj" "xj \<le> xo" using r xi(2) by (auto simp: xo_def xj_def)
  have y: "0 \<le> 110 + dy" "110 + dy < 200" using assms by linarith+
  let ?row = "\<lambda>a b. fold_opt (\<lambda>px. put_px px (110 + dy) (ring_color dy)) [a..b]"
  have e: "ring_line W dy = (\<lambda>v. Option.bind (?row (160 - xo) (160 - xj - 1) v) (\<lambda>v. Option.bind (?row (160 + xj + 1) (160 + xo) v)
      (\<lambda>v. if xo > 0 \<and> xj = 0 then put_px 160 (110 + dy) (ring_color dy) v else Some v)))"
    using False by (simp only: ring_line_def [abs_def] Let_def r(1) xi(1) xo_def [symmetric] xj_def [symmetric] if_False bind.bind_lunit)
  have "paints (\<lambda>v. if xo > 0 \<and> xj = 0 then put_px 160 (110 + dy) (ring_color dy) v else Some v)"
    using paints_put_px [of 160 "110 + dy" "ring_color dy"] y by (cases "xo > 0 \<and> xj = 0") auto
  then show ?thesis unfolding e using b y by (intro paints_bind paints_row) simp_all
qed

lemma cos64_bound: "\<bar>cos64 i\<bar> \<le> 127"
proof -
  have "\<forall>x \<in> set sin_table. \<bar>x\<bar> \<le> 127" by (simp add: sin_table_def)
  moreover have "nat ((i + 16) mod 64) < length sin_table" by (simp add: sin_table_def nat_less_iff)
  ultimately show ?thesis unfolding cos64_def sin64_def using nth_mem by blast
qed

lemma paints_ring_frame: "paints (ring_frame k)"
proof -
  have "paints (\<lambda>v. Option.bind (clear_ring v) (fold_opt (ring_line \<bar>cos64 (int (k mod 64))\<bar>) [-44..44]))"
    by (rule paints_bind [OF paints_clear_ring], rule paints_fold, rule paints_ring_line) (auto simp: cos64_bound)
  then show ?thesis by (simp add: ring_frame_def [abs_def])
qed

lemma paints_then:
  assumes "paints f"
  obtains p where "Option.bind (f v) g = g (painted p v)" "dom p \<subseteq> {..<64000}"
  using paintsE [OF assms, of v] by (metis bind.bind_lunit)

lemma fill_painted:
  assumes "dom p \<subseteq> {..<64000}"
  shows "fill_screen c (painted p v) = fill_screen c v"
proof (cases v)
  case (fields t k col g fb l)
  have "p i = None" if "\<not> i < 64000" for i using assms that by (meson domIff lessThan_iff subsetD)
  then show ?thesis unfolding fields fill_screen_def painted_def by (auto simp: fun_eq_iff)
qed

lemma fill_screen_fill: "fill_screen c (fill_screen d v) = fill_screen c v"
  by (simp add: fill_screen_def fun_eq_iff)

definition palette_writes :: "(u16 \<times> u8) list" where
  "palette_writes = concat (map (\<lambda>(i, r, g, b). [(0x3C8, i), (0x3C9, r), (0x3C9, g), (0x3C9, b)])
     [(240, 2, 2, 5), (241, 25, 12, 0), (242, 45, 27, 2), (243, 57, 43, 7), (244, 63, 60, 40)])"

text \<open>The animation ends, stays inside the screen and leaves it black; apart from that it only sets five palette
  entries.\<close>

theorem BootAnimation_safe: "BootAnimation v = Some (fill_screen 0 (v\<lparr>port_log := port_log v @ palette_writes\<rparr>))"
proof -
  let ?w = "v\<lparr>port_log := port_log v @ palette_writes\<rparr>"
  let ?seq = "\<lambda>v. Option.bind (draw_text (ascii ''FRODO OS'') ((320 - 8 * 8) div 2) 10 244 240 v) (\<lambda>v.
     Option.bind (draw_text (ascii ''FRODO OS'') ((320 - 8 * 8) div 2) 11 243 240 v) (\<lambda>v.
     Option.bind (draw_text (ascii ''The One Ring'') ((320 - 12 * 8) div 2) 22 242 240 v) (\<lambda>v.
     Option.bind (draw_text (ascii ''Loading...'') ((320 - 10 * 8) div 2) 188 241 240 v) (fold_opt ring_frame [0..<192]))))"
  have "set_palette 244 255 240 160 (set_palette 243 230 175 30 (set_palette 242 180 110 10
      (set_palette 241 100 50 0 (set_palette 240 10 10 20 v)))) = ?w"
    by (simp add: set_palette_def palette_writes_def drop_bit_eq_div)
  then have e: "BootAnimation v = Option.bind (?seq (fill_screen 240 ?w)) (\<lambda>v. Some (fill_screen 0 v))"
    unfolding BootAnimation_def Let_def by (simp add: bind_assoc)
  have "paints ?seq"
    by (intro paints_bind paints_draw_text paints_fold paints_ring_frame) (simp_all add: ascii_def)
  from paints_then [OF this] obtain p where "BootAnimation v = Some (fill_screen 0 (painted p (fill_screen 240 ?w)))"
    "dom p \<subseteq> {..<64000}" unfolding e by blast
  then show ?thesis by (simp add: fill_painted fill_screen_fill)
qed

end
