(* ===== verification/Keyboard_Buffer.thy ===== *)
theory Keyboard_Buffer
  imports Prelude
begin

text \<open>
  The keyboard ring buffer, \<^verbatim>\<open>src/src/kernel/keyboard_buffer.h\<close> and \<^verbatim>\<open>keyboard_buffer.cpp\<close>: a static
  array of 256 characters with a read and a write index. The terminal puts characters in, the
  \<open>read\<close> system call takes them out. A character is a byte. The interface its clients rely on, a
  queue of bounded capacity that drops what does not fit, is the locale \<open>bounded_queue\<close>.
\<close>

section \<open>State and operations\<close>

definition BUFFER_SIZE :: nat where
  "BUFFER_SIZE = 256"

record KeyboardBuffer =
  kb_buffer :: "u8 list"
  kb_head :: nat
  kb_tail :: nat

definition KB_Init :: "KeyboardBuffer \<Rightarrow> KeyboardBuffer" where
  "KB_Init s = s\<lparr>kb_head := 0, kb_tail := 0\<rparr>"

definition Enqueue :: "KeyboardBuffer \<Rightarrow> u8 \<Rightarrow> KeyboardBuffer" where
  "Enqueue s c =
     (let nxt = (kb_tail s + 1) mod BUFFER_SIZE
      in if nxt = kb_head s then s
         else s\<lparr>kb_buffer := (kb_buffer s)[kb_tail s := c], kb_tail := nxt\<rparr>)"

definition Dequeue :: "KeyboardBuffer \<Rightarrow> (u8 \<times> KeyboardBuffer) option" where
  "Dequeue s =
     (if kb_head s = kb_tail s then None
      else Some (kb_buffer s ! kb_head s, s\<lparr>kb_head := (kb_head s + 1) mod BUFFER_SIZE\<rparr>))"

definition KB_IsEmpty :: "KeyboardBuffer \<Rightarrow> bool" where
  "KB_IsEmpty s \<longleftrightarrow> kb_head s = kb_tail s"

section \<open>Bounded queues\<close>

text \<open>Taking out up to \<open>n\<close> elements.\<close>

fun drain :: "('s \<Rightarrow> ('a \<times> 's) option) \<Rightarrow> nat \<Rightarrow> 's \<Rightarrow> 'a list \<times> 's" where
  "drain deq 0 s = ([], s)"
| "drain deq (Suc n) s = (case deq s of None \<Rightarrow> ([], s)
     | Some (x, s') \<Rightarrow> (let (xs, s'') = drain deq n s' in (x # xs, s'')))"

locale bounded_queue =
  fixes inv :: "'s \<Rightarrow> bool"
    and contents :: "'s \<Rightarrow> 'a list"
    and cap :: nat
    and enq :: "'s \<Rightarrow> 'a \<Rightarrow> 's"
    and deq :: "'s \<Rightarrow> ('a \<times> 's) option"
  assumes enq_law: "inv s \<Longrightarrow> inv (enq s x) \<and>
      contents (enq s x) = (if length (contents s) < cap then contents s @ [x] else contents s)"
    and deq_empty: "inv s \<Longrightarrow> contents s = [] \<Longrightarrow> deq s = None"
    and deq_Cons: "inv s \<Longrightarrow> contents s = x # xs \<Longrightarrow>
      \<exists>s'. deq s = Some (x, s') \<and> inv s' \<and> contents s' = xs"
    and cap_law: "inv s \<Longrightarrow> length (contents s) \<le> cap"
begin

lemma enq_list:
  "inv s \<Longrightarrow> inv (foldl enq s xs) \<and>
     contents (foldl enq s xs) = contents s @ take (cap - length (contents s)) xs"
proof (induction xs arbitrary: s)
  case (Cons x xs)
  note e = enq_law [OF Cons.prems, of x]
  show ?case
  proof (cases "length (contents s) < cap")
    case True
    then have "cap - length (contents s) = Suc (cap - Suc (length (contents s)))" by simp
    then show ?thesis using Cons.IH [of "enq s x"] e True by simp
  next
    case False
    then show ?thesis using Cons.IH [of "enq s x"] e by simp
  qed
qed simp

lemma drain_law:
  "inv s \<Longrightarrow> fst (drain deq n s) = take n (contents s) \<and> inv (snd (drain deq n s)) \<and>
     contents (snd (drain deq n s)) = drop n (contents s)"
proof (induction n arbitrary: s)
  case (Suc n)
  show ?case
  proof (cases "contents s")
    case Nil
    then show ?thesis using deq_empty [OF Suc.prems] Suc.prems by simp
  next
    case (Cons x xs)
    then obtain s' where s': "deq s = Some (x, s')" "inv s'" "contents s' = xs"
      using deq_Cons [OF Suc.prems] by blast
    then show ?thesis using Suc.IH [OF s'(2)] Cons by (simp add: case_prod_beta)
  qed
qed simp

end

section \<open>The ring is such a queue\<close>

definition kb_inv :: "KeyboardBuffer \<Rightarrow> bool" where
  "kb_inv s \<longleftrightarrow> length (kb_buffer s) = BUFFER_SIZE \<and> kb_head s < BUFFER_SIZE \<and> kb_tail s < BUFFER_SIZE"

definition kb_len :: "KeyboardBuffer \<Rightarrow> nat" where
  "kb_len s = (kb_tail s + BUFFER_SIZE - kb_head s) mod BUFFER_SIZE"

definition kb_contents :: "KeyboardBuffer \<Rightarrow> u8 list" where
  "kb_contents s = map (\<lambda>i. kb_buffer s ! ((kb_head s + i) mod BUFFER_SIZE)) [0..<kb_len s]"

lemma kb_len_cases:
  assumes "kb_inv s"
  shows "kb_len s = (if kb_head s \<le> kb_tail s then kb_tail s - kb_head s
    else kb_tail s + BUFFER_SIZE - kb_head s)"
  using assms by (auto simp: kb_len_def kb_inv_def BUFFER_SIZE_def mod_if)

lemma kb_len_bound: "kb_inv s \<Longrightarrow> kb_len s \<le> 255"
  using mod_less_divisor [of BUFFER_SIZE "kb_tail s + BUFFER_SIZE - kb_head s"]
  by (simp add: kb_len_def BUFFER_SIZE_def)

lemma kb_full_iff:
  "kb_inv s \<Longrightarrow> (kb_tail s + 1) mod BUFFER_SIZE = kb_head s \<longleftrightarrow> kb_len s = 255"
  unfolding kb_len_cases by (auto simp: kb_inv_def BUFFER_SIZE_def mod_if)

lemma kb_tail_index: "kb_inv s \<Longrightarrow> (kb_head s + kb_len s) mod BUFFER_SIZE = kb_tail s"
  unfolding kb_len_cases by (auto simp: kb_inv_def BUFFER_SIZE_def mod_if)

lemma kb_index_neq_tail:
  assumes "kb_inv s" and "i < kb_len s"
  shows "(kb_head s + i) mod BUFFER_SIZE \<noteq> kb_tail s"
  using assms kb_len_bound [OF assms(1)]
  unfolding kb_len_cases [OF assms(1)] by (auto simp: kb_inv_def BUFFER_SIZE_def mod_if split: if_splits)

lemma kb_index_lt: "(kb_head s + i) mod BUFFER_SIZE < BUFFER_SIZE"
  by (simp add: BUFFER_SIZE_def)

lemma Enqueue_law:
  assumes inv: "kb_inv s"
  shows "kb_inv (Enqueue s c) \<and>
    kb_contents (Enqueue s c) = (if length (kb_contents s) < 255 then kb_contents s @ [c] else kb_contents s)"
proof (cases "kb_len s = 255")
  case True
  then show ?thesis using inv kb_full_iff [OF inv] by (simp add: Enqueue_def Let_def kb_contents_def)
next
  case False
  then have lt: "kb_len s < 255" using kb_len_bound [OF inv] by simp
  let ?s = "s\<lparr>kb_buffer := (kb_buffer s)[kb_tail s := c], kb_tail := (kb_tail s + 1) mod BUFFER_SIZE\<rparr>"
  have eq: "Enqueue s c = ?s" using False kb_full_iff [OF inv] by (simp add: Enqueue_def Let_def)
  have inv': "kb_inv ?s" using inv by (simp add: kb_inv_def BUFFER_SIZE_def)
  have len: "kb_len ?s = Suc (kb_len s)"
    using lt unfolding kb_len_cases [OF inv] kb_len_cases [OF inv']
    using inv by (auto simp: kb_inv_def BUFFER_SIZE_def mod_if split: if_splits)
  have "kb_buffer ?s ! ((kb_head s + i) mod BUFFER_SIZE) = kb_buffer s ! ((kb_head s + i) mod BUFFER_SIZE)"
    if "i < kb_len s" for i
    using kb_index_neq_tail [OF inv that] by simp
  moreover have "kb_buffer ?s ! ((kb_head s + kb_len s) mod BUFFER_SIZE) = c"
    using inv by (simp add: kb_tail_index [OF inv] kb_inv_def)
  ultimately show ?thesis using inv' lt len unfolding eq by (simp add: kb_contents_def)
qed

lemma Dequeue_law:
  assumes inv: "kb_inv s" and eq: "kb_contents s = x # xs"
  shows "\<exists>s'. Dequeue s = Some (x, s') \<and> kb_inv s' \<and> kb_contents s' = xs"
proof -
  let ?s = "s\<lparr>kb_head := (kb_head s + 1) mod BUFFER_SIZE\<rparr>"
  have pos: "0 < kb_len s" using eq by (cases "kb_len s") (simp_all add: kb_contents_def)
  then have ne: "kb_head s \<noteq> kb_tail s" using kb_len_cases [OF inv] by auto
  have inv': "kb_inv ?s" using inv by (simp add: kb_inv_def BUFFER_SIZE_def)
  have len: "kb_len s = Suc (kb_len ?s)"
    using ne unfolding kb_len_cases [OF inv] kb_len_cases [OF inv']
    using inv by (auto simp: kb_inv_def BUFFER_SIZE_def mod_if split: if_splits)
  have "((kb_head s + 1) mod BUFFER_SIZE + i) mod BUFFER_SIZE = (kb_head s + Suc i) mod BUFFER_SIZE" for i
    by (simp add: mod_add_left_eq)
  then have "kb_contents s = kb_buffer s ! (kb_head s mod BUFFER_SIZE) # kb_contents ?s"
    unfolding kb_contents_def len by (simp add: upt_conv_Cons map_Suc_upt [symmetric] del: upt_Suc)
  moreover have "kb_head s mod BUFFER_SIZE = kb_head s" using inv by (simp add: kb_inv_def)
  ultimately show ?thesis using inv' ne eq by (auto simp: Dequeue_def)
qed

lemma kb_contents_empty_iff: "kb_inv s \<Longrightarrow> kb_contents s = [] \<longleftrightarrow> KB_IsEmpty s"
  using kb_len_cases [of s] by (auto simp: kb_contents_def KB_IsEmpty_def kb_inv_def split: if_splits)

interpretation kbd: bounded_queue kb_inv kb_contents 255 Enqueue Dequeue
proof (unfold_locales, goal_cases)
  case (1 s x)
  then show ?case by (rule Enqueue_law)
next
  case (2 s)
  then show ?case using kb_contents_empty_iff by (simp add: Dequeue_def KB_IsEmpty_def)
next
  case (3 s x xs)
  then show ?case by (rule Dequeue_law)
next
  case (4 s)
  then show ?case using kb_len_bound by (simp add: kb_contents_def)
qed

section \<open>Properties\<close>

text \<open>The ring is a first-in first-out queue of capacity 255, one less than the array: of the
  characters put into an empty buffer the first 255 are kept in order, the rest is dropped, and
  taking \<open>n\<close> out again returns the first \<open>n\<close> of them.\<close>

theorem KeyboardBuffer_fifo:
  assumes "length (kb_buffer s) = BUFFER_SIZE"
  shows "kb_inv (foldl Enqueue (KB_Init s) cs) \<and>
    kb_contents (foldl Enqueue (KB_Init s) cs) = take 255 cs \<and>
    fst (drain Dequeue n (foldl Enqueue (KB_Init s) cs)) = take n (take 255 cs)"
proof -
  have i: "kb_inv (KB_Init s)" using assms by (simp add: kb_inv_def KB_Init_def BUFFER_SIZE_def)
  have c: "kb_contents (KB_Init s) = []" by (simp add: kb_contents_def KB_Init_def kb_len_def)
  note e = kbd.enq_list [OF i, of cs, unfolded c]
  then show ?thesis using kbd.drain_law [of "foldl Enqueue (KB_Init s) cs" n] by simp
qed

theorem KeyboardBuffer_fifo_witness:
  "fst (drain Dequeue 2 (foldl Enqueue (KB_Init \<lparr>kb_buffer = replicate 256 0, kb_head = 9, kb_tail = 4\<rparr>)
     [104, 105, 10])) = [104, 105]"
  using KeyboardBuffer_fifo [of "\<lparr>kb_buffer = replicate 256 0, kb_head = 9, kb_tail = 4\<rparr>" "[104, 105, 10]" 2]
  by (simp add: BUFFER_SIZE_def)

end
