(* ===== verification/Scheduling.thy ===== *)
theory Scheduling
  imports Processes Descriptors Keyboard_Buffer
begin

text \<open>
  The scheduler, \<^verbatim>\<open>src/src/kernel/scheduler.h\<close> and \<^verbatim>\<open>scheduler.cpp\<close>: a table of at most 16 processes,
  the index of the current one, and the round-robin step the timer interrupt performs. The
  table is the list of the processes added so far (its length is \<open>process_count\<close>); a process is
  named by its index. \<open>Schedule\<close> also loads CR3 and the kernel stack of the task state segment,
  so its state includes the paging state and that segment. \<open>WakeWaiters\<close> of the keyboard buffer,
  which is a call of the scheduler, is here too.
\<close>

section \<open>State and operations\<close>

definition MAX_PROCESSES :: nat where
  "MAX_PROCESSES = 16"

record Scheduler =
  processes :: "Process list"
  current_index :: int
  s_tss :: TSS
  s_paging :: paging
  pit_ticks :: u32

definition Scheduler_new :: "TSS \<Rightarrow> paging \<Rightarrow> Scheduler" where
  "Scheduler_new t pg =
     \<lparr>processes = [], current_index = -1, s_tss = t, s_paging = pg, pit_ticks = 0\<rparr>"

definition AddProcess :: "Scheduler \<Rightarrow> Process \<Rightarrow> Scheduler" where
  "AddProcess s p =
     (if length (processes s) \<ge> MAX_PROCESSES then s
      else s\<lparr>processes := processes s @ [p\<lparr>p_state := PROCESS_READY\<rparr>]\<rparr>)"

abbreviation set_proc :: "nat \<Rightarrow> (Process \<Rightarrow> Process) \<Rightarrow> Process list \<Rightarrow> Process list" where
  "set_proc i f ps \<equiv> ps[i := f (ps ! i)]"

text \<open>The search for the next ready process, starting after the current one.\<close>

definition next_ready :: "Process list \<Rightarrow> int \<Rightarrow> int" where
  "next_ready ps cur =
     (case find (\<lambda>idx. p_state (ps ! idx) = PROCESS_READY)
             (map (\<lambda>i. nat ((cur + int i) mod int (length ps))) [1..<Suc (length ps)]) of
        Some idx \<Rightarrow> int idx
      | None \<Rightarrow> cur)"

definition Schedule :: "Scheduler \<Rightarrow> u32 \<Rightarrow> u32 \<times> Scheduler" where
  "Schedule s esp =
     (let cur = current_index s;
          was_running = (0 \<le> cur \<and> p_state (processes s ! nat cur) = PROCESS_RUNNING);
          ps = (if was_running
                then set_proc (nat cur)
                       (\<lambda>p. p\<lparr>p_state := PROCESS_READY, p_cpu := (p_cpu p)\<lparr>c_esp := esp\<rparr>\<rparr>) (processes s)
                else processes s);
          found = next_ready ps cur
      in if 0 \<le> found \<and> p_state (ps ! nat found) = PROCESS_READY
         then let nxt = ps ! nat found;
                  s = s\<lparr>current_index := found,
                        processes := set_proc (nat found) (\<lambda>p. p\<lparr>p_state := PROCESS_RUNNING\<rparr>) ps,
                        s_paging := (case p_page_dir nxt of
                                       Some d \<Rightarrow> SwitchDirectory (s_paging s) d
                                     | None \<Rightarrow> s_paging s),
                        s_tss := SetKernelStack (s_tss s) (KernelStackTop nxt)\<rparr>
              in (if \<not> was_running \<and> found = cur then esp else c_esp (p_cpu nxt), s)
         else (esp, s\<lparr>processes := ps\<rparr>))"

definition SchedulerTimer_HandleInterrupt :: "Scheduler \<Rightarrow> u32 \<Rightarrow> u32 \<times> Scheduler" where
  "SchedulerTimer_HandleInterrupt s esp = Schedule (s\<lparr>pit_ticks := pit_ticks s + 1\<rparr>) esp"

definition GetActive :: "Scheduler \<Rightarrow> nat option" where
  "GetActive s = (if current_index s < 0 then None else Some (nat (current_index s)))"

definition FindProcess :: "Scheduler \<Rightarrow> int \<Rightarrow> nat option" where
  "FindProcess s pid = find (\<lambda>i. sint (p_pid (processes s ! i)) = pid) [0..<length (processes s)]"

definition WakeParent :: "Scheduler \<Rightarrow> int \<Rightarrow> Scheduler" where
  "WakeParent s child_pid =
     s\<lparr>processes := map (\<lambda>p. if p_state p = PROCESS_BLOCKED \<and> p_wait_pid p = child_pid
                            then p\<lparr>p_state := PROCESS_READY, p_wait_pid := -1\<rparr> else p) (processes s)\<rparr>"

definition NextPID :: "Scheduler \<Rightarrow> int" where
  "NextPID s = foldl (\<lambda>mx p. if sint (p_pid p) > mx then sint (p_pid p) else mx) 0 (processes s) + 1"

definition WakeWaiters :: "Scheduler option \<Rightarrow> Scheduler option" where
  "WakeWaiters inst = map_option (\<lambda>s. WakeParent s (-2)) inst"

section \<open>Invariant\<close>

text \<open>
  The current index names a process or is -1, at most \<open>MAX_PROCESSES\<close> are in the table, and only
  the current process runs.
\<close>

definition sched_inv :: "Scheduler \<Rightarrow> bool" where
  "sched_inv s \<longleftrightarrow> -1 \<le> current_index s \<and> current_index s < int (length (processes s)) \<and>
     length (processes s) \<le> MAX_PROCESSES \<and>
     (\<forall>i < length (processes s). p_state (processes s ! i) = PROCESS_RUNNING \<longrightarrow> int i = current_index s)"

definition ready :: "Scheduler \<Rightarrow> nat \<Rightarrow> bool" where
  "ready s i \<longleftrightarrow> i < length (processes s) \<and> p_state (processes s ! i) = PROCESS_READY"

definition running :: "Scheduler \<Rightarrow> nat \<Rightarrow> bool" where
  "running s i \<longleftrightarrow> i < length (processes s) \<and> p_state (processes s ! i) = PROCESS_RUNNING"

text \<open>How far process \<open>i\<close> is behind the current one in the circular order: from 1 to the number of processes.\<close>

definition distance :: "int \<Rightarrow> nat \<Rightarrow> nat \<Rightarrow> nat" where
  "distance cur n i = nat ((int i - cur - 1) mod int n) + 1"

section \<open>The next ready process\<close>

lemma distance_bounds: "0 < n \<Longrightarrow> 1 \<le> distance cur n i \<and> distance cur n i \<le> n"
  using pos_mod_bound [of "int n" "int i - cur - 1"] pos_mod_sign [of "int n" "int i - cur - 1"]
  unfolding distance_def by linarith

lemma distance_index:
  assumes "i < n"
  shows "nat ((cur + int (distance cur n i)) mod int n) = i"
proof -
  have n: "0 < int n" using assms by simp
  have "int (distance cur n i) = (int i - cur - 1) mod int n + 1"
    using pos_mod_sign [OF n, of "int i - cur - 1"] by (simp add: distance_def)
  then have "(cur + int (distance cur n i)) mod int n = (cur + 1 + (int i - cur - 1) mod int n) mod int n"
    by (simp add: algebra_simps)
  also have "\<dots> = (cur + 1 + (int i - cur - 1)) mod int n" by (rule mod_add_right_eq)
  also have "\<dots> = int i" using assms by simp
  finally show ?thesis by simp
qed

lemma distance_of_step:
  assumes "1 \<le> k" and "k \<le> n"
  shows "distance cur n (nat ((cur + int k) mod int n)) = k"
proof -
  have n: "0 < int n" using assms by simp
  have "(int (nat ((cur + int k) mod int n)) - cur - 1) mod int n =
      ((cur + int k) mod int n - (cur + 1)) mod int n"
    using pos_mod_sign [OF n, of "cur + int k"] by (simp add: algebra_simps)
  also have "\<dots> = (cur + int k - (cur + 1)) mod int n" by (rule mod_diff_left_eq)
  also have "\<dots> = (int k - 1) mod int n" by simp
  also have "\<dots> = int k - 1" using assms by (intro mod_pos_pos_trivial) auto
  finally show ?thesis using assms by (simp add: distance_def)
qed

lemma next_ready_cases:
  assumes n: "0 < length ps"
  shows "(\<forall>i < length ps. p_state (ps ! i) \<noteq> PROCESS_READY) \<and> next_ready ps cur = cur \<or>
    (\<exists>i < length ps. p_state (ps ! i) = PROCESS_READY \<and> next_ready ps cur = int i \<and>
       (\<forall>j < length ps. p_state (ps ! j) = PROCESS_READY \<longrightarrow>
          distance cur (length ps) i \<le> distance cur (length ps) j))"
proof -
  let ?n = "length ps" and ?P = "\<lambda>idx. p_state (ps ! idx) = PROCESS_READY"
  let ?f = "\<lambda>k. nat ((cur + int k) mod int ?n)"
  let ?xs = "map ?f [1..<Suc ?n]"
  have nth: "?xs ! k = ?f (Suc k)" if "k < ?n" for k using that by (simp del: upt_Suc)
  have f: "?f (distance cur ?n i) = i" if "i < ?n" for i using distance_index [OF that] .
  show ?thesis
  proof (cases "find ?P ?xs")
    case None
    have "p_state (ps ! i) \<noteq> PROCESS_READY" if "i < ?n" for i
    proof -
      have "?f (distance cur ?n i) \<in> set ?xs"
        using distance_bounds [OF n, of cur i] by (auto simp del: upt_Suc)
      with None f [OF that] show ?thesis by (auto simp: find_None_iff simp del: upt_Suc)
    qed
    then show ?thesis using None by (simp add: next_ready_def del: upt_Suc)
  next
    case (Some idx)
    then obtain k where k: "k < ?n" "?P (?xs ! k)" "idx = ?xs ! k" "\<forall>j < k. \<not> ?P (?xs ! j)"
      by (auto simp: find_Some_iff simp del: upt_Suc)
    have idx: "idx = ?f (Suc k)" using k(1,3) nth by simp
    have lt: "idx < ?n" using idx n by (simp add: nat_less_iff)
    have di: "distance cur ?n idx = Suc k" unfolding idx using k(1) by (intro distance_of_step) auto
    have "Suc k \<le> distance cur ?n j" if j: "j < ?n" "?P j" for j
    proof (rule ccontr)
      assume "\<not> ?thesis"
      then have d: "distance cur ?n j - 1 < k" "1 \<le> distance cur ?n j"
        using distance_bounds [OF n, of cur j] by auto
      then have "?xs ! (distance cur ?n j - 1) = j" using nth [of "distance cur ?n j - 1"] f [OF j(1)] k(1) by simp
      with d k(4) j(2) show False by metis
    qed
    then show ?thesis
      using Some lt k(2,3) di by (auto simp: next_ready_def simp del: upt_Suc intro!: exI [of _ idx])
  qed
qed

lemma next_ready_range:
  assumes "sched_inv s" and "length ps = length (processes s)"
  shows "-1 \<le> next_ready ps (current_index s) \<and> next_ready ps (current_index s) < int (length ps)"
proof (cases "length ps = 0")
  case True
  then show ?thesis using assms by (simp add: next_ready_def sched_inv_def)
next
  case False
  then show ?thesis using next_ready_cases [of ps "current_index s"] assms by (auto simp: sched_inv_def)
qed

section \<open>One scheduling step\<close>

text \<open>The processes once the interrupted one has been put back among the ready ones.\<close>

definition requeued :: "Scheduler \<Rightarrow> u32 \<Rightarrow> Process list" where
  "requeued s esp =
     (if 0 \<le> current_index s \<and> p_state (processes s ! nat (current_index s)) = PROCESS_RUNNING
      then set_proc (nat (current_index s))
             (\<lambda>p. p\<lparr>p_state := PROCESS_READY, p_cpu := (p_cpu p)\<lparr>c_esp := esp\<rparr>\<rparr>) (processes s)
      else processes s)"

lemma requeued_length [simp]: "length (requeued s esp) = length (processes s)"
  by (simp add: requeued_def)

lemma requeued_state:
  assumes "sched_inv s" and "i < length (processes s)"
  shows "p_state (requeued s esp ! i) =
    (if p_state (processes s ! i) = PROCESS_RUNNING then PROCESS_READY else p_state (processes s ! i))"
proof (cases "p_state (processes s ! i) = PROCESS_RUNNING")
  case True
  then have "current_index s = int i" using assms by (auto simp: sched_inv_def)
  then show ?thesis using True assms(2) by (simp add: requeued_def)
next
  case False
  then show ?thesis
    using assms(2) by (cases "nat (current_index s) = i") (auto simp: requeued_def)
qed

lemma requeued_other: "int i \<noteq> current_index s \<Longrightarrow> requeued s esp ! i = processes s ! i"
  by (auto simp: requeued_def)

lemma Schedule_eq:
  "Schedule s esp =
     (let found = next_ready (requeued s esp) (current_index s)
      in if 0 \<le> found \<and> p_state (requeued s esp ! nat found) = PROCESS_READY
         then (if \<not> (0 \<le> current_index s \<and> p_state (processes s ! nat (current_index s)) = PROCESS_RUNNING) \<and>
                  found = current_index s
               then esp else c_esp (p_cpu (requeued s esp ! nat found)),
               s\<lparr>current_index := found,
                 processes := set_proc (nat found) (\<lambda>p. p\<lparr>p_state := PROCESS_RUNNING\<rparr>) (requeued s esp),
                 s_paging := (case p_page_dir (requeued s esp ! nat found) of
                                Some d \<Rightarrow> SwitchDirectory (s_paging s) d | None \<Rightarrow> s_paging s),
                 s_tss := SetKernelStack (s_tss s) (KernelStackTop (requeued s esp ! nat found))\<rparr>)
         else (esp, s\<lparr>processes := requeued s esp\<rparr>))"
  unfolding Schedule_def requeued_def Let_def by (rule refl)

definition runnable :: "Scheduler \<Rightarrow> nat \<Rightarrow> bool" where
  "runnable s i \<longleftrightarrow> i < length (processes s) \<and> p_state (processes s ! i) \<in> {PROCESS_READY, PROCESS_RUNNING}"

lemma requeued_ready:
  "sched_inv s \<Longrightarrow> i < length (processes s) \<Longrightarrow>
     p_state (requeued s esp ! i) = PROCESS_READY \<longleftrightarrow> runnable s i"
  by (auto simp: requeued_state runnable_def)

lemma requeued_idle:
  assumes "sched_inv s" and "\<And>i. \<not> runnable s i"
  shows "requeued s esp = processes s"
proof (cases "0 \<le> current_index s")
  case True
  then have "p_state (processes s ! nat (current_index s)) \<noteq> PROCESS_RUNNING"
    using assms(2) [of "nat (current_index s)"] assms(1) by (auto simp: runnable_def sched_inv_def)
  then show ?thesis by (simp add: requeued_def)
qed (simp add: requeued_def)

lemma Schedule_idle:
  assumes inv: "sched_inv s" and idle: "\<And>i. \<not> runnable s i"
  shows "Schedule s esp = (esp, s)"
proof -
  let ?f = "next_ready (processes s) (current_index s)"
  have "p_state (processes s ! nat ?f) \<noteq> PROCESS_READY" if "0 \<le> ?f"
    using idle [of "nat ?f"] next_ready_range [OF inv refl] that by (auto simp: runnable_def)
  then show ?thesis unfolding Schedule_eq requeued_idle [OF inv idle] by (auto simp: Let_def)
qed

text \<open>What a step does once it has chosen process \<open>i\<close>.\<close>

definition switched :: "Scheduler \<Rightarrow> u32 \<Rightarrow> nat \<Rightarrow> Scheduler" where
  "switched s esp i = s\<lparr>current_index := int i,
     processes := set_proc i (\<lambda>p. p\<lparr>p_state := PROCESS_RUNNING\<rparr>) (requeued s esp),
     s_paging := (case p_page_dir (requeued s esp ! i) of
                    Some d \<Rightarrow> SwitchDirectory (s_paging s) d | None \<Rightarrow> s_paging s),
     s_tss := SetKernelStack (s_tss s) (KernelStackTop (requeued s esp ! i))\<rparr>"

lemma requeued_cur_esp:
  assumes "sched_inv s" and "int i = current_index s" and "p_state (processes s ! i) = PROCESS_RUNNING"
    and "i < length (processes s)"
  shows "c_esp (p_cpu (requeued s esp ! i)) = esp"
proof -
  have "current_index s = int i" using assms(2) by simp
  then show ?thesis using assms(3,4) by (simp add: requeued_def)
qed

lemma Schedule_choice:
  assumes inv: "sched_inv s" and r: "runnable s j"
  obtains i where "runnable s i"
    and "\<And>j. runnable s j \<Longrightarrow>
      distance (current_index s) (length (processes s)) i \<le> distance (current_index s) (length (processes s)) j"
    and "Schedule s esp =
      (if int i = current_index s then esp else c_esp (p_cpu (processes s ! i)), switched s esp i)"
proof -
  let ?n = "length (processes s)" and ?c = "current_index s" and ?ps = "requeued s esp"
  have n: "0 < length ?ps" using r by (auto simp: runnable_def)
  note rr = requeued_ready [OF inv, of _ esp]
  have "\<not> (\<forall>i < length ?ps. p_state (?ps ! i) \<noteq> PROCESS_READY)" using rr r by (auto simp: runnable_def)
  then obtain i where i: "i < ?n" "p_state (?ps ! i) = PROCESS_READY" "next_ready ?ps ?c = int i"
    "\<And>j. j < ?n \<Longrightarrow> p_state (?ps ! j) = PROCESS_READY \<Longrightarrow> distance ?c ?n i \<le> distance ?c ?n j"
    using next_ready_cases [OF n, of ?c] by auto
  have ri: "runnable s i" using rr i(1,2) by simp
  show ?thesis
  proof (rule that [OF ri])
    show "distance ?c ?n i \<le> distance ?c ?n j" if "runnable s j" for j
      using i(4) [of j] rr [of j] that by (simp add: runnable_def)
    show "Schedule s esp = (if int i = ?c then esp else c_esp (p_cpu (processes s ! i)), switched s esp i)"
    proof (cases "int i = ?c")
      case True
      then have ci: "?c = int i" by simp
      show ?thesis
      proof (cases "p_state (processes s ! i) = PROCESS_RUNNING")
        case run: True
        show ?thesis
          using i requeued_cur_esp [OF inv True run i(1)] run
          unfolding Schedule_eq switched_def by (simp add: Let_def ci)
      next
        case False
        then show ?thesis using i unfolding Schedule_eq switched_def by (simp add: Let_def ci)
      qed
    next
      case False
      then show ?thesis
        using i requeued_other [OF False, of esp] unfolding Schedule_eq switched_def by (auto simp: Let_def)
    qed
  qed
qed

lemma switched_simps [simp]:
  "length (processes (switched s esp i)) = length (processes s)" "current_index (switched s esp i) = int i"
  by (simp_all add: switched_def)

lemma switched_state:
  assumes "sched_inv s" and "runnable s i" and "j < length (processes s)"
  shows "p_state (processes (switched s esp i) ! j) =
    (if j = i then PROCESS_RUNNING
     else if p_state (processes s ! j) = PROCESS_RUNNING then PROCESS_READY else p_state (processes s ! j))"
  using assms requeued_state [OF assms(1,3), of esp] by (auto simp: switched_def runnable_def nth_list_update)

lemma switched_inv: "sched_inv s \<Longrightarrow> runnable s i \<Longrightarrow> sched_inv (switched s esp i)"
  using switched_state [of s i] by (auto simp: sched_inv_def runnable_def split: if_splits)

lemma Schedule_inv:
  assumes "sched_inv s"
  shows "sched_inv (snd (Schedule s esp))"
proof (cases "\<exists>j. runnable s j")
  case True
  then obtain j where "runnable s j" ..
  then obtain i where "runnable s i" "Schedule s esp =
      (if int i = current_index s then esp else c_esp (p_cpu (processes s ! i)), switched s esp i)"
    using Schedule_choice [OF assms, of j esp] by blast
  then show ?thesis using switched_inv [OF assms] by simp
next
  case False
  then show ?thesis using Schedule_idle [OF assms] assms by simp
qed

lemma Scheduler_ops_inv:
  "sched_inv (Scheduler_new t pg)" "sched_inv s \<Longrightarrow> sched_inv (AddProcess s p)"
  "sched_inv s \<Longrightarrow> sched_inv (WakeParent s c)"
proof -
  show "sched_inv (Scheduler_new t pg)" by (simp add: sched_inv_def Scheduler_new_def)
  show "sched_inv s \<Longrightarrow> sched_inv (AddProcess s p)"
    by (auto simp: sched_inv_def AddProcess_def nth_append less_Suc_eq)
  show "sched_inv s \<Longrightarrow> sched_inv (WakeParent s c)"
    by (auto simp: sched_inv_def WakeParent_def split: if_splits)
qed

section \<open>Fairness\<close>

lemma distance_after:
  assumes "i < n" and "j < n" and "distance cur n i < distance cur n j"
  shows "distance (int i) n j = distance cur n j - distance cur n i"
proof -
  let ?d = "int (distance cur n j) - int (distance cur n i)"
  have n: "0 < int n" using assms(1) by simp
  have ij: "int i = (cur + int (distance cur n i)) mod int n" "int j = (cur + int (distance cur n j)) mod int n"
    using distance_index [OF assms(1), of cur] distance_index [OF assms(2), of cur]
      pos_mod_sign [OF n, of "cur + int (distance cur n i)"] pos_mod_sign [OF n, of "cur + int (distance cur n j)"]
    by linarith+
  have "(int j - int i - 1) mod int n = ((int j - int i) mod int n - 1) mod int n"
    by (simp only: mod_diff_left_eq)
  also have "(int j - int i) mod int n = ?d mod int n"
    unfolding ij by (subst mod_diff_eq) simp
  also have "(?d mod int n - 1) mod int n = (?d - 1) mod int n" by (simp only: mod_diff_left_eq)
  also have "\<dots> = ?d - 1"
    using assms(3) distance_bounds [of n cur j] distance_bounds [of n cur i] n
    by (intro mod_pos_pos_trivial) auto
  finally have "int (distance (int i) n j) = ?d" using assms(3) by (simp only: distance_def [of "int i"])
  then show ?thesis by linarith
qed

lemma distance_inj: "i < n \<Longrightarrow> j < n \<Longrightarrow> distance cur n i = distance cur n j \<Longrightarrow> i = j"
  using distance_index by metis

text \<open>A run of timer interrupts, each finding the running code at some stack pointer.\<close>

definition slices :: "Scheduler \<Rightarrow> u32 list \<Rightarrow> Scheduler" where
  "slices s esps = foldl (\<lambda>s esp. snd (Schedule s esp)) s esps"

lemma slice_towards:
  assumes inv: "sched_inv s" and j: "ready s j"
  shows "running (snd (Schedule s esp)) j \<or>
    ready (snd (Schedule s esp)) j \<and>
    distance (current_index (snd (Schedule s esp))) (length (processes s)) j <
      distance (current_index s) (length (processes s)) j"
proof -
  let ?n = "length (processes s)"
  have jl: "j < ?n" and rj: "runnable s j" using j by (auto simp: ready_def runnable_def)
  obtain i where i: "runnable s i" "distance (current_index s) ?n i \<le> distance (current_index s) ?n j"
    "Schedule s esp = (if int i = current_index s then esp else c_esp (p_cpu (processes s ! i)), switched s esp i)"
    using Schedule_choice [OF inv rj, of esp] rj by blast
  have il: "i < ?n" using i(1) by (simp add: runnable_def)
  note st = switched_state [OF inv i(1) jl, of esp]
  show ?thesis
  proof (cases "i = j")
    case True
    then show ?thesis using i(3) st jl by (simp add: running_def)
  next
    case False
    then have lt: "distance (current_index s) ?n i < distance (current_index s) ?n j"
      using i(2) distance_inj [OF il jl] by (metis le_neq_implies_less)
    have "distance (int i) ?n j < distance (current_index s) ?n j"
      using distance_after [OF il jl lt] distance_bounds [of ?n "current_index s" i] lt jl by linarith
    then show ?thesis using i(3) st jl j False by (simp add: ready_def)
  qed
qed

lemma length_slices: "length (processes (snd (Schedule s esp))) = length (processes s)"
  by (simp add: Schedule_eq Let_def)

lemma slices_reach:
  assumes "sched_inv s" and "ready s j" and "distance (current_index s) (length (processes s)) j \<le> length esps"
  shows "\<exists>k \<le> length esps. running (slices s (take k esps)) j"
  using assms
proof (induction esps arbitrary: s)
  case Nil
  then show ?case by (simp add: distance_def)
next
  case (Cons e es)
  let ?s = "snd (Schedule s e)"
  note st = slice_towards [OF Cons.prems(1,2), of e]
  show ?case
  proof (cases "running ?s j")
    case True
    then show ?thesis by (intro exI [of _ 1]) (simp add: slices_def)
  next
    case False
    then have "ready ?s j" "distance (current_index ?s) (length (processes ?s)) j \<le> length es"
      using st Cons.prems(3) by (auto simp: length_slices)
    then obtain k where "k \<le> length es" "running (slices ?s (take k es)) j"
      using Cons.IH [OF Schedule_inv [OF Cons.prems(1)]] by blast
    then show ?thesis by (intro exI [of _ "Suc k"]) (simp add: slices_def)
  qed
qed

section \<open>Properties\<close>

text \<open>C8: one scheduling step is round robin. If nothing can run, the state and the stack pointer are
  left alone. Otherwise the first runnable process after the current one, in circular order,
  becomes the only running one; its address space and kernel stack are loaded, the stack pointer
  returned is the one it was last interrupted at, and the preempted process is ready again with
  its stack pointer saved. No other process changes.\<close>

theorem Schedule_round_robin:
  assumes inv: "sched_inv s" and eq: "Schedule s esp = (r, s')"
  shows "sched_inv s' \<and>
    (if \<forall>i. \<not> runnable s i then r = esp \<and> s' = s
     else \<exists>i. runnable s i \<and>
       (\<forall>j. runnable s j \<longrightarrow> distance (current_index s) (length (processes s)) i \<le>
          distance (current_index s) (length (processes s)) j) \<and>
       current_index s' = int i \<and> running s' i \<and>
       r = (if int i = current_index s then esp else c_esp (p_cpu (processes s ! i))) \<and>
       t_esp0 (s_tss s') = KernelStackTop (processes s ! i) \<and>
       cr3 (s_paging s') = (case p_page_dir (processes s ! i) of
         Some d \<Rightarrow> GetCR3 (pg_dirs (s_paging s) ! d) | None \<Rightarrow> cr3 (s_paging s)) \<and>
       (\<forall>j. j \<noteq> i \<and> j < length (processes s) \<longrightarrow> processes s' ! j =
          (if running s j
           then (processes s ! j)\<lparr>p_state := PROCESS_READY, p_cpu := (p_cpu (processes s ! j))\<lparr>c_esp := esp\<rparr>\<rparr>
           else processes s ! j)))"
proof (cases "\<exists>j. runnable s j")
  case False
  then show ?thesis using Schedule_idle [OF inv] inv eq by auto
next
  case True
  then obtain j where "runnable s j" ..
  then obtain i where i: "runnable s i"
    "\<And>j. runnable s j \<Longrightarrow> distance (current_index s) (length (processes s)) i \<le>
       distance (current_index s) (length (processes s)) j"
    "Schedule s esp = (if int i = current_index s then esp else c_esp (p_cpu (processes s ! i)), switched s esp i)"
    using Schedule_choice [OF inv, of j esp] by blast
  have il: "i < length (processes s)" using i(1) by (simp add: runnable_def)
  have s': "s' = switched s esp i" "r = (if int i = current_index s then esp else c_esp (p_cpu (processes s ! i)))"
    using eq i(3) by auto
  have same: "p_page_dir (requeued s esp ! k) = p_page_dir (processes s ! k)"
    "KernelStackTop (requeued s esp ! k) = KernelStackTop (processes s ! k)" if "k < length (processes s)" for k
    using that by (cases "nat (current_index s) = k"; auto simp: requeued_def KernelStackTop_def)+
  have other: "processes s' ! j =
      (if running s j
       then (processes s ! j)\<lparr>p_state := PROCESS_READY, p_cpu := (p_cpu (processes s ! j))\<lparr>c_esp := esp\<rparr>\<rparr>
       else processes s ! j)" if j: "j \<noteq> i" "j < length (processes s)" for j
  proof (cases "running s j")
    case True
    then have "current_index s = int j" using inv by (auto simp: running_def sched_inv_def)
    then show ?thesis using True j by (simp add: s' switched_def requeued_def running_def)
  next
    case False
    then show ?thesis
      using j by (cases "nat (current_index s) = j") (auto simp: s' switched_def requeued_def running_def)
  qed
  have "sched_inv s'" using switched_inv [OF inv i(1)] s'(1) by simp
  moreover have "current_index s' = int i" "running s' i"
    "t_esp0 (s_tss s') = KernelStackTop (processes s ! i)"
    "cr3 (s_paging s') = (case p_page_dir (processes s ! i) of
       Some d \<Rightarrow> GetCR3 (pg_dirs (s_paging s) ! d) | None \<Rightarrow> cr3 (s_paging s))"
    using il same [OF il]
    by (simp_all add: s' running_def switched_def SetKernelStack_def SwitchDirectory_def split: option.splits)
  ultimately show ?thesis using i(1,2) s'(2) other True by auto
qed

text \<open>C9: no ready process starves: whatever the stack pointers found at the interrupts, it runs within
  as many timer interrupts as there are processes.\<close>

theorem Schedule_fair:
  assumes "sched_inv s" and "ready s j" and "length esps = length (processes s)"
  shows "\<exists>k \<le> length (processes s). running (slices s (take k esps)) j"
proof -
  have "0 < length (processes s)" using assms(2) by (auto simp: ready_def)
  then have "distance (current_index s) (length (processes s)) j \<le> length esps"
    using distance_bounds assms(3) by simp
  then show ?thesis using slices_reach [OF assms(1,2), of esps] assms(3) by simp
qed

text \<open>C10: a process that blocks inside a system call loses its place. The stack pointer at which the
  timer finds it is not saved, so that when it has been woken and is chosen again, it resumes
  from the stack pointer saved before the call, whatever it did since.\<close>

theorem blocked_process_resumes_stale:
  assumes inv: "sched_inv s" and c: "current_index s = int c" "p_state (processes s ! c) = PROCESS_BLOCKED"
    and other: "ready s i"
    and s1: "Schedule s esp1 = (r1, s1)" and s2: "s2 = WakeParent s1 (p_wait_pid (processes s ! c))"
    and s3: "Schedule s2 esp2 = (r2, s3)" and again: "current_index s3 = int c"
  shows "r2 = c_esp (p_cpu (processes s ! c))"
proof -
  have cl: "c < length (processes s)" using inv c(1) by (auto simp: sched_inv_def)
  have ri: "runnable s i" using other by (auto simp: ready_def runnable_def)
  obtain k where k: "runnable s k" "Schedule s esp1 =
      (if int k = current_index s then esp1 else c_esp (p_cpu (processes s ! k)), switched s esp1 k)"
    using Schedule_choice [OF inv ri, of esp1] by blast
  then have s1k: "s1 = switched s esp1 k" using s1 by simp
  have kc: "k \<noteq> c" using k(1) c(2) by (auto simp: runnable_def)
  have p1: "processes s1 ! c = processes s ! c"
    using kc cl c by (simp add: s1k switched_def requeued_def)
  have inv1: "sched_inv s1" using switched_inv [OF inv k(1)] s1k by simp
  have inv2: "sched_inv s2" using Scheduler_ops_inv(3) [OF inv1] s2 by simp
  have p2: "c_esp (p_cpu (processes s2 ! c)) = c_esp (p_cpu (processes s ! c))"
    using p1 cl by (simp add: s2 WakeParent_def s1k)
  have cur2: "current_index s2 = int k" using s1k by (simp add: s2 WakeParent_def)
  show ?thesis
  proof (cases "\<exists>j. runnable s2 j")
    case True
    then obtain j where "runnable s2 j" ..
    then obtain n where "Schedule s2 esp2 =
        (if int n = current_index s2 then esp2 else c_esp (p_cpu (processes s2 ! n)), switched s2 esp2 n)"
      using Schedule_choice [OF inv2, of j esp2] by blast
    then show ?thesis using s3 again cur2 kc p2 by auto
  next
    case False
    then have "s3 = s2" using Schedule_idle [OF inv2, of esp2] s3 by auto
    then show ?thesis using again cur2 kc by simp
  qed
qed

section \<open>Concrete instances\<close>

definition demo_proc :: "u32 \<Rightarrow> ProcessState \<Rightarrow> u32 \<Rightarrow> Process" where
  "demo_proc pid st esp =
     \<lparr>p_pid = pid, p_state = st, p_cpu = demo_cpu\<lparr>c_esp := esp\<rparr>, p_page_dir = None, p_exit_code = 0,
      p_parent_pid = -1, p_wait_pid = -2, p_kernel_stack = pid * 0x2000\<rparr>"

definition demo_sched :: "ProcessState \<Rightarrow> Scheduler" where
  "demo_sched st =
     \<lparr>processes = [demo_proc 1 st 0x1111, demo_proc 2 PROCESS_READY 0x2222], current_index = 0,
      s_tss = TaskStateSegment_new, s_paging = demo_paging, pit_ticks = 0\<rparr>"

lemma demo_sched_inv: "sched_inv (demo_sched st)"
  by (auto simp: sched_inv_def demo_sched_def demo_proc_def less_Suc_eq MAX_PROCESSES_def)

lemma demo_sched_ready: "ready (demo_sched st) 1"
  by (simp add: ready_def demo_sched_def demo_proc_def)

lemma Schedule_demo:
  "Schedule (demo_sched PROCESS_RUNNING) 0x5555 =
     (0x2222, (demo_sched PROCESS_RUNNING)\<lparr>current_index := 1,
        processes := [demo_proc 1 PROCESS_READY 0x5555, demo_proc 2 PROCESS_RUNNING 0x2222],
        s_tss := SetKernelStack TaskStateSegment_new 0x5000\<rparr>)"
  by (simp add: Schedule_def next_ready_def demo_sched_def demo_proc_def Let_def KernelStackTop_def
      KERNEL_STACK_SIZE_def)

theorem Schedule_round_robin_witness:
  "sched_inv (demo_sched PROCESS_RUNNING) \<and>
   (case Schedule (demo_sched PROCESS_RUNNING) 0x5555 of (r, s') \<Rightarrow> r = 0x2222 \<and> sched_inv s')"
  using Schedule_round_robin [OF demo_sched_inv Schedule_demo] Schedule_demo demo_sched_inv by simp

theorem Schedule_fair_witness:
  "ready (demo_sched PROCESS_RUNNING) 1 \<and>
   (\<exists>k \<le> 2. running (slices (demo_sched PROCESS_RUNNING) (take k [0x5555, 0x6666])) 1)"
  using Schedule_fair [OF demo_sched_inv demo_sched_ready, of "[0x5555, 0x6666]" PROCESS_RUNNING]
    demo_sched_ready by (simp add: demo_sched_def numeral_2_eq_2)

theorem blocked_process_resumes_stale_witness:
  "case Schedule (demo_sched PROCESS_BLOCKED) 0x5555 of (r1, s1) \<Rightarrow>
   case Schedule (WakeParent s1 (-2)) 0x6666 of (r2, s3) \<Rightarrow> current_index s3 = 0 \<and> r2 = 0x1111"
proof -
  obtain r1 s1 where s1: "Schedule (demo_sched PROCESS_BLOCKED) 0x5555 = (r1, s1)"
    by (cases "Schedule (demo_sched PROCESS_BLOCKED) 0x5555")
  obtain r2 s3 where s3: "Schedule (WakeParent s1 (-2)) 0x6666 = (r2, s3)"
    by (cases "Schedule (WakeParent s1 (-2)) 0x6666")
  have e1: "processes s1 = [demo_proc 1 PROCESS_BLOCKED 0x1111, demo_proc 2 PROCESS_RUNNING 0x2222]"
    "current_index s1 = 1"
    using s1 by (auto simp: Schedule_def next_ready_def demo_sched_def demo_proc_def Let_def)
  have again: "current_index s3 = 0"
    using s3 by (auto simp: Schedule_def next_ready_def WakeParent_def e1 demo_proc_def Let_def)
  have "r2 = c_esp (p_cpu (processes (demo_sched PROCESS_BLOCKED) ! 0))"
    by (rule blocked_process_resumes_stale [OF demo_sched_inv _ _ demo_sched_ready s1 _ s3])
      (simp_all add: demo_sched_def demo_proc_def again)
  then show ?thesis using s1 s3 again by (simp add: demo_sched_def demo_proc_def)
qed

end
