(* ===== verification/Terminals.thy ===== *)
theory Terminals
  imports Display Scheduling
begin

text \<open>
  The terminal, \<^verbatim>\<open>src/src/ui/terminal.h\<close> and \<^verbatim>\<open>terminal.cpp\<close>: a window of 23 rows of 40 characters with a cursor,
  and a line of input that is edited there and handed to the keyboard buffer when it is complete. A write outside the grid
  or the input line is outside the model (\<open>None\<close>). Rows, columns and lengths are never negative
  and are natural numbers.
\<close>

section \<open>State\<close>

abbreviation COL_BG :: u8 where "COL_BG \<equiv> 0"
abbreviation COL_TEXT :: u8 where "COL_TEXT \<equiv> 220"
abbreviation COL_GOLD :: u8 where "COL_GOLD \<equiv> 221"
abbreviation COL_DIM :: u8 where "COL_DIM \<equiv> 222"
abbreviation COL_HDR_BG :: u8 where "COL_HDR_BG \<equiv> 223"

record Terminal =
  t_x :: u32
  t_y :: u32
  t_w :: u32
  t_h :: u32
  grid :: "u8 list list"
  colors :: "u8 list list"
  cursor_col :: nat
  cursor_row :: nat
  input_line :: "u8 list"
  input_len :: nat
  raw_input_mode :: bool

text \<open>The devices and kernel objects a key press reaches: the screen, the keyboard buffer, and the scheduler once there is one.\<close>

record console =
  con_vga :: VGA
  con_keys :: KeyboardBuffer
  con_sched :: "Scheduler option"

definition Terminal_new :: "u32 \<Rightarrow> u32 \<Rightarrow> u32 \<Rightarrow> u32 \<Rightarrow> Terminal" where
  "Terminal_new x y w h =
     \<lparr>t_x = x, t_y = y, t_w = w, t_h = h, grid = replicate 23 (replicate 40 0x20),
      colors = replicate 23 (replicate 40 COL_TEXT), cursor_col = 0, cursor_row = 0,
      input_line = replicate 256 0, input_len = 0, raw_input_mode = False\<rparr>"

section \<open>The grid\<close>

definition set_grid :: "u8 \<Rightarrow> Terminal \<Rightarrow> Terminal option" where
  "set_grid c t =
     (if cursor_row t < 23 \<and> cursor_col t < 40
      then Some (t\<lparr>grid := (grid t)[cursor_row t := (grid t ! cursor_row t)[cursor_col t := c]],
                   colors := (colors t)[cursor_row t := (colors t ! cursor_row t)[cursor_col t := COL_TEXT]]\<rparr>)
      else None)"

definition ScrollUp :: "Terminal \<Rightarrow> Terminal" where
  "ScrollUp t =
     t\<lparr>grid := tl (grid t) @ [replicate 40 0x20], colors := tl (colors t) @ [replicate 40 COL_TEXT],
       cursor_row := (if cursor_row t > 0 then cursor_row t - 1 else cursor_row t)\<rparr>"

definition NewLine :: "Terminal \<Rightarrow> Terminal" where
  "NewLine t =
     (let t = t\<lparr>cursor_col := 0, cursor_row := cursor_row t + 1\<rparr>
      in if cursor_row t \<ge> 23 then ScrollUp t else t)"

definition Backspace :: "Terminal \<Rightarrow> Terminal option" where
  "Backspace t =
     set_grid 0x20
       (if cursor_col t > 0 then t\<lparr>cursor_col := cursor_col t - 1\<rparr>
        else if cursor_row t > 0 then t\<lparr>cursor_row := cursor_row t - 1, cursor_col := 40 - 1\<rparr>
        else t)"

definition Terminal_PutChar :: "u8 \<Rightarrow> Terminal \<Rightarrow> Terminal option" where
  "Terminal_PutChar c t =
     (if c = 0x0A then Some (NewLine t)
      else if c = 0x08 then Backspace t
      else map_option (\<lambda>t. let t = t\<lparr>cursor_col := cursor_col t + 1\<rparr>
                           in if cursor_col t \<ge> 40 then NewLine t else t) (set_grid c t))"

section \<open>Drawing\<close>

definition draw_title :: "u8 list \<Rightarrow> u32 \<Rightarrow> u32 \<Rightarrow> u8 \<Rightarrow> VGA \<Rightarrow> VGA option" where
  "draw_title s x y col v =
     fold_opt (\<lambda>i. DrawChar (ucast (x + of_nat i * 6)) (ucast (y + 1)) (s ! i) col COL_HDR_BG) [0..<length s] v"

definition DrawHeader :: "Terminal \<Rightarrow> VGA \<Rightarrow> VGA option" where
  "DrawHeader t v = do {
     v \<leftarrow> DrawRect (ucast (t_x t)) (ucast (t_y t)) (ucast (t_w t)) 10 COL_HDR_BG v;
     v \<leftarrow> draw_title (ascii ''FRODO OS'') (t_x t + 2) (t_y t) COL_GOLD v;
     v \<leftarrow> draw_title (ascii ''root@ring'') (t_x t + t_w t - 9 * 6 - 2) (t_y t) COL_DIM v;
     DrawRect (ucast (t_x t)) (ucast (t_y t + 10 - 1)) (ucast (t_w t)) 1 COL_GOLD v
   }"

definition Terminal_Draw :: "Terminal \<Rightarrow> VGA \<Rightarrow> VGA option" where
  "Terminal_Draw t v = do {
     v \<leftarrow> DrawHeader t v;
     v \<leftarrow> fold_opt (\<lambda>r v. fold_opt (\<lambda>c.
            DrawChar (ucast (t_x t + of_nat (c * 8))) (ucast (t_y t + 10 + of_nat (r * 8)))
              (grid t ! r ! c) (colors t ! r ! c) COL_BG) [0..<40] v) [0..<23] v;
     DrawRect (ucast (t_x t + of_nat (cursor_col t * 8))) (ucast (t_y t + 10 + of_nat (cursor_row t * 8))) 8 8 COL_TEXT v
   }"

text \<open>\<^verbatim>\<open>SetShellOutput\<close> gets a length, \<^verbatim>\<open>Print\<close> a string that ends in zero; both put the characters and draw.\<close>

definition SetShellOutput :: "u8 list \<Rightarrow> Terminal \<times> VGA \<Rightarrow> (Terminal \<times> VGA) option" where
  "SetShellOutput str tv = do {
     t \<leftarrow> fold_opt Terminal_PutChar str (fst tv);
     v \<leftarrow> Terminal_Draw t (snd tv);
     Some (t, v)
   }"

definition Terminal_Print :: "u8 list \<Rightarrow> Terminal \<times> VGA \<Rightarrow> (Terminal \<times> VGA) option" where
  "Terminal_Print str tv = do {
     t \<leftarrow> fold_opt Terminal_PutChar str (fst tv);
     v \<leftarrow> Terminal_Draw t (snd tv);
     Some (t, v)
   }"

definition SetRawInputMode :: "bool \<Rightarrow> Terminal \<Rightarrow> Terminal" where
  "SetRawInputMode enabled t = t\<lparr>raw_input_mode := enabled\<rparr>"

definition IsRawInputMode :: "Terminal \<Rightarrow> bool" where
  "IsRawInputMode t = raw_input_mode t"

section \<open>Input\<close>

definition enqueue_all :: "u8 list \<Rightarrow> console \<Rightarrow> console" where
  "enqueue_all cs k = k\<lparr>con_keys := foldl Enqueue (con_keys k) cs, con_sched := WakeWaiters (con_sched k)\<rparr>"

definition redraw :: "Terminal \<Rightarrow> console \<Rightarrow> (Terminal \<times> console) option" where
  "redraw t k = map_option (\<lambda>v. (t, k\<lparr>con_vga := v\<rparr>)) (Terminal_Draw t (con_vga k))"

definition set_input :: "u8 \<Rightarrow> Terminal \<Rightarrow> Terminal option" where
  "set_input c t =
     (if input_len t < 256 then Some (t\<lparr>input_line := (input_line t)[input_len t := c]\<rparr>) else None)"

definition Terminal_OnKeyPress :: "u8 \<Rightarrow> Terminal \<times> console \<Rightarrow> (Terminal \<times> console) option" where
  "Terminal_OnKeyPress c tk =
     (let (t, k) = tk
      in if raw_input_mode t then Some (t, enqueue_all [c] k)
         else if c = 0x08
         then if input_len t > 0
              then do { t \<leftarrow> Backspace (t\<lparr>input_len := input_len t - 1\<rparr>); redraw t k }
              else Some (t, k)
         else if c = 0x0A
         then do {
           t \<leftarrow> set_input 0x0A t;
           let t = t\<lparr>input_len := input_len t + 1\<rparr>;
           t \<leftarrow> set_input 0 t;
           t \<leftarrow> Terminal_PutChar 0x0A t;
           let k = enqueue_all (take (input_len t) (input_line t)) k;
           redraw (t\<lparr>input_len := 0\<rparr>) k
         }
         else if 32 \<le> sint c \<and> input_len t < 255
         then do {
           t \<leftarrow> set_input c t;
           t \<leftarrow> Terminal_PutChar c (t\<lparr>input_len := input_len t + 1\<rparr>);
           redraw t k
         }
         else Some (t, k))"

section \<open>The terminal stays well-formed\<close>

definition term_ok :: "Terminal \<Rightarrow> bool" where
  "term_ok t \<longleftrightarrow> length (grid t) = 23 \<and> (\<forall>row \<in> set (grid t). length row = 40) \<and>
     length (colors t) = 23 \<and> (\<forall>row \<in> set (colors t). length row = 40) \<and> cursor_row t < 23 \<and> cursor_col t < 40 \<and>
     length (input_line t) = 256 \<and> input_len t \<le> 255"

text \<open>What writing on the grid leaves alone.\<close>

definition same_input :: "Terminal \<Rightarrow> Terminal \<Rightarrow> bool" where
  "same_input t t' \<longleftrightarrow> t_x t' = t_x t \<and> t_y t' = t_y t \<and> t_w t' = t_w t \<and> t_h t' = t_h t \<and>
     input_line t' = input_line t \<and> input_len t' = input_len t \<and> raw_input_mode t' = raw_input_mode t"

lemma same_input_refl [simp]: "same_input t t"
  by (simp add: same_input_def)

lemma same_input_trans: "same_input a b \<Longrightarrow> same_input b c \<Longrightarrow> same_input a c"
  by (simp add: same_input_def)

lemma rows_updated:
  assumes "\<forall>row \<in> set g. length row = n"
  shows "\<forall>row \<in> set (g[r := (g ! r)[c := x]]). length row = n"
proof
  fix row
  assume "row \<in> set (g[r := (g ! r)[c := x]])"
  then obtain i where i: "i < length g" "row = (g[r := (g ! r)[c := x]]) ! i" by (auto simp: in_set_conv_nth)
  then show "length row = n" using assms nth_mem [OF i(1)] by (cases "i = r") auto
qed

lemma set_grid_ok:
  assumes "term_ok t"
  shows "\<exists>t'. set_grid c t = Some t' \<and> term_ok t' \<and> same_input t t' \<and> cursor_row t' = cursor_row t \<and> cursor_col t' = cursor_col t"
proof -
  have g: "\<forall>row \<in> set (grid t). length row = 40" "\<forall>row \<in> set (colors t). length row = 40" using assms by (simp_all add: term_ok_def)
  show ?thesis
    using assms rows_updated [OF g(1), of "cursor_row t" "cursor_col t" c] rows_updated [OF g(2), of "cursor_row t" "cursor_col t" COL_TEXT]
    by (simp add: set_grid_def term_ok_def same_input_def)
qed

lemma rows_scrolled: "length g = 23 \<Longrightarrow> \<forall>row \<in> set g. length row = n \<Longrightarrow>
  length (tl g @ [replicate n x]) = 23 \<and> (\<forall>row \<in> set (tl g @ [replicate n x]). length row = n)"
  by (cases g) auto

lemma NewLine_ok:
  assumes "term_ok t"
  shows "term_ok (NewLine t) \<and> same_input t (NewLine t)"
proof -
  have g: "length (grid t) = 23" "\<forall>row \<in> set (grid t). length row = 40" "length (colors t) = 23" "\<forall>row \<in> set (colors t). length row = 40"
    using assms by (simp_all add: term_ok_def)
  show ?thesis
    using assms rows_scrolled [OF g(1,2), of "0x20"] rows_scrolled [OF g(3,4), of COL_TEXT]
    by (auto simp: NewLine_def ScrollUp_def Let_def term_ok_def same_input_def)
qed

lemma Backspace_ok:
  assumes "term_ok t"
  shows "\<exists>t'. Backspace t = Some t' \<and> term_ok t' \<and> same_input t t'"
proof -
  let ?t = "if cursor_col t > 0 then t\<lparr>cursor_col := cursor_col t - 1\<rparr>
    else if cursor_row t > 0 then t\<lparr>cursor_row := cursor_row t - 1, cursor_col := 40 - 1\<rparr> else t"
  have "term_ok ?t" "same_input t ?t" using assms by (auto simp: term_ok_def same_input_def)
  then show ?thesis using set_grid_ok [of ?t "0x20"] same_input_trans unfolding Backspace_def by blast
qed

lemma Terminal_PutChar_ok:
  assumes "term_ok t"
  shows "\<exists>t'. Terminal_PutChar c t = Some t' \<and> term_ok t' \<and> same_input t t'"
proof -
  consider "c = 0x0A" | "c = 0x08" | "c \<noteq> 0x0A" "c \<noteq> 0x08" by blast
  then show ?thesis
  proof cases
    case 3
    obtain t' where t': "set_grid c t = Some t'" "term_ok t'" "same_input t t'" "cursor_col t' = cursor_col t"
      using set_grid_ok [OF assms] by blast
    let ?u = "t'\<lparr>cursor_col := cursor_col t' + 1\<rparr>"
    have "term_ok (if cursor_col ?u \<ge> 40 then NewLine ?u else ?u)" "same_input t' (if cursor_col ?u \<ge> 40 then NewLine ?u else ?u)"
    proof -
      have n: "NewLine ?u = NewLine t'" by (simp add: NewLine_def)
      show "term_ok (if cursor_col ?u \<ge> 40 then NewLine ?u else ?u)"
        using NewLine_ok [OF t'(2)] t'(2) unfolding n by (auto simp: term_ok_def)
      show "same_input t' (if cursor_col ?u \<ge> 40 then NewLine ?u else ?u)"
        using NewLine_ok [OF t'(2)] unfolding n by (auto simp: same_input_def)
    qed
    then show ?thesis using 3 t' same_input_trans [OF t'(3)] by (auto simp: Terminal_PutChar_def Let_def)
  qed (use NewLine_ok [OF assms] Backspace_ok [OF assms] in \<open>auto simp: Terminal_PutChar_def\<close>)
qed

lemma Terminal_puts_ok:
  assumes "term_ok t"
  shows "\<exists>t'. fold_opt Terminal_PutChar str t = Some t' \<and> term_ok t' \<and> same_input t t'"
proof -
  have "\<exists>t'. fold_opt Terminal_PutChar str t = Some t' \<and> (term_ok t' \<and> same_input t t')"
  proof (rule fold_opt_inv)
    fix c u
    assume "term_ok u \<and> same_input t u"
    then show "\<exists>t'. Terminal_PutChar c u = Some t' \<and> (term_ok t' \<and> same_input t t')"
      using Terminal_PutChar_ok [of u c] same_input_trans [of t u] by blast
  qed (simp add: assms)
  then show ?thesis by blast
qed

section \<open>What is drawn\<close>

definition at_origin :: "Terminal \<Rightarrow> bool" where
  "at_origin t \<longleftrightarrow> t_x t = 0 \<and> t_y t = 0 \<and> t_w t = 320"

text \<open>A pixel of the character in row \<open>r\<close> and column \<open>c\<close> of the grid.\<close>

definition cell_pixel :: "Terminal \<Rightarrow> nat \<Rightarrow> nat \<Rightarrow> nat \<Rightarrow> nat \<Rightarrow> u8" where
  "cell_pixel t r c j k = (if glyph (grid t ! r ! c) j k then colors t ! r ! c else COL_BG)"

definition row_map :: "Terminal \<Rightarrow> nat \<Rightarrow> nat \<Rightarrow> nat \<rightharpoonup> u8" where
  "row_map t r n i =
     (if i mod 320 < 8 * n \<and> 10 + 8 * r \<le> i div 320 \<and> i div 320 < 18 + 8 * r
      then Some (cell_pixel t r (i mod 320 div 8) (i div 320 - (10 + 8 * r)) (i mod 320 mod 8)) else None)"

definition text_map :: "Terminal \<Rightarrow> nat \<Rightarrow> nat \<rightharpoonup> u8" where
  "text_map t m i =
     (if 10 \<le> i div 320 \<and> i div 320 < 10 + 8 * m
      then Some (cell_pixel t ((i div 320 - 10) div 8) (i mod 320 div 8) ((i div 320 - 10) mod 8) (i mod 320 mod 8)) else None)"

lemma unat_u16_u32: "n < 65536 \<Longrightarrow> unat (ucast (of_nat n :: u32) :: u16) = n"
  by (simp add: unsigned_ucast_eq unat_of_nat take_bit_eq_mod)

lemma row_map_step: "row_map t r n ++ block (8 * n) (10 + 8 * r) 8 8 (cell_pixel t r n) = row_map t r (Suc n)"
proof (rule ext)
  fix i
  consider "i mod 320 < 8 * n" | "8 * n \<le> i mod 320" "i mod 320 < 8 * n + 8" | "8 * n + 8 \<le> i mod 320" by linarith
  then show "(row_map t r n ++ block (8 * n) (10 + 8 * r) 8 8 (cell_pixel t r n)) i = row_map t r (Suc n) i"
  proof cases
    case 2
    define k where "k = i mod 320 - 8 * n"
    then have k: "i mod 320 = 8 * n + k" "k < 8" using 2 by linarith+
    then have "i mod 320 div 8 = n" "i mod 320 mod 8 = k" by simp_all
    then show ?thesis using k by (simp add: row_map_def block_def map_add_def)
  qed (simp_all add: row_map_def block_def map_add_def)
qed

lemma text_map_step: "text_map t m ++ row_map t m 40 = text_map t (Suc m)"
proof (rule ext)
  fix i :: nat
  have x: "i mod 320 < 320" by simp
  consider "i div 320 < 10 + 8 * m" | "10 + 8 * m \<le> i div 320" "i div 320 < 18 + 8 * m" | "18 + 8 * m \<le> i div 320" by linarith
  then show "(text_map t m ++ row_map t m 40) i = text_map t (Suc m) i"
  proof cases
    case 2
    define j where "j = i div 320 - (10 + 8 * m)"
    then have j: "i div 320 = 10 + 8 * m + j" "j < 8" using 2 by linarith+
    then have "(i div 320 - 10) div 8 = m" "(i div 320 - 10) mod 8 = j" by simp_all
    then show ?thesis using j x by (simp add: row_map_def text_map_def map_add_def)
  qed (simp_all add: row_map_def text_map_def map_add_def)
qed

lemma draw_cell:
  assumes "at_origin t" and "r < 23" and "c < 40"
  shows "DrawChar (ucast (t_x t + of_nat (c * 8))) (ucast (t_y t + 10 + of_nat (r * 8))) (grid t ! r ! c) (colors t ! r ! c) COL_BG v =
    Some (painted (block (8 * c) (10 + 8 * r) 8 8 (cell_pixel t r c)) v)"
proof -
  have e: "t_y t + 10 + of_nat (r * 8) = of_nat (10 + r * 8)" "t_x t + of_nat (c * 8) = of_nat (c * 8)"
    using assms(1) by (simp_all add: at_origin_def)
  have x: "unat (ucast (t_x t + of_nat (c * 8)) :: u16) = 8 * c" unfolding e using assms(3) by (subst unat_u16_u32) simp_all
  have y: "unat (ucast (t_y t + 10 + of_nat (r * 8)) :: u16) = 10 + 8 * r" unfolding e using assms(2) by (subst unat_u16_u32) simp_all
  show ?thesis
    using DrawChar_painted [of "ucast (t_x t + of_nat (c * 8))" "ucast (t_y t + 10 + of_nat (r * 8))" "grid t ! r ! c" "colors t ! r ! c" COL_BG v]
      assms(2,3) unfolding x y cell_pixel_def by simp
qed

lemma draw_row:
  assumes "at_origin t" and "r < 23"
  shows "n \<le> 40 \<Longrightarrow> fold_opt (\<lambda>c. DrawChar (ucast (t_x t + of_nat (c * 8))) (ucast (t_y t + 10 + of_nat (r * 8)))
    (grid t ! r ! c) (colors t ! r ! c) COL_BG) [0..<n] v = Some (painted (row_map t r n) v)"
proof (induction n)
  case 0
  have "row_map t r 0 = Map.empty" by (simp add: row_map_def fun_eq_iff)
  then show ?case by simp
next
  case (Suc n)
  then show ?case using draw_cell [OF assms, of n] by (simp add: fold_opt_append row_map_step del: of_nat_mult)
qed

lemma draw_text:
  assumes "at_origin t"
  shows "m \<le> 23 \<Longrightarrow> fold_opt (\<lambda>r v. fold_opt (\<lambda>c. DrawChar (ucast (t_x t + of_nat (c * 8))) (ucast (t_y t + 10 + of_nat (r * 8)))
    (grid t ! r ! c) (colors t ! r ! c) COL_BG) [0..<40] v) [0..<m] v = Some (painted (text_map t m) v)"
proof (induction m)
  case 0
  have "text_map t 0 = Map.empty" by (simp add: text_map_def fun_eq_iff)
  then show ?case by simp
next
  case (Suc m)
  have "fold_opt (\<lambda>c. DrawChar (ucast (t_x t + of_nat (c * 8))) (ucast (t_y t + 10 + of_nat (m * 8)))
    (grid t ! m ! c) (colors t ! m ! c) COL_BG) [0..<40] w = Some (painted (row_map t m 40) w)" for w
    using Suc.prems by (intro draw_row [OF assms]) simp_all
  then show ?case using Suc text_map_step [of t m] by (simp only: upt_Suc_append le0 fold_opt_append fold_opt_Cons) simp
qed

text \<open>The header is drawn above the text.\<close>

definition header_only :: "(nat \<rightharpoonup> u8) \<Rightarrow> bool" where
  "header_only p \<longleftrightarrow> (\<forall>i. p i \<noteq> None \<longrightarrow> i div 320 < 10)"

lemma header_only_block: "y + h \<le> 10 \<Longrightarrow> header_only (block x y w h f)"
  by (auto simp: header_only_def block_def)

lemma header_only_add: "header_only p \<Longrightarrow> header_only q \<Longrightarrow> header_only (p ++ q)"
  by (auto simp: header_only_def map_add_def split: option.splits)

lemma draw_title_painted:
  assumes "unat x + 6 * length s + 2 \<le> 320"
  shows "\<exists>p. draw_title s x 0 col v = Some (painted p v) \<and> header_only p"
proof -
  have "\<exists>w. fold_opt (\<lambda>i. DrawChar (ucast (x + of_nat i * 6)) (ucast (0 + 1 :: u32)) (s ! i) col COL_HDR_BG) [0..<length s] v = Some w \<and>
      (\<exists>p. w = painted p v \<and> header_only p)"
  proof (rule fold_opt_inv)
    fix i w
    assume i: "i \<in> set [0..<length s]" and "\<exists>p. w = painted p v \<and> header_only p"
    then obtain p where p: "w = painted p v" "header_only p" by blast
    have lt: "unat x + i * 6 + 8 \<le> 320" using i assms by auto
    have "x + of_nat i * 6 = of_nat (unat x + i * 6)" by simp
    then have "unat (ucast (x + of_nat i * 6) :: u16) = unat x + i * 6" using lt by (simp only: unat_u16_u32)
    then have "DrawChar (ucast (x + of_nat i * 6)) (ucast (0 + 1 :: u32)) (s ! i) col COL_HDR_BG w =
        Some (painted (block (unat x + i * 6) 1 8 8 (\<lambda>r k. if glyph (s ! i) r k then col else COL_HDR_BG)) w)"
      using DrawChar_painted [of "ucast (x + of_nat i * 6)" 1 "s ! i" col COL_HDR_BG w] lt by simp
    moreover have "header_only (block (unat x + i * 6) 1 8 8 (\<lambda>r k. if glyph (s ! i) r k then col else COL_HDR_BG))"
      by (rule header_only_block) simp
    ultimately show "\<exists>w'. DrawChar (ucast (x + of_nat i * 6)) (ucast (0 + 1 :: u32)) (s ! i) col COL_HDR_BG w = Some w' \<and>
        (\<exists>p. w' = painted p v \<and> header_only p)"
      using p header_only_add by auto
  next
    show "\<exists>p. v = painted p v \<and> header_only p" by (rule exI [of _ Map.empty]) (simp add: header_only_def)
  qed
  then show ?thesis by (auto simp: draw_title_def)
qed

lemma DrawHeader_painted:
  assumes "at_origin t"
  shows "\<exists>p. DrawHeader t v = Some (painted p v) \<and> header_only p"
proof -
  have o: "t_x t = 0" "t_y t = 0" "t_w t = 320" using assms by (simp_all add: at_origin_def)
  have l: "length (ascii ''FRODO OS'') = 8" "length (ascii ''root@ring'') = 9" by (simp_all add: ascii_def)
  let ?b1 = "block 0 0 320 10 (\<lambda>_ _. COL_HDR_BG)" and ?b2 = "block 0 9 320 1 (\<lambda>_ _. COL_GOLD)"
  have r1: "DrawRect (ucast (t_x t)) (ucast (t_y t)) (ucast (t_w t)) 10 COL_HDR_BG w = Some (painted ?b1 w)" for w
    using DrawRect_painted [of 0 320 0 10 COL_HDR_BG w] by (simp add: o)
  have r2: "DrawRect (ucast (t_x t)) (ucast (t_y t + 10 - 1)) (ucast (t_w t)) 1 COL_GOLD w = Some (painted ?b2 w)" for w
    using DrawRect_painted [of 0 320 9 1 COL_GOLD w] by (simp add: o)
  obtain p where p: "draw_title (ascii ''FRODO OS'') (t_x t + 2) (t_y t) COL_GOLD (painted ?b1 v) = Some (painted p (painted ?b1 v))" "header_only p"
    using draw_title_painted [of "2" "ascii ''FRODO OS''" COL_GOLD "painted ?b1 v"] l by (auto simp: o)
  obtain q where q: "draw_title (ascii ''root@ring'') (t_x t + t_w t - 9 * 6 - 2) (t_y t) COL_DIM (painted p (painted ?b1 v)) =
      Some (painted q (painted p (painted ?b1 v)))" "header_only q"
    using draw_title_painted [of "264" "ascii ''root@ring''" COL_DIM "painted p (painted ?b1 v)"] l by (auto simp: o)
  have "DrawHeader t v = Some (painted ?b2 (painted q (painted p (painted ?b1 v))))"
    unfolding DrawHeader_def r1 Option.bind.bind_lunit p(1) q(1) by (rule r2)
  moreover have "header_only (((?b1 ++ p) ++ q) ++ ?b2)"
    using p(2) q(2) header_only_block [of 0 10 0 320] header_only_block [of 9 1 0 320] by (intro header_only_add) simp_all
  ultimately show ?thesis by auto
qed

lemma Terminal_Draw_painted:
  assumes o: "at_origin t" and ok: "term_ok t"
  shows "\<exists>p. header_only p \<and> Terminal_Draw t v =
    Some (painted (p ++ text_map t 23 ++ block (8 * cursor_col t) (10 + 8 * cursor_row t) 8 8 (\<lambda>_ _. COL_TEXT)) v)"
proof -
  obtain p where p: "DrawHeader t v = Some (painted p v)" "header_only p" using DrawHeader_painted [OF o] by blast
  have c: "cursor_row t < 23" "cursor_col t < 40" using ok by (simp_all add: term_ok_def)
  have e: "t_y t + 10 + of_nat (cursor_row t * 8) = of_nat (10 + cursor_row t * 8)" "t_x t + of_nat (cursor_col t * 8) = of_nat (cursor_col t * 8)"
    using o by (simp_all add: at_origin_def)
  have x: "unat (ucast (t_x t + of_nat (cursor_col t * 8)) :: u16) = 8 * cursor_col t" unfolding e using c by (subst unat_u16_u32) simp_all
  have y: "unat (ucast (t_y t + 10 + of_nat (cursor_row t * 8)) :: u16) = 10 + 8 * cursor_row t" unfolding e using c by (subst unat_u16_u32) simp_all
  have r: "DrawRect (ucast (t_x t + of_nat (cursor_col t * 8))) (ucast (t_y t + 10 + of_nat (cursor_row t * 8))) 8 8 COL_TEXT w =
      Some (painted (block (8 * cursor_col t) (10 + 8 * cursor_row t) 8 8 (\<lambda>_ _. COL_TEXT)) w)" for w
    using DrawRect_painted [of "ucast (t_x t + of_nat (cursor_col t * 8))" 8 "ucast (t_y t + 10 + of_nat (cursor_row t * 8))" 8 COL_TEXT w] c
    unfolding x y by simp
  have "Terminal_Draw t v = Some (painted (p ++ text_map t 23 ++ block (8 * cursor_col t) (10 + 8 * cursor_row t) 8 8 (\<lambda>_ _. COL_TEXT)) v)"
    unfolding Terminal_Draw_def p(1) Option.bind.bind_lunit draw_text [OF o order_refl] r by simp
  then show ?thesis using p(2) by blast
qed

lemma pixel_index:
  fixes c k j r :: nat
  assumes "c < 40" and "k < 8" and "j < 8"
  shows "((10 + 8 * r + j) * 320 + (8 * c + k)) div 320 = 10 + 8 * r + j" "((10 + 8 * r + j) * 320 + (8 * c + k)) mod 320 = 8 * c + k"
proof -
  have "8 * c + k < 320" using assms by simp
  then show "((10 + 8 * r + j) * 320 + (8 * c + k)) div 320 = 10 + 8 * r + j" "((10 + 8 * r + j) * 320 + (8 * c + k)) mod 320 = 8 * c + k"
    by (simp_all only: div_mult_self3 mod_mult_self3 div_less mod_less)
qed

lemma cell_iff: "k < 8 \<Longrightarrow> (8 * a \<le> 8 * b + k \<and> 8 * b + k < 8 * a + 8) = (b = (a :: nat))"
  by auto

text \<open>C22: drawing the terminal shows its grid. For a terminal at the origin, drawing succeeds and only touches pixels of
  the window; the 8 by 8 pixels at every row and column show the character there in its colour on the background, except
  at the cursor, which is a filled block.\<close>

theorem Terminal_Draw_shows:
  assumes "at_origin t" and "term_ok t"
  shows "\<exists>w. Terminal_Draw t v = Some w \<and> (\<forall>i. 194 * 320 \<le> i \<longrightarrow> framebuffer w i = framebuffer v i) \<and>
    (\<forall>r c j k. r < 23 \<and> c < 40 \<and> j < 8 \<and> k < 8 \<longrightarrow>
      framebuffer w ((10 + 8 * r + j) * 320 + (8 * c + k)) =
        (if r = cursor_row t \<and> c = cursor_col t then COL_TEXT
         else if glyph (grid t ! r ! c) j k then colors t ! r ! c else COL_BG))"
proof -
  let ?b = "block (8 * cursor_col t) (10 + 8 * cursor_row t) 8 8 (\<lambda>_ _. COL_TEXT)"
  obtain p where p: "header_only p" "Terminal_Draw t v = Some (painted (p ++ text_map t 23 ++ ?b) v)"
    using Terminal_Draw_painted [OF assms] by blast
  have c: "cursor_row t < 23" using assms(2) by (simp add: term_ok_def)
  have "framebuffer (painted (p ++ text_map t 23 ++ ?b) v) i = framebuffer v i" if "194 * 320 \<le> i" for i
  proof -
    have "194 \<le> i div 320" using that by simp
    then have "p i = None" "text_map t 23 i = None" "?b i = None"
      using p(1) c by (auto simp: header_only_def text_map_def block_def)
    then show ?thesis by (simp add: painted_framebuffer map_add_def)
  qed
  moreover have "framebuffer (painted (p ++ text_map t 23 ++ ?b) v) ((10 + 8 * r + j) * 320 + (8 * c + k)) =
      (if r = cursor_row t \<and> c = cursor_col t then COL_TEXT
       else if glyph (grid t ! r ! c) j k then colors t ! r ! c else COL_BG)"
    if "r < 23" "c < 40" "j < 8" "k < 8" for r c j k
  proof -
    define i where "i = (10 + 8 * r + j) * 320 + (8 * c + k)"
    have i: "i div 320 = 10 + 8 * r + j" "i mod 320 = 8 * c + k" unfolding i_def by (rule pixel_index [OF that(2,4,3)])+
    have t: "text_map t 23 i = Some (cell_pixel t r c j k)" using i that by (simp add: text_map_def)
    have b: "?b i = (if r = cursor_row t \<and> c = cursor_col t then Some COL_TEXT else None)"
    proof -
      have "10 + 8 * cursor_row t \<le> 10 + 8 * r + j \<and> 10 + 8 * r + j < 10 + 8 * cursor_row t + 8 \<longleftrightarrow> r = cursor_row t"
        using cell_iff [OF that(3), of "cursor_row t" r] by (simp add: add.commute)
      then show ?thesis unfolding block_def i using cell_iff [OF that(4), of "cursor_col t" c] by auto
    qed
    show ?thesis unfolding i_def [symmetric] using t b by (simp add: painted_framebuffer map_add_def cell_pixel_def)
  qed
  ultimately show ?thesis using p(2) by blast
qed

lemma Terminal_new_ok: "term_ok (Terminal_new x y w h)"
  by (simp add: Terminal_new_def term_ok_def)

definition blank_screen :: VGA where
  "blank_screen = \<lparr>text_buffer = replicate 2000 0, vga_cursor = 0, vga_color = 0x0F, graphics_mode = True,
     framebuffer = (\<lambda>i. 0), port_log = []\<rparr>"

theorem Terminal_Draw_shows_witness:
  "\<exists>w. Terminal_Draw (Terminal_new 0 0 320 200) blank_screen = Some w \<and> framebuffer w 70000 = 0 \<and>
    framebuffer w ((10 + 8 * 0 + 3) * 320 + (8 * 0 + 3)) = COL_TEXT"
proof -
  have o: "at_origin (Terminal_new 0 0 320 200)" by (simp add: at_origin_def Terminal_new_def)
  obtain w where w: "Terminal_Draw (Terminal_new 0 0 320 200) blank_screen = Some w"
    "\<forall>i. 194 * 320 \<le> i \<longrightarrow> framebuffer w i = framebuffer blank_screen i"
    "\<forall>r c j k. r < 23 \<and> c < 40 \<and> j < 8 \<and> k < 8 \<longrightarrow>
      framebuffer w ((10 + 8 * r + j) * 320 + (8 * c + k)) =
        (if r = cursor_row (Terminal_new 0 0 320 200) \<and> c = cursor_col (Terminal_new 0 0 320 200) then COL_TEXT
         else if glyph (grid (Terminal_new 0 0 320 200) ! r ! c) j k then colors (Terminal_new 0 0 320 200) ! r ! c else COL_BG)"
    using Terminal_Draw_shows [OF o Terminal_new_ok, of blank_screen] by blast
  have "framebuffer w ((10 + 8 * 0 + 3) * 320 + (8 * 0 + 3)) = COL_TEXT"
    using w(3) [rule_format, of 0 0 3 3] by (simp add: Terminal_new_def)
  moreover have "framebuffer w 70000 = 0" using w(2) [rule_format, of 70000] by (simp add: blank_screen_def)
  ultimately show ?thesis using w(1) by blast
qed

section \<open>Output\<close>

text \<open>What a terminal with unlimited paper would have printed: rows of at most 40 characters.\<close>

fun print_on :: "u8 list list \<Rightarrow> u8 \<Rightarrow> u8 list list" where
  "print_on rows c =
     (if c = 0x0A then rows @ [[]]
      else let l = last rows @ [c] in if length l = 40 then butlast rows @ [l, []] else butlast rows @ [l])"

definition pad_row :: "u8 list \<Rightarrow> u8 list" where
  "pad_row l = l @ replicate (40 - length l) 0x20"

text \<open>The screen displays the last 23 rows, and empty ones below while there are fewer.\<close>

definition grid_rows :: "u8 list list \<Rightarrow> u8 list list" where
  "grid_rows rows = map pad_row (drop (length rows - 23) rows) @ replicate (23 - length rows) (replicate 40 0x20)"

definition displays :: "Terminal \<Rightarrow> u8 list list \<Rightarrow> bool" where
  "displays t rows \<longleftrightarrow> rows \<noteq> [] \<and> length (last rows) < 40 \<and> grid t = grid_rows rows \<and>
     cursor_row t = min (length rows) 23 - 1 \<and> cursor_col t = length (last rows)"

lemma pad_row_snoc: "length l < 40 \<Longrightarrow> (pad_row l)[length l := c] = pad_row (l @ [c])"
proof -
  assume "length l < 40"
  then have "40 - length l = Suc (40 - Suc (length l))" by simp
  then show ?thesis by (simp add: pad_row_def)
qed

lemma grid_rows_put:
  fixes ds :: "u8 list list"
  assumes l: "length l < 40"
  defines "i \<equiv> min (length ds + 1) 23 - 1"
  shows "(grid_rows (ds @ [l]))[i := (grid_rows (ds @ [l]) ! i)[length l := c]] = grid_rows (ds @ [l @ [c]])"
proof -
  let ?es = "map pad_row (drop (Suc (length ds) - 23) ds)" and ?b = "replicate (22 - length ds) (replicate 40 0x20)"
  have i: "i = length ?es" by (simp add: i_def min_def)
  have g: "grid_rows (ds @ [x]) = ?es @ pad_row x # ?b" for x by (simp add: grid_rows_def)
  show ?thesis unfolding g i using pad_row_snoc [OF l] by (simp add: list_update_append nth_append)
qed

lemma grid_rows_newline:
  "rows \<noteq> [] \<Longrightarrow> (if 23 \<le> length rows then tl (grid_rows rows) @ [replicate 40 0x20] else grid_rows rows) = grid_rows (rows @ [[]])"
proof (cases "23 \<le> length rows")
  case True
  have "drop (length rows - 23) rows \<noteq> []" using True by simp
  moreover have "tl (drop (length rows - 23) rows) = drop (Suc (length rows) - 23) rows"
  proof -
    have "Suc (length rows) - 23 = Suc (length rows - 23)" using True by simp
    then show ?thesis by (simp only: drop_Suc tl_drop)
  qed
  ultimately show ?thesis using True by (simp add: grid_rows_def pad_row_def map_tl [symmetric] tl_append2)
next
  case False
  then have "23 - length rows = Suc (22 - length rows)" by simp
  then show ?thesis using False by (simp add: grid_rows_def pad_row_def)
qed

lemma NewLine_shows:
  assumes "rows \<noteq> []" and "grid t = grid_rows rows" and "cursor_row t = min (length rows) 23 - 1"
  shows "displays (NewLine t) (rows @ [[]])"
proof -
  have n: "length rows \<noteq> 0" using assms(1) by simp
  then have c: "23 \<le> cursor_row t + 1 \<longleftrightarrow> 23 \<le> length rows" using assms(3) by (simp add: min_def)
  show ?thesis
    using grid_rows_newline [OF assms(1)] assms c n by (auto simp: NewLine_def ScrollUp_def Let_def displays_def min_def split: if_splits)
qed

lemma Terminal_PutChar_shows:
  assumes s: "displays t rows" and ok: "term_ok t" and c: "c \<noteq> 0x08"
  shows "\<exists>t'. Terminal_PutChar c t = Some t' \<and> term_ok t' \<and> same_input t t' \<and> displays t' (print_on rows c)"
proof -
  obtain t' where t': "Terminal_PutChar c t = Some t'" "term_ok t'" "same_input t t'" using Terminal_PutChar_ok [OF ok] by blast
  have "displays t' (print_on rows c)"
  proof (cases "c = 0x0A")
    case True
    then show ?thesis using t'(1) s NewLine_shows [of rows t] by (auto simp: Terminal_PutChar_def displays_def)
  next
    case False
    obtain ds l where r: "rows = ds @ [l]" using s by (metis append_butlast_last_id displays_def)
    have f: "length l < 40" "grid t = grid_rows (ds @ [l])" "cursor_row t = min (length ds + 1) 23 - 1" "cursor_col t = length l"
      using s by (simp_all add: displays_def r)
    have lt: "cursor_row t < 23" using ok by (simp add: term_ok_def)
    obtain u where u: "set_grid c t = Some u" "grid u = grid_rows (ds @ [l @ [c]])" "cursor_row u = cursor_row t" "cursor_col u = length l"
      using grid_rows_put [OF f(1), of ds c] f lt by (simp add: set_grid_def)
    let ?u = "u\<lparr>cursor_col := cursor_col u + 1\<rparr>"
    have eq: "t' = (if 40 \<le> cursor_col ?u then NewLine ?u else ?u)" using t'(1) u(1) False c by (auto simp: Terminal_PutChar_def Let_def)
    show ?thesis
    proof (cases "length l + 1 = 40")
      case True
      have "displays (NewLine ?u) ((ds @ [l @ [c]]) @ [[]])" by (rule NewLine_shows) (use u f in simp_all)
      then show ?thesis using eq u(4) True False r by (simp add: Let_def)
    next
      case len: False
      then have "displays ?u (ds @ [l @ [c]])" using f u by (simp add: displays_def)
      then show ?thesis using eq u(4) len f(1) False r by (simp add: Let_def)
    qed
  qed
  then show ?thesis using t' by blast
qed

lemma Terminal_puts_shows:
  "displays t rows \<Longrightarrow> term_ok t \<Longrightarrow> 0x08 \<notin> set str \<Longrightarrow>
    \<exists>t'. fold_opt Terminal_PutChar str t = Some t' \<and> term_ok t' \<and> same_input t t' \<and> displays t' (foldl print_on rows str)"
proof (induction str arbitrary: t rows)
  case (Cons c str)
  obtain u where u: "Terminal_PutChar c t = Some u" "term_ok u" "same_input t u" "displays u (print_on rows c)"
    using Terminal_PutChar_shows [OF Cons.prems(1,2), of c] Cons.prems(3) by auto
  then show ?case using Cons.IH [OF u(4,2)] Cons.prems(3) same_input_trans [OF u(3)] by (auto simp del: print_on.simps)
qed simp


lemma Terminal_new_shows: "displays (Terminal_new x y w h) [[]]"
proof -
  have "replicate 23 b = b # replicate 22 b" for b :: "u8 list" by (simp add: eval_nat_numeral)
  then show ?thesis by (simp add: displays_def Terminal_new_def grid_rows_def pad_row_def)
qed


section \<open>Line editing\<close>

text \<open>The line being edited and the characters handed on so far, as a list of keys leaves them.\<close>

fun edit :: "u8 list \<times> u8 list \<Rightarrow> u8 \<Rightarrow> u8 list \<times> u8 list" where
  "edit (line, out) c =
     (if c = 0x08 then (butlast line, out)
      else if c = 0x0A then ([], out @ line @ [0x0A])
      else if 32 \<le> sint c \<and> length line < 255 then (line @ [c], out)
      else (line, out))"

definition typed :: "Terminal \<Rightarrow> u8 list" where
  "typed t = take (input_len t) (input_line t)"

lemma typed_cong: "same_input t t' \<Longrightarrow> typed t' = typed t"
  by (simp add: typed_def same_input_def)

lemma redraw_ok:
  assumes "term_ok t" and "at_origin t"
  shows "\<exists>v. redraw t k = Some (t, k\<lparr>con_vga := v\<rparr>) \<and> graphics_mode v = graphics_mode (con_vga k)"
  using Terminal_Draw_painted [OF assms(2,1), of "con_vga k"] by (auto simp: redraw_def)

lemma at_origin_cong: "same_input t t' \<Longrightarrow> at_origin t \<Longrightarrow> at_origin t'"
  by (simp add: at_origin_def same_input_def)

definition edited :: "u8 \<Rightarrow> Terminal \<times> console \<Rightarrow> Terminal \<times> console \<Rightarrow> u8 list \<Rightarrow> bool" where
  "edited c tk tk' out \<longleftrightarrow> term_ok (fst tk') \<and> at_origin (fst tk') \<and> \<not> raw_input_mode (fst tk') \<and>
     edit (typed (fst tk), []) c = (typed (fst tk'), out) \<and>
     con_keys (snd tk') = foldl Enqueue (con_keys (snd tk)) out \<and>
     graphics_mode (con_vga (snd tk')) = graphics_mode (con_vga (snd tk)) \<and>
     con_sched (snd tk') = (if out = [] then con_sched (snd tk) else WakeWaiters (con_sched (snd tk)))"

lemma key_backspace:
  assumes ok: "term_ok t" and o: "at_origin t" and r: "\<not> raw_input_mode t"
  shows "\<exists>tk'. Terminal_OnKeyPress 0x08 (t, k) = Some tk' \<and> edited 0x08 (t, k) tk' []"
proof (cases "input_len t > 0")
  case False
  then show ?thesis using assms by (simp add: Terminal_OnKeyPress_def edited_def typed_def)
next
  case True
  let ?t = "t\<lparr>input_len := input_len t - 1\<rparr>"
  have "term_ok ?t" using ok by (auto simp: term_ok_def)
  then obtain u where u: "Backspace ?t = Some u" "term_ok u" "same_input ?t u" using Backspace_ok by blast
  have ou: "at_origin u" using at_origin_cong [OF u(3)] o by (simp add: at_origin_def)
  obtain v where v: "redraw u k = Some (u, k\<lparr>con_vga := v\<rparr>)" "graphics_mode v = graphics_mode (con_vga k)" using redraw_ok [OF u(2) ou] by blast
  have "typed u = butlast (typed t)"
    unfolding typed_cong [OF u(3)] using ok by (simp add: typed_def butlast_take term_ok_def)
  then show ?thesis
    using True r u v ou by (auto simp: Terminal_OnKeyPress_def edited_def same_input_def)
qed

lemma key_printable:
  assumes ok: "term_ok t" and o: "at_origin t" and r: "\<not> raw_input_mode t"
    and c: "32 \<le> sint c" and len: "input_len t < 255"
  shows "\<exists>tk'. Terminal_OnKeyPress c (t, k) = Some tk' \<and> edited c (t, k) tk' []"
proof -
  have n: "c \<noteq> 0x08" "c \<noteq> 0x0A" using c by auto
  let ?t = "t\<lparr>input_line := (input_line t)[input_len t := c], input_len := input_len t + 1\<rparr>"
  have "term_ok ?t" using ok len by (simp add: term_ok_def)
  then obtain u where u: "Terminal_PutChar c ?t = Some u" "term_ok u" "same_input ?t u" using Terminal_PutChar_ok by blast
  have ou: "at_origin u" using at_origin_cong [OF u(3)] o by (simp add: at_origin_def)
  obtain v where v: "redraw u k = Some (u, k\<lparr>con_vga := v\<rparr>)" "graphics_mode v = graphics_mode (con_vga k)" using redraw_ok [OF u(2) ou] by blast
  have ll: "length (input_line t) = 256" using ok by (simp add: term_ok_def)
  then have "typed u = typed t @ [c]"
    unfolding typed_cong [OF u(3)] using len by (simp add: typed_def take_Suc_conv_app_nth)
  moreover have "length (typed t) < 255" using len ll by (simp add: typed_def)
  ultimately show ?thesis
    using r u v ou n c len by (auto simp: Terminal_OnKeyPress_def set_input_def edited_def same_input_def)
qed

lemma key_newline:
  assumes ok: "term_ok t" and o: "at_origin t" and r: "\<not> raw_input_mode t" and len: "input_len t < 255"
  shows "\<exists>tk'. Terminal_OnKeyPress 0x0A (t, k) = Some tk' \<and> edited 0x0A (t, k) tk' (typed t @ [0x0A])"
proof -
  let ?t = "t\<lparr>input_len := input_len t + 1, input_line := (input_line t)[input_len t := 0x0A, input_len t + 1 := 0]\<rparr>"
  have "term_ok ?t" using ok len by (simp add: term_ok_def)
  then obtain u where u: "Terminal_PutChar 0x0A ?t = Some u" "term_ok u" "same_input ?t u" using Terminal_PutChar_ok by blast
  let ?u = "u\<lparr>input_len := 0\<rparr>"
  have ll: "length (input_line t) = 256" using ok by (simp add: term_ok_def)
  have "take (input_len u) (input_line u) = typed t @ [0x0A]"
    using u(3) len ll by (simp add: same_input_def typed_def take_Suc_conv_app_nth)
  moreover have ou: "term_ok ?u" "at_origin ?u"
    using u(2) at_origin_cong [OF u(3)] o by (simp_all add: at_origin_def term_ok_def)
  moreover obtain v where "redraw ?u (enqueue_all (typed t @ [0x0A]) k) = Some (?u, (enqueue_all (typed t @ [0x0A]) k)\<lparr>con_vga := v\<rparr>)"
    "graphics_mode v = graphics_mode (con_vga (enqueue_all (typed t @ [0x0A]) k))"
    using redraw_ok [OF ou] by blast
  ultimately show ?thesis
    using r u(1,3) len by (auto simp: Terminal_OnKeyPress_def set_input_def edited_def same_input_def typed_def enqueue_all_def)
qed

lemma typed_length: "term_ok t \<Longrightarrow> length (typed t) = input_len t"
  by (simp add: typed_def term_ok_def)

lemma key_edits:
  assumes ok: "term_ok t" and o: "at_origin t" and r: "\<not> raw_input_mode t" and n: "\<not> (c = 0x0A \<and> input_len t = 255)"
  shows "\<exists>tk' out. Terminal_OnKeyPress c (t, k) = Some tk' \<and> edited c (t, k) tk' out"
proof -
  have le: "input_len t \<le> 255" using ok by (simp add: term_ok_def)
  consider "c = 0x08" | "c = 0x0A" "input_len t < 255" | "c \<noteq> 0x08" "c \<noteq> 0x0A" "32 \<le> sint c" "input_len t < 255"
    | "c \<noteq> 0x08" "c \<noteq> 0x0A" "\<not> (32 \<le> sint c \<and> input_len t < 255)"
    using n le by linarith
  then show ?thesis
  proof cases
    case 1
    then show ?thesis using key_backspace [OF ok o r] by blast
  next
    case 2
    then show ?thesis using key_newline [OF ok o r] by blast
  next
    case 3
    then show ?thesis using key_printable [OF ok o r] by blast
  next
    case 4
    then show ?thesis using assms typed_length [OF ok] by (intro exI [of _ "(t, k)"] exI [of _ "[]"]) (auto simp: Terminal_OnKeyPress_def edited_def)
  qed
qed

text \<open>A sequence of keys in which no line of 255 characters is completed.\<close>

fun lines_fit :: "u8 list \<Rightarrow> u8 list \<Rightarrow> bool" where
  "lines_fit line [] \<longleftrightarrow> True"
| "lines_fit line (c # cs) \<longleftrightarrow> \<not> (c = 0x0A \<and> length line = 255) \<and> lines_fit (fst (edit (line, []) c)) cs"

lemma edit_out: "edit (line, out) c = (fst (edit (line, []) c), out @ snd (edit (line, []) c))"
  by simp

lemma foldl_edit_out: "foldl edit (line, out) cs = (fst (foldl edit (line, []) cs), out @ snd (foldl edit (line, []) cs))"
proof (induction cs arbitrary: line out)
  case (Cons c cs)
  let ?e = "edit (line, []) c"
  have "foldl edit (line, out) (c # cs) = foldl edit (fst ?e, out @ snd ?e) cs" by (simp add: edit_out [of line out] del: edit.simps)
  also have "\<dots> = (fst (foldl edit (fst ?e, []) cs), out @ snd ?e @ snd (foldl edit (fst ?e, []) cs))"
    by (subst Cons.IH) simp
  finally have l: "foldl edit (line, out) (c # cs) = (fst (foldl edit (fst ?e, []) cs), out @ snd ?e @ snd (foldl edit (fst ?e, []) cs))" .
  have "foldl edit (line, []) (c # cs) = (fst (foldl edit (fst ?e, []) cs), snd ?e @ snd (foldl edit (fst ?e, []) cs))"
    by (subst Cons.IH [of "fst ?e" "snd ?e", symmetric]) (simp del: edit.simps)
  then show ?case unfolding l by (simp only: fst_conv snd_conv)
qed simp

lemma keys_edit:
  "term_ok t \<Longrightarrow> at_origin t \<Longrightarrow> \<not> raw_input_mode t \<Longrightarrow> lines_fit (typed t) cs \<Longrightarrow>
   \<exists>t' k'. fold_opt Terminal_OnKeyPress cs (t, k) = Some (t', k') \<and> term_ok t' \<and> at_origin t' \<and> \<not> raw_input_mode t' \<and>
     graphics_mode (con_vga k') = graphics_mode (con_vga k) \<and>
     typed t' = fst (foldl edit (typed t, []) cs) \<and>
     con_keys k' = foldl Enqueue (con_keys k) (snd (foldl edit (typed t, []) cs))"
proof (induction cs arbitrary: t k)
  case (Cons c cs)
  have "\<not> (c = 0x0A \<and> input_len t = 255)" using Cons.prems(4) typed_length [OF Cons.prems(1)] by simp
  from key_edits [OF Cons.prems(1-3) this, of k] obtain t1 k1 out
    where e: "Terminal_OnKeyPress c (t, k) = Some (t1, k1)" "edited c (t, k) (t1, k1) out" by auto
  have d: "term_ok t1" "at_origin t1" "\<not> raw_input_mode t1" "edit (typed t, []) c = (typed t1, out)"
    "con_keys k1 = foldl Enqueue (con_keys k) out" "graphics_mode (con_vga k1) = graphics_mode (con_vga k)"
    using e(2) by (simp_all add: edited_def del: edit.simps)
  have "lines_fit (typed t1) cs" using Cons.prems(4) d(4) by (simp del: edit.simps)
  from Cons.IH [OF d(1-3) this, of k1] obtain t' k' where r: "fold_opt Terminal_OnKeyPress cs (t1, k1) = Some (t', k')"
    "term_ok t'" "at_origin t'" "\<not> raw_input_mode t'" "graphics_mode (con_vga k') = graphics_mode (con_vga k1)"
    "typed t' = fst (foldl edit (typed t1, []) cs)"
    "con_keys k' = foldl Enqueue (con_keys k1) (snd (foldl edit (typed t1, []) cs))" by blast
  have f: "foldl edit (typed t, []) (c # cs) = (fst (foldl edit (typed t1, []) cs), out @ snd (foldl edit (typed t1, []) cs))"
    using foldl_edit_out [of "typed t1" out cs] d(4) by (simp del: edit.simps)
  show ?case unfolding f using e(1) r d(5,6) by simp
qed simp

text \<open>Typed lines reach the reader as edited. Keys pressed in a terminal that is not in raw mode act like an ideal
  line editor: a backspace removes the last character of the line, a new line hands the whole line on, and nothing is handed on before.
  The keyboard buffer receives exactly the completed lines, as far as it has room. The only restriction is that no
  line of 255 characters is completed.\<close>

theorem Terminal_edits_lines:
  assumes "term_ok t" and "at_origin t" and "\<not> raw_input_mode t" and "lines_fit (typed t) cs" and "kb_inv (con_keys k)"
  shows "\<exists>t' k'. fold_opt Terminal_OnKeyPress cs (t, k) = Some (t', k') \<and> term_ok t' \<and>
    typed t' = fst (foldl edit (typed t, []) cs) \<and> kb_inv (con_keys k') \<and>
    kb_contents (con_keys k') = kb_contents (con_keys k) @
      take (255 - length (kb_contents (con_keys k))) (snd (foldl edit (typed t, []) cs))"
  using keys_edit [OF assms(1-4), of k] kbd.enq_list [OF assms(5)] by fastforce

definition empty_keys :: KeyboardBuffer where
  "empty_keys = \<lparr>kb_buffer = replicate 256 0, kb_head = 0, kb_tail = 0\<rparr>"

definition idle_console :: console where
  "idle_console = \<lparr>con_vga = blank_screen, con_keys = empty_keys, con_sched = None\<rparr>"

lemma empty_keys: "kb_inv empty_keys" "kb_contents empty_keys = []"
  by (simp_all add: empty_keys_def kb_inv_def kb_contents_def kb_len_def BUFFER_SIZE_def)

theorem Terminal_edits_lines_witness:
  "\<exists>t' k'. fold_opt Terminal_OnKeyPress [0x61, 0x62, 0x08, 0x0A] (Terminal_new 0 0 320 200, idle_console) = Some (t', k') \<and>
    typed t' = [] \<and> kb_contents (con_keys k') = [0x61, 0x0A]"
proof -
  let ?t = "Terminal_new 0 0 320 200"
  have t: "at_origin ?t" "\<not> raw_input_mode ?t" "typed ?t = []" by (simp_all add: at_origin_def Terminal_new_def typed_def)
  have e: "foldl edit ([], []) [0x61, 0x62, 0x08, 0x0A] = ([], [0x61, 0x0A])" "lines_fit [] [0x61, 0x62, 0x08, 0x0A]" by simp_all
  show ?thesis
    using Terminal_edits_lines [OF Terminal_new_ok t(1,2), of "[0x61, 0x62, 0x08, 0x0A]" idle_console] e empty_keys
    unfolding t(3) by (auto simp: idle_console_def)
qed

text \<open>C24: the one key press that leaves the input array. In a well-formed terminal a key press has undefined behaviour if and only if
  a new line completes a line of 255 characters outside raw mode: the terminating zero is then written behind the
  256 bytes of the line.\<close>

theorem Terminal_OnKeyPress_overflow:
  assumes "term_ok t" and "at_origin t"
  shows "Terminal_OnKeyPress c (t, k) = None \<longleftrightarrow> \<not> raw_input_mode t \<and> c = 0x0A \<and> input_len t = 255"
proof (cases "raw_input_mode t \<or> \<not> (c = 0x0A \<and> input_len t = 255)")
  case True
  then have "Terminal_OnKeyPress c (t, k) \<noteq> None"
    using key_edits [OF assms, of c k] by (cases "raw_input_mode t") (auto simp: Terminal_OnKeyPress_def)
  then show ?thesis using True by blast
next
  case False
  then show ?thesis by (simp add: Terminal_OnKeyPress_def set_input_def)
qed

theorem Terminal_OnKeyPress_overflow_witness:
  "Terminal_OnKeyPress 0x0A ((Terminal_new 0 0 320 200)\<lparr>input_len := 255\<rparr>, idle_console) = None"
proof -
  have "term_ok ((Terminal_new 0 0 320 200)\<lparr>input_len := 255\<rparr>)" "at_origin ((Terminal_new 0 0 320 200)\<lparr>input_len := 255\<rparr>)"
    by (simp_all add: term_ok_def at_origin_def Terminal_new_def)
  from Terminal_OnKeyPress_overflow [OF this, of "0x0A" idle_console] show ?thesis by (simp add: Terminal_new_def)
qed

end
