(* ===== verification/Desktops.thy ===== *)
theory Desktops
  imports Terminals
begin

text \<open>
  The windows and the input devices that feed them: \<^verbatim>\<open>src/src/ui/gui.h\<close> and \<^verbatim>\<open>gui.cpp\<close> (widgets, windows, the desktop),
  \<^verbatim>\<open>src/src/drivers/keyboard.cpp\<close> and \<^verbatim>\<open>mouse.cpp\<close>. Objects refer to each other by pointers, so they live in a
  store; a virtual call goes by the kind of the object. A dangling pointer is outside the model (\<open>None\<close>), and so is a
  call that does not return because windows contain each other. Coordinates are integers.
\<close>

section \<open>Objects\<close>

record rect =
  r_x :: int
  r_y :: int
  r_w :: int
  r_h :: int

text \<open>A plain widget; a window with its title, colour and widgets; a terminal, which is a window too.\<close>

datatype gui_object = WidgetObj rect | WindowObj rect "u8 list" u8 "nat list" | TerminalObj Terminal "nat list"

record Desktop =
  d_w :: int
  d_h :: int
  d_color :: u8
  d_windows :: "nat list"
  mouse_x :: int
  mouse_y :: int
  mouse_buttons :: u8

text \<open>The store, the active desktop and the active terminal, and the console behind them.\<close>

record gui =
  g_objects :: "nat \<Rightarrow> gui_object option"
  g_desktop :: "Desktop option"
  g_terminal :: "nat option"
  g_console :: console

definition object_rect :: "gui_object \<Rightarrow> rect" where
  "object_rect ob = (case ob of WidgetObj r \<Rightarrow> r | WindowObj r title col ws \<Rightarrow> r
     | TerminalObj t ws \<Rightarrow> \<lparr>r_x = sint (t_x t), r_y = sint (t_y t), r_w = sint (t_w t), r_h = sint (t_h t)\<rparr>)"

definition object_widgets :: "gui_object \<Rightarrow> nat list" where
  "object_widgets ob = (case ob of WidgetObj r \<Rightarrow> [] | WindowObj r title col ws \<Rightarrow> ws | TerminalObj t ws \<Rightarrow> ws)"

definition ContainsPoint :: "rect \<Rightarrow> int \<Rightarrow> int \<Rightarrow> bool" where
  "ContainsPoint r px py \<longleftrightarrow> px \<ge> r_x r \<and> px < r_x r + r_w r \<and> py \<ge> r_y r \<and> py < r_y r + r_h r"

section \<open>Windows\<close>

definition Window_new :: "rect \<Rightarrow> u8 list \<Rightarrow> u8 \<Rightarrow> gui_object" where
  "Window_new r title col = WindowObj r title col []"

definition AddWidget :: "nat \<Rightarrow> gui_object \<Rightarrow> gui_object" where
  "AddWidget p ob =
     (case ob of WidgetObj r \<Rightarrow> ob
      | WindowObj r title col ws \<Rightarrow> if length ws < 32 then WindowObj r title col (ws @ [p]) else ob
      | TerminalObj t ws \<Rightarrow> if length ws < 32 then TerminalObj t (ws @ [p]) else ob)"

definition Window_frame :: "rect \<Rightarrow> u8 list \<Rightarrow> u8 \<Rightarrow> VGA \<Rightarrow> VGA option" where
  "Window_frame r title col v = do {
     v \<leftarrow> DrawRect (of_int (r_x r)) (of_int (r_y r)) (of_int (r_w r)) (of_int (r_h r)) col v;
     v \<leftarrow> DrawRect (of_int (r_x r)) (of_int (r_y r)) (of_int (r_w r)) 10 0x08 v;
     fold_opt (\<lambda>i. DrawChar (of_int (r_x r + 4) + of_nat i * 8) (of_int (r_y r + 1)) (title ! i) 0x0F 0x08) [0..<length title] v
   }"

text \<open>Drawing objects in order: an object, then the widgets it draws, then the rest.\<close>

partial_function (option) Draw_list :: "(nat \<Rightarrow> gui_object option) \<Rightarrow> nat list \<Rightarrow> VGA \<Rightarrow> VGA option" where
  "Draw_list obs ps v =
     (case ps of [] \<Rightarrow> Some v
      | p # ps \<Rightarrow>
          (case obs p of None \<Rightarrow> None
           | Some ob \<Rightarrow>
               (case ob of WidgetObj r \<Rightarrow> Draw_list obs ps v
                | WindowObj r title col ws \<Rightarrow> Option.bind (Window_frame r title col v) (Draw_list obs (ws @ ps))
                | TerminalObj t ws \<Rightarrow> Option.bind (Terminal_Draw t v) (Draw_list obs ps))))"

partial_function (option) object_OnKeyPress :: "u8 \<Rightarrow> nat \<Rightarrow> gui \<Rightarrow> gui option" where
  "object_OnKeyPress c p g =
     (case g_objects g p of None \<Rightarrow> None
      | Some ob \<Rightarrow>
          (case ob of WidgetObj r \<Rightarrow> Some g
           | WindowObj r title col ws \<Rightarrow> if ws \<noteq> [] then object_OnKeyPress c (last ws) g else Some g
           | TerminalObj t ws \<Rightarrow> do {
               (t, k) \<leftarrow> Terminal_OnKeyPress c (t, g_console g);
               Some (g\<lparr>g_objects := (g_objects g)(p \<mapsto> TerminalObj t ws), g_console := k\<rparr>)
             }))"

text \<open>A mouse button goes to the widgets of a window that contain the point; the handlers at the end do
  nothing. The result is the list of objects whose handler has been called, in order.\<close>

partial_function (option) OnMouseDown_list :: "(nat \<Rightarrow> gui_object option) \<Rightarrow> int \<Rightarrow> int \<Rightarrow> nat list \<Rightarrow> nat list \<Rightarrow> nat list option" where
  "OnMouseDown_list obs px py ps called =
     (case ps of [] \<Rightarrow> Some called
      | p # ps \<Rightarrow>
          (case obs p of None \<Rightarrow> None
           | Some ob \<Rightarrow>
               if list_all (\<lambda>q. obs q \<noteq> None) (object_widgets ob)
               then OnMouseDown_list obs px py
                      (filter (\<lambda>q. ContainsPoint (object_rect (the (obs q))) px py) (object_widgets ob) @ ps) (called @ [p])
               else None))"

section \<open>The desktop\<close>

definition Desktop_new :: "int \<Rightarrow> int \<Rightarrow> u8 \<Rightarrow> Desktop" where
  "Desktop_new w h col = \<lparr>d_w = w, d_h = h, d_color = col, d_windows = [], mouse_x = sgn w * (\<bar>w\<bar> div 2), mouse_y = sgn h * (\<bar>h\<bar> div 2), mouse_buttons = 0\<rparr>"

definition AddWindow :: "nat \<Rightarrow> Desktop \<Rightarrow> Desktop" where
  "AddWindow p d = (if length (d_windows d) < 16 then d\<lparr>d_windows := d_windows d @ [p]\<rparr> else d)"

definition Desktop_Draw :: "(nat \<Rightarrow> gui_object option) \<Rightarrow> Desktop \<Rightarrow> VGA \<Rightarrow> VGA option" where
  "Desktop_Draw obs d v = do {
     v \<leftarrow> DrawRect 0 0 (of_int (d_w d)) (of_int (d_h d)) (d_color d) v;
     v \<leftarrow> Draw_list obs (d_windows d) v;
     DrawPixel (of_int (mouse_x d)) (of_int (mouse_y d)) 0x0F v
   }"

definition clamp :: "int \<Rightarrow> int \<Rightarrow> int" where
  "clamp m n = (let m = (if m < 0 then 0 else m) in if m \<ge> n then n - 1 else m)"

definition OnMouseMove :: "int \<Rightarrow> int \<Rightarrow> u8 \<Rightarrow> Desktop \<times> VGA \<Rightarrow> (Desktop \<times> VGA) option" where
  "OnMouseMove dx dy buttons dv = do {
     let (d, v) = dv;
     v \<leftarrow> DrawPixel (of_int (mouse_x d)) (of_int (mouse_y d)) (d_color d) v;
     let d = d\<lparr>mouse_x := clamp (mouse_x d + dx) (d_w d), mouse_y := clamp (mouse_y d - dy) (d_h d), mouse_buttons := buttons\<rparr>;
     v \<leftarrow> DrawPixel (of_int (mouse_x d)) (of_int (mouse_y d)) 0x0F v;
     Some (d, v)
   }"

text \<open>The topmost window at a point: the last one added that contains it.\<close>

definition window_at :: "(nat \<Rightarrow> gui_object option) \<Rightarrow> int \<Rightarrow> int \<Rightarrow> nat list \<Rightarrow> nat option option" where
  "window_at obs px py ws =
     (if list_all (\<lambda>p. obs p \<noteq> None) ws
      then Some (find (\<lambda>p. ContainsPoint (object_rect (the (obs p))) px py) (rev ws))
      else None)"

definition Desktop_OnMouseDown :: "int \<Rightarrow> int \<Rightarrow> (nat \<Rightarrow> gui_object option) \<Rightarrow> Desktop \<Rightarrow> nat list option" where
  "Desktop_OnMouseDown px py obs d = do {
     w \<leftarrow> window_at obs px py (d_windows d);
     case w of None \<Rightarrow> Some [] | Some p \<Rightarrow> OnMouseDown_list obs px py [p] []
   }"

definition Desktop_OnMouseUp :: "int \<Rightarrow> int \<Rightarrow> (nat \<Rightarrow> gui_object option) \<Rightarrow> Desktop \<Rightarrow> nat list option" where
  "Desktop_OnMouseUp px py obs d = do {
     w \<leftarrow> window_at obs px py (d_windows d);
     case w of None \<Rightarrow> Some [] | Some p \<Rightarrow> Some [p]
   }"

definition Desktop_OnKeyPress :: "u8 \<Rightarrow> Desktop \<Rightarrow> gui \<Rightarrow> gui option" where
  "Desktop_OnKeyPress c d g = (if d_windows d \<noteq> [] then object_OnKeyPress c (last (d_windows d)) g else Some g)"

section \<open>The keyboard driver\<close>

definition normal_table :: "u8 list" where
  "normal_table =
     [0x00, 0x00, 0x31, 0x32, 0x33, 0x34, 0x35, 0x36,
      0x37, 0x38, 0x39, 0x30, 0x2D, 0x3D, 0x08, 0x09,
      0x71, 0x77, 0x65, 0x72, 0x74, 0x79, 0x75, 0x69,
      0x6F, 0x70, 0x5B, 0x5D, 0x0A, 0x00, 0x61, 0x73,
      0x64, 0x66, 0x67, 0x68, 0x6A, 0x6B, 0x6C, 0x3B,
      0x27, 0x60, 0x00, 0x5C, 0x7A, 0x78, 0x63, 0x76,
      0x62, 0x6E, 0x6D, 0x2C, 0x2E, 0x2F, 0x00, 0x2A,
      0x00, 0x20, 0x00, 0x00, 0x00, 0x00, 0x00, 0x00,
      0x00, 0x00, 0x00, 0x00, 0x00, 0x00, 0x00, 0x00,
      0x00, 0x00, 0x00, 0x00, 0x00, 0x00, 0x00, 0x00,
      0x00, 0x00, 0x00, 0x00, 0x00, 0x00, 0x00, 0x00]"

definition shifted_table :: "u8 list" where
  "shifted_table =
     [0x00, 0x00, 0x21, 0x40, 0x23, 0x24, 0x25, 0x5E,
      0x26, 0x2A, 0x28, 0x29, 0x5F, 0x2B, 0x08, 0x09,
      0x51, 0x57, 0x45, 0x52, 0x54, 0x59, 0x55, 0x49,
      0x4F, 0x50, 0x7B, 0x7D, 0x0A, 0x00, 0x41, 0x53,
      0x44, 0x46, 0x47, 0x48, 0x4A, 0x4B, 0x4C, 0x3A,
      0x22, 0x7E, 0x00, 0x7C, 0x5A, 0x58, 0x43, 0x56,
      0x42, 0x4E, 0x4D, 0x3C, 0x3E, 0x3F, 0x00, 0x2A,
      0x00, 0x20, 0x00, 0x00, 0x00, 0x00, 0x00, 0x00,
      0x00, 0x00, 0x00, 0x00, 0x00, 0x00, 0x00, 0x00,
      0x00, 0x00, 0x00, 0x00, 0x00, 0x00, 0x00, 0x00,
      0x00, 0x00, 0x00, 0x00, 0x00, 0x00, 0x00, 0x00]"

record KeyboardDriver =
  kd_shift :: bool
  kd_ctrl :: bool
  kd_caps_lock :: bool

definition KeyboardDriver_new :: KeyboardDriver where
  "KeyboardDriver_new = \<lparr>kd_shift = False, kd_ctrl = False, kd_caps_lock = False\<rparr>"

definition letter :: "u8 \<Rightarrow> bool" where
  "letter c \<longleftrightarrow> (0x61 \<le> c \<and> c \<le> 0x7A) \<or> (0x41 \<le> c \<and> c \<le> 0x5A)"

definition deliver_key :: "u8 \<Rightarrow> gui \<Rightarrow> gui option" where
  "deliver_key c g =
     (if IsGraphicsMode (con_vga (g_console g)) \<and> g_desktop g \<noteq> None
      then Desktop_OnKeyPress c (the (g_desktop g)) g
      else do {
        let k = enqueue_all [c] (g_console g);
        v \<leftarrow> (if \<not> IsGraphicsMode (con_vga k) then VGA_PutChar c (con_vga k) else Some (con_vga k));
        Some (g\<lparr>g_console := k\<lparr>con_vga := v\<rparr>\<rparr>)
      })"

definition KeyboardDriver_HandleInterrupt :: "u8 \<Rightarrow> KeyboardDriver \<times> gui \<Rightarrow> (KeyboardDriver \<times> gui) option" where
  "KeyboardDriver_HandleInterrupt scancode dg =
     (let (d, g) = dg
      in if scancode = 0x9D then Some (d\<lparr>kd_ctrl := False\<rparr>, g)
         else if scancode = 0xAA \<or> scancode = 0xB6 then Some (d\<lparr>kd_shift := False\<rparr>, g)
         else if scancode = 0x1D then Some (d\<lparr>kd_ctrl := True\<rparr>, g)
         else if scancode = 0x2A \<or> scancode = 0x36 then Some (d\<lparr>kd_shift := True\<rparr>, g)
         else if scancode = 0x3A then Some (d\<lparr>kd_caps_lock := \<not> kd_caps_lock d\<rparr>, g)
         else if scancode AND 0x80 \<noteq> 0 then Some (d, g)
         else let upper = (kd_shift d \<noteq> kd_caps_lock d);
                  table = (if upper then shifted_table else normal_table)
              in if scancode \<ge> 88 then Some (d, g)
                 else let c = table ! unat scancode
                      in if c = 0 then Some (d, g)
                         else let c = (if kd_ctrl d \<and> letter c then c AND 0x1F else c)
                              in map_option (\<lambda>g. (d, g)) (deliver_key c g))"

section \<open>The mouse driver\<close>

record MouseDriver =
  m_buffer :: "u8 list"
  m_offset :: u8

text \<open>Polling the status port, whose successive values are \<open>st\<close>; the result is the number of reads so far.\<close>

partial_function (option) poll_until :: "(u8 \<Rightarrow> bool) \<Rightarrow> (nat \<Rightarrow> u8) \<Rightarrow> nat \<Rightarrow> nat option" where
  "poll_until P st n = (if P (st n) then Some (n + 1) else poll_until P st (n + 1))"

definition WaitWrite :: "(nat \<Rightarrow> u8) \<Rightarrow> nat \<Rightarrow> nat option" where
  "WaitWrite st n = poll_until (\<lambda>b. b AND 0x02 = 0) st n"

definition WaitRead :: "(nat \<Rightarrow> u8) \<Rightarrow> nat \<Rightarrow> nat option" where
  "WaitRead st n = poll_until (\<lambda>b. b AND 0x01 \<noteq> 0) st n"

text \<open>The constructor, with the configuration byte it reads and the buffer the object's storage held: the driver and the port writes.\<close>

definition MouseDriver_new :: "(nat \<Rightarrow> u8) \<Rightarrow> u8 \<Rightarrow> u8 list \<Rightarrow> (MouseDriver \<times> (u16 \<times> u8) list) option" where
  "MouseDriver_new st config junk = do {
     n \<leftarrow> WaitWrite st 0;
     n \<leftarrow> WaitWrite st n;
     n \<leftarrow> WaitRead st n;
     let status = config OR 0x02;
     n \<leftarrow> WaitWrite st n;
     n \<leftarrow> WaitWrite st n;
     n \<leftarrow> WaitWrite st n;
     n \<leftarrow> WaitWrite st n;
     n \<leftarrow> WaitRead st n;
     Some (\<lparr>m_buffer = junk, m_offset = 0\<rparr>,
       [(0x64, 0xA8), (0x64, 0x20), (0x64, 0x60), (0x60, status), (0x64, 0xD4), (0x60, 0xF4)])
   }"

definition MouseDriver_HandleInterrupt :: "u8 \<Rightarrow> u8 \<Rightarrow> MouseDriver \<times> gui \<Rightarrow> (MouseDriver \<times> gui) option" where
  "MouseDriver_HandleInterrupt status data mg =
     (let (m, g) = mg
      in if status AND 0x20 = 0 then Some (m, g)
         else if unat (m_offset m) < 3
         then let m = m\<lparr>m_buffer := (m_buffer m)[unat (m_offset m) := data], m_offset := m_offset m + 1\<rparr>
              in if m_offset m \<noteq> 3 then Some (m, g)
                 else let m = m\<lparr>m_offset := 0\<rparr>; dx = sint (m_buffer m ! 1); dy = sint (m_buffer m ! 2);
                          btns = m_buffer m ! 0 AND 0x07
                      in case g_desktop g of None \<Rightarrow> Some (m, g)
                         | Some d \<Rightarrow> do {
                             (d, v) \<leftarrow> OnMouseMove dx dy btns (d, con_vga (g_console g));
                             Some (m, g\<lparr>g_desktop := Some d, g_console := (g_console g)\<lparr>con_vga := v\<rparr>\<rparr>)
                           }
         else None)"

section \<open>The mouse pointer stays on the screen\<close>

definition pointer_ok :: "Desktop \<Rightarrow> bool" where
  "pointer_ok d \<longleftrightarrow> 0 < d_w d \<and> d_w d \<le> 320 \<and> 0 < d_h d \<and> d_h d \<le> 200 \<and>
     0 \<le> mouse_x d \<and> mouse_x d < d_w d \<and> 0 \<le> mouse_y d \<and> mouse_y d < d_h d"

lemma clamp_range: "0 < n \<Longrightarrow> 0 \<le> clamp m n \<and> clamp m n < n"
  by (simp add: clamp_def Let_def)

lemma unat_u16_of_int: "0 \<le> i \<Longrightarrow> i < 65536 \<Longrightarrow> unat (of_int i :: u16) = nat i"
proof -
  assume i: "0 \<le> i" "i < 65536"
  have "of_int i = (of_nat (nat i) :: u16)" using i(1) by simp
  moreover have "unat (of_nat (nat i) :: u16) = nat i" using i by (intro unat_u16_of_nat) simp
  ultimately show ?thesis by simp
qed

lemma pointer_pixel:
  assumes "0 \<le> x" and "x < 320" and "0 \<le> y" and "y < 200"
  shows "DrawPixel (of_int x) (of_int y) col v = Some (painted [nat y * 320 + nat x \<mapsto> col] v)"
proof -
  have u: "unat (of_int x :: u16) = nat x" "unat (of_int y :: u16) = nat y" using assms by (simp_all add: unat_u16_of_int)
  have "nat y * 320 + nat x < 65536" using assms by linarith
  then show ?thesis using DrawPixel_painted [of "of_int y" "of_int x" col v] u by simp
qed

lemma OnMouseMove_ok:
  assumes "pointer_ok d"
  shows "\<exists>d'. OnMouseMove dx dy b (d, v) = Some (d', painted ([nat (mouse_y d) * 320 + nat (mouse_x d) \<mapsto> d_color d] ++
      [nat (mouse_y d') * 320 + nat (mouse_x d') \<mapsto> 0x0F]) v) \<and> pointer_ok d' \<and>
    d' = d\<lparr>mouse_x := clamp (mouse_x d + dx) (d_w d), mouse_y := clamp (mouse_y d - dy) (d_h d), mouse_buttons := b\<rparr>"
proof -
  let ?d = "d\<lparr>mouse_x := clamp (mouse_x d + dx) (d_w d), mouse_y := clamp (mouse_y d - dy) (d_h d), mouse_buttons := b\<rparr>"
  have c: "0 \<le> clamp (mouse_x d + dx) (d_w d)" "clamp (mouse_x d + dx) (d_w d) < d_w d"
    "0 \<le> clamp (mouse_y d - dy) (d_h d)" "clamp (mouse_y d - dy) (d_h d) < d_h d"
    using assms clamp_range by (simp_all add: pointer_ok_def)
  have p: "pointer_ok ?d" using assms c by (simp add: pointer_ok_def)
  have "DrawPixel (of_int (mouse_x d)) (of_int (mouse_y d)) (d_color d) v = Some (painted [nat (mouse_y d) * 320 + nat (mouse_x d) \<mapsto> d_color d] v)"
    by (rule pointer_pixel) (use assms in \<open>simp_all add: pointer_ok_def\<close>)
  moreover have "DrawPixel (of_int (mouse_x ?d)) (of_int (mouse_y ?d)) 0x0F w = Some (painted [nat (mouse_y ?d) * 320 + nat (mouse_x ?d) \<mapsto> 0x0F] w)" for w
    by (rule pointer_pixel) (use assms c in \<open>simp_all add: pointer_ok_def\<close>)
  ultimately show ?thesis using p by (simp add: OnMouseMove_def)
qed

definition mouse_ok :: "MouseDriver \<times> gui \<Rightarrow> bool" where
  "mouse_ok mg \<longleftrightarrow> length (m_buffer (fst mg)) = 3 \<and> unat (m_offset (fst mg)) < 3 \<and>
     (case g_desktop (snd mg) of None \<Rightarrow> True | Some d \<Rightarrow> pointer_ok d)"

lemma mouse_interrupt_ok:
  assumes "mouse_ok mg"
  shows "\<exists>mg'. MouseDriver_HandleInterrupt st b mg = Some mg' \<and> mouse_ok mg'"
proof -
  obtain m g where mg: "mg = (m, g)" by fastforce
  have o: "length (m_buffer m) = 3" "unat (m_offset m) < 3" using assms by (simp_all add: mg mouse_ok_def)
  let ?m = "m\<lparr>m_buffer := (m_buffer m)[unat (m_offset m) := b], m_offset := m_offset m + 1\<rparr>"
  have u: "unat (m_offset m + 1) = unat (m_offset m) + 1" using o(2) by (simp add: unat_word_ariths)
  consider "st AND 0x20 = 0" | "st AND 0x20 \<noteq> 0" "m_offset m + 1 \<noteq> 3" | "st AND 0x20 \<noteq> 0" "m_offset m + 1 = 3" by blast
  then show ?thesis
  proof cases
    case 1
    then show ?thesis using assms by (simp add: mg MouseDriver_HandleInterrupt_def)
  next
    case 2
    have "unat (m_offset m + 1) \<noteq> 3" using 2(2) by (simp add: word_unat_eq_iff)
    then have "unat (m_offset m + 1) < 3" using u o(2) by simp
    then show ?thesis using 2 o assms by (simp add: mg MouseDriver_HandleInterrupt_def mouse_ok_def)
  next
    case 3
    show ?thesis
    proof (cases "g_desktop g")
      case None
      then show ?thesis using 3 o by (simp add: mg MouseDriver_HandleInterrupt_def mouse_ok_def Let_def)
    next
      case (Some d)
      then have "pointer_ok d" using assms by (simp add: mg mouse_ok_def)
      from OnMouseMove_ok [OF this] obtain d' v' where d': "OnMouseMove (sint (m_buffer ?m ! 1)) (sint (m_buffer ?m ! 2)) (m_buffer ?m ! 0 AND 0x07) (d, con_vga (g_console g)) = Some (d', v')" "pointer_ok d'"
        by blast
      then show ?thesis using 3 o Some by (simp add: mg MouseDriver_HandleInterrupt_def mouse_ok_def Let_def)
    qed
  qed
qed

text \<open>C23: whatever the mouse sends, its pointer stays on the screen. For every sequence of interrupts with arbitrary
  status and data bytes the driver stays inside its packet buffer, every pixel drawn lies in video memory,
  and the pointer stays within the desktop.\<close>

theorem mouse_stays_on_screen:
  assumes "mouse_ok mg"
  shows "\<exists>mg'. fold_opt (\<lambda>(st, b). MouseDriver_HandleInterrupt st b) evs mg = Some mg' \<and> mouse_ok mg'"
  by (rule fold_opt_inv) (use assms mouse_interrupt_ok in auto)

definition demo_gui :: gui where
  "demo_gui = \<lparr>g_objects = [7 \<mapsto> TerminalObj (Terminal_new 0 0 320 200) []],
     g_desktop = Some (AddWindow 7 (Desktop_new 320 200 0)), g_terminal = Some 7, g_console = idle_console\<rparr>"

theorem mouse_stays_on_screen_witness:
  "\<exists>mg'. fold_opt (\<lambda>(st, b). MouseDriver_HandleInterrupt st b) [(0x21, 0x08), (0x21, 0x7F), (0x21, 0x80), (0x00, 0x01)]
     (\<lparr>m_buffer = [0, 0, 0], m_offset = 0\<rparr>, demo_gui) = Some mg' \<and> mouse_ok mg'"
  by (rule mouse_stays_on_screen) (simp add: mouse_ok_def pointer_ok_def demo_gui_def AddWindow_def Desktop_new_def)

section \<open>From the keyboard to the reader\<close>

text \<open>What a scan code does to the modifier keys, and the character it stands for, if any.\<close>

definition next_mods :: "u8 \<Rightarrow> KeyboardDriver \<Rightarrow> KeyboardDriver" where
  "next_mods sc d =
     (if sc = 0x9D then d\<lparr>kd_ctrl := False\<rparr>
      else if sc = 0xAA \<or> sc = 0xB6 then d\<lparr>kd_shift := False\<rparr>
      else if sc = 0x1D then d\<lparr>kd_ctrl := True\<rparr>
      else if sc = 0x2A \<or> sc = 0x36 then d\<lparr>kd_shift := True\<rparr>
      else if sc = 0x3A then d\<lparr>kd_caps_lock := \<not> kd_caps_lock d\<rparr> else d)"

definition key_char :: "u8 \<Rightarrow> KeyboardDriver \<Rightarrow> u8 option" where
  "key_char sc d =
     (if sc \<in> {0x1D, 0x2A, 0x36, 0x3A} \<or> sc \<ge> 88 then None
      else let c = (if kd_shift d \<noteq> kd_caps_lock d then shifted_table else normal_table) ! unat sc
           in if c = 0 then None else Some (if kd_ctrl d \<and> letter c then c AND 0x1F else c))"

fun key_chars :: "KeyboardDriver \<Rightarrow> u8 list \<Rightarrow> u8 list" where
  "key_chars d [] = []"
| "key_chars d (sc # scs) = (case key_char sc d of None \<Rightarrow> [] | Some c \<Rightarrow> [c]) @ key_chars (next_mods sc d) scs"

lemma high_scancode: "sc AND 0x80 \<noteq> 0 \<Longrightarrow> 88 \<le> (sc :: u8)"
proof -
  assume "sc AND 0x80 \<noteq> 0"
  then have "bit sc 7" using and_exp_eq_0_iff_not_bit [of sc 7] by simp
  then have "bit (unat sc) 7" by (simp add: bit_unsigned_iff)
  then have "odd (unat sc div 2 ^ 7)" using bit_iff_odd [of "unat sc" 7] by blast
  then have "128 \<le> unat sc" using div_less [of "unat sc" 128] by (cases "unat sc < 128") auto
  then show "88 \<le> sc" by (simp add: word_le_nat_alt)
qed

lemma HandleInterrupt_plain:
  assumes "sc \<notin> {0x9D, 0xAA, 0xB6, 0x1D, 0x2A, 0x36, 0x3A}"
  shows "KeyboardDriver_HandleInterrupt sc (d, g) =
     (case key_char sc d of None \<Rightarrow> Some (d, g) | Some c \<Rightarrow> map_option (\<lambda>g. (d, g)) (deliver_key c g))"
proof (cases "sc \<ge> 88")
  case True
  then show ?thesis using assms by (simp add: KeyboardDriver_HandleInterrupt_def key_char_def)
next
  case False
  then have "sc AND 0x80 = 0" using high_scancode by blast
  then show ?thesis using assms False by (simp add: KeyboardDriver_HandleInterrupt_def key_char_def Let_def)
qed

lemma HandleInterrupt_alt:
  "KeyboardDriver_HandleInterrupt sc (d, g) =
     (case key_char sc d of None \<Rightarrow> Some (next_mods sc d, g) | Some c \<Rightarrow> map_option (\<lambda>g. (next_mods sc d, g)) (deliver_key c g))"
proof (cases "sc \<in> {0x9D, 0xAA, 0xB6, 0x1D, 0x2A, 0x36, 0x3A}")
  case False
  then have "next_mods sc d = d" by (simp add: next_mods_def)
  then show ?thesis using HandleInterrupt_plain [OF False, of d g] by (simp only:)
next
  case True
  then have "key_char sc d = None" by (elim insertE emptyE) (simp_all add: key_char_def)
  moreover have "KeyboardDriver_HandleInterrupt sc (d, g) = Some (next_mods sc d, g)"
    using True by (elim insertE emptyE) (simp_all add: KeyboardDriver_HandleInterrupt_def next_mods_def)
  ultimately show ?thesis by simp
qed

text \<open>A graphical screen whose top window is the terminal \<open>p\<close>.\<close>

definition terminal_on_top :: "gui \<Rightarrow> nat \<Rightarrow> Terminal \<Rightarrow> bool" where
  "terminal_on_top g p t \<longleftrightarrow> graphics_mode (con_vga (g_console g)) \<and> (\<exists>ws. g_objects g p = Some (TerminalObj t ws)) \<and>
     (\<exists>d. g_desktop g = Some d \<and> d_windows d \<noteq> [] \<and> last (d_windows d) = p)"

lemma deliver_to_terminal:
  assumes "terminal_on_top g p t" and "Terminal_OnKeyPress c (t, g_console g) = Some (t', k')"
    and "graphics_mode (con_vga k') = graphics_mode (con_vga (g_console g))"
  shows "\<exists>g'. deliver_key c g = Some g' \<and> terminal_on_top g' p t' \<and> g_console g' = k'"
proof -
  obtain ws d where w: "g_objects g p = Some (TerminalObj t ws)" "g_desktop g = Some d" "d_windows d \<noteq> []" "last (d_windows d) = p"
    using assms(1) by (auto simp: terminal_on_top_def)
  have "deliver_key c g = object_OnKeyPress c p g"
    using assms(1) w by (simp add: deliver_key_def IsGraphicsMode_def Desktop_OnKeyPress_def terminal_on_top_def)
  also have "\<dots> = Some (g\<lparr>g_objects := (g_objects g)(p \<mapsto> TerminalObj t' ws), g_console := k'\<rparr>)"
    using w(1) assms(2) by (subst object_OnKeyPress.simps) simp
  finally show ?thesis using assms w by (simp add: terminal_on_top_def)
qed

text \<open>One scan code; a scan code never touches the scheduler but to wake the readers.\<close>

lemma key_to_terminal:
  assumes top: "terminal_on_top g p t" and ok: "term_ok t" "at_origin t" "\<not> raw_input_mode t"
    and fit: "lines_fit (typed t) (key_chars d [sc])"
  shows "\<exists>g' t'. KeyboardDriver_HandleInterrupt sc (d, g) = Some (next_mods sc d, g') \<and> terminal_on_top g' p t' \<and>
    term_ok t' \<and> at_origin t' \<and> \<not> raw_input_mode t' \<and> typed t' = fst (foldl edit (typed t, []) (key_chars d [sc])) \<and>
    con_keys (g_console g') = foldl Enqueue (con_keys (g_console g)) (snd (foldl edit (typed t, []) (key_chars d [sc]))) \<and>
    (con_sched (g_console g') = con_sched (g_console g) \<or> con_sched (g_console g') = WakeWaiters (con_sched (g_console g)))"
proof (cases "key_char sc d")
  case None
  then show ?thesis using top ok by (auto simp: HandleInterrupt_alt)
next
  case (Some c)
  then have "lines_fit (typed t) [c]" using fit by (simp del: lines_fit.simps)
  then have "\<not> (c = 0x0A \<and> input_len t = 255)" using typed_length [OF ok(1)] by simp
  from key_edits [OF ok this, of "g_console g"] obtain t1 k1 out
    where e: "Terminal_OnKeyPress c (t, g_console g) = Some (t1, k1)" "edited c (t, g_console g) (t1, k1) out" by auto
  have x: "term_ok t1" "at_origin t1" "\<not> raw_input_mode t1" "edit (typed t, []) c = (typed t1, out)"
    "con_keys k1 = foldl Enqueue (con_keys (g_console g)) out" "graphics_mode (con_vga k1) = graphics_mode (con_vga (g_console g))"
    "con_sched k1 = con_sched (g_console g) \<or> con_sched k1 = WakeWaiters (con_sched (g_console g))"
    using e(2) by (simp_all add: edited_def del: edit.simps)
  from deliver_to_terminal [OF top e(1) x(6)] obtain g1
    where g1: "deliver_key c g = Some g1" "terminal_on_top g1 p t1" "g_console g1 = k1" by blast
  have f: "foldl edit (typed t, []) (key_chars d [sc]) = (typed t1, out)" using x(4) Some by (simp del: edit.simps)
  show ?thesis unfolding f using Some g1 x by (auto simp: HandleInterrupt_alt)
qed

lemma lines_fit_append:
  "lines_fit line (cs @ ds) \<longleftrightarrow> lines_fit line cs \<and> lines_fit (fst (foldl edit (line, []) cs)) ds"
proof (induction cs arbitrary: line)
  case (Cons c cs)
  have "fst (foldl edit (line, []) (c # cs)) = fst (foldl edit (fst (edit (line, []) c), []) cs)"
    using foldl_edit_out [of "fst (edit (line, []) c)" "snd (edit (line, []) c)" cs] by (simp del: edit.simps)
  then show ?case using Cons.IH by (simp del: edit.simps)
qed simp

lemma key_chars_Cons: "key_chars d (sc # scs) = key_chars d [sc] @ key_chars (next_mods sc d) scs"
  by simp

lemma keys_to_terminal:
  "terminal_on_top g p t \<Longrightarrow> term_ok t \<Longrightarrow> at_origin t \<Longrightarrow> \<not> raw_input_mode t \<Longrightarrow> lines_fit (typed t) (key_chars d scs) \<Longrightarrow>
   \<exists>d' g' t'. fold_opt KeyboardDriver_HandleInterrupt scs (d, g) = Some (d', g') \<and> terminal_on_top g' p t' \<and> term_ok t' \<and>
     typed t' = fst (foldl edit (typed t, []) (key_chars d scs)) \<and>
     con_keys (g_console g') = foldl Enqueue (con_keys (g_console g)) (snd (foldl edit (typed t, []) (key_chars d scs)))"
proof (induction scs arbitrary: d g t)
  case (Cons sc scs)
  let ?d = "next_mods sc d"
  have fit: "lines_fit (typed t) (key_chars d [sc])" "lines_fit (fst (foldl edit (typed t, []) (key_chars d [sc]))) (key_chars ?d scs)"
    using Cons.prems(5) lines_fit_append key_chars_Cons [of d sc scs] by metis+
  obtain g1 t1 where s: "KeyboardDriver_HandleInterrupt sc (d, g) = Some (?d, g1)" "terminal_on_top g1 p t1" "term_ok t1"
    "at_origin t1" "\<not> raw_input_mode t1" "typed t1 = fst (foldl edit (typed t, []) (key_chars d [sc]))"
    "con_keys (g_console g1) = foldl Enqueue (con_keys (g_console g)) (snd (foldl edit (typed t, []) (key_chars d [sc])))"
    using key_to_terminal [OF Cons.prems(1-4) fit(1)] by blast
  have "lines_fit (typed t1) (key_chars ?d scs)" using fit(2) s(6) by simp
  from Cons.IH [OF s(2-5) this] obtain d' g' t' where r: "fold_opt KeyboardDriver_HandleInterrupt scs (?d, g1) = Some (d', g')"
    "terminal_on_top g' p t'" "term_ok t'" "typed t' = fst (foldl edit (typed t1, []) (key_chars ?d scs))"
    "con_keys (g_console g') = foldl Enqueue (con_keys (g_console g1)) (snd (foldl edit (typed t1, []) (key_chars ?d scs)))" by blast
  have f: "foldl edit (typed t, []) (key_chars d (sc # scs)) = (fst (foldl edit (typed t1, []) (key_chars ?d scs)),
      snd (foldl edit (typed t, []) (key_chars d [sc])) @ snd (foldl edit (typed t1, []) (key_chars ?d scs)))"
    unfolding key_chars_Cons [of d sc scs] foldl_append s(6)
    using foldl_edit_out [of "fst (foldl edit (typed t, []) (key_chars d [sc]))" "snd (foldl edit (typed t, []) (key_chars d [sc]))"
        "key_chars ?d scs"] by (simp only: prod.collapse)
  show ?case unfolding f using r s(1,7) by auto
qed auto

text \<open>From scan codes to lines. With the terminal as the top window of a graphical screen, any sequence of scan codes is translated
  with the modifier keys as they stand at each of them; the characters edit the line of the terminal; and the keyboard
  buffer receives exactly the completed lines, as far as it has room.\<close>

theorem scancodes_to_lines:
  assumes "terminal_on_top g p t" and "term_ok t" and "at_origin t" and "\<not> raw_input_mode t" and "lines_fit (typed t) (key_chars d scs)"
    and "kb_inv (con_keys (g_console g))"
  shows "\<exists>d' g' t'. fold_opt KeyboardDriver_HandleInterrupt scs (d, g) = Some (d', g') \<and> terminal_on_top g' p t' \<and> term_ok t' \<and>
    typed t' = fst (foldl edit (typed t, []) (key_chars d scs)) \<and>
    kb_contents (con_keys (g_console g')) = kb_contents (con_keys (g_console g)) @
      take (255 - length (kb_contents (con_keys (g_console g)))) (snd (foldl edit (typed t, []) (key_chars d scs)))"
proof -
  obtain d' g' t' where r: "fold_opt KeyboardDriver_HandleInterrupt scs (d, g) = Some (d', g')" "terminal_on_top g' p t'" "term_ok t'"
    "typed t' = fst (foldl edit (typed t, []) (key_chars d scs))"
    "con_keys (g_console g') = foldl Enqueue (con_keys (g_console g)) (snd (foldl edit (typed t, []) (key_chars d scs)))"
    using keys_to_terminal [OF assms(1-5)] by blast
  then show ?thesis using kbd.enq_list [OF assms(6), of "snd (foldl edit (typed t, []) (key_chars d scs))"] by auto
qed

text \<open>Shift down, H, shift up, i, return.\<close>

theorem scancodes_to_lines_witness:
  "\<exists>d' g' t'. fold_opt KeyboardDriver_HandleInterrupt [0x2A, 0x23, 0xAA, 0x17, 0x1C] (KeyboardDriver_new, demo_gui) = Some (d', g') \<and>
    typed t' = [] \<and> kb_contents (con_keys (g_console g')) = [0x48, 0x69, 0x0A]"
proof -
  let ?t = "Terminal_new 0 0 320 200"
  have t: "at_origin ?t" "\<not> raw_input_mode ?t" "typed ?t = []" by (simp_all add: at_origin_def Terminal_new_def typed_def)
  have top: "terminal_on_top demo_gui 7 ?t"
    by (simp add: terminal_on_top_def demo_gui_def idle_console_def blank_screen_def AddWindow_def Desktop_new_def)
  have c: "key_chars KeyboardDriver_new [0x2A, 0x23, 0xAA, 0x17, 0x1C] = [0x48, 0x69, 0x0A]"
    by (simp add: key_char_def next_mods_def KeyboardDriver_new_def normal_table_def shifted_table_def)
  have k: "con_keys (g_console demo_gui) = empty_keys" by (simp add: demo_gui_def idle_console_def)
  show ?thesis
    using scancodes_to_lines [OF top Terminal_new_ok t(1,2), of KeyboardDriver_new "[0x2A, 0x23, 0xAA, 0x17, 0x1C]"]
    unfolding t(3) c k using empty_keys by auto
qed

end
