(* ===== verification/Buffers.thy ===== *)
theory Buffers
  imports Prelude "HOL-Library.Monad_Syntax"
begin

text \<open>
  Reading and writing byte buffers, as the drivers, the network stack and the file system do. A
  pointer into a buffer is the list of the bytes from there to the end of the buffer; an access
  past the end is the result \<open>None\<close>.
\<close>

section \<open>Bytes of a buffer\<close>

definition rd8 :: "u8 list \<Rightarrow> nat \<Rightarrow> u8 option" where
  "rd8 p i = (if i < length p then Some (p ! i) else None)"

definition bytes_at :: "u8 list \<Rightarrow> nat \<Rightarrow> nat \<Rightarrow> u8 list option" where
  "bytes_at p i n = (if i + n \<le> length p then Some (take n (drop i p)) else None)"

definition rd16_at :: "u8 list \<Rightarrow> nat \<Rightarrow> u16 option" where
  "rd16_at p i = (if i + 2 \<le> length p then Some (le16 (p ! i) (p ! (i + 1))) else None)"

definition rd32_at :: "u8 list \<Rightarrow> nat \<Rightarrow> u32 option" where
  "rd32_at p i =
     (if i + 4 \<le> length p then Some (le32 (p ! i) (p ! (i + 1)) (p ! (i + 2)) (p ! (i + 3))) else None)"

text \<open>\<^verbatim>\<open>for (i = 0; i < n; i++) dst[off + i] = src[i];\<close>\<close>

definition copy_bytes :: "u8 list \<Rightarrow> nat \<Rightarrow> u8 list \<Rightarrow> nat \<Rightarrow> u8 list option" where
  "copy_bytes dst off src n =
     (if n = 0 then Some dst
      else if off + n \<le> length dst \<and> n \<le> length src
      then Some (take off dst @ take n src @ drop (off + n) dst) else None)"

definition put16 :: "u16 \<Rightarrow> u8 list" where
  "put16 v = [byte_of 0 v, byte_of 1 v]"

definition put32 :: "u32 \<Rightarrow> u8 list" where
  "put32 v = [byte_of 0 v, byte_of 1 v, byte_of 2 v, byte_of 3 v]"

section \<open>Lemmas\<close>

lemma copy_bytes_ok:
  "off + n \<le> length dst \<Longrightarrow> n \<le> length src \<Longrightarrow>
     copy_bytes dst off src n = Some (take off dst @ take n src @ drop (off + n) dst)"
  by (simp add: copy_bytes_def)

lemma copy_bytes_length: "copy_bytes dst off src n = Some d \<Longrightarrow> length d = length dst"
  by (auto simp: copy_bytes_def split: if_splits)

lemma length_put [simp]: "length (put16 v) = 2" "length (put32 w) = 4"
  by (simp_all add: put16_def put32_def)

lemma put16_0: "put16 0 = [0, 0]"
  by (simp add: put16_def byte_of_def)

end
