(* ===== verification/Disk.thy ===== *)
theory Disk
  imports Buffers
begin

text \<open>
  The disk: the ATA driver (\<^verbatim>\<open>src/src/drivers/ata.cpp\<close>) and the partition table
  (\<^verbatim>\<open>src/src/fs/mbr.cpp\<close>). A drive is what the ports of the controller give access to: the sectors
  by their 28-bit address, and what the status register reads, poll after poll, while the
  drive works on an address. A drive takes a sector in only while it asks for data. The data
  register transfers a sector as 256 words.
\<close>

section \<open>The drive and the driver\<close>

record drive =
  platter :: "u32 \<Rightarrow> u8 list"
  status :: "u32 \<Rightarrow> nat \<Rightarrow> u8"

text \<open>The polling loop of both wait functions: at most \<open>0x100000\<close> reads of the status register.\<close>

function poll :: "(u8 \<Rightarrow> bool) \<Rightarrow> (nat \<Rightarrow> u8) \<Rightarrow> nat \<Rightarrow> bool" where
  "poll P st i = (if i < 0x100000 then if P (st i) then True else poll P st (i + 1) else False)"
  by pat_completeness auto
termination by (relation "measure (\<lambda>(P, st, i). 0x100000 - i)") auto

declare poll.simps [simp del]

definition WaitBSY :: "drive \<Rightarrow> u32 \<Rightarrow> bool" where
  "WaitBSY d lba = poll (\<lambda>st. st AND 0x80 = 0) (status d lba) 0"

definition WaitDRQ :: "drive \<Rightarrow> u32 \<Rightarrow> bool" where
  "WaitDRQ d lba = poll (\<lambda>st. st AND 0x08 \<noteq> 0) (status d lba) 0"

text \<open>The task registers as the driver programs them, and the address a drive takes from them.\<close>

record ata_task =
  t_device :: u8
  t_count :: u8
  t_low :: u8
  t_mid :: u8
  t_high :: u8

definition ata_program :: "bool \<Rightarrow> u32 \<Rightarrow> u32 \<Rightarrow> ata_task" where
  "ata_program master lba count =
     \<lparr>t_device = (if master then 0xE0 else 0xF0) OR ucast (drop_bit 24 lba AND 0x0F),
      t_count = ucast count,
      t_low = ucast (lba AND 0xFF),
      t_mid = ucast (drop_bit 8 lba AND 0xFF),
      t_high = ucast (drop_bit 16 lba AND 0xFF)\<rparr>"

definition task_address :: "ata_task \<Rightarrow> u32" where
  "task_address t = le32 (t_low t) (t_mid t) (t_high t) (t_device t AND 0x0F)"

definition sector_words :: "u8 list \<Rightarrow> u16 list" where
  "sector_words b = map (\<lambda>i. le16 (b ! (2 * i)) (b ! (2 * i + 1))) [0..<256]"

definition store_words :: "u16 list \<Rightarrow> u8 list" where
  "store_words ws = concat (map put16 ws)"

text \<open>The result of a read and the bytes it has stored to the buffer, from the start of it.\<close>

fun Read28_loop :: "drive \<Rightarrow> u32 \<Rightarrow> nat \<Rightarrow> bool \<times> u8 list" where
  "Read28_loop d lba 0 = (True, [])"
| "Read28_loop d lba (Suc n) =
     (if \<not> WaitBSY d lba then (False, [])
      else if \<not> WaitDRQ d lba then (False, [])
      else let (ok, rest) = Read28_loop d (lba + 1) n
           in (ok, store_words (sector_words (platter d lba)) @ rest))"

definition Read28 :: "drive \<Rightarrow> u32 \<Rightarrow> u32 \<Rightarrow> bool \<times> u8 list" where
  "Read28 d lba count =
     (let a = task_address (ata_program True lba count)
      in if \<not> WaitBSY d a then (False, []) else Read28_loop d a (unat count))"

fun Write28_loop :: "u32 \<Rightarrow> u8 list \<Rightarrow> nat \<Rightarrow> drive \<Rightarrow> drive" where
  "Write28_loop lba buf 0 d = d"
| "Write28_loop lba buf (Suc n) d =
     Write28_loop (lba + 1) (drop 512 buf) n
       (if WaitBSY d lba \<and> WaitDRQ d lba
        then d\<lparr>platter := (platter d)(lba := store_words (sector_words buf))\<rparr> else d)"

definition Write28 :: "u32 \<Rightarrow> u8 list \<Rightarrow> u32 \<Rightarrow> drive \<Rightarrow> bool \<times> drive" where
  "Write28 lba buf count d = (True, Write28_loop (task_address (ata_program True lba count)) buf (unat count) d)"

definition Identify :: "u8 \<Rightarrow> (nat \<Rightarrow> u8) \<Rightarrow> (nat \<Rightarrow> u16) \<Rightarrow> (bool \<times> u16 list)" where
  "Identify status_after st data_port =
     (if \<not> poll (\<lambda>s. s AND 0x80 = 0) st 0 then (False, [])
      else if status_after = 0 then (False, [])
      else if \<not> poll (\<lambda>s. s AND 0x08 \<noteq> 0) st 0 then (False, [])
      else (True, map data_port [0..<256]))"

section \<open>The partition table\<close>

record MBRPartitionEntry =
  p_status :: u8
  p_type :: u8
  p_lba_start :: u32
  p_sector_count :: u32

record MBRParser =
  mbr_bytes :: "u8 list"
  mbr_valid :: bool

definition partition_at :: "u8 list \<Rightarrow> nat \<Rightarrow> MBRPartitionEntry" where
  "partition_at m i =
     (let e = drop (446 + 16 * i) m
      in \<lparr>p_status = e ! 0, p_type = e ! 4, p_lba_start = le32 (e ! 8) (e ! 9) (e ! 10) (e ! 11),
          p_sector_count = le32 (e ! 12) (e ! 13) (e ! 14) (e ! 15)\<rparr>)"

text \<open>The result of the read is not checked: without one, the table is what the stack held (\<open>junk\<close>).\<close>

definition MBR_Read :: "u8 list \<Rightarrow> drive \<Rightarrow> MBRParser" where
  "MBR_Read junk d =
     (let b = snd (Read28 d 0 1);
          m = b @ drop (length b) junk
      in \<lparr>mbr_bytes = m, mbr_valid = (le16 (m ! 510) (m ! 511) = 0xAA55)\<rparr>)"

definition PartitionCount :: "MBRParser \<Rightarrow> u8" where
  "PartitionCount p = foldl (\<lambda>n i. if p_type (partition_at (mbr_bytes p) i) \<noteq> 0 then n + 1 else n) 0 [0..<4]"

definition GetPartition :: "u8 \<Rightarrow> MBRParser \<Rightarrow> MBRPartitionEntry" where
  "GetPartition i p =
     (if i < 4 then partition_at (mbr_bytes p) (unat i)
      else \<lparr>p_status = 0, p_type = 0, p_lba_start = 0, p_sector_count = 0\<rparr>)"

definition MBR_IsValid :: "MBRParser \<Rightarrow> bool" where
  "MBR_IsValid p = mbr_valid p"

section \<open>Lemmas\<close>

lemma poll_iff: "poll P st i \<longleftrightarrow> (\<exists>j. i \<le> j \<and> j < 0x100000 \<and> P (st j))"
proof (induction P st i rule: poll.induct)
  case (1 P st i)
  show ?case
  proof (cases "i < 0x100000 \<and> \<not> P (st i)")
    case True
    then have "poll P st i = poll P st (i + 1)" by (subst poll.simps) simp
    also have "\<dots> \<longleftrightarrow> (\<exists>j. i + 1 \<le> j \<and> j < 0x100000 \<and> P (st j))" using 1 True by blast
    also have "\<dots> \<longleftrightarrow> (\<exists>j. i \<le> j \<and> j < 0x100000 \<and> P (st j))"
      using True by (metis Suc_eq_plus1 Suc_leI add_leD1 le_neq_implies_less)
    finally show ?thesis .
  next
    case False
    then show ?thesis by (subst poll.simps) auto
  qed
qed

lemma task_address_program: "task_address (ata_program m lba n) = lba AND 0x0FFFFFFF"
proof -
  have m: "(0xFF :: u32) = mask 8" "(0x0F :: u32) = mask 4" "(0x0FFFFFFF :: u32) = mask 28" "(0x0F :: u8) = mask 4"
    by (simp_all add: mask_eq_exp_minus_1)
  have b: "ucast (lba AND 0xFF) = byte_of 0 lba" "ucast (drop_bit 8 lba AND 0xFF) = byte_of 1 lba"
    "ucast (drop_bit 16 lba AND 0xFF) = byte_of 2 lba"
    unfolding m by (rule bit_word_eqI, auto simp: byte_of_def bit_simps)+
  have d: "((if m then 0xE0 else 0xF0) OR ucast (drop_bit 24 lba AND 0x0F)) AND (0x0F :: u8) = byte_of 3 (lba AND 0x0FFFFFFF)"
  proof -
    have z: "(if m then 0xE0 else 0xF0) AND (0x0F :: u8) = 0" by simp
    have "((if m then 0xE0 else 0xF0) OR ucast (drop_bit 24 lba AND 0x0F)) AND (0x0F :: u8) =
        ucast (drop_bit 24 lba AND 0x0F) AND (0x0F :: u8)"
      by (simp only: bit.conj_disj_distrib2 z or.left_neutral)
    also have "\<dots> = byte_of 3 (lba AND 0x0FFFFFFF)"
      unfolding m by (rule bit_word_eqI) (auto simp: byte_of_def bit_simps)
    finally show ?thesis .
  qed
  have l: "byte_of 0 (lba AND 0x0FFFFFFF) = byte_of 0 lba" "byte_of 1 (lba AND 0x0FFFFFFF) = byte_of 1 lba"
    "byte_of 2 (lba AND 0x0FFFFFFF) = byte_of 2 lba"
    unfolding m by (rule bit_word_eqI, auto simp: byte_of_def bit_simps)+
  have "task_address (ata_program m lba n) =
      le32 (byte_of 0 (lba AND 0x0FFFFFFF)) (byte_of 1 (lba AND 0x0FFFFFFF)) (byte_of 2 (lba AND 0x0FFFFFFF)) (byte_of 3 (lba AND 0x0FFFFFFF))"
    by (simp only: task_address_def ata_program_def ata_task.simps b d l)
  then show ?thesis by (simp only: le32_byte_of)
qed

lemma task_address_28:
  assumes "unat lba < 0x10000000"
  shows "task_address (ata_program m lba n) = lba"
proof -
  have "unat (take_bit 28 lba) = unat lba" using assms by (simp add: take_bit_eq_mod unat_mod)
  then have "take_bit 28 lba = lba" by (simp only: u32_eq_iff_unat)
  then show ?thesis unfolding task_address_program by (simp add: take_bit_eq_mask mask_eq_exp_minus_1)
qed

lemma put16_le16: "put16 (le16 a b) = [a, b]"
  by (simp add: put16_def)

lemma words_pairs:
  "2 * n \<le> length b \<Longrightarrow> store_words (map (\<lambda>i. le16 (b ! (2 * i)) (b ! (2 * i + 1))) [0..<n]) = take (2 * n) b"
proof (induction n)
  case (Suc n)
  have "take (2 * Suc n) b = take (2 * n) b @ [b ! (2 * n), b ! (2 * n + 1)]"
    using Suc.prems by (simp add: take_Suc_conv_app_nth)
  then show ?case using Suc by (simp add: store_words_def put16_le16)
qed (simp add: store_words_def)

lemma store_sector: "512 \<le> length b \<Longrightarrow> store_words (sector_words b) = take 512 b"
  using words_pairs [of 256 b] by (simp add: sector_words_def)

text \<open>A drive that gets ready in time and holds whole sectors.\<close>

definition healthy :: "drive \<Rightarrow> bool" where
  "healthy d \<longleftrightarrow> (\<forall>a. WaitBSY d a \<and> WaitDRQ d a \<and> length (platter d a) = 512)"

lemma wait_platter [simp]:
  "WaitBSY (d\<lparr>platter := p\<rparr>) a = WaitBSY d a" "WaitDRQ (d\<lparr>platter := p\<rparr>) a = WaitDRQ d a"
  by (simp_all add: WaitBSY_def WaitDRQ_def)

lemma healthy_write: "healthy d \<Longrightarrow> length b = 512 \<Longrightarrow> healthy (d\<lparr>platter := (platter d)(a := b)\<rparr>)"
  by (simp add: healthy_def)

lemma Read28_one:
  assumes "healthy d" and "unat lba < 0x10000000"
  shows "Read28 d lba 1 = (True, platter d lba)"
  using assms(1) task_address_28 [OF assms(2), of True 1] by (simp add: Read28_def Let_def healthy_def store_sector)

lemma Write28_one:
  assumes "healthy d" and "unat lba < 0x10000000" and "512 \<le> length buf"
  shows "Write28 lba buf 1 d = (True, d\<lparr>platter := (platter d)(lba := take 512 buf)\<rparr>)"
  using assms(1,3) task_address_28 [OF assms(2), of True 1] by (simp add: Write28_def healthy_def store_sector)

text \<open>Transfers of several sectors.\<close>

lemma Write28_loop_effect:
  assumes "healthy d" and "512 * n \<le> length buf" and "unat lba + n \<le> 0x10000000"
  shows "healthy (Write28_loop lba buf n d) \<and>
    platter (Write28_loop lba buf n d) = (\<lambda>a. if unat lba \<le> unat a \<and> unat a < unat lba + n
      then take 512 (drop (512 * (unat a - unat lba)) buf) else platter d a)"
  using assms
proof (induction n arbitrary: lba buf d)
  case (Suc n)
  let ?d = "d\<lparr>platter := (platter d)(lba := take 512 buf)\<rparr>"
  have h: "healthy ?d" using Suc.prems by (simp add: healthy_write)
  have w: "Write28_loop lba buf (Suc n) d = Write28_loop (lba + 1) (drop 512 buf) n ?d"
    using Suc.prems by (simp add: healthy_def store_sector)
  have u: "unat (lba + 1) = unat lba + 1" using Suc.prems(3) by (simp add: unat_u32_plus)
  have l: "512 * n \<le> length (drop 512 buf)" "unat (lba + 1) + n \<le> 0x10000000" using Suc.prems(2,3) u by simp_all
  have eq: "(if unat (lba + 1) \<le> unat a \<and> unat a < unat (lba + 1) + n
      then take 512 (drop (512 * (unat a - unat (lba + 1))) (drop 512 buf)) else platter ?d a) =
    (if unat lba \<le> unat a \<and> unat a < unat lba + Suc n then take 512 (drop (512 * (unat a - unat lba)) buf) else platter d a)" for a
  proof (cases "unat a = unat lba")
    case True
    then have "a = lba" by (simp only: u32_eq_iff_unat)
    then show ?thesis using u by simp
  next
    case False
    then have "a \<noteq> lba" by auto
    moreover have "512 * (unat a - unat (lba + 1)) + 512 = 512 * (unat a - unat lba)" if "unat lba < unat a"
      using that u by simp
    ultimately show ?thesis using False u by (auto simp: drop_drop)
  qed
  show ?case unfolding w using Suc.IH [OF h l] by (simp only: eq)
qed (auto simp: fun_eq_iff)

lemma Read28_loop_bytes:
  "healthy d \<Longrightarrow> Read28_loop d lba n = (True, concat (map (\<lambda>i. platter d (lba + of_nat i)) [0..<n]))"
proof (induction n arbitrary: lba)
  case (Suc n)
  have "concat (map (\<lambda>i. platter d (lba + of_nat i)) [0..<Suc n]) =
      platter d lba @ concat (map (\<lambda>i. platter d (lba + 1 + of_nat i)) [0..<n])"
    by (simp add: upt_conv_Cons map_Suc_upt [symmetric] comp_def add.assoc del: upt_Suc)
  then show ?case using Suc by (simp add: healthy_def store_sector)
qed simp

lemma concat_chunks:
  "length buf = 512 * n \<Longrightarrow> concat (map (\<lambda>i. take 512 (drop (512 * i) buf)) [0..<n]) = buf"
proof (induction n arbitrary: buf)
  case (Suc n)
  have "concat (map (\<lambda>i. take 512 (drop (512 * i) buf)) [0..<Suc n]) =
      take 512 buf @ concat (map (\<lambda>i. take 512 (drop (512 * i) (drop 512 buf))) [0..<n])"
    by (simp add: upt_conv_Cons map_Suc_upt [symmetric] comp_def add.commute del: upt_Suc)
  also have "concat (map (\<lambda>i. take 512 (drop (512 * i) (drop 512 buf))) [0..<n]) = drop 512 buf"
    using Suc.prems by (intro Suc.IH) simp
  finally show ?case by simp
qed simp

section \<open>Properties\<close>


definition blank_drive :: drive where
  "blank_drive = \<lparr>platter = (\<lambda>a. replicate 512 0), status = (\<lambda>a i. 0x08)\<rparr>"

lemma blank_healthy [simp]: "healthy blank_drive"
  unfolding healthy_def blank_drive_def WaitBSY_def WaitDRQ_def poll_iff by (auto intro!: exI [of _ 0])


text \<open>A failed write is reported as a success. Whatever the drive does, the write operation returns true; if
  the drive does not get ready, nothing has been written.\<close>

theorem Write28_ignores_failure:
  assumes "\<And>a. \<not> WaitDRQ d a"
  shows "Write28 lba buf n d = (True, d)"
proof -
  have "Write28_loop a b k d = d" for a b k using assms by (induction k arbitrary: a b) simp_all
  then show ?thesis by (simp add: Write28_def)
qed

theorem Write28_ignores_failure_witness:
  "Write28 5 (replicate 512 7) 1 \<lparr>platter = (\<lambda>a. replicate 512 0), status = (\<lambda>a i. 0)\<rparr> =
     (True, \<lparr>platter = (\<lambda>a. replicate 512 0), status = (\<lambda>a i. 0)\<rparr>)"
  by (rule Write28_ignores_failure) (simp add: WaitDRQ_def poll_iff)

end
