(* ===== verification/Fat32_Table.thy ===== *)
theory Fat32_Table
  imports Disk
begin

text \<open>
  The FAT32 file system (\<^verbatim>\<open>src/src/fs/fat32.cpp\<close>), lower half: the geometry read at mount, the
  allocation table and the clusters. The state is the drive with the fields of the class. A
  read that fails leaves its buffer as it was; \<open>fs_junk\<close> is what a 4096 byte stack buffer holds
  before anything is stored to it. \<open>None\<close> is an access outside a buffer, the use of a table entry
  that could not be read, a division by zero, or a loop that does not end.
\<close>

section \<open>State\<close>

record fat32 =
  disk :: drive
  partition_lba :: u32
  bytes_per_sector :: u16
  sectors_per_cluster :: u8
  reserved_sectors :: u16
  fat_count :: u8
  total_sectors_16 :: u16
  total_sectors_32 :: u32
  fat_size_32 :: u32
  root_cluster :: u32
  fat_lba :: u32
  data_lba :: u32
  cluster_size :: u32
  fs_junk :: "u8 list"

definition FAT32_init :: "MBRPartitionEntry \<Rightarrow> fat32 \<Rightarrow> fat32" where
  "FAT32_init part fs = fs\<lparr>partition_lba := p_lba_start part, fat_lba := 0, data_lba := 0, cluster_size := 0\<rparr>"

section \<open>Sectors and geometry\<close>

definition ReadSector :: "fat32 \<Rightarrow> u32 \<Rightarrow> u8 list option" where
  "ReadSector fs lba = (let (ok, b) = Read28 (disk fs) lba 1 in if ok then Some b else None)"

definition WriteSector :: "u32 \<Rightarrow> u8 list \<Rightarrow> fat32 \<Rightarrow> bool \<times> fat32" where
  "WriteSector lba buffer fs = (let (ok, d) = Write28 lba buffer 1 (disk fs) in (ok, fs\<lparr>disk := d\<rparr>))"

definition Mount :: "fat32 \<Rightarrow> bool \<times> fat32" where
  "Mount fs =
     (let s = (case ReadSector fs (partition_lba fs) of Some b \<Rightarrow> b | None \<Rightarrow> fs_junk fs);
          fs = fs\<lparr>bytes_per_sector := le16 (s ! 11) (s ! 12), sectors_per_cluster := s ! 13,
                 reserved_sectors := le16 (s ! 14) (s ! 15), fat_count := s ! 16,
                 total_sectors_16 := le16 (s ! 19) (s ! 20),
                 total_sectors_32 := le32 (s ! 32) (s ! 33) (s ! 34) (s ! 35),
                 fat_size_32 := le32 (s ! 36) (s ! 37) (s ! 38) (s ! 39),
                 root_cluster := le32 (s ! 44) (s ! 45) (s ! 46) (s ! 47)\<rparr>;
          fs = fs\<lparr>fat_lba := partition_lba fs + ucast (reserved_sectors fs)\<rparr>;
          fs = fs\<lparr>data_lba := fat_lba fs + ucast (fat_count fs) * fat_size_32 fs\<rparr>;
          fs = fs\<lparr>cluster_size := ucast (sectors_per_cluster fs) * 512\<rparr>
      in (bytes_per_sector fs = 512, fs))"

definition ClusterToLBA :: "fat32 \<Rightarrow> u32 \<Rightarrow> u32" where
  "ClusterToLBA fs cluster = data_lba fs + (cluster - 2) * ucast (sectors_per_cluster fs)"

section \<open>The allocation table\<close>

definition NextCluster :: "fat32 \<Rightarrow> u32 \<Rightarrow> u32 option" where
  "NextCluster fs cluster = do {
     let fat_offset = cluster * 4;
     let fat_sector = fat_lba fs + fat_offset div 512;
     let entry_offset = fat_offset mod 512;
     sector \<leftarrow> ReadSector fs fat_sector;
     entry \<leftarrow> rd32_at sector (unat entry_offset);
     Some (entry AND 0x0FFFFFFF)
   }"

definition max_cluster :: "fat32 \<Rightarrow> u32 option" where
  "max_cluster fs =
     (let total_sectors = (if total_sectors_32 fs \<noteq> 0 then total_sectors_32 fs else ucast (total_sectors_16 fs));
          data_offset = data_lba fs - partition_lba fs
      in if total_sectors > data_offset
         then if sectors_per_cluster fs = 0 then None
              else Some (2 + (total_sectors - data_offset) div ucast (sectors_per_cluster fs))
         else Some 2)"

text \<open>The test of one table entry, and the search of one sector.\<close>

definition free_entry :: "u32 \<Rightarrow> nat \<Rightarrow> u8 list \<Rightarrow> nat \<Rightarrow> u32 option" where
  "free_entry limit s sector i =
     (let cluster = of_nat s * 128 + of_nat i
      in if cluster < 3 \<or> cluster \<ge> limit then None
         else case rd32_at sector (4 * i) of
             Some entry \<Rightarrow> if entry AND 0x0FFFFFFF = 0 then Some cluster else None
           | None \<Rightarrow> None)"

definition free_in_sector :: "u32 \<Rightarrow> fat32 \<Rightarrow> nat \<Rightarrow> u32 option" where
  "free_in_sector limit fs s =
     (case ReadSector fs (fat_lba fs + of_nat s) of
        None \<Rightarrow> None | Some sector \<Rightarrow> first_some (free_entry limit s sector) [0..<128])"

definition AllocCluster :: "fat32 \<Rightarrow> u32 option" where
  "AllocCluster fs = do {
     limit \<leftarrow> max_cluster fs;
     Some (case first_some (free_in_sector limit fs) [0..<unat (fat_size_32 fs)] of
         Some cluster \<Rightarrow> cluster | None \<Rightarrow> 0)
   }"

definition set_entry :: "u32 \<Rightarrow> nat \<Rightarrow> u32 \<Rightarrow> fat32 \<Rightarrow> (bool \<times> fat32) option" where
  "set_entry lba off value fs =
     (case ReadSector fs lba of
        None \<Rightarrow> Some (False, fs)
      | Some sector \<Rightarrow> do {
          sector \<leftarrow> copy_bytes sector off (put32 (value AND 0x0FFFFFFF)) 4;
          Some (WriteSector lba sector fs)
        })"

definition SetFATEntry :: "u32 \<Rightarrow> u32 \<Rightarrow> fat32 \<Rightarrow> (bool \<times> fat32) option" where
  "SetFATEntry cluster value fs = do {
     let fat_offset = cluster * 4;
     let fat_sector = fat_lba fs + fat_offset div 512;
     let entry_offset = unat (fat_offset mod 512);
     (ok, fs) \<leftarrow> set_entry fat_sector entry_offset value fs;
     if \<not> ok then Some (False, fs)
     else if fat_count fs > 1
     then set_entry (fat_lba fs + fat_size_32 fs + fat_offset div 512) entry_offset value fs
     else Some (True, fs)
   }"

section \<open>Clusters\<close>

fun ReadCluster_loop :: "fat32 \<Rightarrow> u32 \<Rightarrow> nat \<Rightarrow> nat list \<Rightarrow> u8 list \<Rightarrow> u8 list option" where
  "ReadCluster_loop fs cluster off [] buffer = Some buffer"
| "ReadCluster_loop fs cluster off (i # is) buffer =
     (case ReadSector fs (ClusterToLBA fs cluster + of_nat i) of
        None \<Rightarrow> ReadCluster_loop fs cluster off is buffer
      | Some s \<Rightarrow> do { buffer \<leftarrow> copy_bytes buffer (off + i * 512) s 512; ReadCluster_loop fs cluster off is buffer })"

definition ReadCluster :: "fat32 \<Rightarrow> u32 \<Rightarrow> u8 list \<Rightarrow> nat \<Rightarrow> u8 list option" where
  "ReadCluster fs cluster buffer off = ReadCluster_loop fs cluster off [0..<unat (sectors_per_cluster fs)] buffer"

fun WriteCluster_loop :: "u32 \<Rightarrow> u8 list \<Rightarrow> nat list \<Rightarrow> fat32 \<Rightarrow> (bool \<times> fat32) option" where
  "WriteCluster_loop lba buffer [] fs = Some (True, fs)"
| "WriteCluster_loop lba buffer (i # is) fs = do {
     s \<leftarrow> bytes_at buffer (i * 512) 512;
     let (ok, fs) = WriteSector (lba + of_nat i) s fs;
     if ok then WriteCluster_loop lba buffer is fs else Some (False, fs)
   }"

definition WriteCluster :: "u32 \<Rightarrow> u8 list \<Rightarrow> fat32 \<Rightarrow> (bool \<times> fat32) option" where
  "WriteCluster cluster buffer fs =
     WriteCluster_loop (ClusterToLBA fs cluster) buffer [0..<unat (sectors_per_cluster fs)] fs"

definition buf_size :: "fat32 \<Rightarrow> u32" where
  "buf_size fs = (if cluster_size fs < 4096 then cluster_size fs else 4096)"

text \<open>The contents of \<^verbatim>\<open>cluster_buf\<close> after the filling loops.\<close>

definition fill_buf :: "fat32 \<Rightarrow> u8 list \<Rightarrow> u8 list" where
  "fill_buf fs data = data @ replicate (unat (buf_size fs) - length data) 0 @ drop (unat (buf_size fs)) (fs_junk fs)"

partial_function (option) WriteClusterChain_loop ::
  "u32 \<Rightarrow> u8 list \<Rightarrow> u32 \<Rightarrow> u32 \<Rightarrow> fat32 \<Rightarrow> (bool \<times> fat32) option" where
  "WriteClusterChain_loop cluster buf sz written fs =
     (if written < sz
      then do {
        let to_write = (if sz - written > buf_size fs then buf_size fs else sz - written);
        data \<leftarrow> bytes_at buf (unat written) (unat to_write);
        (ok, fs) \<leftarrow> WriteCluster cluster (fill_buf fs data) fs;
        if \<not> ok then Some (False, fs)
        else if written + to_write < sz
        then do {
          next \<leftarrow> AllocCluster fs;
          if next = 0 then Some (False, fs)
          else do {
            (ok, fs) \<leftarrow> SetFATEntry cluster next fs;
            if \<not> ok then Some (False, fs)
            else do {
              (ok, fs) \<leftarrow> SetFATEntry next 0x0FFFFFFF fs;
              if \<not> ok then Some (False, fs)
              else WriteClusterChain_loop next buf sz (written + to_write) fs
            }
          }
        }
        else do {
          (ok, fs) \<leftarrow> SetFATEntry cluster 0x0FFFFFFF fs;
          if \<not> ok then Some (False, fs) else WriteClusterChain_loop cluster buf sz (written + to_write) fs
        }
      }
      else Some (True, fs))"

definition WriteClusterChain :: "u32 \<Rightarrow> u8 list \<Rightarrow> u32 \<Rightarrow> fat32 \<Rightarrow> (bool \<times> fat32) option" where
  "WriteClusterChain first_cluster buf sz fs =
     (if sz = 0
      then do {
        (ok, fs) \<leftarrow> WriteCluster first_cluster (fill_buf fs []) fs;
        SetFATEntry first_cluster 0x0FFFFFFF fs
      }
      else WriteClusterChain_loop first_cluster buf sz 0 fs)"

text \<open>The loop that frees the clusters of a file, in \<^verbatim>\<open>WriteFile\<close> and in \<^verbatim>\<open>DeleteFile\<close>.\<close>

partial_function (option) free_chain :: "u32 \<Rightarrow> fat32 \<Rightarrow> fat32 option" where
  "free_chain c fs =
     (if c \<ge> 2 \<and> c < 0x0FFFFFF8
      then do {
        next \<leftarrow> NextCluster fs c;
        (ok, fs) \<leftarrow> SetFATEntry c 0 fs;
        free_chain next fs
      }
      else Some fs)"

text \<open>The loop of \<^verbatim>\<open>ReadFile\<close> over the clusters of a file.\<close>

partial_function (option) ReadFile_loop :: "fat32 \<Rightarrow> u32 \<Rightarrow> u8 list \<Rightarrow> u32 \<Rightarrow> u8 list option" where
  "ReadFile_loop fs cluster buffer written =
     (if cluster < 0x0FFFFFF8
      then do {
        buffer \<leftarrow> ReadCluster fs cluster buffer (unat written);
        next \<leftarrow> NextCluster fs cluster;
        ReadFile_loop fs next buffer (written + cluster_size fs)
      }
      else Some buffer)"

section \<open>Well-formed volumes\<close>

definition cmax :: "fat32 \<Rightarrow> nat" where
  "cmax fs = (case max_cluster fs of Some m \<Rightarrow> unat m | None \<Rightarrow> 0)"

definition spc :: "fat32 \<Rightarrow> nat" where
  "spc fs = unat (sectors_per_cluster fs)"

text \<open>
  A mounted volume: at most eight sectors to a cluster, as the 4096 byte buffers need; one table or
  more of at most \<open>2\<^sup>2\<^sup>8\<close> entries, the data area behind them; tables that cover every cluster; everything within the 28-bit
  addresses of a drive that works.
\<close>

definition fat_wf :: "fat32 \<Rightarrow> bool" where
  "fat_wf fs \<longleftrightarrow> healthy (disk fs) \<and> length (fs_junk fs) = 4096 \<and>
     0 < spc fs \<and> spc fs \<le> 8 \<and> unat (cluster_size fs) = spc fs * 512 \<and>
     1 \<le> unat (fat_count fs) \<and> unat (data_lba fs) = unat (fat_lba fs) + unat (fat_count fs) * unat (fat_size_32 fs) \<and>
     max_cluster fs \<noteq> None \<and> unat (fat_size_32 fs) \<le> 0x200000 \<and> cmax fs \<le> 128 * unat (fat_size_32 fs) \<and> cmax fs \<le> 0x0FFFFFF7 \<and>
     unat (data_lba fs) + cmax fs * spc fs \<le> 0x10000000"

definition valid :: "fat32 \<Rightarrow> u32 \<Rightarrow> bool" where
  "valid fs c \<longleftrightarrow> 2 \<le> unat c \<and> unat c < cmax fs"

text \<open>The table and the clusters of a volume, by cluster number.\<close>

definition table_lba :: "fat32 \<Rightarrow> u32 \<Rightarrow> u32" where
  "table_lba fs c = fat_lba fs + c * 4 div 512"

definition fat :: "fat32 \<Rightarrow> u32 \<Rightarrow> u32" where
  "fat fs c = (let s = platter (disk fs) (table_lba fs c); k = unat (c * 4 mod 512)
     in le32 (s ! k) (s ! (k + 1)) (s ! (k + 2)) (s ! (k + 3)) AND 0x0FFFFFFF)"

definition content :: "fat32 \<Rightarrow> u32 \<Rightarrow> u8 list" where
  "content fs c = concat (map (\<lambda>i. platter (disk fs) (ClusterToLBA fs c + of_nat i)) [0..<spc fs])"

lemma max_cluster_disk [simp]: "max_cluster (fs\<lparr>disk := d\<rparr>) = max_cluster fs"
  by (simp add: max_cluster_def Let_def)

lemma geometry_disk [simp]:
  "cmax (fs\<lparr>disk := d\<rparr>) = cmax fs" "spc (fs\<lparr>disk := d\<rparr>) = spc fs"
  "valid (fs\<lparr>disk := d\<rparr>) = valid fs" "table_lba (fs\<lparr>disk := d\<rparr>) = table_lba fs"
  "ClusterToLBA (fs\<lparr>disk := d\<rparr>) = ClusterToLBA fs" "buf_size (fs\<lparr>disk := d\<rparr>) = buf_size fs"
  "fill_buf (fs\<lparr>disk := d\<rparr>) = fill_buf fs"
  by (simp_all add: cmax_def spc_def valid_def table_lba_def ClusterToLBA_def buf_size_def fill_buf_def fun_eq_iff)

lemma fat_wf_disk: "fat_wf fs \<Longrightarrow> healthy d \<Longrightarrow> fat_wf (fs\<lparr>disk := d\<rparr>)"
  by (simp add: fat_wf_def)

lemma fat_wf_count: "fat_wf fs \<Longrightarrow> unat (fat_size_32 fs) \<le> unat (fat_count fs) * unat (fat_size_32 fs)"
  by (simp add: fat_wf_def)

text \<open>Where the table entries and the sectors of the clusters are.\<close>

lemma unat_u32_times:
  fixes a b :: u32
  assumes "unat a * unat b < 4294967296"
  shows "unat (a * b) = unat a * unat b"
  using assms by (simp add: unat_word_ariths)

lemma valid_lt: "fat_wf fs \<Longrightarrow> valid fs c \<Longrightarrow> unat c < 0x0FFFFFF7"
  by (simp add: fat_wf_def valid_def)

lemma unat_div_mod_128:
  assumes "unat (c :: u32) < 0x10000000"
  shows "unat (c * 4 div 512) = unat c div 128" "unat (c * 4 mod 512) = 4 * (unat c mod 128)"
proof -
  have u: "unat (c * 4) = unat c * 4" using assms by (subst unat_u32_times) simp_all
  have "unat c * 4 div 512 = unat c div 128" using div_mult_mult2 [of 4 "unat c" 128] by simp
  then show "unat (c * 4 div 512) = unat c div 128" using u by (simp add: unat_div)
  have "unat c * 4 mod 512 = 4 * (unat c mod 128)" using mult_mod_left [of "unat c" 128 4] by (simp add: mult.commute)
  then show "unat (c * 4 mod 512) = 4 * (unat c mod 128)" using u by (simp add: unat_mod)
qed

lemma unat_table_lba:
  assumes wf: "fat_wf fs" and c: "valid fs c"
  shows "unat (table_lba fs c) = unat (fat_lba fs) + unat c div 128" "unat c div 128 < unat (fat_size_32 fs)"
proof -
  have lt: "unat c < 0x10000000" using valid_lt [OF wf c] by simp
  show d: "unat c div 128 < unat (fat_size_32 fs)"
    using wf c by (simp add: fat_wf_def valid_def div_less_iff_less_mult)
  have "unat (data_lba fs) = unat (fat_lba fs) + unat (fat_count fs) * unat (fat_size_32 fs)"
    "unat (data_lba fs) \<le> 0x10000000" using wf by (simp_all add: fat_wf_def)
  then have "unat (fat_lba fs) + unat (fat_size_32 fs) \<le> 0x10000000" using fat_wf_count [OF wf] by linarith
  then show "unat (table_lba fs c) = unat (fat_lba fs) + unat c div 128"
    unfolding table_lba_def using unat_div_mod_128(1) [OF lt] d by (subst unat_u32_plus) simp_all
qed

lemma unat_cluster_lba:
  assumes wf: "fat_wf fs" and c: "valid fs c" and i: "i < spc fs"
  shows "unat (ClusterToLBA fs c + of_nat i) = unat (data_lba fs) + (unat c - 2) * spc fs + i"
    "unat (data_lba fs) + (unat c - 2) * spc fs + i < 0x10000000"
proof -
  have b: "(unat c - 2) * spc fs + spc fs \<le> cmax fs * spc fs"
  proof -
    have "(unat c - 2 + 1) * spc fs \<le> cmax fs * spc fs" using c by (intro mult_le_mono1) (auto simp: valid_def)
    then show ?thesis by simp
  qed
  show lt: "unat (data_lba fs) + (unat c - 2) * spc fs + i < 0x10000000" using b i wf by (simp add: fat_wf_def)
  have c2: "unat (c - 2) = unat c - 2" using c by (subst unat_u32_minus) (simp_all add: valid_def)
  have s: "unat (ucast (sectors_per_cluster fs) :: u32) = spc fs"
    by (simp add: spc_def unsigned_ucast_eq take_bit_nat_eq_self unsigned_less order_less_trans [OF unsigned_less])
  have m: "unat ((c - 2) * ucast (sectors_per_cluster fs)) = (unat c - 2) * spc fs"
    using c2 s lt by (subst unat_u32_times) simp_all
  have l: "unat (ClusterToLBA fs c) = unat (data_lba fs) + (unat c - 2) * spc fs"
    unfolding ClusterToLBA_def using m lt by (subst unat_u32_plus) simp_all
  have "unat (of_nat i :: u32) = i" using lt by (intro unat_u32_of_nat) linarith
  then show "unat (ClusterToLBA fs c + of_nat i) = unat (data_lba fs) + (unat c - 2) * spc fs + i"
    using l lt by (subst unat_u32_plus) simp_all
qed

section \<open>Single accesses\<close>

definition put_sector :: "u32 \<Rightarrow> u8 list \<Rightarrow> fat32 \<Rightarrow> fat32" where
  "put_sector lba s fs = fs\<lparr>disk := (disk fs)\<lparr>platter := (platter (disk fs))(lba := s)\<rparr>\<rparr>"

lemma put_sector_wf [simp]: "fat_wf fs \<Longrightarrow> length s = 512 \<Longrightarrow> fat_wf (put_sector lba s fs)"
  unfolding put_sector_def by (rule fat_wf_disk) (auto simp: fat_wf_def intro: healthy_write)

lemma put_sector_geometry [simp]:
  "cmax (put_sector lba s fs) = cmax fs" "spc (put_sector lba s fs) = spc fs" "valid (put_sector lba s fs) = valid fs"
  "table_lba (put_sector lba s fs) = table_lba fs" "ClusterToLBA (put_sector lba s fs) = ClusterToLBA fs"
  "fat_lba (put_sector lba s fs) = fat_lba fs" "fat_count (put_sector lba s fs) = fat_count fs"
  "fat_size_32 (put_sector lba s fs) = fat_size_32 fs" "data_lba (put_sector lba s fs) = data_lba fs"
  "platter (disk (put_sector lba s fs)) = (platter (disk fs))(lba := s)"
  "sectors_per_cluster (put_sector lba s fs) = sectors_per_cluster fs"
  by (simp_all add: put_sector_def)

definition same_volume :: "fat32 \<Rightarrow> fat32 \<Rightarrow> bool" where
  "same_volume fs fs' \<longleftrightarrow> fs' = fs\<lparr>disk := disk fs'\<rparr>"

lemma same_volume_refl [simp]: "same_volume fs fs"
  by (simp add: same_volume_def)

lemma same_volume_put [simp]: "same_volume fs (put_sector lba s fs)"
  by (simp add: same_volume_def put_sector_def)

lemma same_volume_trans [trans]: "same_volume a b \<Longrightarrow> same_volume b c \<Longrightarrow> same_volume a c"
  unfolding same_volume_def by (metis fat32.surjective fat32.update_convs(1))

lemma same_volume_fields:
  assumes "same_volume fs fs'"
  shows "cmax fs' = cmax fs" "spc fs' = spc fs" "valid fs' = valid fs" "buf_size fs' = buf_size fs" "fill_buf fs' = fill_buf fs"
    "cluster_size fs' = cluster_size fs" "root_cluster fs' = root_cluster fs" "max_cluster fs' = max_cluster fs"
    "ClusterToLBA fs' = ClusterToLBA fs" "sectors_per_cluster fs' = sectors_per_cluster fs" "fs_junk fs' = fs_junk fs"
proof -
  obtain d where d: "fs' = fs\<lparr>disk := d\<rparr>" using assms unfolding same_volume_def by blast
  show "cmax fs' = cmax fs" "spc fs' = spc fs" "valid fs' = valid fs" "buf_size fs' = buf_size fs" "fill_buf fs' = fill_buf fs"
    "cluster_size fs' = cluster_size fs" "root_cluster fs' = root_cluster fs" "max_cluster fs' = max_cluster fs"
    "ClusterToLBA fs' = ClusterToLBA fs" "sectors_per_cluster fs' = sectors_per_cluster fs" "fs_junk fs' = fs_junk fs"
    unfolding d by simp_all
qed

lemma ReadSector_ok: "fat_wf fs \<Longrightarrow> unat lba < 0x10000000 \<Longrightarrow> ReadSector fs lba = Some (platter (disk fs) lba)"
  by (simp add: ReadSector_def Read28_one fat_wf_def)

lemma WriteSector_ok:
  "fat_wf fs \<Longrightarrow> unat lba < 0x10000000 \<Longrightarrow> length s = 512 \<Longrightarrow> WriteSector lba s fs = (True, put_sector lba s fs)"
  by (simp add: WriteSector_def Write28_one fat_wf_def put_sector_def)

lemma platter_length [simp]: "fat_wf fs \<Longrightarrow> length (platter (disk fs) a) = 512"
  by (simp add: fat_wf_def healthy_def)

lemma table_in_range:
  assumes "fat_wf fs" and "valid fs c"
  shows "unat (table_lba fs c) < 0x10000000" "unat (table_lba fs c) < unat (data_lba fs)" "unat (c * 4 mod 512) + 4 \<le> 512"
proof -
  have f: "unat (data_lba fs) = unat (fat_lba fs) + unat (fat_count fs) * unat (fat_size_32 fs)"
    "unat (data_lba fs) \<le> 0x10000000" using assms(1) by (simp_all add: fat_wf_def)
  show lt: "unat (table_lba fs c) < unat (data_lba fs)"
    using unat_table_lba [OF assms] f fat_wf_count [OF assms(1)] by linarith
  then show "unat (table_lba fs c) < 0x10000000" using f by linarith
  have lt: "unat c < 0x10000000" using valid_lt [OF assms] by simp
  have "unat c mod 128 < 128" by simp
  then show "unat (c * 4 mod 512) + 4 \<le> 512" unfolding unat_div_mod_128(2) [OF lt] by linarith
qed

lemma NextCluster_ok:
  assumes "fat_wf fs" and "valid fs c"
  shows "NextCluster fs c = Some (fat fs c)"
  using ReadSector_ok [OF assms(1) table_in_range(1) [OF assms]] table_in_range(3) [OF assms] assms(1)
  by (simp add: NextCluster_def fat_def Let_def table_lba_def rd32_at_def)

text \<open>The entry of another cluster is in another sector or at another place in the same.\<close>

lemma table_slots:
  assumes wf: "fat_wf fs" and c: "valid fs c" "valid fs c'" and ne: "c \<noteq> c'" and eq: "table_lba fs c = table_lba fs c'"
  shows "unat (c * 4 mod 512) + 4 \<le> unat (c' * 4 mod 512) \<or> unat (c' * 4 mod 512) + 4 \<le> unat (c * 4 mod 512)"
proof -
  have lt: "unat c < 0x10000000" "unat c' < 0x10000000" using valid_lt [OF wf c(1)] valid_lt [OF wf c(2)] by simp_all
  have "unat c div 128 = unat c' div 128" using unat_table_lba(1) [OF wf c(1)] unat_table_lba(1) [OF wf c(2)] eq by simp
  moreover have "unat c \<noteq> unat c'" using ne by (simp only: u32_eq_iff_unat not_False_eq_True)
  ultimately have "unat c mod 128 \<noteq> unat c' mod 128" using div_mult_mod_eq [of "unat c" 128] div_mult_mod_eq [of "unat c'" 128] by metis
  then show ?thesis unfolding unat_div_mod_128(2) [OF lt(1)] unat_div_mod_128(2) [OF lt(2)] by linarith
qed

definition patch :: "nat \<Rightarrow> u32 \<Rightarrow> u8 list \<Rightarrow> u8 list" where
  "patch k v s = take k s @ put32 v @ drop (k + 4) s"

lemma patch_length [simp]: "k + 4 \<le> length s \<Longrightarrow> length (patch k v s) = length s"
  by (simp add: patch_def)

lemma patch_same:
  "k + 4 \<le> length s \<Longrightarrow> le32 (patch k v s ! k) (patch k v s ! (k + 1)) (patch k v s ! (k + 2)) (patch k v s ! (k + 3)) = v"
  by (simp add: patch_def nth_append put32_def le32_byte_of [simplified])

lemma patch_other: "k + 4 \<le> length s \<Longrightarrow> i < k \<or> k + 4 \<le> i \<Longrightarrow> patch k v s ! i = s ! i"
  by (auto simp: patch_def nth_append)

lemma set_entry_ok:
  assumes "fat_wf fs" and "unat lba < 0x10000000" and "k + 4 \<le> 512"
  shows "set_entry lba k v fs = Some (True, put_sector lba (patch k (v AND 0x0FFFFFFF) (platter (disk fs) lba)) fs)"
  using assms by (simp add: set_entry_def ReadSector_ok copy_bytes_ok WriteSector_ok patch_def)

lemma fat_put_other: "lba \<noteq> table_lba fs c \<Longrightarrow> fat (put_sector lba s fs) c = fat fs c"
  by (simp add: fat_def)

lemma content_put_other:
  "(\<And>i. i < spc fs \<Longrightarrow> lba \<noteq> ClusterToLBA fs c + of_nat i) \<Longrightarrow> content (put_sector lba s fs) c = content fs c"
  unfolding content_def put_sector_geometry by (rule arg_cong [of _ _ concat], rule map_cong) (auto simp: fun_upd_apply)

lemma content_put_table:
  assumes "fat_wf fs" and "valid fs c" and "unat lba < unat (data_lba fs)"
  shows "content (put_sector lba s fs) c = content fs c"
proof (rule content_put_other)
  fix i
  assume "i < spc fs"
  then show "lba \<noteq> ClusterToLBA fs c + of_nat i" using unat_cluster_lba(1) [OF assms(1,2)] assms(3) by fastforce
qed

text \<open>Setting an entry changes that entry and nothing else of the volume.\<close>

lemma fat_set_entry:
  fixes v :: u32
  assumes wf: "fat_wf fs" and c: "valid fs c"
  defines "fs' \<equiv> put_sector (table_lba fs c) (patch (unat (c * 4 mod 512)) (v AND 0x0FFFFFFF) (platter (disk fs) (table_lba fs c))) fs"
  shows "fat fs' c = v AND 0x0FFFFFFF" and "valid fs c' \<Longrightarrow> c' \<noteq> c \<Longrightarrow> fat fs' c' = fat fs c'"
proof -
  have k: "unat (c * 4 mod 512) + 4 \<le> length (platter (disk fs) (table_lba fs c))"
    using table_in_range(3) [OF wf c] wf by simp
  have a: "(v AND 0x0FFFFFFF) AND (0x0FFFFFFF :: u32) = v AND 0x0FFFFFFF" by (simp add: and.assoc)
  show "fat fs' c = v AND 0x0FFFFFFF" unfolding fs'_def fat_def Let_def using patch_same [OF k] a by simp
  assume c': "valid fs c'" "c' \<noteq> c"
  show "fat fs' c' = fat fs c'"
  proof (cases "table_lba fs c = table_lba fs c'")
    case True
    have o: "unat (c' * 4 mod 512) + 4 \<le> unat (c * 4 mod 512) \<or> unat (c * 4 mod 512) + 4 \<le> unat (c' * 4 mod 512)"
      using table_slots [OF wf c c'(1) c'(2) [symmetric] True] by blast
    have "patch (unat (c * 4 mod 512)) w (platter (disk fs) (table_lba fs c)) ! (unat (c' * 4 mod 512) + j) =
        platter (disk fs) (table_lba fs c) ! (unat (c' * 4 mod 512) + j)" if "j < 4" for j w
      using o that by (intro patch_other [OF k]) linarith
    from this [of 0] this [of 1] this [of 2] this [of 3] show ?thesis
      unfolding fs'_def fat_def Let_def by (simp add: True [symmetric])
  next
    case False
    then show ?thesis unfolding fs'_def by (rule fat_put_other)
  qed
qed

lemma SetFATEntry_ok:
  assumes wf: "fat_wf fs" and c: "valid fs c"
  obtains fs' where "SetFATEntry c v fs = Some (True, fs')" and "fat_wf fs'" and "same_volume fs fs'"
    and "fat fs' c = v AND 0x0FFFFFFF" and "\<And>c'. valid fs c' \<Longrightarrow> c' \<noteq> c \<Longrightarrow> fat fs' c' = fat fs c'"
    and "\<And>c'. valid fs c' \<Longrightarrow> content fs' c' = content fs c'"
proof -
  let ?k = "unat (c * 4 mod 512)" and ?v = "v AND 0x0FFFFFFF" and ?l = "table_lba fs c"
  let ?fs = "put_sector ?l (patch ?k ?v (platter (disk fs) ?l)) fs"
  note r = table_in_range [OF wf c]
  have wf1: "fat_wf ?fs" using wf r(3) by simp
  have e1: "set_entry ?l ?k v fs = Some (True, ?fs)" by (rule set_entry_ok [OF wf r(1,3)])
  have f1: "fat ?fs c = ?v" by (rule fat_set_entry(1) [OF wf c])
  have f2: "fat ?fs c' = fat fs c'" if "valid fs c'" "c' \<noteq> c" for c' by (rule fat_set_entry(2) [OF wf c that])
  have c1: "content ?fs c' = content fs c'" if "valid fs c'" for c' by (rule content_put_table [OF wf that r(2)])
  show ?thesis
  proof (cases "fat_count fs > 1")
    case False
    then have "SetFATEntry c v fs = Some (True, ?fs)"
      using e1 by (simp add: SetFATEntry_def Let_def table_lba_def [symmetric])
    then show ?thesis by (rule that [OF _ wf1 same_volume_put f1 f2 c1])
  next
    case True
    let ?l2 = "fat_lba fs + fat_size_32 fs + c * 4 div 512"
    let ?fs2 = "put_sector ?l2 (patch ?k ?v (platter (disk ?fs) ?l2)) ?fs"
    have d: "unat (data_lba fs) = unat (fat_lba fs) + unat (fat_count fs) * unat (fat_size_32 fs)" "unat (data_lba fs) \<le> 0x10000000"
      using wf by (simp_all add: fat_wf_def)
    have "2 \<le> unat (fat_count fs)" using True by (simp add: word_less_nat_alt)
    then have two: "2 * unat (fat_size_32 fs) \<le> unat (fat_count fs) * unat (fat_size_32 fs)" by (intro mult_le_mono1)
    have lt: "unat c < 0x10000000" using valid_lt [OF wf c] by simp
    have b: "unat (fat_lba fs) + unat (fat_size_32 fs) + unat c div 128 < 0x10000000"
      using unat_table_lba(2) [OF wf c] two d by linarith
    then have "unat (fat_lba fs + fat_size_32 fs) = unat (fat_lba fs) + unat (fat_size_32 fs)"
      by (intro unat_u32_plus) linarith
    then have u2: "unat ?l2 = unat (fat_lba fs) + unat (fat_size_32 fs) + unat c div 128"
      using unat_div_mod_128(1) [OF lt] b by (subst unat_u32_plus) simp_all
    have l2: "unat ?l2 < 0x10000000" "unat ?l2 < unat (data_lba fs)" using u2 unat_table_lba(2) [OF wf c] two d by linarith+
    have ne: "?l2 \<noteq> table_lba fs c'" if "valid fs c'" for c'
    proof -
      have "unat (table_lba fs c') < unat ?l2" using unat_table_lba [OF wf that] u2 by linarith
      then show ?thesis by auto
    qed
    have e2: "set_entry ?l2 ?k v ?fs = Some (True, ?fs2)" by (rule set_entry_ok [OF wf1 l2(1) r(3)])
    have s2: "SetFATEntry c v fs = Some (True, ?fs2)"
      using e1 e2 True by (simp add: SetFATEntry_def Let_def table_lba_def [symmetric])
    have wf2: "fat_wf ?fs2" by (rule put_sector_wf [OF wf1]) (use r(3) platter_length [OF wf1] in simp)
    have sv: "same_volume fs ?fs2" using same_volume_put same_volume_trans by blast
    have g: "fat ?fs2 c' = fat ?fs c'" if "valid fs c'" for c' using ne [OF that] by (intro fat_put_other) simp
    have h: "content ?fs2 c' = content fs c'" if "valid fs c'" for c'
      using content_put_table [OF wf1, of c' ?l2] l2(2) c1 [OF that] that by simp
    show ?thesis by (rule that [OF s2 wf2 sv _ _ h]) (use g f1 f2 c in simp_all)
  qed
qed

section \<open>Clusters\<close>

lemma content_length: "fat_wf fs \<Longrightarrow> length (content fs c) = unat (cluster_size fs)"
proof -
  assume wf: "fat_wf fs"
  have "length (concat (map (\<lambda>i. platter (disk fs) (ClusterToLBA fs c + of_nat i)) [0..<n])) = n * 512" for n
    using wf by (induction n) simp_all
  then show ?thesis using wf by (simp add: content_def fat_wf_def)
qed


text \<open>Sector by sector, from the front.\<close>

lemma ReadCluster_steps:
  assumes wf: "fat_wf fs" and c: "valid fs c"
  shows "i + n \<le> spc fs \<Longrightarrow> off + (i + n) * 512 \<le> length buf \<Longrightarrow>
    ReadCluster_loop fs c off [i..<i + n] buf = Some (take (off + i * 512) buf @
      concat (map (\<lambda>i. platter (disk fs) (ClusterToLBA fs c + of_nat i)) [i..<i + n]) @ drop (off + (i + n) * 512) buf)"
proof (induction n arbitrary: i buf)
  case (Suc n)
  let ?s = "platter (disk fs) (ClusterToLBA fs c + of_nat i)"
  have i: "i < spc fs" using Suc.prems by simp
  have lt: "unat (ClusterToLBA fs c + of_nat i) < 0x10000000" using unat_cluster_lba [OF wf c i] by simp
  let ?b = "take (off + i * 512) buf @ ?s @ drop (off + i * 512 + 512) buf"
  have cb: "copy_bytes buf (off + i * 512) ?s 512 = Some ?b" using Suc.prems wf by (simp add: copy_bytes_ok)
  have lb: "length ?b = length buf" using Suc.prems wf by simp
  have up: "[i..<i + Suc n] = i # [Suc i..<Suc i + n]" by (simp add: upt_conv_Cons)
  have "ReadCluster_loop fs c off [i..<i + Suc n] buf = ReadCluster_loop fs c off [Suc i..<Suc i + n] ?b"
    unfolding up using ReadSector_ok [OF wf lt] cb by simp
  also have "\<dots> = Some (take (off + Suc i * 512) ?b @
      concat (map (\<lambda>i. platter (disk fs) (ClusterToLBA fs c + of_nat i)) [Suc i..<Suc i + n]) @ drop (off + (Suc i + n) * 512) ?b)"
    by (rule Suc.IH) (use Suc.prems lb in simp_all)
  also have "take (off + Suc i * 512) ?b = take (off + i * 512) buf @ ?s" using Suc.prems wf by simp
  also have "drop (off + (Suc i + n) * 512) ?b = drop (off + (i + Suc n) * 512) buf"
    using Suc.prems wf by (simp add: algebra_simps)
  finally show ?case unfolding up by simp
qed simp

lemma ReadCluster_ok:
  assumes wf: "fat_wf fs" and c: "valid fs c" and l: "off + unat (cluster_size fs) \<le> length buf"
  shows "ReadCluster fs c buf off = Some (take off buf @ content fs c @ drop (off + unat (cluster_size fs)) buf)"
proof -
  have "unat (cluster_size fs) = spc fs * 512" using wf by (simp add: fat_wf_def)
  then show ?thesis using ReadCluster_steps [OF wf c, of 0 "spc fs" off buf] l
    by (simp add: ReadCluster_def content_def spc_def)
qed

lemma WriteCluster_steps:
  assumes wf: "fat_wf fs" and c: "valid fs c"
  shows "i + n \<le> spc fs \<Longrightarrow> (i + n) * 512 \<le> length buf \<Longrightarrow>
    \<exists>fs'. WriteCluster_loop (ClusterToLBA fs c) buf [i..<i + n] fs = Some (True, fs') \<and> fat_wf fs' \<and> same_volume fs fs' \<and>
      platter (disk fs') = (\<lambda>a. if \<exists>j. i \<le> j \<and> j < i + n \<and> a = ClusterToLBA fs c + of_nat j
        then take 512 (drop (512 * (unat a - unat (ClusterToLBA fs c))) buf) else platter (disk fs) a)"
  using wf c
proof (induction n arbitrary: i fs)
  case (Suc n)
  let ?s = "take 512 (drop (i * 512) buf)" and ?l = "ClusterToLBA fs c"
  have i: "i < spc fs" using Suc.prems by simp
  have lt: "unat (?l + of_nat i) < 0x10000000" using unat_cluster_lba [OF Suc.prems(3,4) i] by simp
  have z: "0 < spc fs" using i by simp
  have li: "unat (?l + of_nat j) = unat ?l + j" if "j < spc fs" for j
    using unat_cluster_lba(1) [OF Suc.prems(3,4) that] unat_cluster_lba(1) [OF Suc.prems(3,4) z] by simp
  have ls: "length ?s = 512" using Suc.prems(2) by simp
  let ?fs = "put_sector (?l + of_nat i) ?s fs"
  have up: "[i..<i + Suc n] = i # [Suc i..<Suc i + n]" by (simp add: upt_conv_Cons)
  have ba: "bytes_at buf (i * 512) 512 = Some ?s" using Suc.prems(2) by (simp add: bytes_at_def)
  have step: "WriteCluster_loop ?l buf [i..<i + Suc n] fs = WriteCluster_loop (ClusterToLBA ?fs c) buf [Suc i..<Suc i + n] ?fs"
    unfolding up using ba WriteSector_ok [OF Suc.prems(3) lt ls] by simp
  obtain fs' where fs': "WriteCluster_loop (ClusterToLBA ?fs c) buf [Suc i..<Suc i + n] ?fs = Some (True, fs')" "fat_wf fs'"
    "same_volume ?fs fs'"
    "platter (disk fs') = (\<lambda>a. if \<exists>j. Suc i \<le> j \<and> j < Suc i + n \<and> a = ClusterToLBA ?fs c + of_nat j
        then take 512 (drop (512 * (unat a - unat (ClusterToLBA ?fs c))) buf) else platter (disk ?fs) a)"
    using Suc.IH [of "Suc i" ?fs] Suc.prems ls by auto
  have "platter (disk fs') a = (if \<exists>j. i \<le> j \<and> j < i + Suc n \<and> a = ?l + of_nat j
      then take 512 (drop (512 * (unat a - unat ?l)) buf) else platter (disk fs) a)" for a
  proof (cases "a = ?l + of_nat i")
    case True
    have no: "\<not> (\<exists>j. Suc i \<le> j \<and> j < Suc i + n \<and> a = ?l + of_nat j)"
    proof
      assume "\<exists>j. Suc i \<le> j \<and> j < Suc i + n \<and> a = ?l + of_nat j"
      then obtain j where j: "Suc i \<le> j" "j < Suc i + n" "a = ?l + of_nat j" by blast
      have "unat ?l + j = unat ?l + i" using li [of j] li [OF i] j True Suc.prems(1) by simp
      then show False using j(1) by simp
    qed
    have "unat a - unat ?l = i" using li [OF i] True by simp
    moreover have "\<exists>j. i \<le> j \<and> j < i + Suc n \<and> a = ?l + of_nat j" using True by (intro exI [of _ i]) simp
    moreover have "platter (disk fs') a = platter (disk ?fs) a"
      unfolding fs'(4) put_sector_geometry(5) by (rule if_not_P [OF no])
    then have "platter (disk fs') a = ?s" using True by simp
    ultimately show ?thesis by (simp add: mult.commute)
  next
    case False
    then have eqv: "(\<exists>j. i \<le> j \<and> j < i + Suc n \<and> a = ?l + of_nat j) \<longleftrightarrow> (\<exists>j. Suc i \<le> j \<and> j < Suc i + n \<and> a = ?l + of_nat j)"
      by (metis Suc_leD Suc_leI add_Suc_right add_Suc le_neq_implies_less)
    have "platter (disk ?fs) a = platter (disk fs) a" using False by simp
    then show ?thesis unfolding fs'(4) put_sector_geometry(5) eqv by (simp only:)
  qed
  then show ?case using step fs'(1,2) same_volume_trans [OF same_volume_put fs'(3)] by (auto simp: fun_eq_iff)
qed (auto simp: fun_eq_iff)

lemma cluster_sectors_distinct:
  assumes wf: "fat_wf fs" and c: "valid fs c" "valid fs c'" "c \<noteq> c'" and i: "i < spc fs" "j < spc fs"
  shows "ClusterToLBA fs c + of_nat i \<noteq> ClusterToLBA fs c' + of_nat j"
proof
  assume eq: "ClusterToLBA fs c + of_nat i = ClusterToLBA fs c' + of_nat j"
  have "(unat c - 2) * spc fs + i = (unat c' - 2) * spc fs + j"
    using unat_cluster_lba(1) [OF wf c(1) i(1)] unat_cluster_lba(1) [OF wf c(2) i(2)] eq by simp
  then have "((unat c - 2) * spc fs + i) div spc fs = ((unat c' - 2) * spc fs + j) div spc fs" by simp
  then have "unat c - 2 = unat c' - 2" using i by simp
  then have "unat c = unat c'" using c(1,2) unfolding valid_def by linarith
  then show False using c(3) by (simp only: u32_eq_iff_unat)
qed

lemma WriteCluster_ok:
  assumes wf: "fat_wf fs" and c: "valid fs c" and l: "unat (cluster_size fs) \<le> length buf"
  obtains fs' where "WriteCluster c buf fs = Some (True, fs')" and "fat_wf fs'" and "same_volume fs fs'"
    and "content fs' c = take (unat (cluster_size fs)) buf"
    and "\<And>c'. valid fs c' \<Longrightarrow> c' \<noteq> c \<Longrightarrow> content fs' c' = content fs c'"
    and "\<And>c'. valid fs c' \<Longrightarrow> fat fs' c' = fat fs c'"
proof -
  let ?l = "ClusterToLBA fs c" and ?n = "spc fs"
  have cs: "unat (cluster_size fs) = 512 * ?n" "0 < ?n" using wf by (simp_all add: fat_wf_def)
  obtain fs' where fs': "WriteCluster_loop ?l buf [0..<?n] fs = Some (True, fs')" "fat_wf fs'" "same_volume fs fs'"
    and p: "\<And>a. platter (disk fs') a = (if \<exists>j < ?n. a = ?l + of_nat j
      then take 512 (drop (512 * (unat a - unat ?l)) buf) else platter (disk fs) a)"
    using WriteCluster_steps [OF wf c, of 0 ?n buf] l cs by (auto simp: mult.commute)
  note v = same_volume_fields [OF fs'(3)]
  have li: "unat (?l + of_nat j) = unat ?l + j" if "j < ?n" for j
    using unat_cluster_lba(1) [OF wf c that] unat_cluster_lba(1) [OF wf c cs(2)] by simp
  have sec: "platter (disk fs') (?l + of_nat j) = take 512 (drop (512 * j) (take (512 * ?n) buf))" if j: "j < ?n" for j
  proof -
    have "\<exists>j' < ?n. ?l + of_nat j = ?l + of_nat j'" using j by blast
    moreover have "512 * j + 512 \<le> 512 * ?n" using j by simp
    ultimately show ?thesis using p [of "?l + of_nat j"] li [OF j] by (simp add: take_drop min_def)
  qed
  have "content fs' c = concat (map (\<lambda>j. take 512 (drop (512 * j) (take (512 * ?n) buf))) [0..<?n])"
    unfolding content_def v by (rule arg_cong [of _ _ concat], rule map_cong) (auto simp: sec)
  also have "\<dots> = take (512 * ?n) buf" using l cs by (intro concat_chunks) simp
  finally have same: "content fs' c = take (unat (cluster_size fs)) buf" using cs by simp
  have other: "content fs' c' = content fs c'" if c': "valid fs c'" "c' \<noteq> c" for c'
  proof -
    have "platter (disk fs') (ClusterToLBA fs c' + of_nat i) = platter (disk fs) (ClusterToLBA fs c' + of_nat i)" if "i < ?n" for i
      using p cluster_sectors_distinct [OF wf c'(1) c c'(2) that] by auto
    then show ?thesis unfolding content_def v by (intro arg_cong [of _ _ concat] map_cong) auto
  qed
  have tab: "fat fs' c' = fat fs c'" if c': "valid fs c'" for c'
  proof -
    have "unat (data_lba fs) \<le> unat (?l + of_nat j)" if "j < ?n" for j using unat_cluster_lba(1) [OF wf c that] by simp
    then have "table_lba fs c' \<noteq> ?l + of_nat j" if "j < ?n" for j
      using table_in_range(2) [OF wf c'] that by fastforce
    then have "platter (disk fs') (table_lba fs c') = platter (disk fs) (table_lba fs c')" using p by auto
    moreover have "table_lba fs' = table_lba fs" using fs'(3) unfolding same_volume_def by (metis geometry_disk(4))
    ultimately show ?thesis by (simp add: fat_def)
  qed
  have "WriteCluster c buf fs = Some (True, fs')" using fs'(1) by (simp add: WriteCluster_def spc_def)
  then show ?thesis by (rule that [OF _ fs'(2,3) same other tab])
qed

section \<open>Allocation\<close>

lemma table_sector_entry:
  assumes wf: "fat_wf fs" and c: "valid fs c" and s: "s = unat c div 128" "i = unat c mod 128"
  shows "ReadSector fs (fat_lba fs + of_nat s) = Some (platter (disk fs) (table_lba fs c))"
    "of_nat s * 128 + of_nat i = c"
    "rd32_at (platter (disk fs) (table_lba fs c)) (4 * i) = Some e \<Longrightarrow> e AND 0x0FFFFFFF = fat fs c"
    "rd32_at (platter (disk fs) (table_lba fs c)) (4 * i) \<noteq> None"
proof -
  have lt: "unat c < 0x10000000" using valid_lt [OF wf c] by simp
  have u: "unat (of_nat s :: u32) = s" using lt s by (intro unat_u32_of_nat) linarith
  then have d: "of_nat s = c * 4 div 512" using unat_div_mod_128(1) [OF lt] s(1) by (simp only: u32_eq_iff_unat)
  show "ReadSector fs (fat_lba fs + of_nat s) = Some (platter (disk fs) (table_lba fs c))"
    unfolding d table_lba_def [symmetric] by (rule ReadSector_ok [OF wf table_in_range(1) [OF wf c]])
  have "of_nat (s * 128 + i) = c" using s by (simp add: mult.commute [of _ 128])
  then show "of_nat s * 128 + of_nat i = c" by simp
  have k: "4 * i = unat (c * 4 mod 512)" using unat_div_mod_128(2) [OF lt] s(2) by simp
  show "rd32_at (platter (disk fs) (table_lba fs c)) (4 * i) \<noteq> None"
    unfolding k using table_in_range(3) [OF wf c] wf by (simp add: rd32_at_def)
  show "rd32_at (platter (disk fs) (table_lba fs c)) (4 * i) = Some e \<Longrightarrow> e AND 0x0FFFFFFF = fat fs c"
    unfolding k fat_def Let_def by (auto simp: rd32_at_def split: if_splits)
qed

lemma AllocCluster_alt:
  "max_cluster fs = Some m \<Longrightarrow> AllocCluster fs =
     Some (case first_some (free_in_sector m fs) [0..<unat (fat_size_32 fs)] of Some cluster \<Rightarrow> cluster | None \<Rightarrow> 0)"
  by (simp add: AllocCluster_def)

lemma free_in_sector_None:
  assumes "free_in_sector m fs s = None" and "ReadSector fs (fat_lba fs + of_nat s) = Some sector" and "i < 128"
  shows "free_entry m s sector i = None"
proof -
  have "first_some (free_entry m s sector) [0..<128] = None" using assms(1,2) unfolding free_in_sector_def by (simp only: option.case)
  then show ?thesis using assms(3) by (simp only: first_some_None_iff set_upt) simp
qed

lemma free_in_sector_Some:
  assumes "free_in_sector m fs s = Some r"
  obtains sector i where "ReadSector fs (fat_lba fs + of_nat s) = Some sector" "i < 128" "free_entry m s sector i = Some r"
proof -
  obtain sector where s: "ReadSector fs (fat_lba fs + of_nat s) = Some sector"
    using assms unfolding free_in_sector_def by (cases "ReadSector fs (fat_lba fs + of_nat s)") (simp_all only: option.case option.distinct)
  then have "first_some (free_entry m s sector) [0..<128] = Some r" using assms unfolding free_in_sector_def by (simp only: option.case)
  from first_some_upt_Some [OF this] obtain i where "i < 128" "free_entry m s sector i = Some r" by blast
  then show ?thesis using that s by blast
qed

lemma free_entry_Some:
  assumes "free_entry m s sector i = Some r"
  obtains e where "r = of_nat s * 128 + of_nat i" "\<not> r < 3" "\<not> r \<ge> m" "rd32_at sector (4 * i) = Some e" "e AND 0x0FFFFFFF = 0"
  using assms unfolding free_entry_def Let_def by (auto split: if_splits option.splits)

lemma AllocCluster_ok:
  assumes wf: "fat_wf fs"
  obtains r where "AllocCluster fs = Some r"
    and "r = 0 \<Longrightarrow> \<forall>c. valid fs c \<and> 3 \<le> unat c \<longrightarrow> fat fs c \<noteq> 0"
    and "r \<noteq> 0 \<Longrightarrow> valid fs r \<and> 3 \<le> unat r \<and> fat fs r = 0"
proof -
  obtain m where m: "max_cluster fs = Some m" "cmax fs = unat m" using wf by (auto simp: fat_wf_def cmax_def)
  let ?n = "unat (fat_size_32 fs)"
  note A = AllocCluster_alt [OF m(1)]
  show ?thesis
  proof (cases "first_some (free_in_sector m fs) [0..<?n]")
    case None
    have "fat fs c \<noteq> 0" if c: "valid fs c" "3 \<le> unat c" for c
    proof
      assume z: "fat fs c = 0"
      let ?s = "unat c div 128" and ?i = "unat c mod 128"
      note t = table_sector_entry [OF wf c(1) refl refl]
      have "free_in_sector m fs ?s = None"
        using None unat_table_lba(2) [OF wf c(1)] by (simp only: first_some_None_iff set_upt) simp
      then have g: "free_entry m ?s (platter (disk fs) (table_lba fs c)) ?i = None" using t(1) by (rule free_in_sector_None) simp
      have "\<not> c < 3" "\<not> c \<ge> m" using c m(2) by (simp_all add: valid_def word_less_nat_alt word_le_nat_alt)
      moreover obtain e where "rd32_at (platter (disk fs) (table_lba fs c)) (4 * ?i) = Some e" using t(4) by blast
      moreover from this have "e AND 0x0FFFFFFF = 0" using t(3) z by simp
      ultimately show False using g unfolding free_entry_def t(2) Let_def by simp
    qed
    then show ?thesis using that [OF A] None by simp
  next
    case (Some r)
    from first_some_upt_Some [OF this] obtain s where s: "s < ?n" "free_in_sector m fs s = Some r" by blast
    obtain sector i where sec: "ReadSector fs (fat_lba fs + of_nat s) = Some sector" "i < 128" "free_entry m s sector i = Some r"
      by (rule free_in_sector_Some [OF s(2)])
    obtain e where r: "r = of_nat s * 128 + of_nat i" "\<not> r < 3" "\<not> r \<ge> m" "rd32_at sector (4 * i) = Some e" "e AND 0x0FFFFFFF = 0"
      by (rule free_entry_Some [OF sec(3)])
    have v: "valid fs r" "3 \<le> unat r" using r(2,3) m(2) by (simp_all add: valid_def word_less_nat_alt word_le_nat_alt)
    have "?n \<le> 0x200000" using wf by (simp add: fat_wf_def)
    then have lt: "s * 128 + i < 4294967296" using s(1) sec(2) by linarith
    have "r = of_nat (s * 128 + i)" unfolding r(1) by simp
    then have u: "unat r = s * 128 + i" using unat_u32_of_nat [OF lt] by (simp only:)
    then have di: "s = unat r div 128" "i = unat r mod 128" using sec(2) by simp_all
    note t = table_sector_entry [OF wf v(1) di]
    have "sector = platter (disk fs) (table_lba fs r)" using t(1) sec(1) by simp
    then have "fat fs r = 0" using t(3) r(4,5) by simp
    moreover have "r \<noteq> 0" using v(2) by auto
    ultimately show ?thesis using that [OF A] Some v by simp
  qed
qed

section \<open>Chains\<close>

text \<open>The clusters from \<open>c\<close> to the end of its chain in a table \<open>nxt\<close>.\<close>

fun fat_chain :: "(u32 \<Rightarrow> u32) \<Rightarrow> u32 \<Rightarrow> u32 list \<Rightarrow> bool" where
  "fat_chain nxt c [] \<longleftrightarrow> \<not> c < 0x0FFFFFF8"
| "fat_chain nxt c (d # ds) \<longleftrightarrow> c = d \<and> c < 0x0FFFFFF8 \<and> fat_chain nxt (nxt c) ds"

lemma fat_chain_cong: "fat_chain nxt c cs \<Longrightarrow> (\<And>d. d \<in> set cs \<Longrightarrow> nxt' d = nxt d) \<Longrightarrow> fat_chain nxt' c cs"
  by (induction cs arbitrary: c) auto

lemma fat_chain_unique: "fat_chain nxt c cs \<Longrightarrow> fat_chain nxt c ds \<Longrightarrow> cs = ds"
proof (induction cs arbitrary: c ds)
  case Nil
  then show ?case by (cases ds) auto
next
  case (Cons d cs)
  then show ?case by (cases ds) auto
qed

text \<open>What the file operations rely on of the table.\<close>

locale link_table =
  fixes inv :: "'s \<Rightarrow> bool" and ok :: "'s \<Rightarrow> u32 \<Rightarrow> bool" and get :: "'s \<Rightarrow> u32 \<Rightarrow> u32" and put :: "u32 \<Rightarrow> u32 \<Rightarrow> 's \<Rightarrow> 's"
  assumes inv_put: "inv s \<Longrightarrow> ok s c \<Longrightarrow> inv (put c v s)"
    and ok_put: "inv s \<Longrightarrow> ok s c \<Longrightarrow> ok (put c v s) = ok s"
    and get_put_same: "inv s \<Longrightarrow> ok s c \<Longrightarrow> get (put c v s) c = v AND 0x0FFFFFFF"
    and get_put_other: "inv s \<Longrightarrow> ok s c \<Longrightarrow> ok s d \<Longrightarrow> d \<noteq> c \<Longrightarrow> get (put c v s) d = get s d"
begin

lemma chain_put_other:
  assumes "inv s" and "ok s c" and "\<forall>d \<in> set cs. ok s d" and "c \<notin> set cs"
  shows "fat_chain (get (put c v s)) a cs = fat_chain (get s) a cs"
proof -
  have "get (put c v s) d = get s d" if "d \<in> set cs" for d using that assms get_put_other [of s c d v] by auto
  then show ?thesis using fat_chain_cong [of "get s" a cs "get (put c v s)"] fat_chain_cong [of "get (put c v s)" a cs "get s"] by auto
qed

lemma zero_all:
  assumes "inv s" and "\<forall>d \<in> set cs. ok s d"
  shows "inv (fold (\<lambda>c. put c 0) cs s) \<and> ok (fold (\<lambda>c. put c 0) cs s) = ok s \<and>
    (\<forall>d. ok s d \<longrightarrow> get (fold (\<lambda>c. put c 0) cs s) d = (if d \<in> set cs then 0 else get s d))"
  using assms
proof (induction cs arbitrary: s)
  case (Cons c cs)
  have c: "ok s c" "inv (put c 0 s)" "ok (put c 0 s) = ok s" using Cons.prems inv_put ok_put by auto
  have "get (put c 0 s) d = (if d = c then 0 else get s d)" if "ok s d" for d
    using get_put_same [OF Cons.prems(1) c(1), of 0] get_put_other [OF Cons.prems(1) c(1) that, of 0] by auto
  moreover have "\<forall>d \<in> set cs. ok (put c 0 s) d" using Cons.prems c(3) by simp
  ultimately show ?case using Cons.IH [OF c(2)] c(3) by auto
qed simp

end

definition set_fat :: "u32 \<Rightarrow> u32 \<Rightarrow> fat32 \<Rightarrow> fat32" where
  "set_fat c v fs = (case SetFATEntry c v fs of Some (ok, fs') \<Rightarrow> fs' | None \<Rightarrow> fs)"

lemma set_fat_facts:
  assumes "fat_wf fs" and "valid fs c"
  shows "SetFATEntry c v fs = Some (True, set_fat c v fs)" "fat_wf (set_fat c v fs)" "same_volume fs (set_fat c v fs)"
    "fat (set_fat c v fs) c = v AND 0x0FFFFFFF" "valid fs d \<Longrightarrow> d \<noteq> c \<Longrightarrow> fat (set_fat c v fs) d = fat fs d"
    "valid fs d \<Longrightarrow> content (set_fat c v fs) d = content fs d" "valid (set_fat c v fs) = valid fs"
proof -
  obtain fs' where fs': "SetFATEntry c v fs = Some (True, fs')" "fat_wf fs'" "same_volume fs fs'"
    "fat fs' c = v AND 0x0FFFFFFF" "\<And>c'. valid fs c' \<Longrightarrow> c' \<noteq> c \<Longrightarrow> fat fs' c' = fat fs c'"
    "\<And>c'. valid fs c' \<Longrightarrow> content fs' c' = content fs c'"
    by (rule SetFATEntry_ok [OF assms, of v]) (rule that; assumption)
  have "set_fat c v fs = fs'" by (simp add: set_fat_def fs'(1))
  then show "SetFATEntry c v fs = Some (True, set_fat c v fs)" "fat_wf (set_fat c v fs)" "same_volume fs (set_fat c v fs)"
    "fat (set_fat c v fs) c = v AND 0x0FFFFFFF" "valid fs d \<Longrightarrow> d \<noteq> c \<Longrightarrow> fat (set_fat c v fs) d = fat fs d"
    "valid fs d \<Longrightarrow> content (set_fat c v fs) d = content fs d" "valid (set_fat c v fs) = valid fs"
    using fs' same_volume_fields(3) [OF fs'(3)] by auto
qed

interpretation table: link_table fat_wf valid fat set_fat
  by unfold_locales (simp_all add: set_fat_facts)

text \<open>Reading a chain gives the contents of its clusters, one after the other.\<close>

lemma ReadFile_loop_chain:
  assumes wf: "fat_wf fs"
  shows "fat_chain (fat fs) c cs \<Longrightarrow> \<forall>d \<in> set cs. valid fs d \<Longrightarrow>
    unat w + length cs * unat (cluster_size fs) \<le> length buf \<Longrightarrow> length buf < 4294967296 \<Longrightarrow>
    ReadFile_loop fs c buf w = Some (take (unat w) buf @ concat (map (content fs) cs) @
      drop (unat w + length cs * unat (cluster_size fs)) buf)"
proof (induction cs arbitrary: c buf w)
  case Nil
  then show ?case by (subst ReadFile_loop.simps) simp
next
  case (Cons d cs)
  let ?k = "unat (cluster_size fs)"
  have d: "c = d" "valid fs d" "d < 0x0FFFFFF8" "fat_chain (fat fs) (fat fs d) cs" using Cons.prems by auto
  let ?b = "take (unat w) buf @ content fs d @ drop (unat w + ?k) buf"
  have r: "ReadCluster fs d buf (unat w) = Some ?b" using Cons.prems(3) by (intro ReadCluster_ok [OF wf d(2)]) simp
  have lb: "length ?b = length buf" using Cons.prems(3) content_length [OF wf] by simp
  have u: "unat (w + cluster_size fs) = unat w + ?k" using Cons.prems(3,4) by (intro unat_u32_plus) simp
  have "ReadFile_loop fs c buf w = ReadFile_loop fs (fat fs d) ?b (w + cluster_size fs)"
    using d r NextCluster_ok [OF wf d(2)] by (subst ReadFile_loop.simps) simp
  also have "\<dots> = Some (take (unat (w + cluster_size fs)) ?b @ concat (map (content fs) cs) @
      drop (unat (w + cluster_size fs) + length cs * ?k) ?b)"
    by (rule Cons.IH) (use Cons.prems d u lb in \<open>simp_all del: length_append\<close>)
  finally show ?case
    using u Cons.prems(3) content_length [OF wf, of d] by (simp add: algebra_simps)
qed

section \<open>Writing a chain\<close>

text \<open>What a write from cluster \<open>c\<close> on may change: the clusters in use by others keep their entries and contents.\<close>

definition others_kept :: "fat32 \<Rightarrow> u32 \<Rightarrow> fat32 \<Rightarrow> bool" where
  "others_kept fs c fs' \<longleftrightarrow> fat_wf fs' \<and> same_volume fs fs' \<and>
     (\<forall>d. valid fs d \<and> fat fs d \<noteq> 0 \<and> d \<noteq> c \<longrightarrow> fat fs' d = fat fs d \<and> content fs' d = content fs d)"

definition chain_written :: "fat32 \<Rightarrow> u32 \<Rightarrow> u8 list \<Rightarrow> fat32 \<Rightarrow> u32 list \<Rightarrow> bool" where
  "chain_written fs c data fs' cs \<longleftrightarrow> fat_chain (fat fs') c cs \<and> distinct cs \<and> cs \<noteq> [] \<and> (\<forall>d \<in> set cs. valid fs d) \<and>
     (\<forall>d \<in> set (tl cs). fat fs d = 0) \<and> length cs * unat (cluster_size fs) < length data + unat (cluster_size fs) \<and>
     take (length data) (concat (map (content fs') cs)) = data"

text \<open>No cluster is left to allocate.\<close>

definition full :: "fat32 \<Rightarrow> bool" where
  "full fs \<longleftrightarrow> (\<forall>c. valid fs c \<and> 3 \<le> unat c \<longrightarrow> fat fs c \<noteq> 0)"

lemma eoc_mask: "(0x0FFFFFFF :: u32) AND 0x0FFFFFFF = 0x0FFFFFFF" "\<not> (0x0FFFFFFF :: u32) < 0x0FFFFFF8"
  by simp_all

lemma valid_mask:
  assumes "fat_wf fs" and "valid fs c"
  shows "c AND 0x0FFFFFFF = c" "c < 0x0FFFFFF8" "c \<noteq> 0"
proof -
  have lt: "unat c < 0x0FFFFFF7" by (rule valid_lt [OF assms])
  have "unat (take_bit 28 c) = unat c" using lt by (simp add: take_bit_eq_mod unat_mod)
  then have "take_bit 28 c = c" by (simp only: u32_eq_iff_unat)
  then show "c AND 0x0FFFFFFF = c" by (simp add: take_bit_eq_mask mask_eq_exp_minus_1)
  show "c < 0x0FFFFFF8" using lt by (simp add: word_less_nat_alt)
  show "c \<noteq> 0" using assms(2) by (auto simp: valid_def)
qed

lemma buf_size_wf: "fat_wf fs \<Longrightarrow> buf_size fs = cluster_size fs \<and> 0 < unat (cluster_size fs) \<and> unat (cluster_size fs) \<le> 4096"
proof -
  assume wf: "fat_wf fs"
  have k: "unat (cluster_size fs) = spc fs * 512" "0 < spc fs" "spc fs \<le> 8" using wf by (simp_all add: fat_wf_def)
  then have le: "unat (cluster_size fs) \<le> 4096" "0 < unat (cluster_size fs)" by simp_all
  have "buf_size fs = cluster_size fs"
  proof (cases "cluster_size fs < 4096")
    case False
    then have "unat (cluster_size fs) = 4096" using le by (simp add: word_less_nat_alt)
    then have "cluster_size fs = 4096" by (simp add: u32_eq_iff_unat)
    then show ?thesis by (simp add: buf_size_def)
  qed (simp add: buf_size_def)
  then show ?thesis using le by simp
qed

lemma fill_buf_take:
  assumes wf: "fat_wf fs" and l: "length data \<le> unat (cluster_size fs)"
  shows "unat (cluster_size fs) \<le> length (fill_buf fs data)"
    "take (unat (cluster_size fs)) (fill_buf fs data) = data @ replicate (unat (cluster_size fs) - length data) 0"
  using l buf_size_wf [OF wf] by (simp_all add: fill_buf_def)

text \<open>Storing one cluster of data.\<close>

lemma write_one:
  assumes wf: "fat_wf fs" and c: "valid fs c" and l: "length data \<le> unat (cluster_size fs)"
  obtains fs1 where "WriteCluster c (fill_buf fs data) fs = Some (True, fs1)" and "fat_wf fs1" and "same_volume fs fs1"
    and "content fs1 c = data @ replicate (unat (cluster_size fs) - length data) 0"
    and "\<And>d. valid fs d \<Longrightarrow> d \<noteq> c \<Longrightarrow> content fs1 d = content fs d" and "\<And>d. valid fs d \<Longrightarrow> fat fs1 d = fat fs d"
  using WriteCluster_ok [OF wf c fill_buf_take(1) [OF wf l]] fill_buf_take(2) [OF wf l] by metis

text \<open>The last cluster of a file.\<close>

lemma write_last:
  assumes wf: "fat_wf fs" and c: "valid fs c" and l: "data \<noteq> []" "length data \<le> unat (cluster_size fs)"
  obtains fs1 fs2 where "WriteCluster c (fill_buf fs data) fs = Some (True, fs1)" and "SetFATEntry c 0x0FFFFFFF fs1 = Some (True, fs2)"
    and "others_kept fs c fs2" and "chain_written fs c data fs2 [c]"
proof -
  obtain fs1 where w: "WriteCluster c (fill_buf fs data) fs = Some (True, fs1)" "fat_wf fs1" "same_volume fs fs1"
    "content fs1 c = data @ replicate (unat (cluster_size fs) - length data) 0"
    "\<And>d. valid fs d \<Longrightarrow> d \<noteq> c \<Longrightarrow> content fs1 d = content fs d" "\<And>d. valid fs d \<Longrightarrow> fat fs1 d = fat fs d"
    using write_one [OF wf c l(2)] by blast
  note v = same_volume_fields(3) [OF w(3)]
  have c1: "valid fs1 c" using c v by simp
  note s = set_fat_facts [OF w(2) c1, where v = "0x0FFFFFFF"]
  let ?fs2 = "set_fat c 0x0FFFFFFF fs1"
  have "others_kept fs c ?fs2"
    unfolding others_kept_def using s(2) same_volume_trans [OF w(3) s(3)] s(5,6) w(5,6) v by simp
  moreover have "chain_written fs c data ?fs2 [c]"
    unfolding chain_written_def using s(4,6) w(4) c valid_mask [OF wf c] eoc_mask l v by simp
  ultimately show ?thesis using that [OF w(1) s(1)] by blast
qed

text \<open>A full cluster with another one after it.\<close>

lemma write_linked:
  assumes wf: "fat_wf fs" and c: "valid fs c" "fat fs c \<noteq> 0" and l: "length data = unat (cluster_size fs)"
    and n: "fat_wf fs1" "same_volume fs fs1" "\<And>d. valid fs d \<Longrightarrow> fat fs1 d = fat fs d"
      "\<And>d. valid fs d \<Longrightarrow> d \<noteq> c \<Longrightarrow> content fs1 d = content fs d" "content fs1 c = data"
    and nx: "valid fs nx" "fat fs1 nx = 0"
  defines "fs3 \<equiv> set_fat nx 0x0FFFFFFF (set_fat c nx fs1)"
  shows "fat_wf fs3" "same_volume fs fs3" "valid fs3 nx" "fat fs3 nx \<noteq> 0" "nx \<noteq> c" "fat fs3 c = nx" "content fs3 c = data"
    "SetFATEntry c nx fs1 = Some (True, set_fat c nx fs1)"
    "SetFATEntry nx 0x0FFFFFFF (set_fat c nx fs1) = Some (True, fs3)"
    "\<And>d. valid fs d \<Longrightarrow> d \<noteq> c \<Longrightarrow> d \<noteq> nx \<Longrightarrow> fat fs3 d = fat fs d"
    "\<And>d. valid fs d \<Longrightarrow> d \<noteq> c \<Longrightarrow> content fs3 d = content fs d"
proof -
  note v1 = same_volume_fields(3) [OF n(2)]
  have c1: "valid fs1 c" and x1: "valid fs1 nx" using c nx v1 by simp_all
  show ne: "nx \<noteq> c" using nx c n(3) by auto
  note s = set_fat_facts [OF n(1) c1, where v = nx]
  let ?fs2 = "set_fat c nx fs1"
  have x2: "valid ?fs2 nx" using x1 s(7) by simp
  note t = set_fat_facts [OF s(2) x2, where v = "0x0FFFFFFF", folded fs3_def]
  show "fat_wf fs3" by (rule t(2))
  show "same_volume fs fs3" using n(2) s(3) t(3) same_volume_trans by blast
  show "valid fs3 nx" using x2 t(7) by simp
  show "fat fs3 nx \<noteq> 0" using t(4) by simp
  show "fat fs3 c = nx" using t(5) [of c] s(4) valid_mask(1) [OF wf nx(1)] ne c1 s(7) by simp
  show "content fs3 c = data" using t(6) s(6) c1 s(7) n(5) by simp
  show "SetFATEntry c nx fs1 = Some (True, ?fs2)" by (rule s(1))
  show "SetFATEntry nx 0x0FFFFFFF ?fs2 = Some (True, fs3)" by (rule t(1))
  fix d
  assume d: "valid fs d" "d \<noteq> c"
  then show "content fs3 d = content fs d" using t(6) s(6) n(4) s(7) v1 by simp
  assume "d \<noteq> nx"
  then show "fat fs3 d = fat fs d" using t(5) s(5) n(3) s(7) v1 d by simp
qed

lemma chain_written_Cons:
  assumes wf: "fat_wf fs" and c: "valid fs c" "fat fs c \<noteq> 0" and l: "length data = unat (cluster_size fs)" and nx: "nx \<noteq> c" "fat fs nx = 0" "valid fs nx"
    and v: "same_volume fs fs3" "fat fs3 c = nx" "content fs3 c = data"
      "\<And>d. valid fs d \<Longrightarrow> d \<noteq> c \<Longrightarrow> d \<noteq> nx \<Longrightarrow> fat fs3 d = fat fs d"
    and k: "others_kept fs3 nx fs'" and cs: "chain_written fs3 nx rest fs' cs"
  shows "chain_written fs c (data @ rest) fs' (c # cs)"
proof -
  note f = same_volume_fields [OF v(1)]
  have nx0: "nx \<noteq> 0" "c < 0x0FFFFFF8" using valid_mask [OF wf nx(3)] valid_mask [OF wf c(1)] by simp_all
  have kept: "fat fs' c = nx" "content fs' c = data"
    using k v(2,3) nx nx0 c(1) f(3) unfolding others_kept_def by auto
  have tl: "fat fs d = 0" if d: "d \<in> set (tl cs)" for d
  proof -
    have d0: "fat fs3 d = 0" and vd: "valid fs d" using cs d f(3) list.set_sel(2) unfolding chain_written_def by fastforce+
    have "d \<noteq> c" using d0 v(2) nx0 by auto
    then show ?thesis using v(4) [OF vd] d0 nx(2) by (cases "d = nx") auto
  qed
  obtain ds where ds: "cs = nx # ds" using cs unfolding chain_written_def by (cases cs) auto
  have "c \<notin> set cs"
  proof
    assume "c \<in> set cs"
    then have "c \<in> set ds" using ds nx(1) by auto
    then have "fat fs c = 0" using tl ds by simp
    then show False using c(2) by simp
  qed
  then show ?thesis
    using cs kept nx0 c(1) tl ds l f(3,6) nx(2) unfolding chain_written_def by auto
qed

lemma others_kept_step:
  assumes "same_volume fs fs3" and "fat fs nx = 0"
    and "\<And>d. valid fs d \<Longrightarrow> d \<noteq> c \<Longrightarrow> d \<noteq> nx \<Longrightarrow> fat fs3 d = fat fs d"
    and "\<And>d. valid fs d \<Longrightarrow> d \<noteq> c \<Longrightarrow> content fs3 d = content fs d" and "others_kept fs3 nx fs'"
  shows "others_kept fs c fs'"
proof -
  have "same_volume fs fs'" using assms(1,5) same_volume_trans unfolding others_kept_def by blast
  moreover have "fat fs' d = fat fs d \<and> content fs' d = content fs d" if "valid fs d" "fat fs d \<noteq> 0" "d \<noteq> c" for d
    using that assms(2,3,4,5) same_volume_fields(3) [OF assms(1)] unfolding others_kept_def by (cases "d = nx") auto
  ultimately show ?thesis using assms(5) unfolding others_kept_def by blast
qed

lemma WriteClusterChain_loop_ok:
  assumes "fat_wf fs" and "valid fs c" and "fat fs c \<noteq> 0" and "unat w < unat sz" and "unat sz \<le> length buf"
  shows "\<exists>ok fs'. WriteClusterChain_loop c buf sz w fs = Some (ok, fs') \<and> others_kept fs c fs' \<and>
    (ok \<longrightarrow> (\<exists>cs. chain_written fs c (take (unat sz - unat w) (drop (unat w) buf)) fs' cs)) \<and> (\<not> ok \<longrightarrow> full fs')"
  using assms
proof (induction "unat sz - unat w" arbitrary: c w fs rule: less_induct)
  case less
  note wf = less.prems(1) and c = less.prems(2,3)
  note bs = buf_size_wf [OF wf]
  let ?k = "unat (cluster_size fs)"
  have sw: "unat (sz - w) = unat sz - unat w" using less.prems(4) by (intro unat_u32_minus) simp
  have wlt: "w < sz" using less.prems(4) by (simp add: word_less_nat_alt)
  show ?case
  proof (cases "?k < unat sz - unat w")
    case False
    let ?data = "take (unat sz - unat w) (drop (unat w) buf)"
    have ld: "length ?data = unat sz - unat w" using less.prems(4,5) by simp
    have g: "\<not> sz - w > buf_size fs" using False sw bs by (simp add: word_less_nat_alt)
    have b: "bytes_at buf (unat w) (unat (sz - w)) = Some ?data" using less.prems(4,5) sw by (simp add: bytes_at_def)
    obtain fs1 fs2 where f: "WriteCluster c (fill_buf fs ?data) fs = Some (True, fs1)" "SetFATEntry c 0x0FFFFFFF fs1 = Some (True, fs2)"
      "others_kept fs c fs2" "chain_written fs c ?data fs2 [c]"
      using write_last [OF wf c(1), of ?data] ld less.prems(4) False by (metis list.size(3) not_less zero_less_diff less_irrefl_nat)
    have "WriteClusterChain_loop c buf sz w fs = WriteClusterChain_loop c buf sz sz fs2"
      using wlt g b f(1,2) by (subst WriteClusterChain_loop.simps) (simp add: Let_def)
    also have "\<dots> = Some (True, fs2)" by (subst WriteClusterChain_loop.simps) simp
    finally show ?thesis using f(3,4) by blast
  next
    case True
    let ?data = "take ?k (drop (unat w) buf)"
    have g: "sz - w > buf_size fs" using True sw bs by (simp add: word_less_nat_alt)
    have b: "bytes_at buf (unat w) (unat (cluster_size fs)) = Some ?data" using True less.prems(5) by (simp add: bytes_at_def)
    have ld: "length ?data = ?k" using True less.prems(5) by simp
    have u: "unat (w + cluster_size fs) = unat w + ?k" using True unat_u32_lt [of sz] by (intro unat_u32_plus) linarith
    have more: "w + cluster_size fs < sz" using u True by (simp add: word_less_nat_alt)
    obtain fs1 where f: "WriteCluster c (fill_buf fs ?data) fs = Some (True, fs1)" "fat_wf fs1" "same_volume fs fs1"
      "content fs1 c = ?data" "\<And>d. valid fs d \<Longrightarrow> d \<noteq> c \<Longrightarrow> content fs1 d = content fs d" "\<And>d. valid fs d \<Longrightarrow> fat fs1 d = fat fs d"
      using write_one [OF wf c(1), of ?data] ld by (metis append_Nil2 diff_self_eq_0 order_refl replicate_0)
    have keep1: "others_kept fs c fs1" using f unfolding others_kept_def by simp
    obtain nx where A: "AllocCluster fs1 = Some nx" "nx \<noteq> 0 \<Longrightarrow> valid fs1 nx \<and> 3 \<le> unat nx \<and> fat fs1 nx = 0"
      "nx = 0 \<Longrightarrow> full fs1"
      using AllocCluster_ok [OF f(2)] unfolding full_def by metis
    show ?thesis
    proof (cases "nx = 0")
      case True
      have "WriteClusterChain_loop c buf sz w fs = Some (False, fs1)"
        using wlt g b f(1) bs more A(1) True by (subst WriteClusterChain_loop.simps) (simp add: Let_def)
      then show ?thesis using keep1 A(3) [OF True] by blast
    next
      case False
      then have nx: "valid fs nx" "fat fs1 nx = 0" using A(2) same_volume_fields(3) [OF f(3)] by simp_all
      note L = write_linked [OF wf c ld f(2,3) f(6) f(5) f(4) nx]
      let ?fs3 = "set_fat nx 0x0FFFFFFF (set_fat c nx fs1)"
      have cs3: "cluster_size ?fs3 = cluster_size fs" using same_volume_fields(6) [OF L(2)] .
      have step: "WriteClusterChain_loop c buf sz w fs = WriteClusterChain_loop nx buf sz (w + cluster_size fs) ?fs3"
        using wlt g b f(1) bs more A(1) False L(8,9) by (subst WriteClusterChain_loop.simps) (simp add: Let_def)
      have m: "unat sz - unat (w + cluster_size fs) < unat sz - unat w" "unat (w + cluster_size fs) < unat sz"
        using u True bs by linarith+
      obtain ok fs' where r: "WriteClusterChain_loop nx buf sz (w + cluster_size fs) ?fs3 = Some (ok, fs')" "others_kept ?fs3 nx fs'"
        "ok \<longrightarrow> (\<exists>cs. chain_written ?fs3 nx (take (unat sz - unat (w + cluster_size fs)) (drop (unat (w + cluster_size fs)) buf)) fs' cs)" "\<not> ok \<longrightarrow> full fs'"
        using less.hyps [OF m(1) L(1,3,4) m(2) less.prems(5)] by blast
      have n0: "fat fs nx = 0" using nx f(6) by simp
      have keep: "others_kept fs c fs'" by (rule others_kept_step [OF L(2) n0 L(10,11) r(2)])
      have e: "unat sz - unat w = ?k + (unat sz - (unat w + ?k))" using True by linarith
      have "take ?k (drop (unat w) buf) @ take (unat sz - unat (w + cluster_size fs)) (drop (unat (w + cluster_size fs)) buf) =
          take (unat sz - unat w) (drop (unat w) buf)"
        unfolding u e take_add drop_drop by (simp only: add.commute [of ?k "unat w"])
      then have "chain_written fs c (take (unat sz - unat w) (drop (unat w) buf)) fs' (c # cs)"
        if "chain_written ?fs3 nx (take (unat sz - unat (w + cluster_size fs)) (drop (unat (w + cluster_size fs)) buf)) fs' cs" for cs
        using chain_written_Cons [OF wf c ld L(5) n0 nx(1) L(2,6,7) L(10) r(2) that] by simp
      then show ?thesis using step r keep by metis
    qed
  qed
qed

section \<open>Freeing a chain\<close>

lemma free_chain_chain:
  "fat_wf fs \<Longrightarrow> fat_chain (fat fs) c cs \<Longrightarrow> \<forall>d \<in> set cs. valid fs d \<Longrightarrow> distinct cs \<Longrightarrow>
     free_chain c fs = Some (fold (\<lambda>c. set_fat c 0) cs fs)"
proof (induction cs arbitrary: c fs)
  case Nil
  then show ?case by (subst free_chain.simps) simp
next
  case (Cons d cs)
  have d: "c = d" "valid fs d" "d < 0x0FFFFFF8" "fat_chain (fat fs) (fat fs d) cs" using Cons.prems by auto
  have ge: "2 \<le> d" using d(2) by (simp add: valid_def word_le_nat_alt)
  note s = set_fat_facts [OF Cons.prems(1) d(2), where v = 0]
  have ch: "fat_chain (fat (set_fat d 0 fs)) (fat fs d) cs"
    using table.chain_put_other [OF Cons.prems(1) d(2), of cs 0 "fat fs d"] Cons.prems d(4) by simp
  have "free_chain c fs = free_chain (fat fs d) (set_fat d 0 fs)"
    using d ge NextCluster_ok [OF Cons.prems(1) d(2)] s(1) by (subst free_chain.simps) simp
  also have "\<dots> = Some (fold (\<lambda>c. set_fat c 0) cs (set_fat d 0 fs))"
    by (rule Cons.IH) (use Cons.prems s(2,7) ch in auto)
  finally show ?case by simp
qed

lemma fold_set_fat_content:
  "fat_wf fs \<Longrightarrow> \<forall>d \<in> set cs. valid fs d \<Longrightarrow> valid fs d \<Longrightarrow>
     content (fold (\<lambda>c. set_fat c 0) cs fs) d = content fs d \<and> same_volume fs (fold (\<lambda>c. set_fat c 0) cs fs)"
proof (induction cs arbitrary: fs)
  case (Cons c cs)
  note s = set_fat_facts [OF Cons.prems(1), of c, where v = 0]
  have "content (fold (\<lambda>c. set_fat c 0) cs (set_fat c 0 fs)) d = content (set_fat c 0 fs) d \<and>
      same_volume (set_fat c 0 fs) (fold (\<lambda>c. set_fat c 0) cs (set_fat c 0 fs))"
    by (rule Cons.IH) (use Cons.prems s in auto)
  then show ?case using s(3,6) Cons.prems same_volume_trans by auto
qed simp

section \<open>Properties\<close>

text \<open>File contents survive the disk. On a well-formed volume, writing any number of bytes from a first
  cluster that is in use on always ends; it leaves the table entries and the contents of all
  clusters in use by others as they were; and if it reports success, then reading
  the chain from the first cluster on into any buffer with room for whole clusters returns exactly
  the bytes written. It reports failure only when no cluster is left to allocate.\<close>

theorem file_round_trip:
  assumes wf: "fat_wf fs" and first: "valid fs c" "fat fs c \<noteq> 0" and sz: "0 < unat sz" "unat sz \<le> length buf"
  shows "\<exists>ok fs'. WriteClusterChain c buf sz fs = Some (ok, fs') \<and> fat_wf fs' \<and>
    (\<forall>d. valid fs d \<and> fat fs d \<noteq> 0 \<and> d \<noteq> c \<longrightarrow> fat fs' d = fat fs d \<and> content fs' d = content fs d) \<and>
    (ok \<longrightarrow> (\<forall>out. unat sz + unat (cluster_size fs) \<le> length out \<and> length out < 4294967296 \<longrightarrow>
      (\<exists>out'. ReadFile_loop fs' c out 0 = Some out' \<and> take (unat sz) out' = take (unat sz) buf))) \<and>
    (\<not> ok \<longrightarrow> (\<forall>d. valid fs' d \<and> 3 \<le> unat d \<longrightarrow> fat fs' d \<noteq> 0))"
proof -
  have "sz \<noteq> 0" using sz(1) by auto
  then obtain ok fs' where r: "WriteClusterChain c buf sz fs = Some (ok, fs')" "others_kept fs c fs'"
    "ok \<longrightarrow> (\<exists>cs. chain_written fs c (take (unat sz) buf) fs' cs)" "\<not> ok \<longrightarrow> full fs'"
    using WriteClusterChain_loop_ok [OF wf first, of 0 sz buf] sz by (auto simp: WriteClusterChain_def)
  note f = same_volume_fields [OF conjunct1 [OF conjunct2 [OF r(2) [unfolded others_kept_def]]]]
  have wf': "fat_wf fs'" using r(2) unfolding others_kept_def by blast
  have lt: "length (take (unat sz) buf) = unat sz" using sz(2) by simp
  have rd: "\<exists>out'. ReadFile_loop fs' c out 0 = Some out' \<and> take (unat sz) out' = take (unat sz) buf"
    if w: "chain_written fs c (take (unat sz) buf) fs' cs" and l: "unat sz + unat (cluster_size fs) \<le> length out" "length out < 4294967296"
    for cs out
  proof -
    have cs: "fat_chain (fat fs') c cs" "\<forall>d \<in> set cs. valid fs' d" "length cs * unat (cluster_size fs) < unat sz + unat (cluster_size fs)"
      "take (unat sz) (concat (map (content fs') cs)) = take (unat sz) buf"
      using w f(3) unfolding chain_written_def lt by auto
    have bound: "unat 0 + length cs * unat (cluster_size fs') \<le> length out" using cs(3) l(1) f(6) by simp
    have "unat sz \<le> length (concat (map (content fs') cs))"
    proof -
      have "length (take (unat sz) (concat (map (content fs') cs))) = unat sz" using cs(4) sz(2) by simp
      then show ?thesis by simp
    qed
    then show ?thesis
      using ReadFile_loop_chain [OF wf' cs(1,2) bound l(2)] cs(4) by simp
  qed
  show ?thesis using r wf' rd unfolding others_kept_def full_def by blast
qed

definition example_volume :: fat32 where
  "example_volume = \<lparr>disk = blank_drive, partition_lba = 0, bytes_per_sector = 512, sectors_per_cluster = 1,
     reserved_sectors = 32, fat_count = 1, total_sectors_16 = 0, total_sectors_32 = 100, fat_size_32 = 1,
     root_cluster = 2, fat_lba = 32, data_lba = 33, cluster_size = 512, fs_junk = replicate 4096 0\<rparr>"

lemma example_max: "max_cluster example_volume = Some 69" "cmax example_volume = 69"
  by (simp_all add: max_cluster_def cmax_def example_volume_def)

lemma example_wf: "fat_wf example_volume" "valid example_volume 3"
  using example_max by (simp_all add: fat_wf_def valid_def spc_def) (simp_all add: example_volume_def)

definition used_volume :: fat32 where
  "used_volume = set_fat 3 0x0FFFFFFF example_volume"

lemma used_volume: "fat_wf used_volume" "valid used_volume 3" "fat used_volume 3 = 0x0FFFFFFF" "cluster_size used_volume = 512"
  using set_fat_facts [OF example_wf, where v = "0x0FFFFFFF"] example_wf(2)
    same_volume_fields(6) [OF set_fat_facts(3) [OF example_wf, where v = "0x0FFFFFFF"]]
  by (simp_all add: used_volume_def example_volume_def)

theorem file_round_trip_witness:
  "\<exists>ok fs'. WriteClusterChain 3 [1, 2, 3] 3 used_volume = Some (ok, fs') \<and> fat_wf fs' \<and>
    (\<forall>d. valid used_volume d \<and> fat used_volume d \<noteq> 0 \<and> d \<noteq> 3 \<longrightarrow>
       fat fs' d = fat used_volume d \<and> content fs' d = content used_volume d) \<and>
    (ok \<longrightarrow> (\<forall>out. unat (3 :: u32) + unat (cluster_size used_volume) \<le> length out \<and> length out < 4294967296 \<longrightarrow>
      (\<exists>out'. ReadFile_loop fs' 3 out 0 = Some out' \<and> take (unat (3 :: u32)) out' = take (unat (3 :: u32)) [1, 2, 3]))) \<and>
    (\<not> ok \<longrightarrow> (\<forall>d. valid fs' d \<and> 3 \<le> unat d \<longrightarrow> fat fs' d \<noteq> 0))"
  by (rule file_round_trip) (simp_all add: used_volume)

text \<open>Deleting a file's clusters frees exactly them. If the clusters from \<open>c\<close> on form a chain, the freeing loop
  ends, every cluster of the chain is free afterwards, every other table entry is as before, and no
  contents have changed.\<close>

theorem free_chain_frees:
  assumes wf: "fat_wf fs" and ch: "fat_chain (fat fs) c cs" and v: "\<forall>d \<in> set cs. valid fs d" and d: "distinct cs"
  shows "\<exists>fs'. free_chain c fs = Some fs' \<and> fat_wf fs' \<and>
    (\<forall>d. valid fs d \<longrightarrow> fat fs' d = (if d \<in> set cs then 0 else fat fs d) \<and> content fs' d = content fs d)"
proof -
  have "fat_wf (fold (\<lambda>c. set_fat c 0) cs fs) \<and>
      (\<forall>d. valid fs d \<longrightarrow> fat (fold (\<lambda>c. set_fat c 0) cs fs) d = (if d \<in> set cs then 0 else fat fs d))"
    using table.zero_all [OF wf v] by blast
  then show ?thesis using free_chain_chain [OF wf ch v d] fold_set_fat_content [OF wf v] by blast
qed

theorem free_chain_frees_witness:
  "\<exists>fs'. free_chain 3 used_volume = Some fs' \<and> fat_wf fs' \<and>
    (\<forall>d. valid used_volume d \<longrightarrow> fat fs' d = (if d \<in> set [3] then 0 else fat used_volume d) \<and>
      content fs' d = content used_volume d)"
  by (rule free_chain_frees) (simp_all add: used_volume)

end
