(* ===== verification/Fat32_Files.thy ===== *)
theory Fat32_Files
  imports Fat32_Table
begin

text \<open>
  The FAT32 file system (\<^verbatim>\<open>src/src/fs/fat32.cpp\<close>), upper half: names, directories, paths and the
  operations on files. A C string is the list of its characters before the terminating zero; a
  directory entry is its 32 bytes.
\<close>

section \<open>Names\<close>

definition upcase :: "u8 \<Rightarrow> u8" where
  "upcase c = (if 97 \<le> c \<and> c \<le> 122 then c - 32 else c)"

text \<open>The loops that fill the name: up to position \<open>limit\<close>, or to the end, or to a character that stops it.\<close>

fun fill_name :: "(u8 \<Rightarrow> bool) \<Rightarrow> nat \<Rightarrow> nat \<Rightarrow> u8 list \<Rightarrow> u8 list \<Rightarrow> u8 list \<times> u8 list" where
  "fill_name stop limit p [] out = (out, [])"
| "fill_name stop limit p (c # cs) out =
     (if stop c \<or> p \<ge> limit then (out, c # cs) else fill_name stop limit (p + 1) cs (out[p := upcase c]))"

definition ToShortName :: "u8 list \<Rightarrow> u8 list" where
  "ToShortName component =
     (let (out, rest) = fill_name (\<lambda>c. c = 0x2E) 8 0 component (replicate 11 0x20)
      in case rest of
           [] \<Rightarrow> out
         | c # cs \<Rightarrow> if c = 0x2E then fst (fill_name (\<lambda>c. False) 11 8 cs out) else out)"

definition NamesMatch :: "u8 list \<Rightarrow> u8 list \<Rightarrow> bool" where
  "NamesMatch dir_name name83 = list_all (\<lambda>i. dir_name ! i = name83 ! i) [0..<11]"

section \<open>Directory entries\<close>

definition de_attributes :: "u8 list \<Rightarrow> u8" where "de_attributes e = e ! 11"
definition de_cluster :: "u8 list \<Rightarrow> u32" where
  "de_cluster e = push_bit 16 (ucast (le16 (e ! 20) (e ! 21))) OR ucast (le16 (e ! 26) (e ! 27))"
definition de_size :: "u8 list \<Rightarrow> u32" where
  "de_size e = le32 (e ! 28) (e ! 29) (e ! 30) (e ! 31)"
definition is_dir :: "u8 list \<Rightarrow> bool" where
  "is_dir e \<longleftrightarrow> de_attributes e AND 0x10 \<noteq> 0"

definition BuildDirEntry :: "u8 list \<Rightarrow> u8 \<Rightarrow> u32 \<Rightarrow> u32 \<Rightarrow> u8 list" where
  "BuildDirEntry name83 attr cluster sz =
     take 8 name83 @ take 3 (drop 8 name83) @ [attr, 0, 0] @ put16 0x0000 @ put16 0x4A21 @ put16 0x4A21 @
     put16 (ucast (drop_bit 16 cluster)) @ put16 0x0000 @ put16 0x4A21 @ put16 (ucast (cluster AND 0xFFFF)) @ put32 sz"

text \<open>The scan of one cluster of a directory: entry after entry, \<open>n\<close> of them, from entry \<open>i\<close> on.\<close>

datatype scan = End | Found nat "u8 list" | More

fun FindEntry_scan :: "u8 list \<Rightarrow> u8 list \<Rightarrow> nat \<Rightarrow> nat \<Rightarrow> scan option" where
  "FindEntry_scan name83 buf i 0 = Some More"
| "FindEntry_scan name83 buf i (Suc n) = do {
     e \<leftarrow> bytes_at buf (32 * i) 32;
     if e ! 0 = 0x00 then Some End
     else if e ! 0 = 0xE5 then FindEntry_scan name83 buf (i + 1) n
     else if de_attributes e = 0x0F then FindEntry_scan name83 buf (i + 1) n
     else if NamesMatch e name83 then Some (Found i e)
     else FindEntry_scan name83 buf (i + 1) n
   }"

partial_function (option) FindEntry_loop :: "fat32 \<Rightarrow> u8 list \<Rightarrow> u32 \<Rightarrow> u8 list \<Rightarrow> u8 list option option" where
  "FindEntry_loop fs name83 cluster buf =
     (if cluster < 0x0FFFFFF8
      then do {
        buf \<leftarrow> ReadCluster fs cluster buf 0;
        r \<leftarrow> FindEntry_scan name83 buf 0 (unat (cluster_size fs div 32));
        case r of
          End \<Rightarrow> Some None
        | Found i e \<Rightarrow> Some (Some e)
        | More \<Rightarrow> do { c \<leftarrow> NextCluster fs cluster; FindEntry_loop fs name83 c buf }
      }
      else Some None)"

definition FindEntry :: "fat32 \<Rightarrow> u32 \<Rightarrow> u8 list \<Rightarrow> u8 list option option" where
  "FindEntry fs dir_cluster name = FindEntry_loop fs (ToShortName name) dir_cluster (fs_junk fs)"

fun AddDirEntry_scan :: "u8 list \<Rightarrow> nat \<Rightarrow> nat \<Rightarrow> nat option option" where
  "AddDirEntry_scan buf i 0 = Some None"
| "AddDirEntry_scan buf i (Suc n) = do {
     b \<leftarrow> rd8 buf (32 * i);
     if b = 0x00 \<or> b = 0xE5 then Some (Some i) else AddDirEntry_scan buf (i + 1) n
   }"

partial_function (option) AddDirEntry_loop ::
  "u32 \<Rightarrow> u32 \<Rightarrow> u8 list \<Rightarrow> u8 list \<Rightarrow> fat32 \<Rightarrow> (bool \<times> fat32) option" where
  "AddDirEntry_loop cluster prev_cluster buf entry fs =
     (if cluster < 0x0FFFFFF8
      then do {
        buf \<leftarrow> ReadCluster fs cluster buf 0;
        r \<leftarrow> AddDirEntry_scan buf 0 (unat (buf_size fs div 32));
        case r of
          Some i \<Rightarrow> do { buf \<leftarrow> copy_bytes buf (32 * i) entry 32; WriteCluster cluster buf fs }
        | None \<Rightarrow> do { c \<leftarrow> NextCluster fs cluster; AddDirEntry_loop c cluster buf entry fs }
      }
      else do {
        new_cluster \<leftarrow> AllocCluster fs;
        if new_cluster = 0 then Some (False, fs)
        else do {
          buf \<leftarrow> copy_bytes (replicate (unat (buf_size fs)) 0 @ drop (unat (buf_size fs)) buf) 0 entry 32;
          (ok, fs) \<leftarrow> SetFATEntry prev_cluster new_cluster fs;
          if \<not> ok then Some (False, fs)
          else do {
            (ok, fs) \<leftarrow> SetFATEntry new_cluster 0x0FFFFFFF fs;
            if \<not> ok then Some (False, fs) else WriteCluster new_cluster buf fs
          }
        }
      })"

definition AddDirEntry :: "u32 \<Rightarrow> u8 list \<Rightarrow> fat32 \<Rightarrow> (bool \<times> fat32) option" where
  "AddDirEntry dir_cluster entry fs = AddDirEntry_loop dir_cluster 0 (fs_junk fs) entry fs"

fun MarkEntryDeleted_scan :: "u8 list \<Rightarrow> u8 list \<Rightarrow> nat \<Rightarrow> nat \<Rightarrow> scan option" where
  "MarkEntryDeleted_scan name83 buf i 0 = Some More"
| "MarkEntryDeleted_scan name83 buf i (Suc n) = do {
     e \<leftarrow> bytes_at buf (32 * i) 32;
     if e ! 0 = 0x00 then Some End
     else if e ! 0 = 0xE5 then MarkEntryDeleted_scan name83 buf (i + 1) n
     else if NamesMatch e name83 then Some (Found i e)
     else MarkEntryDeleted_scan name83 buf (i + 1) n
   }"

partial_function (option) MarkEntryDeleted_loop ::
  "u32 \<Rightarrow> u8 list \<Rightarrow> u8 list \<Rightarrow> fat32 \<Rightarrow> (bool \<times> fat32) option" where
  "MarkEntryDeleted_loop cluster name83 buf fs =
     (if cluster < 0x0FFFFFF8
      then do {
        buf \<leftarrow> ReadCluster fs cluster buf 0;
        r \<leftarrow> MarkEntryDeleted_scan name83 buf 0 (unat (buf_size fs div 32));
        case r of
          End \<Rightarrow> Some (False, fs)
        | Found i e \<Rightarrow> WriteCluster cluster (buf[32 * i := 0xE5]) fs
        | More \<Rightarrow> do { c \<leftarrow> NextCluster fs cluster; MarkEntryDeleted_loop c name83 buf fs }
      }
      else Some (False, fs))"

definition MarkEntryDeleted :: "u32 \<Rightarrow> u8 list \<Rightarrow> fat32 \<Rightarrow> (bool \<times> fat32) option" where
  "MarkEntryDeleted dir_cluster name83 fs = MarkEntryDeleted_loop dir_cluster name83 (fs_junk fs) fs"

section \<open>Paths\<close>

fun next_component :: "nat \<Rightarrow> u8 list \<Rightarrow> u8 list \<times> u8 list" where
  "next_component j [] = ([], [])"
| "next_component 0 (c # cs) = ([], c # cs)"
| "next_component (Suc j) (c # cs) =
     (if c = 0x2F then ([], c # cs) else let (comp, rest) = next_component j cs in (c # comp, rest))"

definition skip_slash :: "u8 list \<Rightarrow> u8 list" where
  "skip_slash p = (case p of c # cs \<Rightarrow> if c = 0x2F then cs else p | [] \<Rightarrow> [])"

definition skip_slashes :: "u8 list \<Rightarrow> u8 list" where
  "skip_slashes p = dropWhile (\<lambda>c. c = 0x2F) p"

lemma next_component_shorter: "length (snd (next_component j p)) \<le> length p"
  by (induction j p rule: next_component.induct) (auto simp: Let_def case_prod_beta)

lemma next_component_progress:
  assumes "p \<noteq> []"
  shows "length (skip_slash (snd (next_component 12 p))) < length p" "length (skip_slashes (snd (next_component 12 p))) < length p"
proof -
  obtain c cs where p: "p = c # cs" using assms by (cases p) auto
  have n: "snd (next_component 12 p) = (if c = 0x2F then c # cs else snd (next_component 11 cs))"
    unfolding p using next_component.simps(3) [of 11 c cs] by (simp add: eval_nat_numeral Let_def case_prod_beta)
  have le: "length (snd (next_component 11 cs)) \<le> length cs" by (rule next_component_shorter)
  have sk: "length (skip_slash q) \<le> length q" "length (skip_slashes q) \<le> length q" for q
    by (simp_all add: skip_slash_def skip_slashes_def length_dropWhile_le split: list.split)
  have tl: "length (skip_slash (0x2F # cs)) < length p" "length (skip_slashes (0x2F # cs)) < length p"
    using sk(2) [of cs] by (simp_all add: p skip_slash_def skip_slashes_def)
  show "length (skip_slash (snd (next_component 12 p))) < length p"
    unfolding n using le tl(1) sk(1) [of "snd (next_component 11 cs)"] by (simp add: p)
  show "length (skip_slashes (snd (next_component 12 p))) < length p"
    unfolding n using le tl(2) sk(2) [of "snd (next_component 11 cs)"] by (simp add: p)
qed

function ResolveParentDir_loop :: "fat32 \<Rightarrow> u32 \<Rightarrow> u8 list \<Rightarrow> (u32 \<times> u8 list) option option" where
  "ResolveParentDir_loop fs dir_cluster path =
     (if path = [] then Some None
      else let component = fst (next_component 12 path);
               rest = skip_slash (snd (next_component 12 path))
           in if rest = [] then Some (Some (dir_cluster, component))
              else do {
                r \<leftarrow> FindEntry fs dir_cluster component;
                case r of
                  None \<Rightarrow> Some None
                | Some entry \<Rightarrow> if \<not> is_dir entry then Some None else ResolveParentDir_loop fs (de_cluster entry) rest
              })"
  by pat_completeness auto
termination
  by (relation "measure (\<lambda>(fs, dir, path). length path)") (auto simp: next_component_progress)

declare ResolveParentDir_loop.simps [simp del]

definition ResolveParentDir :: "fat32 \<Rightarrow> u8 list \<Rightarrow> (u32 \<times> u8 list) option option" where
  "ResolveParentDir fs path = ResolveParentDir_loop fs (root_cluster fs) (skip_slash path)"

datatype resolved = NotFound | Root | Entry "u8 list"

function ResolvePath_loop :: "fat32 \<Rightarrow> u32 \<Rightarrow> u8 list \<Rightarrow> resolved option" where
  "ResolvePath_loop fs dir_cluster path =
     (if path = [] then Some NotFound
      else do {
        let component = fst (next_component 12 path);
        r \<leftarrow> FindEntry fs dir_cluster component;
        let rest = skip_slashes (snd (next_component 12 path));
        case r of
          None \<Rightarrow> Some NotFound
        | Some entry \<Rightarrow>
            if rest = [] then Some (Entry entry)
            else if \<not> is_dir entry then Some NotFound
            else ResolvePath_loop fs (de_cluster entry) rest
      })"
  by pat_completeness auto
termination
  by (relation "measure (\<lambda>(fs, dir, path). length path)") (auto simp: next_component_progress)

declare ResolvePath_loop.simps [simp del]

definition ResolvePath :: "fat32 \<Rightarrow> u8 list \<Rightarrow> resolved option" where
  "ResolvePath fs path =
     (if path = [] then Some Root
      else let p = skip_slashes path in if p = [] then Some Root else ResolvePath_loop fs (root_cluster fs) p)"

section \<open>Files\<close>

definition ReadFile :: "fat32 \<Rightarrow> u8 list \<Rightarrow> u8 list \<Rightarrow> (u8 list \<times> u32) option option" where
  "ReadFile fs path buffer = do {
     r \<leftarrow> ResolvePath fs path;
     case r of
       Entry entry \<Rightarrow>
         if is_dir entry then Some None
         else do { b \<leftarrow> ReadFile_loop fs (de_cluster entry) buffer 0; Some (Some (b, de_size entry)) }
     | _ \<Rightarrow> Some None
   }"

text \<open>The part of a write after the parent directory has been found and an old file of the name freed.\<close>

definition WriteFile_new ::
  "u32 \<Rightarrow> u8 list \<Rightarrow> bool \<Rightarrow> u8 list \<Rightarrow> u32 \<Rightarrow> fat32 \<Rightarrow> (bool \<times> fat32) option" where
  "WriteFile_new dir_cluster name83 exists buffer sz fs = do {
     first_cluster \<leftarrow> AllocCluster fs;
     if first_cluster = 0 then Some (False, fs)
     else do {
       (ok, fs) \<leftarrow> SetFATEntry first_cluster 0x0FFFFFFF fs;
       if \<not> ok then Some (False, fs)
       else do {
         (ok, fs) \<leftarrow> WriteClusterChain first_cluster buffer sz fs;
         if \<not> ok then Some (False, fs)
         else do {
           fs \<leftarrow> (if exists then map_option snd (MarkEntryDeleted dir_cluster name83 fs) else Some fs);
           AddDirEntry dir_cluster (BuildDirEntry name83 0x20 first_cluster sz) fs
         }
       }
     }
   }"

definition WriteFile :: "u8 list \<Rightarrow> u8 list \<Rightarrow> u32 \<Rightarrow> fat32 \<Rightarrow> (bool \<times> fat32) option" where
  "WriteFile path buffer sz fs = do {
     r \<leftarrow> ResolveParentDir fs path;
     case r of
       None \<Rightarrow> Some (False, fs)
     | Some (dir_cluster, component) \<Rightarrow> do {
         existing \<leftarrow> FindEntry fs dir_cluster component;
         case existing of
           None \<Rightarrow> WriteFile_new dir_cluster (ToShortName component) False buffer sz fs
         | Some e \<Rightarrow>
             if is_dir e then Some (False, fs)
             else do {
               fs \<leftarrow> free_chain (de_cluster e) fs;
               WriteFile_new dir_cluster (ToShortName component) True buffer sz fs
             }
       }
   }"

definition DeleteFile :: "u8 list \<Rightarrow> fat32 \<Rightarrow> (bool \<times> fat32) option" where
  "DeleteFile path fs = do {
     r \<leftarrow> ResolveParentDir fs path;
     case r of
       None \<Rightarrow> Some (False, fs)
     | Some (dir_cluster, component) \<Rightarrow> do {
         existing \<leftarrow> FindEntry fs dir_cluster component;
         case existing of
           None \<Rightarrow> Some (False, fs)
         | Some e \<Rightarrow>
             if is_dir e then Some (False, fs)
             else do {
               fs \<leftarrow> free_chain (de_cluster e) fs;
               MarkEntryDeleted dir_cluster (ToShortName component) fs
             }
       }
   }"

definition CreateFile :: "u8 list \<Rightarrow> fat32 \<Rightarrow> (bool \<times> fat32) option" where
  "CreateFile path fs = WriteFile path [] 0 fs"

definition dot_name :: "u8 list" where "dot_name = 0x2E # replicate 10 0x20"
definition dotdot_name :: "u8 list" where "dotdot_name = 0x2E # 0x2E # replicate 9 0x20"

definition MakeDir :: "u8 list \<Rightarrow> fat32 \<Rightarrow> (bool \<times> fat32) option" where
  "MakeDir path fs = do {
     r \<leftarrow> ResolveParentDir fs path;
     case r of
       None \<Rightarrow> Some (False, fs)
     | Some (dir_cluster, component) \<Rightarrow> do {
         new_cluster \<leftarrow> AllocCluster fs;
         if new_cluster = 0 then Some (False, fs)
         else do {
           (ok, fs) \<leftarrow> SetFATEntry new_cluster 0x0FFFFFFF fs;
           if \<not> ok then Some (False, fs)
           else do {
             let parent = (if dir_cluster = root_cluster fs then 0 else dir_cluster);
             buf \<leftarrow> copy_bytes (fill_buf fs []) 0 (BuildDirEntry dot_name 0x10 new_cluster 0) 32;
             buf \<leftarrow> copy_bytes buf 32 (BuildDirEntry dotdot_name 0x10 parent 0) 32;
             (ok, fs) \<leftarrow> WriteCluster new_cluster buf fs;
             if \<not> ok then Some (False, fs)
             else AddDirEntry dir_cluster (BuildDirEntry (ToShortName component) 0x10 new_cluster 0) fs
           }
         }
       }
   }"

definition IsDirectory :: "fat32 \<Rightarrow> u8 list \<Rightarrow> bool option" where
  "IsDirectory fs path = do {
     r \<leftarrow> ResolvePath fs path;
     Some (case r of NotFound \<Rightarrow> False | Root \<Rightarrow> True | Entry e \<Rightarrow> is_dir e)
   }"

section \<open>Listing\<close>

text \<open>The output of a listing goes through a buffer of 256 characters: what has been handed to the
  terminal, call by call, and what the buffer holds.\<close>

type_synonym out_buf = "u8 list list \<times> u8 list"

definition fat_output_flush :: "out_buf \<Rightarrow> out_buf" where
  "fat_output_flush w = (if snd w = [] then w else (fst w @ [snd w], []))"

definition fat_output_char :: "u8 \<Rightarrow> out_buf \<Rightarrow> out_buf" where
  "fat_output_char c w =
     (let w = (if length (snd w) \<ge> 256 then fat_output_flush w else w) in (fst w, snd w @ [c]))"

definition fat_output_str :: "u8 list \<Rightarrow> out_buf \<Rightarrow> out_buf" where
  "fat_output_str s w = fold fat_output_char s w"

fun decimal_digits :: "nat \<Rightarrow> u32 \<Rightarrow> u8 list" where
  "decimal_digits 0 v = []"
| "decimal_digits (Suc d) v = (if v > 0 then (0x30 + ucast (v mod 10)) # decimal_digits d (v div 10) else [])"

definition fat_output_u32 :: "u32 \<Rightarrow> out_buf \<Rightarrow> out_buf" where
  "fat_output_u32 v w =
     (if v = 0 then fat_output_char 0x30 w else fat_output_str (rev (decimal_digits 10 v)) w)"

text \<open>The name of an entry as the listings show it.\<close>

definition shown_name :: "u8 list \<Rightarrow> u8 list" where
  "shown_name e =
     filter (\<lambda>c. c \<noteq> 0x20) (take 8 e) @
     (if e ! 8 \<noteq> 0x20 then 0x2E # filter (\<lambda>c. c \<noteq> 0x20) (take 3 (drop 8 e)) else []) @
     (if is_dir e then [0x2F] else [])"

definition listed :: "u8 list \<Rightarrow> bool" where
  "listed e \<longleftrightarrow> e ! 0 \<noteq> 0xE5 \<and> de_attributes e \<noteq> 0x0F \<and> e ! 0 \<noteq> 0x2E"

fun ListToBuffer_scan :: "u8 list \<Rightarrow> nat \<Rightarrow> nat \<Rightarrow> u8 list \<Rightarrow> (bool \<times> u8 list) option" where
  "ListToBuffer_scan buf j 0 out = Some (False, out)"
| "ListToBuffer_scan buf j (Suc n) out = do {
     e \<leftarrow> bytes_at buf (32 * j) 32;
     if e ! 0 = 0x00 then Some (True, out)
     else ListToBuffer_scan buf (j + 1) n (if listed e then out @ shown_name e @ [0x0A] else out)
   }"

partial_function (option) ListToBuffer_loop :: "fat32 \<Rightarrow> u32 \<Rightarrow> u8 list \<Rightarrow> u8 list \<Rightarrow> u8 list option" where
  "ListToBuffer_loop fs cluster buf out =
     (if cluster < 0x0FFFFFF8
      then do {
        buf \<leftarrow> ReadCluster fs cluster buf 0;
        (finished, out) \<leftarrow> ListToBuffer_scan buf 0 (unat (buf_size fs div 32)) out;
        c \<leftarrow> NextCluster fs cluster;
        if finished then Some out else ListToBuffer_loop fs c buf out
      }
      else Some out)"

definition list_dir_cluster :: "fat32 \<Rightarrow> u8 list \<Rightarrow> u32 option option" where
  "list_dir_cluster fs path = do {
     r \<leftarrow> ResolvePath fs path;
     Some (case r of NotFound \<Rightarrow> None | Root \<Rightarrow> Some (root_cluster fs)
       | Entry e \<Rightarrow> if is_dir e then Some (de_cluster e) else None)
   }"

definition ListDirectoryToBuffer :: "fat32 \<Rightarrow> u8 list \<Rightarrow> u8 list option option" where
  "ListDirectoryToBuffer fs path = do {
     r \<leftarrow> list_dir_cluster fs path;
     case r of
       None \<Rightarrow> Some None
     | Some dir_cluster \<Rightarrow> map_option Some (ListToBuffer_loop fs dir_cluster (fs_junk fs) [])
   }"

text \<open>One entry of the listing on the terminal: the name, padding to 13 columns, the size or a mark, and
  the separator that makes two columns of entries.\<close>

definition list_entry :: "u8 list \<Rightarrow> nat \<times> out_buf \<Rightarrow> nat \<times> out_buf" where
  "list_entry e st =
     (let (rendered, w) = st;
          w = fat_output_str (shown_name e) w;
          w = fat_output_str (replicate (13 - length (shown_name e)) 0x20) w;
          w = (if is_dir e then fat_output_str [0x3C, 0x44, 0x49, 0x52, 0x3E] w else fat_output_u32 (de_size e) w);
          rendered = rendered + 1
      in (rendered, if even rendered then fat_output_char 0x0A w else fat_output_char 0x20 (fat_output_char 0x20 w)))"

fun List_scan :: "u8 list \<Rightarrow> nat \<Rightarrow> nat \<Rightarrow> nat \<times> out_buf \<Rightarrow> (bool \<times> nat \<times> out_buf) option" where
  "List_scan buf j 0 st = Some (False, st)"
| "List_scan buf j (Suc n) st = do {
     e \<leftarrow> bytes_at buf (32 * j) 32;
     if e ! 0 = 0x00 then Some (True, st)
     else List_scan buf (j + 1) n (if listed e then list_entry e st else st)
   }"

partial_function (option) List_loop :: "fat32 \<Rightarrow> u32 \<Rightarrow> u8 list \<Rightarrow> nat \<times> out_buf \<Rightarrow> (nat \<times> out_buf) option" where
  "List_loop fs cluster buf st =
     (if cluster < 0x0FFFFFF8
      then do {
        buf \<leftarrow> ReadCluster fs cluster buf 0;
        (finished, st) \<leftarrow> List_scan buf 0 (unat (cluster_size fs div 32)) st;
        c \<leftarrow> NextCluster fs cluster;
        if finished then Some st else List_loop fs c buf st
      }
      else Some st)"

text \<open>The result and, if there is one, what the terminal has been given.\<close>

definition ListDirectory :: "fat32 \<Rightarrow> u8 list \<Rightarrow> u8 list list option option" where
  "ListDirectory fs path = do {
     r \<leftarrow> list_dir_cluster fs path;
     case r of
       None \<Rightarrow> Some None
     | Some dir_cluster \<Rightarrow> do {
         (rendered, w) \<leftarrow> List_loop fs dir_cluster (fs_junk fs) (0, ([], []));
         Some (Some (fst (fat_output_flush (if odd rendered then fat_output_char 0x0A w else w))))
       }
   }"

section \<open>Names\<close>

definition pad :: "nat \<Rightarrow> u8 list \<Rightarrow> u8 list" where
  "pad n xs = xs @ replicate (n - length xs) 0x20"

text \<open>The 8.3 form of a name: the first eight characters before a dot, and the first three after it if the
  dot follows them at once, in capitals and padded with blanks.\<close>

definition short_name :: "u8 list \<Rightarrow> u8 list" where
  "short_name component =
     (let base = take 8 (takeWhile (\<lambda>c. c \<noteq> 0x2E) component);
          ext = (case drop (length base) component of c # cs \<Rightarrow> if c = 0x2E then take 3 cs else [] | [] \<Rightarrow> [])
      in pad 8 (map upcase base) @ pad 3 (map upcase ext))"

lemma fill_name_spec:
  assumes "p \<le> limit" and "limit \<le> length out"
  shows "fill_name stop limit p cs out =
    (let t = take (limit - p) (takeWhile (\<lambda>c. \<not> stop c) cs)
     in (take p out @ map upcase t @ drop (p + length t) out, drop (length t) cs))"
  using assms
proof (induction cs arbitrary: p out)
  case (Cons c cs)
  show ?case
  proof (cases "stop c \<or> p \<ge> limit")
    case True
    then show ?thesis using Cons.prems by (auto simp: Let_def)
  next
    case False
    then have lp: "limit - p = Suc (limit - Suc p)" by auto
    let ?t = "take (limit - Suc p) (takeWhile (\<lambda>c. \<not> stop c) cs)"
    have "fill_name stop limit p (c # cs) out = fill_name stop limit (Suc p) cs (out[p := upcase c])" using False by simp
    also have "\<dots> = (take (Suc p) (out[p := upcase c]) @ map upcase ?t @ drop (Suc p + length ?t) (out[p := upcase c]), drop (length ?t) cs)"
      using Cons.IH [of "Suc p" "out[p := upcase c]"] False Cons.prems by (simp add: Let_def)
    also have "take (Suc p) (out[p := upcase c]) = take p out @ [upcase c]"
      using False Cons.prems by (simp add: take_Suc_conv_app_nth)
    finally show ?thesis using False by (simp add: Let_def lp)
  qed
qed (simp add: Let_def)

lemma drop_replicate_pad:
  "length b \<le> 8 \<Longrightarrow> b @ drop (length b) (replicate 11 0x20) = pad 8 b @ replicate 3 0x20"
  by (simp add: pad_def replicate_add [symmetric])

lemma takeWhile_True: "takeWhile (\<lambda>c. True) cs = cs"
  by (simp add: takeWhile_eq_all_conv)

lemma ToShortName_eq: "ToShortName component = short_name component"
proof -
  let ?b = "take 8 (takeWhile (\<lambda>c. c \<noteq> 0x2E) component)"
  let ?r = "drop (length ?b) component"
  have f1: "fill_name (\<lambda>c. c = 0x2E) 8 0 component (replicate 11 0x20) = (pad 8 (map upcase ?b) @ replicate 3 0x20, ?r)"
    using drop_replicate_pad [of "map upcase ?b"] fill_name_spec [of 0 8 "replicate 11 0x20" "\<lambda>c. c = 0x2E" component]
    by (simp add: Let_def)
  have l8: "length (pad 8 (map upcase ?b)) = 8" by (simp add: pad_def)
  have f2: "fst (fill_name (\<lambda>c. False) 11 8 cs (pad 8 (map upcase ?b) @ replicate 3 0x20)) =
      pad 8 (map upcase ?b) @ pad 3 (map upcase (take 3 cs))" for cs
    using fill_name_spec [of 8 11 "pad 8 (map upcase ?b) @ replicate 3 0x20" "\<lambda>c. False" cs] l8
    by (simp add: Let_def pad_def [of 3] takeWhile_True)
  have p3: "replicate 3 0x20 = pad 3 (map upcase [])" by (simp add: pad_def)
  show ?thesis
    unfolding ToShortName_def short_name_def f1 Let_def prod.case
    using f2 p3 by (auto split: list.split)
qed

lemma short_name_length [simp]: "length (short_name c) = 11"
  by (auto simp: short_name_def Let_def pad_def split: list.split)

lemma ToShortName_length [simp]: "length (ToShortName c) = 11"
  by (simp add: ToShortName_eq)

section \<open>Directory entries\<close>

lemma BuildDirEntry_length [simp]: "length n = 11 \<Longrightarrow> length (BuildDirEntry n a c z) = 32"
  by (simp add: BuildDirEntry_def)

lemma cluster_split:
  fixes c :: u32
  shows "push_bit 16 (ucast (ucast (drop_bit 16 c) :: u16)) OR ucast (ucast (c AND 0xFFFF) :: u16) = c"
proof -
  have m: "(0xFFFF :: u32) = mask 16" by (simp add: mask_eq_exp_minus_1)
  show ?thesis unfolding m
  proof (rule bit_word_eqI)
    fix n
    assume "n < LENGTH(32)"
    then consider "n < 16" | "16 \<le> n" "n < 32" by fastforce
    then show "bit (push_bit 16 (ucast (ucast (drop_bit 16 c) :: u16)) OR ucast (ucast (c AND mask 16) :: u16) :: u32) n = bit c n"
      by cases (auto simp: bit_simps)
  qed
qed

lemma BuildDirEntry_fields:
  assumes "length n = 11"
  shows "take 11 (BuildDirEntry n a c z) = n" "de_attributes (BuildDirEntry n a c z) = a"
    "de_cluster (BuildDirEntry n a c z) = c" "de_size (BuildDirEntry n a c z) = z" "BuildDirEntry n a c z ! 0 = n ! 0"
proof -
  have n: "take 8 n @ take 3 (drop 8 n) = n" using assms by (simp add: append_take_drop_id)
  let ?r = "[a, 0, 0] @ put16 0x0000 @ put16 0x4A21 @ put16 0x4A21 @
     put16 (ucast (drop_bit 16 c)) @ put16 0x0000 @ put16 0x4A21 @ put16 (ucast (c AND 0xFFFF)) @ put32 z"
  have b: "BuildDirEntry n a c z = n @ ?r" using n by (simp add: BuildDirEntry_def)
  show "take 11 (BuildDirEntry n a c z) = n" "de_attributes (BuildDirEntry n a c z) = a" "BuildDirEntry n a c z ! 0 = n ! 0"
    using assms by (simp_all add: b de_attributes_def nth_append)
  show "de_size (BuildDirEntry n a c z) = z"
    using assms by (simp add: b de_size_def nth_append put16_def put32_def le32_byte_of [simplified])
  show "de_cluster (BuildDirEntry n a c z) = c"
    using assms cluster_split [of c] by (simp add: b de_cluster_def nth_append put16_def put32_def le16_byte_of [simplified])
qed

section \<open>Directories as lists of entries\<close>

text \<open>What a directory is to its clients: a list of 32 byte entries, searched up to the first one that starts with a
  zero byte. The scans of the code are refined to functions on that list.\<close>

definition matches :: "u8 list \<Rightarrow> u8 list \<Rightarrow> bool" where
  "matches nm e \<longleftrightarrow> e ! 0 \<noteq> 0xE5 \<and> de_attributes e \<noteq> 0x0F \<and> NamesMatch e nm"

fun search :: "u8 list \<Rightarrow> nat \<Rightarrow> u8 list list \<Rightarrow> scan" where
  "search nm i [] = More"
| "search nm i (e # es) = (if e ! 0 = 0 then End else if matches nm e then Found i e else search nm (Suc i) es)"

definition lookup :: "u8 list \<Rightarrow> u8 list list \<Rightarrow> u8 list option" where
  "lookup nm es = (case search nm 0 es of Found i e \<Rightarrow> Some e | _ \<Rightarrow> None)"

definition in_use :: "u8 list \<Rightarrow> bool" where
  "in_use e \<longleftrightarrow> e ! 0 \<noteq> 0 \<and> e ! 0 \<noteq> 0xE5"

fun free_slot :: "u8 list list \<Rightarrow> nat option" where
  "free_slot [] = None"
| "free_slot (e # es) = (if in_use e then map_option Suc (free_slot es) else Some 0)"

text \<open>Adding an entry: in the first free place, or in a new cluster of \<open>k\<close> places.\<close>

definition add_entry :: "nat \<Rightarrow> u8 list \<Rightarrow> u8 list list \<Rightarrow> u8 list list" where
  "add_entry k e es = (case free_slot es of Some i \<Rightarrow> es[i := e] | None \<Rightarrow> es @ e # replicate (k - 1) (replicate 32 0))"

lemma lookup_simps [simp]:
  "lookup nm [] = None"
  "lookup nm (e # es) = (if e ! 0 = 0 then None else if matches nm e then Some e else lookup nm es)"
proof -
  have "(case search nm (Suc i) es of Found i e \<Rightarrow> Some e | _ \<Rightarrow> None) = (case search nm i es of Found i e \<Rightarrow> Some e | _ \<Rightarrow> None)" for i
    by (induction es arbitrary: i) auto
  then show "lookup nm [] = None"
    "lookup nm (e # es) = (if e ! 0 = 0 then None else if matches nm e then Some e else lookup nm es)"
    by (simp_all add: lookup_def)
qed

lemma lookup_append:
  "lookup nm (xs @ ys) = (case search nm 0 xs of Found i e \<Rightarrow> Some e | End \<Rightarrow> None | More \<Rightarrow> lookup nm ys)"
proof -
  have "search nm i xs = More \<Longrightarrow> lookup nm (xs @ ys) = lookup nm ys" for i
    by (induction xs arbitrary: i) (auto split: if_splits)
  moreover have "search nm i xs = End \<Longrightarrow> lookup nm (xs @ ys) = None" for i
    by (induction xs arbitrary: i) (auto split: if_splits)
  moreover have "search nm i xs = Found j e \<Longrightarrow> lookup nm (xs @ ys) = Some e" for i j e
    by (induction xs arbitrary: i) (auto split: if_splits)
  ultimately show ?thesis by (auto split: scan.split)
qed

lemma free_slot_append:
  "free_slot (xs @ ys) = (case free_slot xs of Some i \<Rightarrow> Some i | None \<Rightarrow> map_option ((+) (length xs)) (free_slot ys))"
  by (cases "free_slot ys"; induction xs) (auto split: option.split)

lemma free_slot_lt: "free_slot es = Some i \<Longrightarrow> i < length es"
  by (induction es arbitrary: i) (auto split: if_splits)

lemma add_entry_Cons: "in_use x \<Longrightarrow> add_entry k e (x # es) = x # add_entry k e es"
  by (auto simp: add_entry_def split: option.split)

lemma add_entry_free: "\<not> in_use x \<Longrightarrow> add_entry k e (x # es) = e # es"
  by (simp add: add_entry_def)

lemma lookup_add:
  assumes "lookup nm es = None" and "e ! 0 \<noteq> 0" and "matches nm e"
  shows "lookup nm (add_entry k e es) = Some e"
  using assms
proof (induction es)
  case (Cons x es)
  show ?case
  proof (cases "in_use x")
    case True
    then have "\<not> matches nm x" "lookup nm es = None" using Cons.prems(1) by (auto simp: in_use_def split: if_splits)
    then show ?thesis using Cons True by (auto simp: add_entry_Cons in_use_def)
  qed (use Cons.prems in \<open>simp add: add_entry_free\<close>)
qed (simp add: add_entry_def)

text \<open>A tidy directory has nothing behind its end.\<close>

fun tidy :: "u8 list list \<Rightarrow> bool" where
  "tidy [] \<longleftrightarrow> True"
| "tidy (e # es) \<longleftrightarrow> (if e ! 0 = 0 then (\<forall>x \<in> set es. x ! 0 = 0) else tidy es)"

lemma tidy_zeros: "\<forall>x \<in> set es. x ! 0 = 0 \<Longrightarrow> tidy es \<and> lookup nm es = None"
  by (cases es) auto

lemma tidy_add: "tidy es \<Longrightarrow> e ! 0 \<noteq> 0 \<Longrightarrow> tidy (add_entry k e es)"
proof (induction es)
  case (Cons x es)
  show ?case
  proof (cases "in_use x")
    case True
    then show ?thesis using Cons by (auto simp: add_entry_Cons in_use_def)
  next
    case False
    then show ?thesis using Cons.prems tidy_zeros [of es] by (auto simp: add_entry_free split: if_splits)
  qed
qed (simp add: add_entry_def tidy_zeros)

lemma lookup_add_other:
  assumes "tidy es" and "e ! 0 \<noteq> 0" and "\<not> matches nm e"
  shows "lookup nm (add_entry k e es) = lookup nm es"
  using assms
proof (induction es)
  case Nil
  then show ?case using tidy_zeros [of "replicate (k - 1) (replicate 32 0)" nm] by (simp add: add_entry_def)
next
  case (Cons x es)
  show ?case
  proof (cases "in_use x")
    case True
    then show ?thesis using Cons by (auto simp: add_entry_Cons in_use_def)
  next
    case False
    then show ?thesis using Cons.prems tidy_zeros [of es nm] by (auto simp: add_entry_free in_use_def matches_def)
  qed
qed

section \<open>The scans\<close>

definition entry_at :: "u8 list \<Rightarrow> nat \<Rightarrow> u8 list" where
  "entry_at buf i = take 32 (drop (32 * i) buf)"

definition entries :: "u8 list \<Rightarrow> u8 list list" where
  "entries buf = map (entry_at buf) [0..<length buf div 32]"

lemma bytes_entry: "32 * i + 32 \<le> length buf \<Longrightarrow> bytes_at buf (32 * i) 32 = Some (entry_at buf i)"
  by (simp add: bytes_at_def entry_at_def)

lemma rd8_entry: "32 * i + 32 \<le> length buf \<Longrightarrow> rd8 buf (32 * i) = Some (entry_at buf i ! 0)"
  by (simp add: rd8_def entry_at_def)

lemma FindEntry_scan_eq:
  "32 * (i + n) \<le> length buf \<Longrightarrow> FindEntry_scan nm buf i n = Some (search nm i (map (entry_at buf) [i..<i + n]))"
proof (induction n arbitrary: i)
  case (Suc n)
  have "[i..<i + Suc n] = i # [Suc i..<Suc i + n]" by (simp add: upt_conv_Cons)
  moreover have "bytes_at buf (32 * i) 32 = Some (entry_at buf i)" using Suc.prems by (intro bytes_entry) simp
  ultimately show ?case using Suc.IH [of "Suc i"] Suc.prems by (simp add: matches_def)
qed simp

lemma AddDirEntry_scan_eq:
  "32 * (i + n) \<le> length buf \<Longrightarrow> AddDirEntry_scan buf i n = Some (map_option ((+) i) (free_slot (map (entry_at buf) [i..<i + n])))"
proof (induction n arbitrary: i)
  case (Suc n)
  have "[i..<i + Suc n] = i # [Suc i..<Suc i + n]" by (simp add: upt_conv_Cons)
  moreover have "rd8 buf (32 * i) = Some (entry_at buf i ! 0)" using Suc.prems by (intro rd8_entry) simp
  moreover have "(\<lambda>x. Suc (i + x)) = (+) i \<circ> Suc" by auto
  ultimately show ?case using Suc.IH [of "Suc i"] Suc.prems by (auto simp: in_use_def option.map_comp)
qed simp

lemma entries_length [simp]: "length (entries b) = length b div 32"
  by (simp add: entries_def)

lemma entries_prefix:
  assumes "32 dvd length b"
  shows "map (entry_at (b @ x)) [0..<length b div 32] = entries b"
proof -
  have "entry_at (b @ x) i = entry_at b i" if "i < length b div 32" for i
  proof -
    have "32 * i + 32 \<le> length b" using that by simp
    then show ?thesis by (simp add: entry_at_def)
  qed
  then show ?thesis by (simp add: entries_def)
qed

lemma entry_at_patch:
  assumes "length e = 32" and "32 * i + 32 \<le> length b"
  shows "entry_at (take (32 * i) b @ e @ drop (32 * i + 32) b) j = (if j = i then e else entry_at b j)"
proof -
  consider "j < i" | "j = i" | "i < j" by linarith
  then show ?thesis
  proof cases
    case 1
    then have "32 * j + 32 \<le> 32 * i" by simp
    then show ?thesis using 1 assms by (simp add: entry_at_def take_drop)
  next
    case 2
    then show ?thesis using assms by (simp add: entry_at_def)
  next
    case 3
    then obtain m where m: "j = i + 1 + m" using less_imp_Suc_add by auto
    then show ?thesis using assms by (simp add: entry_at_def algebra_simps)
  qed
qed

lemma entries_patch:
  assumes "length e = 32" and "i < length b div 32"
  shows "entries (take (32 * i) b @ e @ drop (32 * i + 32) b) = (entries b)[i := e]"
proof -
  have le: "32 * i + 32 \<le> length b" using assms(2) by simp
  have l: "length (take (32 * i) b @ e @ drop (32 * i + 32) b) = length b" using le assms(1) by simp
  show ?thesis unfolding entries_def l
    by (rule nth_equalityI) (simp_all add: entry_at_patch [OF assms(1) le] nth_list_update del: append_take_drop_id)
qed

lemma entries_zeros: "entries (replicate (32 * n) 0) = replicate n (replicate 32 0)"
  by (rule nth_equalityI) (auto simp: entries_def entry_at_def min_def)

section \<open>Directories on the volume\<close>

definition dir_list :: "fat32 \<Rightarrow> u32 list \<Rightarrow> u8 list list" where
  "dir_list fs cs = concat (map (\<lambda>c. entries (content fs c)) cs)"

definition dir_at :: "fat32 \<Rightarrow> u32 \<Rightarrow> u32 list \<Rightarrow> bool" where
  "dir_at fs c cs \<longleftrightarrow> fat_chain (fat fs) c cs \<and> distinct cs \<and> (\<forall>d \<in> set cs. valid fs d)"

lemma dir_list_Cons: "dir_list fs (c # cs) = entries (content fs c) @ dir_list fs cs"
  by (simp add: dir_list_def)

lemma dir_list_cong: "(\<And>d. d \<in> set cs \<Longrightarrow> content fs' d = content fs d) \<Longrightarrow> dir_list fs' cs = dir_list fs cs"
  unfolding dir_list_def by (simp cong: map_cong)

lemma slots:
  assumes "fat_wf fs"
  shows "unat (cluster_size fs div 32) = unat (cluster_size fs) div 32" "32 dvd unat (cluster_size fs)"
    "0 < unat (cluster_size fs) div 32" "buf_size fs = cluster_size fs" "unat (cluster_size fs) \<le> 4096"
    "length (content fs c) = unat (cluster_size fs)" "32 * (unat (cluster_size fs) div 32) = unat (cluster_size fs)"
proof -
  have k: "unat (cluster_size fs) = spc fs * 512" "0 < spc fs" using assms by (simp_all add: fat_wf_def)
  then show "32 dvd unat (cluster_size fs)" "0 < unat (cluster_size fs) div 32"
    "32 * (unat (cluster_size fs) div 32) = unat (cluster_size fs)" by simp_all
  show "unat (cluster_size fs div 32) = unat (cluster_size fs) div 32" by (simp add: unat_div)
  show "buf_size fs = cluster_size fs" "unat (cluster_size fs) \<le> 4096" using buf_size_wf [OF assms] by simp_all
  show "length (content fs c) = unat (cluster_size fs)" by (rule content_length [OF assms])
qed

lemma read_dir_cluster:
  assumes wf: "fat_wf fs" and d: "valid fs d" and l: "length buf = 4096"
  obtains rest where "ReadCluster fs d buf 0 = Some (content fs d @ rest)" and "length (content fs d @ rest) = 4096"
    and "map (entry_at (content fs d @ rest)) [0..<unat (cluster_size fs) div 32] = entries (content fs d)"
proof -
  let ?r = "drop (unat (cluster_size fs)) buf"
  note s = slots [OF wf]
  have "ReadCluster fs d buf 0 = Some (content fs d @ ?r)" using ReadCluster_ok [OF wf d, of 0 buf] s(5) l by simp
  moreover have "length (content fs d @ ?r) = 4096" using s(5,6) l by simp
  moreover have "map (entry_at (content fs d @ ?r)) [0..<unat (cluster_size fs) div 32] = entries (content fs d)"
    using entries_prefix [of "content fs d" ?r] s(2,6) by simp
  ultimately show ?thesis by (rule that)
qed

text \<open>Searching a directory is a lookup in its list of entries.\<close>

lemma FindEntry_loop_chain:
  assumes wf: "fat_wf fs"
  shows "fat_chain (fat fs) c cs \<Longrightarrow> \<forall>d \<in> set cs. valid fs d \<Longrightarrow> length buf = 4096 \<Longrightarrow>
    FindEntry_loop fs nm c buf = Some (lookup nm (dir_list fs cs))"
proof (induction cs arbitrary: c buf)
  case Nil
  then show ?case by (subst FindEntry_loop.simps) (simp add: dir_list_def)
next
  case (Cons d cs)
  have d: "c = d" "valid fs d" "d < 0x0FFFFFF8" "fat_chain (fat fs) (fat fs d) cs" using Cons.prems by auto
  obtain rest where r: "ReadCluster fs d buf 0 = Some (content fs d @ rest)" "length (content fs d @ rest) = 4096"
    "map (entry_at (content fs d @ rest)) [0..<unat (cluster_size fs) div 32] = entries (content fs d)"
    by (rule read_dir_cluster [OF wf d(2) Cons.prems(3)])
  have sc: "FindEntry_scan nm (content fs d @ rest) 0 (unat (cluster_size fs div 32)) = Some (search nm 0 (entries (content fs d)))"
    using FindEntry_scan_eq [of 0 "unat (cluster_size fs) div 32" "content fs d @ rest" nm] r(2,3) slots [OF wf] by simp
  have ih: "FindEntry_loop fs nm (fat fs d) (content fs d @ rest) = Some (lookup nm (dir_list fs cs))"
    by (rule Cons.IH) (use d Cons.prems r(2) in simp_all)
  show ?case
    unfolding dir_list_Cons lookup_append using d(1,3) r(1) sc ih NextCluster_ok [OF wf d(2)]
    by (subst FindEntry_loop.simps) (auto split: scan.split)
qed

section \<open>Adding an entry\<close>

lemma copy_entry:
  assumes "length e = 32" and "32 * i + 32 \<le> length buf"
  shows "copy_bytes buf (32 * i) e 32 = Some (take (32 * i) buf @ e @ drop (32 * i + 32) buf)"
  using assms by (simp add: copy_bytes_ok)

lemma add_scan_cluster:
  assumes "fat_wf fs" and "length (content fs d @ rest) = 4096"
    and "map (entry_at (content fs d @ rest)) [0..<unat (cluster_size fs) div 32] = entries (content fs d)"
  shows "AddDirEntry_scan (content fs d @ rest) 0 (unat (buf_size fs div 32)) = Some (free_slot (entries (content fs d)))"
  using AddDirEntry_scan_eq [of 0 "unat (cluster_size fs) div 32" "content fs d @ rest"] assms slots [OF assms(1)]
  by (cases "free_slot (entries (content fs d))") simp_all

lemma write_slot:
  assumes wf: "fat_wf fs" and d: "valid fs d" and e: "length e = 32" and l: "length (content fs d @ rest) = 4096"
    and i: "i < length (entries (content fs d))"
  obtains fs' where "do { buf \<leftarrow> copy_bytes (content fs d @ rest) (32 * i) e 32; WriteCluster d buf fs } = Some (True, fs')"
    and "fat_wf fs'" and "same_volume fs fs'" and "\<And>x. valid fs x \<Longrightarrow> fat fs' x = fat fs x"
    and "\<And>x. valid fs x \<Longrightarrow> x \<noteq> d \<Longrightarrow> content fs' x = content fs x"
    and "entries (content fs' d) = (entries (content fs d))[i := e]"
proof -
  let ?b = "content fs d @ rest" and ?k = "unat (cluster_size fs)"
  note s = slots [OF wf]
  have i2: "32 * i + 32 \<le> ?k" using i s(6,7) by simp
  then have i3: "32 * i + 32 \<le> length ?b" using s(5) l by simp
  let ?b' = "take (32 * i) ?b @ e @ drop (32 * i + 32) ?b"
  have lb: "?k \<le> length ?b'" using i3 e l s(5) by simp
  have "take ?k ?b' = take (32 * i) (content fs d) @ e @ drop (32 * i + 32) (content fs d)"
    using i2 s(6) e by simp
  then have en: "entries (take ?k ?b') = (entries (content fs d))[i := e]"
    using entries_patch [OF e, of i "content fs d"] i by simp
  obtain fs' where w: "WriteCluster d ?b' fs = Some (True, fs')" "fat_wf fs'" "same_volume fs fs'" "content fs' d = take ?k ?b'"
    "\<And>x. valid fs x \<Longrightarrow> x \<noteq> d \<Longrightarrow> content fs' x = content fs x" "\<And>x. valid fs x \<Longrightarrow> fat fs' x = fat fs x"
    by (rule WriteCluster_ok [OF wf d lb]) (rule that; assumption)
  show ?thesis
    by (rule that [of fs']) (use w en copy_entry [OF e i3] in simp_all)
qed

lemma AddDirEntry_loop_slot:
  assumes wf: "fat_wf fs" and e: "length e = 32"
  shows "fat_chain (fat fs) c cs \<Longrightarrow> \<forall>d \<in> set cs. valid fs d \<Longrightarrow> distinct cs \<Longrightarrow> length buf = 4096 \<Longrightarrow>
    free_slot (dir_list fs cs) = Some i \<Longrightarrow>
    \<exists>fs'. AddDirEntry_loop c prev buf e fs = Some (True, fs') \<and> fat_wf fs' \<and> same_volume fs fs' \<and>
      (\<forall>x. valid fs x \<longrightarrow> fat fs' x = fat fs x) \<and> (\<forall>x. valid fs x \<and> x \<notin> set cs \<longrightarrow> content fs' x = content fs x) \<and>
      dir_list fs' cs = (dir_list fs cs)[i := e]"
proof (induction cs arbitrary: c buf prev i)
  case (Cons d cs)
  let ?es = "entries (content fs d)"
  have d: "c = d" "valid fs d" "d < 0x0FFFFFF8" "fat_chain (fat fs) (fat fs d) cs" "d \<notin> set cs" using Cons.prems by auto
  obtain rest where r: "ReadCluster fs d buf 0 = Some (content fs d @ rest)" "length (content fs d @ rest) = 4096"
    "map (entry_at (content fs d @ rest)) [0..<unat (cluster_size fs) div 32] = ?es"
    by (rule read_dir_cluster [OF wf d(2) Cons.prems(4)])
  note sc = add_scan_cluster [OF wf r(2,3)]
  show ?case
  proof (cases "free_slot ?es")
    case (Some j)
    then have ij: "i = j" "j < length ?es" using Cons.prems(5) free_slot_lt [OF Some] by (simp_all add: dir_list_Cons free_slot_append)
    obtain fs' where w: "do { buf \<leftarrow> copy_bytes (content fs d @ rest) (32 * j) e 32; WriteCluster d buf fs } = Some (True, fs')"
      "fat_wf fs'" "same_volume fs fs'" "\<And>x. valid fs x \<Longrightarrow> fat fs' x = fat fs x"
      "\<And>x. valid fs x \<Longrightarrow> x \<noteq> d \<Longrightarrow> content fs' x = content fs x" "entries (content fs' d) = ?es[j := e]"
      by (rule write_slot [OF wf d(2) e r(2) ij(2)]) (rule that; assumption)
    have "AddDirEntry_loop c prev buf e fs = Some (True, fs')"
      using d(1,3) r(1) sc Some w(1) by (subst AddDirEntry_loop.simps) simp
    moreover have "dir_list fs' cs = dir_list fs cs" using w(5) d(5) Cons.prems(2) by (intro dir_list_cong) auto
    ultimately show ?thesis using w(2-6) ij by (auto simp: dir_list_Cons list_update_append)
  next
    case None
    then obtain j where j: "free_slot (dir_list fs cs) = Some j" "i = length ?es + j"
      using Cons.prems(5) by (auto simp: dir_list_Cons free_slot_append)
    obtain fs' where ih: "AddDirEntry_loop (fat fs d) d (content fs d @ rest) e fs = Some (True, fs')" "fat_wf fs'" "same_volume fs fs'"
      "\<forall>x. valid fs x \<longrightarrow> fat fs' x = fat fs x" "\<forall>x. valid fs x \<and> x \<notin> set cs \<longrightarrow> content fs' x = content fs x"
      "dir_list fs' cs = (dir_list fs cs)[j := e]"
      using Cons.IH [OF d(4) _ _ r(2) j(1), of d] Cons.prems(2,3) by auto
    have "AddDirEntry_loop c prev buf e fs = Some (True, fs')"
      using d(1,3) r(1) sc None ih(1) NextCluster_ok [OF wf d(2)] by (subst AddDirEntry_loop.simps) simp
    moreover have "content fs' d = content fs d" using ih(5) d(2,5) by blast
    ultimately show ?thesis using ih(2-6) j(2) by (auto simp: dir_list_Cons list_update_append)
  qed
qed (simp add: dir_list_def)

lemma AddDirEntry_loop_full:
  assumes wf: "fat_wf fs"
  shows "fat_chain (fat fs) c cs \<Longrightarrow> \<forall>d \<in> set cs. valid fs d \<Longrightarrow> length buf = 4096 \<Longrightarrow> free_slot (dir_list fs cs) = None \<Longrightarrow>
    \<exists>c' buf'. AddDirEntry_loop c prev buf e fs = AddDirEntry_loop c' (last (prev # cs)) buf' e fs \<and> \<not> c' < 0x0FFFFFF8 \<and> length buf' = 4096"
proof (induction cs arbitrary: c buf prev)
  case Nil
  then show ?case by auto
next
  case (Cons d cs)
  let ?es = "entries (content fs d)"
  have d: "c = d" "valid fs d" "d < 0x0FFFFFF8" "fat_chain (fat fs) (fat fs d) cs" using Cons.prems by auto
  obtain rest where r: "ReadCluster fs d buf 0 = Some (content fs d @ rest)" "length (content fs d @ rest) = 4096"
    "map (entry_at (content fs d @ rest)) [0..<unat (cluster_size fs) div 32] = ?es"
    by (rule read_dir_cluster [OF wf d(2) Cons.prems(3)])
  have fr: "free_slot ?es = None" "free_slot (dir_list fs cs) = None"
    using Cons.prems(4) by (auto simp: dir_list_Cons free_slot_append split: option.splits)
  have "AddDirEntry_loop c prev buf e fs = AddDirEntry_loop (fat fs d) d (content fs d @ rest) e fs"
    using d(1,3) r(1) add_scan_cluster [OF wf r(2,3)] fr(1) NextCluster_ok [OF wf d(2)] by (subst AddDirEntry_loop.simps) simp
  moreover have "\<exists>c' buf'. AddDirEntry_loop (fat fs d) d (content fs d @ rest) e fs = AddDirEntry_loop c' (last (d # cs)) buf' e fs \<and>
      \<not> c' < 0x0FFFFFF8 \<and> length buf' = 4096"
    by (rule Cons.IH [OF d(4) _ r(2) fr(2)]) (use Cons.prems(2) in simp)
  ultimately show ?case by simp
qed

lemma chain_extend:
  assumes "fat_chain nxt c cs" and "distinct cs" and "cs \<noteq> []" and "r < 0x0FFFFFF8" and "\<not> nxt' r < 0x0FFFFFF8"
    and "nxt' (last cs) = r" and "\<And>d. d \<in> set cs \<Longrightarrow> d \<noteq> last cs \<Longrightarrow> nxt' d = nxt d"
  shows "fat_chain nxt' c (cs @ [r])"
  using assms
proof (induction cs arbitrary: c)
  case (Cons d cs)
  show ?case
  proof (cases "cs = []")
    case False
    then have "d \<noteq> last cs" using Cons.prems(2) by auto
    then show ?thesis using Cons False by auto
  qed (use Cons.prems in auto)
qed simp

lemma chain_nonzero:
  assumes "fat_chain (fat fs) c cs" and "\<forall>d \<in> set cs. valid fs d" and "fat_wf fs" and "x \<in> set cs"
  shows "fat fs x \<noteq> 0"
  using assms
proof (induction cs arbitrary: c)
  case (Cons d cs)
  show ?case
  proof (cases "x = d")
    case True
    have "fat_chain (fat fs) (fat fs d) cs" using Cons.prems(1) by auto
    then show ?thesis using valid_mask(3) [OF Cons.prems(3)] Cons.prems(2) True by (cases cs) auto
  qed (use Cons in auto)
qed simp

lemma entries_new:
  assumes "length e = 32" and "0 < n"
  shows "entries (e @ drop 32 (replicate (32 * n) 0)) = e # replicate (n - 1) (replicate 32 0)"
proof -
  obtain m where n: "n = Suc m" using assms(2) by (cases n) auto
  have "entries (take (32 * 0) (replicate (32 * n) 0) @ e @ drop (32 * 0 + 32) (replicate (32 * n) 0)) = (entries (replicate (32 * n) 0))[0 := e]"
    by (rule entries_patch [OF assms(1)]) (use assms(2) in simp)
  then show ?thesis unfolding entries_zeros by (simp add: n)
qed

text \<open>The directory gets another cluster.\<close>

lemma AddDirEntry_loop_grow:
  assumes wf: "fat_wf fs" and e: "length e = 32" and c: "\<not> c < 0x0FFFFFF8" and p: "valid fs p" "fat fs p \<noteq> 0" and b: "length buf = 4096"
    and r: "AllocCluster fs = Some r" "r \<noteq> 0" "valid fs r" "fat fs r = 0"
  obtains fs' where "AddDirEntry_loop c p buf e fs = Some (True, fs')" and "fat_wf fs'" and "same_volume fs fs'"
    and "fat fs' p = r" and "fat fs' r = 0x0FFFFFFF" and "\<And>x. valid fs x \<Longrightarrow> x \<noteq> p \<Longrightarrow> x \<noteq> r \<Longrightarrow> fat fs' x = fat fs x"
    and "\<And>x. valid fs x \<Longrightarrow> x \<noteq> r \<Longrightarrow> content fs' x = content fs x"
    and "entries (content fs' r) = e # replicate (unat (cluster_size fs) div 32 - 1) (replicate 32 0)"
proof -
  let ?k = "unat (cluster_size fs)"
  note s = slots [OF wf]
  note s1 = set_fat_facts [OF wf p(1), where v = r]
  let ?fs1 = "set_fat p r fs"
  have r1: "valid ?fs1 r" using r(3) s1(7) by simp
  note s2 = set_fat_facts [OF s1(2) r1, where v = "0x0FFFFFFF"]
  let ?fs2 = "set_fat r 0x0FFFFFFF ?fs1"
  note f2 = same_volume_fields [OF same_volume_trans [OF s1(3) s2(3)]]
  have ne: "r \<noteq> p" using p(2) r(4) by auto
  define nb where "nb = e @ drop 32 (replicate ?k 0) @ drop ?k buf"
  have le: "32 \<le> ?k" using s(3,7) by linarith
  have cp: "copy_bytes (replicate (unat (buf_size fs)) 0 @ drop (unat (buf_size fs)) buf) 0 e 32 = Some nb"
    using e le s(4,5) b copy_entry [OF e, of 0 "replicate ?k 0 @ drop ?k buf"] by (simp add: nb_def)
  have k2: "unat (cluster_size ?fs2) = ?k" using f2(6) by simp
  have tk: "take ?k nb = e @ drop 32 (replicate (32 * (?k div 32)) 0)" using e le s(7) by (simp add: nb_def)
  have r2: "valid ?fs2 r" using r1 s2(7) by simp
  have lb: "unat (cluster_size ?fs2) \<le> length nb" unfolding k2 using e le s(5) b by (simp add: nb_def)
  obtain fs' where w: "WriteCluster r nb ?fs2 = Some (True, fs')" "fat_wf fs'" "same_volume ?fs2 fs'"
    "content fs' r = take (unat (cluster_size ?fs2)) nb"
    "\<And>x. valid ?fs2 x \<Longrightarrow> x \<noteq> r \<Longrightarrow> content fs' x = content ?fs2 x" "\<And>x. valid ?fs2 x \<Longrightarrow> fat fs' x = fat ?fs2 x"
    by (rule WriteCluster_ok [OF s2(2) r2 lb]) (rule that; assumption)
  have v: "valid ?fs2 = valid fs" "valid ?fs1 = valid fs" using s1(7) s2(7) by simp_all
  show ?thesis
  proof (rule that [of fs'])
    show "AddDirEntry_loop c p buf e fs = Some (True, fs')"
      using c r(1,2) cp s1(1) s2(1) w(1) by (subst AddDirEntry_loop.simps) simp
    show "fat_wf fs'" by (rule w(2))
    show "same_volume fs fs'" using s1(3) s2(3) w(3) same_volume_trans by blast
    show "fat fs' p = r" using w(6) [of p] s2(5) [of p] s1(4) p(1) ne v valid_mask(1) [OF wf r(3)] by simp
    show "fat fs' r = 0x0FFFFFFF" using w(6) [of r] s2(4) r(3) v by simp
    show "entries (content fs' r) = e # replicate (?k div 32 - 1) (replicate 32 0)"
      using w(4) tk entries_new [OF e s(3)] unfolding k2 by simp
    fix x
    assume x: "valid fs x" "x \<noteq> r"
    show "content fs' x = content fs x" using w(5) [of x] s2(6) [of x] s1(6) [of x] x v by simp
    assume "x \<noteq> p"
    then show "fat fs' x = fat fs x" using w(6) [of x] s2(5) [of x] s1(5) [of x] x v by simp
  qed
qed

text \<open>Adding an entry to the directory at \<open>c\<close>, on the volume and on its list of entries.\<close>

definition entry_added :: "fat32 \<Rightarrow> u32 \<Rightarrow> u32 list \<Rightarrow> u8 list \<Rightarrow> fat32 \<Rightarrow> bool" where
  "entry_added fs c cs e fs' \<longleftrightarrow> (\<exists>cs'. dir_at fs' c (cs @ cs') \<and> (\<forall>x \<in> set cs'. fat fs x = 0) \<and>
     dir_list fs' (cs @ cs') = add_entry (unat (cluster_size fs) div 32) e (dir_list fs cs))"

definition rest_kept :: "fat32 \<Rightarrow> u32 list \<Rightarrow> fat32 \<Rightarrow> bool" where
  "rest_kept fs cs fs' \<longleftrightarrow> fat_wf fs' \<and> same_volume fs fs' \<and>
     (\<forall>x. valid fs x \<and> fat fs x \<noteq> 0 \<and> x \<notin> set cs \<longrightarrow> fat fs' x = fat fs x \<and> content fs' x = content fs x)"

lemma AddDirEntry_in_slot:
  assumes wf: "fat_wf fs" and d: "dir_at fs c cs" and e: "length e = 32" and i: "free_slot (dir_list fs cs) = Some i"
  shows "\<exists>fs'. AddDirEntry c e fs = Some (True, fs') \<and> rest_kept fs cs fs' \<and> entry_added fs c cs e fs'"
proof -
  have ch: "fat_chain (fat fs) c cs" "\<forall>d \<in> set cs. valid fs d" "distinct cs" using d by (simp_all add: dir_at_def)
  have j: "length (fs_junk fs) = 4096" using wf by (simp add: fat_wf_def)
  obtain fs' where f: "AddDirEntry c e fs = Some (True, fs')" "fat_wf fs'" "same_volume fs fs'"
      "\<forall>x. valid fs x \<longrightarrow> fat fs' x = fat fs x" "\<forall>x. valid fs x \<and> x \<notin> set cs \<longrightarrow> content fs' x = content fs x"
      "dir_list fs' cs = (dir_list fs cs)[i := e]"
    using AddDirEntry_loop_slot [OF wf e ch j i, of 0] by (auto simp: AddDirEntry_def)
  have "fat_chain (fat fs') c cs" using fat_chain_cong [OF ch(1)] f(4) ch(2) by blast
  then have "dir_at fs' c (cs @ [])" using ch same_volume_fields(3) [OF f(3)] by (simp add: dir_at_def)
  moreover have "dir_list fs' (cs @ []) = add_entry (unat (cluster_size fs) div 32) e (dir_list fs cs)"
    using f(6) i by (simp add: add_entry_def)
  moreover have "\<forall>x \<in> set []. fat fs x = 0" by simp
  ultimately show ?thesis using f(1-5) unfolding entry_added_def rest_kept_def by blast
qed

lemma AddDirEntry_in_new:
  assumes wf: "fat_wf fs" and d: "dir_at fs c cs" "cs \<noteq> []" and e: "length e = 32" and i: "free_slot (dir_list fs cs) = None"
    and r: "AllocCluster fs = Some r" "r \<noteq> 0" "valid fs r" "fat fs r = 0"
  shows "\<exists>fs'. AddDirEntry c e fs = Some (True, fs') \<and> rest_kept fs cs fs' \<and> entry_added fs c cs e fs'"
proof -
  have ch: "fat_chain (fat fs) c cs" "\<forall>d \<in> set cs. valid fs d" "distinct cs" using d by (simp_all add: dir_at_def)
  have j: "length (fs_junk fs) = 4096" using wf by (simp add: fat_wf_def)
  let ?p = "last cs"
  have p: "?p \<in> set cs" "valid fs ?p" "fat fs ?p \<noteq> 0" using d(2) ch(2) chain_nonzero [OF ch(1,2) wf] by simp_all
  have rn: "r \<notin> set cs" using chain_nonzero [OF ch(1,2) wf] r(4) by blast
  obtain c' buf' where l: "AddDirEntry c e fs = AddDirEntry_loop c' ?p buf' e fs" "\<not> c' < 0x0FFFFFF8" "length buf' = 4096"
    using AddDirEntry_loop_full [OF wf ch(1,2) j i, of 0 e] d(2) by (auto simp: AddDirEntry_def)
  obtain fs' where f: "AddDirEntry_loop c' ?p buf' e fs = Some (True, fs')" "fat_wf fs'" "same_volume fs fs'"
    "fat fs' ?p = r" "fat fs' r = 0x0FFFFFFF" "\<And>x. valid fs x \<Longrightarrow> x \<noteq> ?p \<Longrightarrow> x \<noteq> r \<Longrightarrow> fat fs' x = fat fs x"
    "\<And>x. valid fs x \<Longrightarrow> x \<noteq> r \<Longrightarrow> content fs' x = content fs x"
    "entries (content fs' r) = e # replicate (unat (cluster_size fs) div 32 - 1) (replicate 32 0)"
    by (rule AddDirEntry_loop_grow [OF wf e l(2) p(2,3) l(3) r]) (rule that; assumption)
  have "fat_chain (fat fs') c (cs @ [r])"
    by (rule chain_extend [OF ch(1,3) d(2)]) (use f(4-6) rn ch(2) valid_mask [OF wf r(3)] in auto)
  then have "dir_at fs' c (cs @ [r])" using ch rn r(3) same_volume_fields(3) [OF f(3)] by (simp add: dir_at_def)
  moreover have "dir_list fs' (cs @ [r]) = add_entry (unat (cluster_size fs) div 32) e (dir_list fs cs)"
  proof -
    have "dir_list fs' cs = dir_list fs cs" using f(7) rn ch(2) by (intro dir_list_cong) auto
    then show ?thesis using f(8) i by (simp add: add_entry_def dir_list_def)
  qed
  moreover have "rest_kept fs cs fs'"
    unfolding rest_kept_def using f(2,3) f(6) f(7) p(1) r(4) by metis
  ultimately show ?thesis using l(1) f(1) r(4) unfolding entry_added_def by (intro exI [of _ fs'] conjI exI [of _ "[r]"]) simp_all
qed

lemma AddDirEntry_ok:
  assumes wf: "fat_wf fs" and d: "dir_at fs c cs" "cs \<noteq> []" and e: "length e = 32"
  shows "\<exists>ok fs'. AddDirEntry c e fs = Some (ok, fs') \<and> rest_kept fs cs fs' \<and>
    (if ok then entry_added fs c cs e fs'
     else fs' = fs \<and> free_slot (dir_list fs cs) = None \<and> (\<forall>x. valid fs x \<and> 3 \<le> unat x \<longrightarrow> fat fs x \<noteq> 0))"
proof (cases "free_slot (dir_list fs cs)")
  case (Some i)
  then show ?thesis using AddDirEntry_in_slot [OF wf d(1) e Some] by auto
next
  case None
  obtain r where r: "AllocCluster fs = Some r" "r = 0 \<Longrightarrow> \<forall>c. valid fs c \<and> 3 \<le> unat c \<longrightarrow> fat fs c \<noteq> 0"
    "r \<noteq> 0 \<Longrightarrow> valid fs r \<and> 3 \<le> unat r \<and> fat fs r = 0"
    by (rule AllocCluster_ok [OF wf]) (rule that; assumption)
  show ?thesis
  proof (cases "r = 0")
    case False
    then show ?thesis using AddDirEntry_in_new [OF wf d e None r(1) False] r(3) by auto
  next
    case True
    have ch: "fat_chain (fat fs) c cs" "\<forall>d \<in> set cs. valid fs d" using d by (simp_all add: dir_at_def)
    have j: "length (fs_junk fs) = 4096" using wf by (simp add: fat_wf_def)
    obtain c' buf' where "AddDirEntry c e fs = AddDirEntry_loop c' (last cs) buf' e fs" "\<not> c' < 0x0FFFFFF8"
      using AddDirEntry_loop_full [OF wf ch j None, of 0 e] d(2) by (auto simp: AddDirEntry_def)
    then have "AddDirEntry c e fs = Some (False, fs)" using r(1) True by (subst (asm) AddDirEntry_loop.simps) simp
    moreover have "rest_kept fs cs fs" using wf by (simp add: rest_kept_def)
    ultimately show ?thesis using None r(2) [OF True] by auto
  qed
qed

lemma FindEntry_ok:
  assumes "fat_wf fs" and "dir_at fs c cs"
  shows "FindEntry fs c name = Some (lookup (ToShortName name) (dir_list fs cs))"
  using FindEntry_loop_chain [OF assms(1), of c cs "fs_junk fs" "ToShortName name"] assms
  by (simp add: FindEntry_def dir_at_def fat_wf_def)

lemma upcase_first: "c \<noteq> 0 \<Longrightarrow> upcase c \<noteq> 0" "c \<noteq> 0xE5 \<Longrightarrow> upcase c \<noteq> 0xE5"
  unfolding upcase_def by (auto simp: word_le_nat_alt unat_sub_if')

lemma ToShortName_first:
  assumes "hd name \<noteq> 0" and "hd name \<noteq> 0xE5" and "name \<noteq> []"
  shows "ToShortName name ! 0 \<noteq> 0" "ToShortName name ! 0 \<noteq> 0xE5"
proof -
  obtain c cs where n: "name = c # cs" using assms(3) by (cases name) auto
  have "ToShortName name ! 0 = (if c = 0x2E then 0x20 else upcase c)"
    by (simp add: ToShortName_eq short_name_def Let_def n pad_def nth_append)
  then show "ToShortName name ! 0 \<noteq> 0" "ToShortName name ! 0 \<noteq> 0xE5" using assms n upcase_first [of c] by auto
qed

section \<open>Names in a directory\<close>

lemma NamesMatch_iff:
  assumes "length nm = 11" and "11 \<le> length e"
  shows "NamesMatch e nm \<longleftrightarrow> take 11 e = nm"
proof -
  have "NamesMatch e nm \<longleftrightarrow> (\<forall>i < 11. take 11 e ! i = nm ! i)" by (auto simp: NamesMatch_def list_all_iff)
  also have "\<dots> \<longleftrightarrow> take 11 e = nm" using assms by (auto simp: list_eq_iff_nth_eq)
  finally show ?thesis .
qed

lemma matches_built:
  assumes "length n = 11" and "length nm = 11" and "n ! 0 \<noteq> 0xE5" and "a \<noteq> 0x0F"
  shows "matches nm (BuildDirEntry n a c z) \<longleftrightarrow> nm = n"
  using assms BuildDirEntry_fields [OF assms(1), of a c z] NamesMatch_iff [OF assms(2), of "BuildDirEntry n a c z"]
  by (auto simp: matches_def)

text \<open>What AddDirEntry does to what FindEntry finds. In a directory that lies on a chain of clusters and has
  nothing behind its end marker, a name that was not there is found after its entry has been added,
  with the very entry; every other 8.3 name is found, or not found, as before, and the directory is
  still well-formed. Adding fails, and then changes nothing, only if no place in the directory and no cluster on the volume is free.\<close>

theorem AddDirEntry_FindEntry:
  fixes cl sz :: u32
  assumes wf: "fat_wf fs" and d: "dir_at fs c cs" "cs \<noteq> []" and t: "tidy (dir_list fs cs)"
    and name: "name \<noteq> []" "hd name \<noteq> 0" "hd name \<noteq> 0xE5" and new: "FindEntry fs c name = Some None" and a: "attr \<noteq> 0x0F"
  defines "e \<equiv> BuildDirEntry (ToShortName name) attr cl sz"
  shows "\<exists>ok fs'. AddDirEntry c e fs = Some (ok, fs') \<and> fat_wf fs' \<and>
    (if ok then FindEntry fs' c name = Some (Some e) \<and>
       (\<forall>name'. ToShortName name' \<noteq> ToShortName name \<longrightarrow> FindEntry fs' c name' = FindEntry fs c name') \<and>
       (\<exists>cs'. dir_at fs' c cs' \<and> cs' \<noteq> [] \<and> tidy (dir_list fs' cs'))
     else fs' = fs \<and> free_slot (dir_list fs cs) = None \<and> (\<forall>x. valid fs x \<and> 3 \<le> unat x \<longrightarrow> fat fs x \<noteq> 0))"
proof -
  let ?n = "ToShortName name" and ?k = "unat (cluster_size fs) div 32"
  note f = ToShortName_first [OF name(2,3,1)]
  have e0: "e ! 0 \<noteq> 0" "length e = 32" using f(1) BuildDirEntry_fields [of ?n attr cl sz] by (simp_all add: e_def)
  have m: "matches nm e \<longleftrightarrow> nm = ?n" if "length nm = 11" for nm using matches_built [OF _ that f(2) a] by (simp add: e_def)
  obtain ok fs' where r: "AddDirEntry c e fs = Some (ok, fs')" "rest_kept fs cs fs'"
    "if ok then entry_added fs c cs e fs' else fs' = fs \<and> free_slot (dir_list fs cs) = None \<and> (\<forall>x. valid fs x \<and> 3 \<le> unat x \<longrightarrow> fat fs x \<noteq> 0)"
    using AddDirEntry_ok [OF wf d e0(2)] by blast
  have wf': "fat_wf fs'" using r(2) by (simp add: rest_kept_def)
  have nw: "lookup ?n (dir_list fs cs) = None" using new FindEntry_ok [OF wf d(1)] by simp
  show ?thesis
  proof (cases ok)
    case True
    then obtain cs' where x: "dir_at fs' c (cs @ cs')" "dir_list fs' (cs @ cs') = add_entry ?k e (dir_list fs cs)"
      using r(3) by (auto simp: entry_added_def)
    note fe = FindEntry_ok [OF wf' x(1), unfolded x(2)]
    have "FindEntry fs' c name = Some (Some e)" using fe lookup_add [OF nw e0(1)] m by simp
    moreover have "FindEntry fs' c name' = FindEntry fs c name'" if "ToShortName name' \<noteq> ?n" for name'
      using fe lookup_add_other [OF t e0(1)] m that FindEntry_ok [OF wf d(1)] by simp
    moreover have "tidy (dir_list fs' (cs @ cs'))" unfolding x(2) by (rule tidy_add [OF t e0(1)])
    ultimately show ?thesis using r(1) wf' True x(1) d(2) by auto
  next
    case False
    then show ?thesis using r wf' by (intro exI [of _ ok] exI [of _ fs']) simp
  qed
qed

text \<open>A volume whose root directory is one cluster, still empty.\<close>

definition formatted :: fat32 where
  "formatted = set_fat 2 0x0FFFFFFF example_volume"

lemma formatted:
  "fat_wf formatted" "dir_at formatted 2 [2]" "dir_list formatted [2] = replicate 16 (replicate 32 0)"
  "cluster_size formatted = 512" "root_cluster formatted = 2" "fat formatted 2 \<noteq> 0"
proof -
  have v: "valid example_volume 2" using example_max by (simp add: valid_def)
  note s = set_fat_facts [OF example_wf(1) v, where v = "0x0FFFFFFF", folded formatted_def]
  show "fat_wf formatted" by (rule s(2))
  show "dir_at formatted 2 [2]" "fat formatted 2 \<noteq> 0" using s(4,7) v by (simp_all add: dir_at_def)
  show "cluster_size formatted = 512" "root_cluster formatted = 2"
    using same_volume_fields [OF s(3)] by (simp_all add: example_volume_def)
  have "content formatted 2 = content example_volume 2" using s(6) v by simp
  also have "\<dots> = replicate (32 * 16) 0"
    by (simp add: content_def spc_def example_volume_def blank_drive_def)
  finally show "dir_list formatted [2] = replicate 16 (replicate 32 0)" 
    by (simp only: dir_list_def list.map concat.simps entries_zeros append_Nil2)
qed

theorem AddDirEntry_FindEntry_witness:
  "\<exists>ok fs'. AddDirEntry 2 (BuildDirEntry (ToShortName [0x61]) 0x20 5 7) formatted = Some (ok, fs') \<and> fat_wf fs' \<and>
    (if ok then FindEntry fs' 2 [0x61] = Some (Some (BuildDirEntry (ToShortName [0x61]) 0x20 5 7)) \<and>
       (\<forall>name'. ToShortName name' \<noteq> ToShortName [0x61] \<longrightarrow> FindEntry fs' 2 name' = FindEntry formatted 2 name') \<and>
       (\<exists>cs'. dir_at fs' 2 cs' \<and> cs' \<noteq> [] \<and> tidy (dir_list fs' cs'))
     else fs' = formatted \<and> free_slot (dir_list formatted [2]) = None \<and> (\<forall>x. valid formatted x \<and> 3 \<le> unat x \<longrightarrow> fat formatted x \<noteq> 0))"
  by (rule AddDirEntry_FindEntry [OF formatted(1,2)])
    (simp_all add: FindEntry_ok [OF formatted(1,2)] formatted(3) tidy_zeros)

section \<open>Writing a file and reading it back\<close>

text \<open>The clusters \<open>fl\<close> from \<open>f\<close> on hold the bytes \<open>data\<close>.\<close>

definition holds :: "fat32 \<Rightarrow> u32 \<Rightarrow> u32 list \<Rightarrow> u8 list \<Rightarrow> bool" where
  "holds fs f fl data \<longleftrightarrow> fat_chain (fat fs) f fl \<and> (\<forall>d \<in> set fl. valid fs d) \<and>
     length fl * unat (cluster_size fs) < length data + unat (cluster_size fs) \<and>
     take (length data) (concat (map (content fs) fl)) = data"

lemma holds_read_exact:
  assumes wf: "fat_wf fs" and h: "holds fs f fl data" and l: "length fl * unat (cluster_size fs) \<le> length out" "length out < 4294967296"
  shows "ReadFile_loop fs f out 0 =
      Some (concat (map (content fs) fl) @ drop (length fl * unat (cluster_size fs)) out)"
    "length (concat (map (content fs) fl)) = length fl * unat (cluster_size fs)"
    "take (length data) (concat (map (content fs) fl)) = data" "length data \<le> length fl * unat (cluster_size fs)"
proof -
  have h': "fat_chain (fat fs) f fl" "\<forall>d \<in> set fl. valid fs d" "take (length data) (concat (map (content fs) fl)) = data"
    using h by (simp_all add: holds_def)
  have b: "unat (0 :: u32) + length fl * unat (cluster_size fs) \<le> length out" using l(1) by simp
  note r = ReadFile_loop_chain [OF wf h'(1,2) b l(2)]
  show c: "length (concat (map (content fs) fl)) = length fl * unat (cluster_size fs)"
    using h'(2) by (induction fl) (auto simp: content_length [OF wf])
  show "take (length data) (concat (map (content fs) fl)) = data" by (rule h'(3))
  show "length data \<le> length fl * unat (cluster_size fs)" using arg_cong [OF h'(3), of length] c by simp
  show "ReadFile_loop fs f out 0 = Some (concat (map (content fs) fl) @ drop (length fl * unat (cluster_size fs)) out)"
    using r by simp
qed

lemma holds_kept:
  assumes wf: "fat_wf fs" and h: "holds fs f fl data" and k: "rest_kept fs cs fs'" and d: "set fl \<inter> set cs = {}"
  shows "holds fs' f fl data"
proof -
  have ch: "fat_chain (fat fs) f fl" "\<forall>d \<in> set fl. valid fs d" using h by (simp_all add: holds_def)
  note v = same_volume_fields [OF conjunct1 [OF conjunct2 [OF k [unfolded rest_kept_def]]]]
  have s: "fat fs' x = fat fs x" "content fs' x = content fs x" if "x \<in> set fl" for x
    using that k ch d chain_nonzero [OF ch wf that] unfolding rest_kept_def by auto
  have "fat_chain (fat fs') f fl" by (rule fat_chain_cong [OF ch(1) s(1)])
  moreover have m: "map (content fs') fl = map (content fs) fl" using s(2) by (intro map_cong refl)
  ultimately show ?thesis using h unfolding holds_def v(3) v(6) m by blast
qed

text \<open>The first cluster of a new file and the data behind it; the directory stays as it was.\<close>

lemma write_data:
  assumes wf: "fat_wf fs" and d: "dir_at fs c cs" and f: "valid fs f" "fat fs f = 0" and sz: "0 < unat sz" "unat sz \<le> length buf"
  defines "fs1 \<equiv> set_fat f 0x0FFFFFFF fs"
  obtains ok fs2 fl where "SetFATEntry f 0x0FFFFFFF fs = Some (True, fs1)" and "WriteClusterChain f buf sz fs1 = Some (ok, fs2)"
    and "rest_kept fs [] fs2" and "\<not> ok \<Longrightarrow> full fs2"
    and "dir_at fs2 c cs" and "dir_list fs2 cs = dir_list fs cs" and "ok \<Longrightarrow> holds fs2 f fl (take (unat sz) buf) \<and> set fl \<inter> set cs = {}"
proof -
  note s = set_fat_facts [OF wf f(1), where v = "0x0FFFFFFF", folded fs1_def]
  have f1: "valid fs1 f" "fat fs1 f \<noteq> 0" using f(1) s(4,7) by simp_all
  have "sz \<noteq> 0" using sz(1) by auto
  then obtain ok fs2 where w: "WriteClusterChain f buf sz fs1 = Some (ok, fs2)" "others_kept fs1 f fs2"
    "ok \<longrightarrow> (\<exists>fl. chain_written fs1 f (take (unat sz) buf) fs2 fl)" "\<not> ok \<longrightarrow> full fs2"
    using WriteClusterChain_loop_ok [OF s(2) f1, of 0 sz buf] sz by (auto simp: WriteClusterChain_def)
  have wf2: "fat_wf fs2" and v2: "same_volume fs1 fs2" using w(2) by (simp_all add: others_kept_def)
  have v: "same_volume fs fs2" by (rule same_volume_trans [OF s(3) v2])
  note vf = same_volume_fields [OF v]
  have ch: "fat_chain (fat fs) c cs" "\<forall>x \<in> set cs. valid fs x" "distinct cs" using d by (simp_all add: dir_at_def)
  have k1: "fat fs1 x = fat fs x \<and> fat fs1 x \<noteq> 0 \<and> x \<noteq> f \<and> content fs1 x = content fs x" if "x \<in> set cs" for x
    using chain_nonzero [OF ch(1,2) wf that] that ch(2) f(2) s(5,6) by metis
  have k2: "fat fs2 x = fat fs x" "content fs2 x = content fs x" if "x \<in> set cs" for x
    using k1 [OF that] that ch(2) w(2) s(7) unfolding others_kept_def by auto
  have dir: "dir_at fs2 c cs" using fat_chain_cong [OF ch(1) k2(1)] ch vf(3) by (simp add: dir_at_def)
  have lst: "dir_list fs2 cs = dir_list fs cs" by (rule dir_list_cong) (rule k2(2))
  have hold: "holds fs2 f fl (take (unat sz) buf) \<and> set fl \<inter> set cs = {}" if "chain_written fs1 f (take (unat sz) buf) fs2 fl" for fl
  proof -
    have c: "fat_chain (fat fs2) f fl" "fl \<noteq> []" "\<forall>x \<in> set fl. valid fs1 x" "\<forall>x \<in> set (tl fl). fat fs1 x = 0"
      "length fl * unat (cluster_size fs1) < length (take (unat sz) buf) + unat (cluster_size fs1)"
      "take (length (take (unat sz) buf)) (concat (map (content fs2) fl)) = take (unat sz) buf"
      using that unfolding chain_written_def by auto
    have "hd fl = f" using c(1,2) by (cases fl) auto
    then have "x = f \<or> fat fs1 x = 0" if "x \<in> set fl" for x using that c(2,4) by (cases fl) auto
    then have "set fl \<inter> set cs = {}" using k1 by blast
    moreover have "valid fs2 = valid fs1" "cluster_size fs2 = cluster_size fs1" using same_volume_fields [OF v2] by simp_all
    ultimately show ?thesis using c unfolding holds_def by simp
  qed
  obtain fl where "ok \<Longrightarrow> holds fs2 f fl (take (unat sz) buf) \<and> set fl \<inter> set cs = {}" using w(3) hold by blast
  moreover have "rest_kept fs [] fs2" unfolding rest_kept_def
  proof (intro conjI allI impI)
    fix x assume x: "valid fs x \<and> fat fs x \<noteq> 0 \<and> x \<notin> set []"
    then have "x \<noteq> f" using f(2) by blast
    then have "fat fs1 x = fat fs x" "content fs1 x = content fs x" "valid fs1 x" using x s(5,6,7) by simp_all
    then show "fat fs2 x = fat fs x" "content fs2 x = content fs x" using x w(2) \<open>x \<noteq> f\<close> unfolding others_kept_def by auto
  qed (fact wf2 v)+
  ultimately show ?thesis using that [OF s(1) w(1) _ _ dir lst] w(4) by blast
qed

lemma rest_kept_trans:
  assumes "rest_kept fs [] fs1" and "rest_kept fs1 cs fs2"
  shows "rest_kept fs cs fs2"
proof -
  have v: "same_volume fs fs1" "same_volume fs1 fs2" "fat_wf fs2" using assms by (simp_all add: rest_kept_def)
  then have "same_volume fs fs2" "valid fs1 = valid fs" using same_volume_trans same_volume_fields(3) by blast+
  then show ?thesis using assms v(3) unfolding rest_kept_def by auto
qed

text \<open>Writing a new file: every cluster in use outside the directory is kept, and the directory gets the entry.\<close>

lemma WriteFile_new_ok:
  assumes wf: "fat_wf fs" and d: "dir_at fs c cs" "cs \<noteq> []" and n: "length n = 11" and sz: "0 < unat sz" "unat sz \<le> length buf"
  shows "\<exists>ok fs' ds. WriteFile_new c n False buf sz fs = Some (ok, fs') \<and> rest_kept fs cs fs' \<and>
    dir_at fs' c ds \<and> ds \<noteq> [] \<and> (\<forall>x \<in> set ds. x \<in> set cs \<or> fat fs x = 0) \<and>
    (if ok then \<exists>f fl. holds fs' f fl (take (unat sz) buf) \<and> set fl \<inter> set ds = {} \<and>
       dir_list fs' ds = add_entry (unat (cluster_size fs) div 32) (BuildDirEntry n 0x20 f sz) (dir_list fs cs)
     else full fs' \<and> dir_list fs' ds = dir_list fs cs)"
proof -
  obtain f where f: "AllocCluster fs = Some f" "f = 0 \<Longrightarrow> full fs" "f \<noteq> 0 \<Longrightarrow> valid fs f \<and> 3 \<le> unat f \<and> fat fs f = 0"
    using AllocCluster_ok [OF wf] unfolding full_def by metis
  show ?thesis
  proof (cases "f = 0")
    case True
    then have "WriteFile_new c n False buf sz fs = Some (False, fs)" "rest_kept fs cs fs"
      using f(1) wf by (simp_all add: WriteFile_new_def rest_kept_def)
    then show ?thesis using f(2) [OF True] d by (intro exI [of _ False] exI [of _ fs] exI [of _ cs]) simp
  next
    case False
    then have v: "valid fs f" "fat fs f = 0" using f(3) by simp_all
    obtain ok fs2 fl where w: "SetFATEntry f 0x0FFFFFFF fs = Some (True, set_fat f 0x0FFFFFFF fs)"
      "WriteClusterChain f buf sz (set_fat f 0x0FFFFFFF fs) = Some (ok, fs2)" "rest_kept fs [] fs2" "\<not> ok \<Longrightarrow> full fs2"
      "dir_at fs2 c cs" "dir_list fs2 cs = dir_list fs cs" "ok \<Longrightarrow> holds fs2 f fl (take (unat sz) buf) \<and> set fl \<inter> set cs = {}"
      by (rule write_data [OF wf d(1) v sz]) (rule that; assumption)
    have wf2: "fat_wf fs2" "same_volume fs fs2" using w(3) by (simp_all add: rest_kept_def)
    have eq: "WriteFile_new c n False buf sz fs = (if ok then AddDirEntry c (BuildDirEntry n 0x20 f sz) fs2 else Some (False, fs2))"
      using f(1) False w(1,2) by (simp add: WriteFile_new_def)
    show ?thesis
    proof (cases ok)
      case False
      have "rest_kept fs cs fs2" using w(3) unfolding rest_kept_def by simp
      then show ?thesis using eq False w(4-6) d(2) by (intro exI [of _ False] exI [of _ fs2] exI [of _ cs]) simp
    next
      case True
      let ?e = "BuildDirEntry n 0x20 f sz"
      obtain ok3 fs3 where a: "AddDirEntry c ?e fs2 = Some (ok3, fs3)" "rest_kept fs2 cs fs3"
        "if ok3 then entry_added fs2 c cs ?e fs3 else fs3 = fs2 \<and> free_slot (dir_list fs2 cs) = None \<and> full fs2"
        using AddDirEntry_ok [OF wf2(1) w(5) d(2), of ?e] n unfolding full_def by auto
      note r = rest_kept_trans [OF w(3) a(2)]
      have h: "holds fs2 f fl (take (unat sz) buf)" "set fl \<inter> set cs = {}" using w(7) [OF True] by blast+
      have k: "cluster_size fs2 = cluster_size fs" using same_volume_fields [OF wf2(2)] by simp
      show ?thesis
      proof (cases ok3)
        case False
        then show ?thesis using eq True a(1,3) r w(5,6) d(2) by (intro exI [of _ False] exI [of _ fs3] exI [of _ cs]) simp
      next
        case ok3: True
        obtain cs' where e: "dir_at fs3 c (cs @ cs')" "\<forall>x \<in> set cs'. fat fs2 x = 0"
          "dir_list fs3 (cs @ cs') = add_entry (unat (cluster_size fs2) div 32) ?e (dir_list fs2 cs)"
          using a(3) ok3 unfolding entry_added_def by auto
        have "valid fs3 = valid fs" using r same_volume_fields(3) unfolding rest_kept_def by blast
        then have "fat fs x = 0" if "x \<in> set cs'" for x using that e(1,2) w(3) unfolding dir_at_def rest_kept_def by auto
        moreover have "x \<notin> set cs'" if "x \<in> set fl" for x
          using chain_nonzero [of fs2 f fl x] h(1) wf2(1) that e(2) unfolding holds_def by blast
        then have "\<exists>f fl. holds fs3 f fl (take (unat sz) buf) \<and> set fl \<inter> set (cs @ cs') = {} \<and>
            dir_list fs3 (cs @ cs') = add_entry (unat (cluster_size fs) div 32) (BuildDirEntry n 0x20 f sz) (dir_list fs cs)"
          using e(3) h(2) holds_kept [OF wf2(1) h(1) a(2) h(2)] w(6) k by (intro exI [of _ f] exI [of _ fl]) auto
        ultimately show ?thesis using eq True ok3 a(1) r e(1) d(2)
          by (intro exI [of _ True] exI [of _ fs3] exI [of _ "cs @ cs'"]) (simp, blast)
      qed
    qed
  qed
qed

lemma next_component_whole: "length p \<le> j \<Longrightarrow> 0x2F \<notin> set p \<Longrightarrow> next_component j p = (p, [])"
  by (induction j p rule: next_component.induct) auto

lemma root_paths:
  assumes "path \<noteq> []" and "length path \<le> 12" and "0x2F \<notin> set path"
  shows "ResolveParentDir fs path = Some (Some (root_cluster fs, path))"
    "FindEntry fs (root_cluster fs) path = Some r \<Longrightarrow>
      ResolvePath fs path = Some (case r of None \<Rightarrow> NotFound | Some e \<Rightarrow> Entry e)"
proof -
  obtain c cs where p: "path = c # cs" "c \<noteq> 0x2F" using assms by (cases path) auto
  have sk: "skip_slash path = path" "skip_slashes path = path" using p by (simp_all add: skip_slash_def skip_slashes_def)
  have n: "next_component 12 path = (path, [])" using assms by (intro next_component_whole)
  have e: "skip_slash [] = []" "skip_slashes [] = []" by (simp_all add: skip_slash_def skip_slashes_def)
  show "ResolveParentDir fs path = Some (Some (root_cluster fs, path))"
    unfolding ResolveParentDir_def sk by (subst ResolveParentDir_loop.simps) (simp add: n e assms(1))
  show "ResolvePath fs path = Some (case r of None \<Rightarrow> NotFound | Some e \<Rightarrow> Entry e)"
    if "FindEntry fs (root_cluster fs) path = Some r"
    using that assms(1) unfolding ResolvePath_def sk
    by (subst ResolvePath_loop.simps) (simp add: n e Let_def split: option.split)
qed

text \<open>Writing a new file, and what reading it leaves in a buffer: the file in whole clusters, the rest unchanged.\<close>

lemma WriteFile_then_ReadFile:
  assumes wf: "fat_wf fs" and d: "dir_at fs (root_cluster fs) cs" "cs \<noteq> []"
    and path: "path \<noteq> []" "length path \<le> 12" "0x2F \<notin> set path" "hd path \<noteq> 0" "hd path \<noteq> 0xE5"
    and new: "FindEntry fs (root_cluster fs) path = Some None" and sz: "0 < unat sz" "unat sz \<le> length buf"
  shows "\<exists>ok fs'. WriteFile path buf sz fs = Some (ok, fs') \<and> fat_wf fs' \<and> (\<not> ok \<longrightarrow> full fs') \<and>
    (ok \<longrightarrow> (\<exists>bs. unat sz \<le> length bs \<and> length bs < unat sz + unat (cluster_size fs) \<and> take (unat sz) bs = take (unat sz) buf \<and>
      (\<forall>out. length bs \<le> length out \<and> length out < 4294967296 \<longrightarrow>
        ReadFile fs' path out = Some (Some (bs @ drop (length bs) out, sz)))))"
proof -
  let ?n = "ToShortName path" and ?r = "root_cluster fs"
  have eq: "WriteFile path buf sz fs = WriteFile_new ?r ?n False buf sz fs"
    using new by (simp add: WriteFile_def root_paths(1) [OF path(1-3)])
  obtain ok fs' where w: "WriteFile_new ?r ?n False buf sz fs = Some (ok, fs')" "fat_wf fs'" "same_volume fs fs'" "\<not> ok \<longrightarrow> full fs'"
    "ok \<longrightarrow> (\<exists>ds f fl. dir_at fs' ?r ds \<and> holds fs' f fl (take (unat sz) buf) \<and>
      dir_list fs' ds = add_entry (unat (cluster_size fs) div 32) (BuildDirEntry ?n 0x20 f sz) (dir_list fs cs))"
    using WriteFile_new_ok [OF wf d ToShortName_length [of path] sz] unfolding rest_kept_def by metis
  have v: "root_cluster fs' = ?r" "cluster_size fs' = cluster_size fs" using same_volume_fields [OF w(3)] by simp_all
  have "\<exists>bs. unat sz \<le> length bs \<and> length bs < unat sz + unat (cluster_size fs) \<and> take (unat sz) bs = take (unat sz) buf \<and>
      (\<forall>out. length bs \<le> length out \<and> length out < 4294967296 \<longrightarrow> ReadFile fs' path out = Some (Some (bs @ drop (length bs) out, sz)))"
    if k: ok
  proof -
    obtain ds f fl where x: "dir_at fs' ?r ds" "holds fs' f fl (take (unat sz) buf)"
      "dir_list fs' ds = add_entry (unat (cluster_size fs) div 32) (BuildDirEntry ?n 0x20 f sz) (dir_list fs cs)"
      using w(5) k by blast
    let ?e = "BuildDirEntry ?n 0x20 f sz"
    note nm = ToShortName_first [OF path(4,5,1)] and b = BuildDirEntry_fields [of ?n "0x20" f sz, OF ToShortName_length]
    have m: "matches ?n ?e" "?e ! 0 \<noteq> 0" using matches_built [of ?n ?n "0x20" f sz] nm b by simp_all
    have "lookup ?n (dir_list fs cs) = None" using new FindEntry_ok [OF wf d(1)] by simp
    then have "FindEntry fs' ?r path = Some (Some ?e)" using FindEntry_ok [OF w(2) x(1)] x(3) lookup_add m by simp
    then have rp: "ResolvePath fs' path = Some (Entry ?e)" using root_paths(2) [OF path(1-3), of fs'] v(1) by simp
    let ?bs = "concat (map (content fs') fl)"
    have hd: "length ?bs = length fl * unat (cluster_size fs')"
      using x(2) by (simp add: holds_def length_concat content_length [OF w(2)] comp_def sum_list_triv)
    have "take (unat sz) ?bs = take (unat sz) buf" "length fl * unat (cluster_size fs) < unat sz + unat (cluster_size fs)"
      using x(2) sz(2) v(2) by (simp_all add: holds_def)
    moreover have "unat sz \<le> length ?bs" using arg_cong [OF calculation(1), of length] sz(2) by simp
    moreover have "ReadFile fs' path out = Some (Some (?bs @ drop (length ?bs) out, sz))"
      if "length ?bs \<le> length out" "length out < 4294967296" for out
      using holds_read_exact(1) [OF w(2) x(2), of out] that hd rp b by (simp add: ReadFile_def is_dir_def)
    ultimately show ?thesis using hd v(2) by (intro exI [of _ ?bs]) auto
  qed
  then show ?thesis using eq w(1,2,4) by auto
qed

text \<open>A new file in the root directory can be read back. On a well-formed volume, writing \<open>sz\<close> bytes under a
  name that is not there yet always comes to an end; it reports failure only when no cluster is left;
  and when it succeeds, reading the file by its name, into any buffer with room for whole clusters,
  reports the size \<open>sz\<close> and gives exactly the bytes written.\<close>

theorem WriteFile_ReadFile:
  assumes wf: "fat_wf fs" and d: "dir_at fs (root_cluster fs) cs" "cs \<noteq> []"
    and path: "path \<noteq> []" "length path \<le> 12" "0x2F \<notin> set path" "hd path \<noteq> 0" "hd path \<noteq> 0xE5"
    and new: "FindEntry fs (root_cluster fs) path = Some None" and sz: "0 < unat sz" "unat sz \<le> length buf"
  shows "\<exists>ok fs'. WriteFile path buf sz fs = Some (ok, fs') \<and> fat_wf fs' \<and> (\<not> ok \<longrightarrow> full fs') \<and>
    (ok \<longrightarrow> (\<forall>out. unat sz + unat (cluster_size fs) \<le> length out \<and> length out < 4294967296 \<longrightarrow>
      (\<exists>out'. ReadFile fs' path out = Some (Some (out', sz)) \<and> take (unat sz) out' = take (unat sz) buf)))"
proof -
  obtain ok fs' where w: "WriteFile path buf sz fs = Some (ok, fs')" "fat_wf fs'" "\<not> ok \<longrightarrow> full fs'"
    "ok \<longrightarrow> (\<exists>bs. unat sz \<le> length bs \<and> length bs < unat sz + unat (cluster_size fs) \<and> take (unat sz) bs = take (unat sz) buf \<and>
      (\<forall>out. length bs \<le> length out \<and> length out < 4294967296 \<longrightarrow>
        ReadFile fs' path out = Some (Some (bs @ drop (length bs) out, sz))))"
    using WriteFile_then_ReadFile [OF assms] by blast
  have "\<exists>out'. ReadFile fs' path out = Some (Some (out', sz)) \<and> take (unat sz) out' = take (unat sz) buf"
    if k: ok and l: "unat sz + unat (cluster_size fs) \<le> length out" "length out < 4294967296" for out
  proof -
    obtain bs where bs: "unat sz \<le> length bs" "length bs < unat sz + unat (cluster_size fs)" "take (unat sz) bs = take (unat sz) buf"
      "\<And>out. length bs \<le> length out \<and> length out < 4294967296 \<Longrightarrow> ReadFile fs' path out = Some (Some (bs @ drop (length bs) out, sz))"
      using w(4) k by blast
    then show ?thesis using bs(4) [of out] l by simp
  qed
  then show ?thesis using w by blast
qed

theorem WriteFile_ReadFile_witness:
  "\<exists>ok fs'. WriteFile [0x61, 0x2E, 0x63] [1, 2, 3] 3 formatted = Some (ok, fs') \<and> fat_wf fs' \<and> (\<not> ok \<longrightarrow> full fs') \<and>
    (ok \<longrightarrow> (\<forall>out. unat (3 :: u32) + unat (cluster_size formatted) \<le> length out \<and> length out < 4294967296 \<longrightarrow>
      (\<exists>out'. ReadFile fs' [0x61, 0x2E, 0x63] out = Some (Some (out', 3)) \<and> take (unat (3 :: u32)) out' = take (unat (3 :: u32)) [1, 2, 3])))"
  by (rule WriteFile_ReadFile [OF formatted(1), of "[2]"])
    (simp_all add: formatted FindEntry_ok [OF formatted(1,2)] tidy_zeros)

text \<open>C20: the 8.3 name the code builds with its two filling loops is the specified one: the part before
  the dot cut to eight characters, three characters of extension when the dot comes right behind it, letters in capitals, blanks
  in the free places; always eleven characters, so that the loops stay inside the array.\<close>

theorem ToShortName_spec: "ToShortName component = short_name component \<and> length (ToShortName component) = 11"
  by (simp add: ToShortName_eq)

end
