(* ===== verification/Net_Base.thy ===== *)
theory Net_Base
  imports Prelude
begin

text \<open>
  The basics of the network stack, \<^verbatim>\<open>src/src/net/net.h\<close>: byte order, addresses and the Internet
  checksum. A packet is a list of bytes. The checksum loop adds 16-bit words, read in the
  machine's little-endian order, into a 32-bit sum and folds the carries back until the sum fits
  in 16 bits; the lemmas identify the result with arithmetic modulo 65535.
\<close>

section \<open>Byte order and addresses\<close>

definition htons :: "u16 \<Rightarrow> u16" where
  "htons x = drop_bit 8 x OR push_bit 8 x"

definition htonl :: "u32 \<Rightarrow> u32" where
  "htonl x = drop_bit 24 (x AND 0xFF000000) OR drop_bit 8 (x AND 0x00FF0000) OR
     push_bit 8 (x AND 0x0000FF00) OR push_bit 24 (x AND 0x000000FF)"

definition ntohs :: "u16 \<Rightarrow> u16" where "ntohs x = htons x"
definition ntohl :: "u32 \<Rightarrow> u32" where "ntohl x = htonl x"

type_synonym MACAddress = "u8 list"
type_synonym IPv4Address = "u8 list"

definition IsBroadcast :: "MACAddress \<Rightarrow> bool" where
  "IsBroadcast m \<longleftrightarrow> list_all (\<lambda>i. m ! i = 0xFF) [0..<6]"

definition MAC_Broadcast :: MACAddress where
  "MAC_Broadcast = replicate 6 0xFF"

definition FromBytes :: "u8 \<Rightarrow> u8 \<Rightarrow> u8 \<Rightarrow> u8 \<Rightarrow> IPv4Address" where
  "FromBytes a b c d = [a, b, c, d]"

section \<open>The Internet checksum\<close>

fun checksum_sum :: "u8 list \<Rightarrow> u32 \<Rightarrow> u32" where
  "checksum_sum (x # y # bs) acc = checksum_sum bs (acc + ucast (le16 x y))"
| "checksum_sum [x] acc = acc + ucast x"
| "checksum_sum [] acc = acc"

lemma fold_carry_decreases:
  assumes "drop_bit 16 (acc :: u32) \<noteq> 0"
  shows "unat ((acc AND 0xFFFF) + drop_bit 16 acc) = unat acc mod 65536 + unat acc div 65536"
    and "unat acc mod 65536 + unat acc div 65536 < unat acc"
proof -
  have m: "unat (acc AND 0xFFFF) = unat acc mod 65536"
  proof -
    have "acc AND 0xFFFF = take_bit 16 acc" by (simp add: take_bit_eq_mask mask_eq_exp_minus_1)
    then show ?thesis by (simp add: take_bit_eq_mod unat_mod)
  qed
  have d: "unat (drop_bit 16 acc) = unat acc div 65536" by (simp add: drop_bit_eq_div unat_div)
  have hi: "unat acc div 65536 < 65536" using unat_u32_lt [of acc] by (simp add: div_less_iff_less_mult)
  have "unat acc mod 65536 < 65536" by simp
  with m d hi show "unat ((acc AND 0xFFFF) + drop_bit 16 acc) = unat acc mod 65536 + unat acc div 65536"
    by (simp add: unat_u32_plus)
  have "unat acc div 65536 \<noteq> 0" using assms d by (metis unat_eq_zero)
  then show "unat acc mod 65536 + unat acc div 65536 < unat acc"
    using div_mult_mod_eq [of "unat acc" 65536] by linarith
qed

function fold_carry :: "u32 \<Rightarrow> u32" where
  "fold_carry acc = (if drop_bit 16 acc \<noteq> 0 then fold_carry ((acc AND 0xFFFF) + drop_bit 16 acc) else acc)"
  by auto
termination
  by (relation "measure unat") (auto simp: fold_carry_decreases)

declare fold_carry.simps [simp del]

definition InternetChecksum :: "u8 list \<Rightarrow> u16" where
  "InternetChecksum data = NOT (ucast (fold_carry (checksum_sum data 0)))"

section \<open>Lemmas\<close>

lemma htons_bits: "n < 16 \<Longrightarrow> bit (htons x) n \<longleftrightarrow> bit x (if n < 8 then n + 8 else n - 8)"
  by (auto simp: htons_def bit_simps add.commute dest: bit_imp_le_length)

lemma htons_htons [simp]: "htons (htons x) = x"
  by (rule bit_eqI) (auto simp: htons_bits)

lemma htons_byte_of: "byte_of 0 (htons x) = byte_of 1 x" "byte_of 1 (htons x) = byte_of 0 x"
  by (rule bit_eqI; auto simp: byte_of_def htons_bits bit_simps add.commute dest: bit_imp_le_length)+

lemma ntohs_htons [simp]: "ntohs (htons x) = x"
  by (simp add: ntohs_def)

lemma byte_masks:
  "(0xFF000000 :: u32) = push_bit 24 (mask 8)" "(0x00FF0000 :: u32) = push_bit 16 (mask 8)"
  "(0x0000FF00 :: u32) = push_bit 8 (mask 8)" "(0x000000FF :: u32) = mask 8"
  by (simp_all add: mask_eq_exp_minus_1)

lemma htonl_bits:
  assumes "n < 32"
  shows "bit (htonl x) n \<longleftrightarrow> bit x (n + 24 - 16 * (n div 8))"
proof -
  consider "n < 8" | "8 \<le> n" "n < 16" | "16 \<le> n" "n < 24" | "24 \<le> n" "n < 32" using assms by linarith
  then show ?thesis
  proof cases
    case 1
    then show ?thesis unfolding htonl_def byte_masks
      by (auto simp: bit_simps add.commute)
  next
    case 2
    then have "n div 8 = 1" by (intro div_nat_eqI) auto
    with 2 show ?thesis unfolding htonl_def byte_masks
      by (auto simp: bit_simps add.commute)
  next
    case 3
    then have "n div 8 = 2" by (intro div_nat_eqI) auto
    with 3 show ?thesis unfolding htonl_def byte_masks
      by (auto simp: bit_simps add.commute)
  next
    case 4
    then have "n div 8 = 3" by (intro div_nat_eqI) auto
    with 4 show ?thesis unfolding htonl_def byte_masks
      by (auto simp: bit_simps add.commute)
  qed
qed

lemma htonl_htonl [simp]: "htonl (htonl x) = x"
proof (rule bit_word_eqI)
  fix n
  assume "n < LENGTH(32)"
  then have n: "n < 32" by simp
  obtain q r where qr: "n = 8 * q + r" "r < 8" "q < 4" "n div 8 = q"
  proof (rule that [of "n div 8" "n mod 8"])
    show "n div 8 < 4" using n by (simp add: div_less_iff_less_mult)
  qed simp_all
  define m where "m = 8 * (3 - q) + r"
  have "m < 32" "m div 8 = 3 - q" using qr by (auto simp: m_def intro: div_nat_eqI)
  moreover have "n + 24 - 16 * (n div 8) = m" "m + 24 - 16 * (3 - q) = n" using qr by (auto simp: m_def)
  ultimately show "bit (htonl (htonl x)) n \<longleftrightarrow> bit x n"
    using htonl_bits [OF n, of "htonl x"] htonl_bits [of m x] by simp
qed

lemma ntohl_htonl [simp]: "ntohl (htonl x) = x"
  by (simp add: ntohl_def)

subsection \<open>The checksum modulo 65535\<close>

fun wsum :: "u8 list \<Rightarrow> nat" where
  "wsum (x # y # bs) = unat (le16 x y) + wsum bs"
| "wsum [x] = unat x"
| "wsum [] = 0"

definition norm1 :: "nat \<Rightarrow> nat" where
  "norm1 n = (if n = 0 then 0 else if n mod 65535 = 0 then 65535 else n mod 65535)"

lemma unat_u16_lt [simp]: "unat (w :: u16) < 65536"
  using unsigned_less [of w] by simp

lemma unat_u8_lt [simp]: "unat (w :: u8) < 256"
  using unsigned_less [of w] by simp

lemma unat_u16_le: "unat (w :: u16) \<le> 65535"
  using unat_u16_lt [of w] by linarith

lemma wsum_bound: "wsum bs \<le> 65535 * ((length bs + 1) div 2)"
proof (induction bs rule: wsum.induct)
  case (1 x y bs)
  then show ?case using unat_u16_le [of "le16 x y"] by simp
next
  case (2 x)
  have "unat x \<le> 65535" using unat_u8_lt [of x] by linarith
  then show ?case by simp
qed simp

lemma unat_ucast_u16: "unat (ucast (w :: u16) :: u32) = unat w"
proof -
  have "unat w < 4294967296" using unat_u16_lt [of w] by linarith
  then show ?thesis by (simp add: unsigned_ucast_eq take_bit_eq_mod)
qed

lemma unat_ucast_u8: "unat (ucast (w :: u8) :: u32) = unat w"
proof -
  have "unat w < 4294967296" using unat_u8_lt [of w] by linarith
  then show ?thesis by (simp add: unsigned_ucast_eq take_bit_eq_mod)
qed

lemma unat_checksum_sum:
  "unat acc + wsum bs < 4294967296 \<Longrightarrow> unat (checksum_sum bs acc) = unat acc + wsum bs"
proof (induction bs acc rule: checksum_sum.induct)
  case (1 x y bs acc)
  then have "unat (acc + ucast (le16 x y)) = unat acc + unat (le16 x y)"
    by (simp add: unat_u32_plus unat_ucast_u16)
  then show ?case using 1 by simp
next
  case (2 x acc)
  then show ?case by (simp add: unat_u32_plus unat_ucast_u8)
qed simp

lemma norm1_step:
  assumes "65536 \<le> n"
  shows "norm1 (n mod 65536 + n div 65536) = norm1 n"
proof -
  have "n = n mod 65536 + n div 65536 + 65535 * (n div 65536)" using div_mult_mod_eq [of n 65536] by linarith
  then have "n mod 65535 = (n mod 65536 + n div 65536) mod 65535" by (metis mod_mult_self2)
  moreover have "n mod 65536 + n div 65536 \<noteq> 0" using assms by (auto simp: div_eq_0_iff)
  ultimately show ?thesis using assms by (simp add: norm1_def)
qed

lemma unat_fold_carry: "unat (fold_carry acc) = norm1 (unat acc)"
proof (induction acc rule: fold_carry.induct)
  case (1 acc)
  show ?case
  proof (cases "drop_bit 16 acc = 0")
    case True
    have "unat (drop_bit 16 acc) = unat acc div 65536" by (simp add: drop_bit_eq_div unat_div)
    then have "unat acc < 65536" using True by (simp add: div_eq_0_iff)
    then have "norm1 (unat acc) = unat acc"
      by (cases "unat acc = 65535") (auto simp: norm1_def)
    then show ?thesis using True by (subst fold_carry.simps) simp
  next
    case False
    then have "unat acc div 65536 \<noteq> 0"
      using unat_eq_zero [of "drop_bit 16 acc"] by (simp add: drop_bit_eq_div unat_div)
    then have "65536 \<le> unat acc" by (simp add: div_eq_0_iff)
    then show ?thesis
      using 1 False norm1_step [of "unat acc"] fold_carry_decreases(1) [OF False]
      by (subst fold_carry.simps) simp
  qed
qed

lemma norm1_le: "norm1 n \<le> 65535"
  using mod_less_divisor [of 65535 n] by (auto simp: norm1_def)

lemma unat_NOT_u16: "unat (NOT w :: u16) = 65535 - unat w"
proof -
  have "NOT w = - 1 - w" by (simp add: not_eq_complement)
  moreover have "unat (- 1 :: u16) = 65535"
    by (simp add: unsigned_minus_1_eq_mask mask_eq_exp_minus_1)
  ultimately show ?thesis using unat_sub [of w "- 1"] by simp
qed

lemma unat_InternetChecksum:
  assumes "length bs \<le> 65535"
  shows "unat (InternetChecksum bs) = 65535 - norm1 (wsum bs)"
proof -
  have "wsum bs \<le> 65535 * 32768" using wsum_bound [of bs] assms by linarith
  then have "unat (fold_carry (checksum_sum bs 0)) = norm1 (wsum bs)"
    by (simp add: unat_fold_carry unat_checksum_sum)
  then have "unat (ucast (fold_carry (checksum_sum bs 0)) :: u16) = norm1 (wsum bs)"
    using norm1_le [of "wsum bs"] by (simp add: unsigned_ucast_eq take_bit_eq_mod)
  then show ?thesis by (simp add: InternetChecksum_def unat_NOT_u16)
qed

lemma wsum_append: "even (length xs) \<Longrightarrow> wsum (xs @ ys) = wsum xs + wsum ys"
  by (induction xs rule: wsum.induct) auto

text \<open>Putting the checksum into its zeroed field makes the checksum of the whole zero.\<close>

lemma InternetChecksum_verifies:
  assumes "even (length pre)" and "length pre + 2 + length post \<le> 65535"
    and "c = InternetChecksum (pre @ [0, 0] @ post)"
  shows "InternetChecksum (pre @ [byte_of 0 c, byte_of 1 c] @ post) = 0"
proof -
  let ?s = "wsum pre + wsum post"
  have w0: "wsum (pre @ [0, 0] @ post) = ?s"
    using wsum_append [OF assms(1)] by (simp add: le16_def)
  have uc: "unat c = 65535 - norm1 ?s"
    unfolding assms(3) using unat_InternetChecksum [of "pre @ [0, 0] @ post"] assms(2) w0 by simp
  have "wsum (pre @ [byte_of 0 c, byte_of 1 c] @ post) = ?s + (65535 - norm1 ?s)"
    using wsum_append [OF assms(1)] uc by (simp add: le16_byte_of [simplified])
  moreover have "norm1 (?s + (65535 - norm1 ?s)) = 65535"
  proof (cases "?s = 0")
    case False
    have "(?s + (65535 - norm1 ?s)) mod 65535 = 0"
    proof (cases "?s mod 65535 = 0")
      case False
      then have "norm1 ?s = ?s mod 65535" using \<open>?s \<noteq> 0\<close> by (simp add: norm1_def)
      moreover have "?s mod 65535 \<le> ?s" "?s mod 65535 \<le> 65535" by (simp_all add: less_imp_le)
      ultimately have "?s + (65535 - norm1 ?s) = (?s - ?s mod 65535) + 65535" by linarith
      then show ?thesis by (simp add: minus_mod_eq_mult_div)
    qed (use False in \<open>simp add: norm1_def\<close>)
    moreover have "?s + (65535 - norm1 ?s) \<noteq> 0" using False by auto
    ultimately show ?thesis by (simp only: norm1_def [of "?s + (65535 - norm1 ?s)"]) simp
  qed (simp add: norm1_def)
  ultimately have "unat (InternetChecksum (pre @ [byte_of 0 c, byte_of 1 c] @ post)) = 0"
    using unat_InternetChecksum [of "pre @ [byte_of 0 c, byte_of 1 c] @ post"] assms(2) by simp
  then show ?thesis by (simp add: unat_eq_0)
qed

section \<open>Properties\<close>

text \<open>A packet whose checksum field was zeroed, checksummed and filled in as the senders do verifies at
  the receiver: the checksum over all of it is 0. The field may be anywhere at an even offset, the
  packet of any length up to 65535 bytes. The carry loop ends for every sum.\<close>

theorem checksum_round_trip:
  assumes "even (length pre)" and "length pre + 2 + length post \<le> 65535"
  shows "InternetChecksum (pre @
      [byte_of 0 (InternetChecksum (pre @ [0, 0] @ post)), byte_of 1 (InternetChecksum (pre @ [0, 0] @ post))] @
      post) = 0"
  by (rule InternetChecksum_verifies [OF assms refl])

theorem checksum_round_trip_witness:
  "InternetChecksum ([0x45, 0x00] @ [byte_of 0 (InternetChecksum ([0x45, 0x00] @ [0, 0] @ [0xFF])),
     byte_of 1 (InternetChecksum ([0x45, 0x00] @ [0, 0] @ [0xFF]))] @ [0xFF]) = 0"
  by (rule checksum_round_trip) simp_all

end
