(* ===== verification/Net_Link.thy ===== *)
theory Net_Link
  imports Net_Base Buffers
begin

text \<open>
  The link layer: sending and receiving with the RTL8139 (\<^verbatim>\<open>src/src/drivers/rtl8139.cpp\<close>), the
  dispatch of frames to protocol handlers (\<^verbatim>\<open>src/src/net/ethernet.cpp\<close>) and the address resolution
  protocol (\<^verbatim>\<open>src/src/net/arp.cpp\<close>). A pointer into a buffer is the list of the bytes from there to
  the end of the buffer; an access past the end is the result \<open>None\<close>. The frames the card has
  been told to transmit are recorded in \<open>link_sent\<close>, oldest first. A registered handler is a
  name; \<open>Dispatch\<close> takes the function that calls it.
\<close>

section \<open>State\<close>

datatype eth_handler = ARP_Handler | IPv4_Handler

record ARPCacheEntry =
  a_ip :: IPv4Address
  a_mac :: MACAddress
  a_valid :: bool

record link =
  tx_buffers :: "u8 list list"
  tx_current :: nat
  nic_mac :: MACAddress
  rx_read_ptr :: u32
  capr :: "u16 list"
  link_sent :: "u8 list list"
  eth_handlers :: "(u16 \<times> eth_handler option) list"
  arp_cache :: "ARPCacheEntry list"
  arp_local_ip :: IPv4Address

definition ETHERTYPE_IPV4 :: u16 where "ETHERTYPE_IPV4 = 0x0800"
definition ETHERTYPE_ARP :: u16 where "ETHERTYPE_ARP = 0x0806"
definition ARP_REQUEST :: u16 where "ARP_REQUEST = 0x0001"
definition ARP_REPLY :: u16 where "ARP_REPLY = 0x0002"
definition sizeof_ARPPacket :: u32 where "sizeof_ARPPacket = 28"

section \<open>RTL8139 transmit and receive\<close>

text \<open>
  The constructor, the reset that waits for the card at most \<open>0x100000\<close> turns (\<open>status\<close> gives
  what the command register reads in each turn), the reading of the hardware address from the
  first six registers, and the register writes that start the card, as port and value.
\<close>

definition RTL8139_init :: "'a link_scheme \<Rightarrow> 'a link_scheme" where
  "RTL8139_init s = s\<lparr>rx_read_ptr := 0, tx_current := 0\<rparr>"

function HwReset_polls :: "(nat \<Rightarrow> u8) \<Rightarrow> nat \<Rightarrow> nat" where
  "HwReset_polls status i = (if i < 0x100000 \<and> status i AND 0x10 \<noteq> 0 then HwReset_polls status (i + 1) else i)"
  by pat_completeness auto
termination by (relation "measure (\<lambda>(status, i). 0x100000 - i)") auto

declare HwReset_polls.simps [simp del]

definition ReadMAC :: "(u16 \<Rightarrow> u8) \<Rightarrow> u16 \<Rightarrow> 'a link_scheme \<Rightarrow> 'a link_scheme" where
  "ReadMAC inb io_base s = s\<lparr>nic_mac := map (\<lambda>i. inb (io_base + of_nat i)) [0..<6]\<rparr>"

definition RTL8139_Activate_writes :: "u16 \<Rightarrow> u32 \<Rightarrow> (u16 \<times> u32) list" where
  "RTL8139_Activate_writes io_base rx_buffer =
     [(io_base + 0x37, 0x10),
      (io_base + 0x30, rx_buffer), (io_base + 0x50, 0x00), (io_base + 0x37, 0x0C),
      (io_base + 0x44, 0x0F OR push_bit 7 1), (io_base + 0x40, 0x00), (io_base + 0x3C, 0x0005)]"

definition GetMAC :: "'a link_scheme \<Rightarrow> MACAddress" where
  "GetMAC s = nic_mac s"

definition RTL8139_Send :: "MACAddress \<Rightarrow> u16 \<Rightarrow> u8 list \<Rightarrow> u32 \<Rightarrow> 'a link_scheme \<Rightarrow> (bool \<times> 'a link_scheme) option" where
  "RTL8139_Send dst ethertype payload sz s = do {
     let buf = tx_buffers s ! tx_current s;
     buf \<leftarrow> copy_bytes buf 0 dst 6;
     buf \<leftarrow> copy_bytes buf 6 (GetMAC s) 6;
     buf \<leftarrow> copy_bytes buf 12 [ucast (drop_bit 8 ethertype AND 0xFF), ucast (ethertype AND 0xFF)] 2;
     buf \<leftarrow> copy_bytes buf 14 payload (unat sz);
     let frame_size = (let f = 14 + sz in if f < 60 then 60 else f);
     Some (True, s\<lparr>tx_buffers := (tx_buffers s)[tx_current s := buf],
                   link_sent := link_sent s @ [take (unat frame_size) buf],
                   tx_current := (tx_current s + 1) mod 4\<rparr>)
   }"

text \<open>
  One turn of the receive loop on the contents of the receive buffer: the frame and the size to
  dispatch, if the status word says it is good, the new read position and the value for the
  card's read register.
\<close>

definition HandleReceive_step :: "u8 list \<Rightarrow> u32 \<Rightarrow> ((u8 list \<times> u32) option \<times> u32 \<times> u16) option" where
  "HandleReceive_step rx pos = do {
     let entry = drop (unat (pos mod 8192)) rx;
     status \<leftarrow> rd16_at entry 0;
     len \<leftarrow> rd16_at entry 2;
     let p = (pos + ucast len + 4 + 3) AND NOT 3;
     Some (if status AND 0x01 \<noteq> 0 then Some (drop 4 entry, ucast len - 4) else None,
           p, ucast ((p - 16) mod 8192))
   }"

section \<open>Ethernet dispatch\<close>

definition MAX_ETH_HANDLERS :: nat where "MAX_ETH_HANDLERS = 8"

definition Eth_RegisterHandler :: "u16 \<Rightarrow> eth_handler option \<Rightarrow> 'a link_scheme \<Rightarrow> 'a link_scheme" where
  "Eth_RegisterHandler ethertype h s =
     (if length (eth_handlers s) < MAX_ETH_HANDLERS
      then s\<lparr>eth_handlers := eth_handlers s @ [(ethertype, h)]\<rparr> else s)"

text \<open>The loop over the handler table; a handler may change the state, not the table it is in.\<close>

fun run_handlers :: "('h \<Rightarrow> 's \<Rightarrow> 's option) \<Rightarrow> 'h option list \<Rightarrow> 's \<Rightarrow> 's option" where
  "run_handlers call [] s = Some s"
| "run_handlers call (None # hs) s = run_handlers call hs s"
| "run_handlers call (Some h # hs) s = Option.bind (call h s) (run_handlers call hs)"

definition Dispatch ::
  "(eth_handler \<Rightarrow> u8 list \<Rightarrow> u32 \<Rightarrow> MACAddress \<Rightarrow> MACAddress \<Rightarrow> 'a link_scheme \<Rightarrow> 'a link_scheme option) \<Rightarrow>
     u8 list \<Rightarrow> u32 \<Rightarrow> 'a link_scheme \<Rightarrow> 'a link_scheme option" where
  "Dispatch call frame sz s =
     (if sz < 14 then Some s
      else do {
        et \<leftarrow> rd16_at frame 12;
        dst \<leftarrow> bytes_at frame 0 6;
        src \<leftarrow> bytes_at frame 6 6;
        run_handlers (\<lambda>h. call h (drop 14 frame) (sz - 14) src dst)
          (map snd (filter (\<lambda>(t, h). t = ntohs et) (eth_handlers s))) s
      })"

text \<open>
  The receive loop: each element of \<open>env\<close> is what the command register reads at the head of a turn
  and the receive buffer as the card has filled it by then. A list that ends before the card
  reports an empty buffer leaves the loop running, which is \<open>None\<close>.
\<close>

fun HandleReceive ::
  "(eth_handler \<Rightarrow> u8 list \<Rightarrow> u32 \<Rightarrow> MACAddress \<Rightarrow> MACAddress \<Rightarrow> 'a link_scheme \<Rightarrow> 'a link_scheme option) \<Rightarrow>
     (u8 \<times> u8 list) list \<Rightarrow> 'a link_scheme \<Rightarrow> 'a link_scheme option" where
  "HandleReceive call [] s = None"
| "HandleReceive call ((cr, rx) # env) s =
     (if cr AND 0x01 \<noteq> 0 then Some s
      else do {
        (frame, p, c) \<leftarrow> HandleReceive_step rx (rx_read_ptr s);
        s \<leftarrow> (case frame of Some (f, n) \<Rightarrow> Dispatch call f n s | None \<Rightarrow> Some s);
        HandleReceive call env (s\<lparr>rx_read_ptr := p, capr := capr s @ [c]\<rparr>)
      })"

definition RTL8139_HandleInterrupt ::
  "(eth_handler \<Rightarrow> u8 list \<Rightarrow> u32 \<Rightarrow> MACAddress \<Rightarrow> MACAddress \<Rightarrow> 'a link_scheme \<Rightarrow> 'a link_scheme option) \<Rightarrow>
     u16 \<Rightarrow> (u8 \<times> u8 list) list \<Rightarrow> u32 \<Rightarrow> 'a link_scheme \<Rightarrow> (u32 \<times> 'a link_scheme) option" where
  "RTL8139_HandleInterrupt call status env esp s =
     (if status AND 0x01 \<noteq> 0 then map_option (Pair esp) (HandleReceive call env s) else Some (esp, s))"

section \<open>ARP\<close>

definition cache_find :: "('e \<Rightarrow> bool) \<Rightarrow> 'e list \<Rightarrow> nat option" where
  "cache_find P c = find (\<lambda>i. P (c ! i)) [0..<length c]"

definition CacheSet :: "IPv4Address \<Rightarrow> MACAddress \<Rightarrow> ARPCacheEntry list \<Rightarrow> ARPCacheEntry list" where
  "CacheSet ip mac c =
     (case cache_find (\<lambda>e. a_valid e \<and> a_ip e = ip) c of
        Some i \<Rightarrow> c[i := (c ! i)\<lparr>a_mac := mac\<rparr>]
      | None \<Rightarrow>
          (case cache_find (\<lambda>e. \<not> a_valid e) c of
             Some i \<Rightarrow> c[i := \<lparr>a_ip = ip, a_mac = mac, a_valid = True\<rparr>]
           | None \<Rightarrow> c))"

definition CacheGet :: "IPv4Address \<Rightarrow> ARPCacheEntry list \<Rightarrow> MACAddress option" where
  "CacheGet ip c = map_option (\<lambda>i. a_mac (c ! i)) (cache_find (\<lambda>e. a_valid e \<and> a_ip e = ip) c)"

definition Resolve :: "IPv4Address \<Rightarrow> 'a link_scheme \<Rightarrow> MACAddress option" where
  "Resolve ip s = CacheGet ip (arp_cache s)"

text \<open>The packet as the struct lays it out.\<close>

definition ARPPacket :: "u16 \<Rightarrow> MACAddress \<Rightarrow> IPv4Address \<Rightarrow> MACAddress \<Rightarrow> IPv4Address \<Rightarrow> u8 list" where
  "ARPPacket opcode sender_mac sender_ip target_mac target_ip =
     put16 (htons 0x0001) @ put16 (htons 0x0800) @ [6, 4] @ put16 (htons opcode) @
     sender_mac @ sender_ip @ target_mac @ target_ip"

definition ARP_SendRequest :: "IPv4Address \<Rightarrow> 'a link_scheme \<Rightarrow> 'a link_scheme option" where
  "ARP_SendRequest target_ip s =
     map_option snd (RTL8139_Send MAC_Broadcast ETHERTYPE_ARP
       (ARPPacket ARP_REQUEST (GetMAC s) (arp_local_ip s) (replicate 6 0) target_ip) sizeof_ARPPacket s)"

definition ARP_SendReply :: "MACAddress \<Rightarrow> IPv4Address \<Rightarrow> 'a link_scheme \<Rightarrow> 'a link_scheme option" where
  "ARP_SendReply req_mac req_ip s =
     map_option snd (RTL8139_Send req_mac ETHERTYPE_ARP
       (ARPPacket ARP_REPLY (GetMAC s) (arp_local_ip s) req_mac req_ip) sizeof_ARPPacket s)"

definition ARP_HandleEthernetPayload :: "u8 list \<Rightarrow> u32 \<Rightarrow> 'a link_scheme \<Rightarrow> 'a link_scheme option" where
  "ARP_HandleEthernetPayload payload sz s =
     (if sz < sizeof_ARPPacket then Some s
      else do {
        opcode \<leftarrow> rd16_at payload 6;
        sender_mac \<leftarrow> bytes_at payload 8 6;
        sender_ip \<leftarrow> bytes_at payload 14 4;
        target_ip \<leftarrow> bytes_at payload 24 4;
        let s = s\<lparr>arp_cache := CacheSet sender_ip sender_mac (arp_cache s)\<rparr>;
        if ntohs opcode = ARP_REQUEST \<and> target_ip = arp_local_ip s
        then ARP_SendReply sender_mac sender_ip s else Some s
      })"

section \<open>The address cache\<close>

lemma cache_find_Some:
  "cache_find P c = Some i \<longleftrightarrow> i < length c \<and> P (c ! i) \<and> (\<forall>j < i. \<not> P (c ! j))"
proof
  show "cache_find P c = Some i \<Longrightarrow> i < length c \<and> P (c ! i) \<and> (\<forall>j < i. \<not> P (c ! j))"
    unfolding cache_find_def by (drule find_upt_Some) simp
  assume i: "i < length c \<and> P (c ! i) \<and> (\<forall>j < i. \<not> P (c ! j))"
  show "cache_find P c = Some i"
  proof (cases "cache_find P c")
    case None
    then show ?thesis using i by (auto simp: cache_find_def find_None_iff)
  next
    case (Some k)
    then have "k < length c \<and> P (c ! k) \<and> (\<forall>j < k. \<not> P (c ! j))"
      unfolding cache_find_def by (auto dest: find_upt_Some)
    then have "k = i" using i by (metis linorder_neqE_nat)
    then show ?thesis using Some by simp
  qed
qed

lemma cache_find_None: "cache_find P c = None \<longleftrightarrow> (\<forall>i < length c. \<not> P (c ! i))"
  by (auto simp: cache_find_def find_None_iff)

lemma CacheGet_Some:
  "CacheGet ip c = Some mac \<longleftrightarrow>
     (\<exists>i < length c. a_valid (c ! i) \<and> a_ip (c ! i) = ip \<and> a_mac (c ! i) = mac \<and>
        (\<forall>j < i. \<not> (a_valid (c ! j) \<and> a_ip (c ! j) = ip)))"
  by (auto simp: CacheGet_def cache_find_Some)

lemma CacheGet_None: "CacheGet ip c = None \<longleftrightarrow> (\<forall>i < length c. \<not> (a_valid (c ! i) \<and> a_ip (c ! i) = ip))"
  by (auto simp: CacheGet_def cache_find_None)

lemma CacheGet_cong:
  assumes "length c' = length c"
    and "\<And>i. i < length c \<Longrightarrow> (a_valid (c' ! i) \<and> a_ip (c' ! i) = ip) = (a_valid (c ! i) \<and> a_ip (c ! i) = ip)"
    and "\<And>i. i < length c \<Longrightarrow> a_valid (c ! i) \<Longrightarrow> a_ip (c ! i) = ip \<Longrightarrow> a_mac (c' ! i) = a_mac (c ! i)"
  shows "CacheGet ip c' = CacheGet ip c"
proof -
  have eq: "cache_find (\<lambda>e. a_valid e \<and> a_ip e = ip) c' = cache_find (\<lambda>e. a_valid e \<and> a_ip e = ip) c"
    unfolding cache_find_def assms(1) by (rule find_cong) (use assms(2) in auto)
  show ?thesis
  proof (cases "cache_find (\<lambda>e. a_valid e \<and> a_ip e = ip) c")
    case None
    then show ?thesis using eq by (simp add: CacheGet_def)
  next
    case (Some i)
    then have "a_mac (c' ! i) = a_mac (c ! i)" using assms(3) by (simp add: cache_find_Some)
    then show ?thesis using eq Some by (simp add: CacheGet_def)
  qed
qed

definition cache_full :: "ARPCacheEntry list \<Rightarrow> bool" where
  "cache_full c \<longleftrightarrow> (\<forall>i < length c. a_valid (c ! i))"

lemma CacheSet_length [simp]: "length (CacheSet ip mac c) = length c"
  by (simp add: CacheSet_def split: option.split)

lemma CacheGet_CacheSet_same:
  assumes "CacheGet ip c \<noteq> None \<or> \<not> cache_full c"
  shows "CacheGet ip (CacheSet ip mac c) = Some mac"
proof (cases "cache_find (\<lambda>e. a_valid e \<and> a_ip e = ip) c")
  case (Some i)
  then have i: "i < length c" "a_valid (c ! i)" "a_ip (c ! i) = ip"
    "\<forall>j < i. \<not> (a_valid (c ! j) \<and> a_ip (c ! j) = ip)"
    by (auto simp: cache_find_Some)
  have "CacheSet ip mac c = c[i := (c ! i)\<lparr>a_mac := mac\<rparr>]" using Some by (simp add: CacheSet_def)
  then show ?thesis using i by (auto simp: CacheGet_Some intro!: exI [of _ i])
next
  case None
  then have no: "\<forall>i < length c. \<not> (a_valid (c ! i) \<and> a_ip (c ! i) = ip)" by (simp add: cache_find_None)
  then have "\<not> cache_full c" using assms by (simp add: CacheGet_None)
  then obtain i where f: "cache_find (\<lambda>e. \<not> a_valid e) c = Some i"
    by (cases "cache_find (\<lambda>e. \<not> a_valid e) c") (auto simp: cache_find_None cache_full_def)
  then have i: "i < length c" "\<not> a_valid (c ! i)" by (auto simp: cache_find_Some)
  have "CacheSet ip mac c = c[i := \<lparr>a_ip = ip, a_mac = mac, a_valid = True\<rparr>]"
    using None f by (simp add: CacheSet_def)
  then show ?thesis using i no by (auto simp: CacheGet_Some intro!: exI [of _ i])
qed

lemma CacheGet_CacheSet_other:
  assumes "ip' \<noteq> ip"
  shows "CacheGet ip' (CacheSet ip mac c) = CacheGet ip' c"
proof (rule CacheGet_cong)
  show "length (CacheSet ip mac c) = length c" by simp
  fix i
  assume i: "i < length c"
  show "(a_valid (CacheSet ip mac c ! i) \<and> a_ip (CacheSet ip mac c ! i) = ip') =
      (a_valid (c ! i) \<and> a_ip (c ! i) = ip')"
    using assms i by (auto simp: CacheSet_def nth_list_update cache_find_Some split: option.split)
  show "a_valid (c ! i) \<Longrightarrow> a_ip (c ! i) = ip' \<Longrightarrow> a_mac (CacheSet ip mac c ! i) = a_mac (c ! i)"
    using assms i by (auto simp: CacheSet_def nth_list_update cache_find_Some split: option.split)
qed

lemma CacheSet_full:
  assumes "CacheGet ip c = None" and "cache_full c"
  shows "CacheSet ip mac c = c"
proof -
  have "cache_find (\<lambda>e. a_valid e \<and> a_ip e = ip) c = None"
    using assms(1) by (simp add: CacheGet_None cache_find_None)
  moreover have "cache_find (\<lambda>e. \<not> a_valid e) c = None" using assms(2) by (simp add: cache_full_def cache_find_None)
  ultimately show ?thesis by (simp add: CacheSet_def)
qed

text \<open>What the senders rely on: a lookup table that learns, and forgets nothing it has learnt.\<close>

locale address_table =
  fixes get :: "'k \<Rightarrow> 't \<Rightarrow> 'v option"
    and put :: "'k \<Rightarrow> 'v \<Rightarrow> 't \<Rightarrow> 't"
    and full :: "'t \<Rightarrow> bool"
  assumes get_put: "get k t \<noteq> None \<or> \<not> full t \<Longrightarrow> get k (put k v t) = Some v"
    and get_put_other: "k' \<noteq> k \<Longrightarrow> get k' (put k v t) = get k' t"
    and put_full: "get k t = None \<Longrightarrow> full t \<Longrightarrow> put k v t = t"
begin

lemma known_stays_known: "get k t \<noteq> None \<Longrightarrow> get k (put k' v t) \<noteq> None"
  using get_put [of k' t v] get_put_other [of k k' v t] by (cases "k = k'") auto

lemma learn_all:
  "get k t \<noteq> None \<Longrightarrow> get k (foldl (\<lambda>t (k, v). put k v t) t kvs) \<noteq> None"
proof (induction kvs arbitrary: t)
  case (Cons kv kvs)
  then show ?case using known_stays_known [OF Cons.prems] by (simp add: case_prod_beta)
qed simp

lemma get_learned:
  assumes "get k t \<noteq> None \<or> \<not> full t" and "\<forall>(k', v') \<in> set kvs. k' \<noteq> k"
  shows "get k (foldl (\<lambda>t (k, v). put k v t) (put k v t) kvs) = Some v"
proof -
  have "get k (foldl (\<lambda>t (k, v). put k v t) t' kvs) = get k t'" for t'
    using assms(2) by (induction kvs arbitrary: t') (auto simp: get_put_other)
  then show ?thesis using get_put [OF assms(1)] by simp
qed

end

interpretation arp: address_table CacheGet CacheSet cache_full
  by unfold_locales (simp_all add: CacheGet_CacheSet_same CacheGet_CacheSet_other CacheSet_full)

section \<open>Frames on the wire\<close>

definition link_wf :: "'a link_scheme \<Rightarrow> bool" where
  "link_wf s \<longleftrightarrow> length (tx_buffers s) = 4 \<and> (\<forall>b \<in> set (tx_buffers s). length b = 1536) \<and>
     tx_current s < 4 \<and> length (nic_mac s) = 6 \<and> length (arp_local_ip s) = 4 \<and>
     length (arp_cache s) = 128"

text \<open>The frame a transmit produces: header, payload, and padding to 60 bytes.\<close>

definition eth_header :: "MACAddress \<Rightarrow> MACAddress \<Rightarrow> u16 \<Rightarrow> u8 list" where
  "eth_header dst src et = dst @ src @ [ucast (drop_bit 8 et AND 0xFF), ucast (et AND 0xFF)]"

definition padding :: "'a link_scheme \<Rightarrow> nat \<Rightarrow> u8 list" where
  "padding s n = take (60 - (14 + n)) (drop (14 + n) (tx_buffers s ! tx_current s))"

lemma padding_length: "link_wf s \<Longrightarrow> length (padding s n) = 60 - (14 + n)"
  by (auto simp: padding_def link_wf_def)

lemma link_wf_sent:
  assumes wf: "link_wf s" and b: "length b = 1536"
  shows "link_wf (s\<lparr>tx_buffers := (tx_buffers s)[tx_current s := b], link_sent := l,
    tx_current := (tx_current s + 1) mod 4\<rparr>)"
proof -
  have "length c = 1536" if "c \<in> set ((tx_buffers s)[tx_current s := b])" for c
    using subsetD [OF set_update_subset_insert that] wf b by (auto simp: link_wf_def)
  then show ?thesis using wf by (simp add: link_wf_def)
qed

lemma RTL8139_Send_ok:
  assumes wf: "link_wf s" and d: "length dst = 6" and n: "unat sz \<le> 1522" "unat sz \<le> length payload"
  obtains s' where "RTL8139_Send dst et payload sz s = Some (True, s')"
    and "link_sent s' = link_sent s @ [eth_header dst (nic_mac s) et @ take (unat sz) payload @ padding s (unat sz)]"
    and "link_wf s'" and "arp_cache s' = arp_cache s" and "arp_local_ip s' = arp_local_ip s"
    and "nic_mac s' = nic_mac s" and "eth_handlers s' = eth_handlers s" and "link.more s' = link.more s"
proof -
  let ?b = "tx_buffers s ! tx_current s" and ?n = "unat sz"
  have b: "length ?b = 1536" and m: "length (nic_mac s) = 6" using wf by (auto simp: link_wf_def)
  let ?et = "[ucast (drop_bit 8 et AND 0xFF), ucast (et AND 0xFF)]"
  let ?b1 = "dst @ drop 6 ?b" and ?b2 = "dst @ nic_mac s @ drop 12 ?b" and ?b3 = "eth_header dst (nic_mac s) et @ drop 14 ?b"
  let ?b4 = "eth_header dst (nic_mac s) et @ take ?n payload @ drop (14 + ?n) ?b"
  have c1: "copy_bytes ?b 0 dst 6 = Some ?b1" using b d by (simp add: copy_bytes_ok)
  have c2: "copy_bytes ?b1 6 (GetMAC s) 6 = Some ?b2" using b d m by (simp add: copy_bytes_ok GetMAC_def)
  have c3: "copy_bytes ?b2 12 ?et 2 = Some ?b3" using b d m by (simp add: copy_bytes_ok eth_header_def)
  have c4: "copy_bytes ?b3 14 payload ?n = Some ?b4"
    using b d m n by (simp add: copy_bytes_ok eth_header_def add.commute [of "?n" 14])
  have l4: "length ?b4 = 1536" using b d m n by (simp add: eth_header_def)
  have us: "unat (14 + sz) = 14 + ?n" using n(1) by (simp add: unat_u32_plus)
  have fs: "unat (if 14 + sz < 60 then 60 else 14 + sz) = max 60 (14 + ?n)"
    using us by (auto simp: word_less_nat_alt max_def)
  have tk: "take (max 60 (14 + ?n)) ?b4 = eth_header dst (nic_mac s) et @ take ?n payload @ padding s ?n"
    using b d m n by (auto simp: eth_header_def padding_def max_def min_def)
  let ?s = "s\<lparr>tx_buffers := (tx_buffers s)[tx_current s := ?b4],
      link_sent := link_sent s @ [take (max 60 (14 + ?n)) ?b4], tx_current := (tx_current s + 1) mod 4\<rparr>"
  have eq: "RTL8139_Send dst et payload sz s = Some (True, ?s)"
    unfolding RTL8139_Send_def Let_def c1 bind.bind_lunit c2 c3 c4 fs ..
  have wf': "link_wf ?s" by (rule link_wf_sent [OF wf l4])
  show ?thesis by (rule that [OF eq [unfolded tk] _ wf' [unfolded tk]]) simp_all
qed

section \<open>ARP packets\<close>

lemma ARPPacket_fields:
  assumes "length sm = 6" and "length si = 4" and "length tm = 6" and "length ti = 4"
  shows "length (ARPPacket op sm si tm ti) = 28"
    and "rd16_at (ARPPacket op sm si tm ti @ pad) 6 = Some (htons op)"
    and "bytes_at (ARPPacket op sm si tm ti @ pad) 8 6 = Some sm"
    and "bytes_at (ARPPacket op sm si tm ti @ pad) 14 4 = Some si"
    and "bytes_at (ARPPacket op sm si tm ti @ pad) 24 4 = Some ti"
  using assms
  by (simp_all add: ARPPacket_def rd16_at_def bytes_at_def nth_append put16_def le16_byte_of [simplified])

text \<open>What a host does with an ARP packet, and how a host sends one.\<close>

lemma ARP_Send_ok:
  assumes wf: "link_wf s" and d: "length dst = 6" and t: "length tm = 6" "length ti = 4"
  obtains s' pad where
    "map_option snd (RTL8139_Send dst ETHERTYPE_ARP (ARPPacket op (GetMAC s) (arp_local_ip s) tm ti)
       sizeof_ARPPacket s) = Some s'"
    and "link_sent s' = link_sent s @
      [eth_header dst (nic_mac s) ETHERTYPE_ARP @ ARPPacket op (nic_mac s) (arp_local_ip s) tm ti @ pad]"
    and "length pad = 18" and "link_wf s'" and "arp_cache s' = arp_cache s"
    and "arp_local_ip s' = arp_local_ip s" and "nic_mac s' = nic_mac s" and "eth_handlers s' = eth_handlers s"
    and "link.more s' = link.more s"
proof -
  let ?p = "ARPPacket op (GetMAC s) (arp_local_ip s) tm ti"
  have l: "length (nic_mac s) = 6" "length (arp_local_ip s) = 4" using wf by (simp_all add: link_wf_def)
  have p: "length ?p = 28" using ARPPacket_fields(1) l t by (simp add: GetMAC_def)
  have sz: "unat sizeof_ARPPacket = 28" by (simp add: sizeof_ARPPacket_def)
  obtain s' where s': "RTL8139_Send dst ETHERTYPE_ARP ?p sizeof_ARPPacket s = Some (True, s')"
    "link_sent s' = link_sent s @ [eth_header dst (nic_mac s) ETHERTYPE_ARP @ take 28 ?p @ padding s 28]"
    "link_wf s'" "arp_cache s' = arp_cache s" "arp_local_ip s' = arp_local_ip s" "nic_mac s' = nic_mac s"
    "eth_handlers s' = eth_handlers s" "link.more s' = link.more s"
    using RTL8139_Send_ok [OF wf d, of sizeof_ARPPacket ?p ETHERTYPE_ARP] sz p by auto
  show ?thesis
    by (rule that [of s' "padding s 28"]) (use s' p padding_length [OF wf, of 28] in \<open>simp_all add: GetMAC_def\<close>)
qed

lemma ARP_Handle_packet:
  assumes "length sm = 6" and "length si = 4" and "length tm = 6" and "length ti = 4" and "28 \<le> unat sz"
  shows "ARP_HandleEthernetPayload (ARPPacket op sm si tm ti @ pad) sz s =
    (let s = s\<lparr>arp_cache := CacheSet si sm (arp_cache s)\<rparr>
     in if op = ARP_REQUEST \<and> ti = arp_local_ip s then ARP_SendReply sm si s else Some s)"
  using assms ARPPacket_fields [OF assms(1-4)]
  by (simp add: ARP_HandleEthernetPayload_def sizeof_ARPPacket_def word_less_nat_alt not_less)

lemma link_wf_cache [simp]:
  "length c = 128 \<Longrightarrow> link_wf s \<Longrightarrow> link_wf (s\<lparr>arp_cache := c\<rparr>)"
  by (simp add: link_wf_def)

section \<open>Properties\<close>

text \<open>C13: address resolution works end to end. A host \<open>a\<close> that asks for the address of host \<open>b\<close>
  sends one broadcast frame; \<open>b\<close>, given the payload of that frame, sends one reply to \<open>a\<close>; and
  once \<open>a\<close> has processed it, \<open>a\<close> resolves the address of \<open>b\<close> to the hardware address of \<open>b\<close>, as long as
  the cache of \<open>a\<close> had room. All other entries of the cache are as before.\<close>

theorem ARP_exchange:
  assumes a: "link_wf a" and b: "link_wf b" and room: "\<not> cache_full (arp_cache a)"
  shows "\<exists>a1 b1 a2 req rep. ARP_SendRequest (arp_local_ip b) a = Some a1 \<and> link_sent a1 = link_sent a @ [req] \<and>
    take 6 req = MAC_Broadcast \<and>
    ARP_HandleEthernetPayload (drop 14 req) (of_nat (length req) - 14) b = Some b1 \<and>
    link_sent b1 = link_sent b @ [rep] \<and> take 6 rep = nic_mac a \<and>
    ARP_HandleEthernetPayload (drop 14 rep) (of_nat (length rep) - 14) a1 = Some a2 \<and>
    Resolve (arp_local_ip b) a2 = Some (nic_mac b) \<and>
    (\<forall>ip. ip \<noteq> arp_local_ip b \<longrightarrow> Resolve ip a2 = Resolve ip a)"
proof -
  have la: "length (nic_mac a) = 6" "length (arp_local_ip a) = 4" and lb: "length (nic_mac b) = 6"
    "length (arp_local_ip b) = 4" "length (arp_cache b) = 128"
    using a b by (simp_all add: link_wf_def)
  have bc: "length MAC_Broadcast = 6" "length (replicate 6 (0 :: u8)) = 6" by (simp_all add: MAC_Broadcast_def)
  obtain a1 pad where a1: "ARP_SendRequest (arp_local_ip b) a = Some a1"
    "link_sent a1 = link_sent a @ [eth_header MAC_Broadcast (nic_mac a) ETHERTYPE_ARP @
       ARPPacket ARP_REQUEST (nic_mac a) (arp_local_ip a) (replicate 6 0) (arp_local_ip b) @ pad]"
    "length pad = 18" "link_wf a1" "arp_cache a1 = arp_cache a" "arp_local_ip a1 = arp_local_ip a"
    "nic_mac a1 = nic_mac a"
    unfolding ARP_SendRequest_def
    using ARP_Send_ok [OF a bc lb(2), of ARP_REQUEST] by blast
  let ?req = "eth_header MAC_Broadcast (nic_mac a) ETHERTYPE_ARP @
       ARPPacket ARP_REQUEST (nic_mac a) (arp_local_ip a) (replicate 6 0) (arp_local_ip b) @ pad"
  let ?b = "b\<lparr>arp_cache := CacheSet (arp_local_ip a) (nic_mac a) (arp_cache b)\<rparr>"
  have h: "length (eth_header d src ETHERTYPE_ARP) = 14" if "length d = 6" "length src = 6" for d src
    using that by (simp add: eth_header_def)
  have lr: "length ?req = 60"
    using h [of MAC_Broadcast "nic_mac a"] la lb a1(3) ARPPacket_fields(1) by (simp add: MAC_Broadcast_def)
  have wfb: "link_wf ?b" using b lb by simp
  obtain b1 pad' where b1: "ARP_SendReply (nic_mac a) (arp_local_ip a) ?b = Some b1"
    "link_sent b1 = link_sent b @ [eth_header (nic_mac a) (nic_mac b) ETHERTYPE_ARP @
       ARPPacket ARP_REPLY (nic_mac b) (arp_local_ip b) (nic_mac a) (arp_local_ip a) @ pad']" "length pad' = 18"
    unfolding ARP_SendReply_def
    using ARP_Send_ok [OF wfb la(1) la, of ARP_REPLY] by simp blast
  let ?rep = "eth_header (nic_mac a) (nic_mac b) ETHERTYPE_ARP @
       ARPPacket ARP_REPLY (nic_mac b) (arp_local_ip b) (nic_mac a) (arp_local_ip a) @ pad'"
  have lp: "length ?rep = 60" using h la lb b1(3) ARPPacket_fields(1) by simp
  have dr: "drop 14 ?req = ARPPacket ARP_REQUEST (nic_mac a) (arp_local_ip a) (replicate 6 0) (arp_local_ip b) @ pad"
    using h [of MAC_Broadcast "nic_mac a"] la by (simp add: MAC_Broadcast_def)
  have dp: "drop 14 ?rep = ARPPacket ARP_REPLY (nic_mac b) (arp_local_ip b) (nic_mac a) (arp_local_ip a) @ pad'"
    using h la lb by simp
  have hb: "ARP_HandleEthernetPayload (drop 14 ?req) (of_nat (length ?req) - 14) b = Some b1"
    unfolding dr lr using la lb b1(1) by (subst ARP_Handle_packet) (simp_all add: Let_def)
  let ?a2 = "a1\<lparr>arp_cache := CacheSet (arp_local_ip b) (nic_mac b) (arp_cache a1)\<rparr>"
  have ha: "ARP_HandleEthernetPayload (drop 14 ?rep) (of_nat (length ?rep) - 14) a1 = Some ?a2"
    unfolding dp lp using la lb by (subst ARP_Handle_packet) (simp_all add: Let_def ARP_REPLY_def ARP_REQUEST_def)
  have r: "Resolve (arp_local_ip b) ?a2 = Some (nic_mac b)"
    "\<forall>ip. ip \<noteq> arp_local_ip b \<longrightarrow> Resolve ip ?a2 = Resolve ip a"
    using room a1(5) by (simp_all add: Resolve_def arp.get_put arp.get_put_other)
  have t: "take 6 ?req = MAC_Broadcast" "take 6 ?rep = nic_mac a"
    using la by (simp_all add: eth_header_def MAC_Broadcast_def)
  show ?thesis
    by (intro exI conjI, rule a1(1), rule a1(2), rule t(1), rule hb, rule b1(2), rule t(2), rule ha,
        rule r(1), rule r(2))
qed

text \<open>Two hosts with empty caches.\<close>

definition example_host :: "MACAddress \<Rightarrow> IPv4Address \<Rightarrow> link" where
  "example_host mac ip = \<lparr>tx_buffers = replicate 4 (replicate 1536 0), tx_current = 0, nic_mac = mac,
     rx_read_ptr = 0, capr = [], link_sent = [], eth_handlers = [],
     arp_cache = replicate 128 \<lparr>a_ip = [0, 0, 0, 0], a_mac = replicate 6 0, a_valid = False\<rparr>,
     arp_local_ip = ip\<rparr>"

lemma example_host_wf [simp]: "length mac = 6 \<Longrightarrow> length ip = 4 \<Longrightarrow> link_wf (example_host mac ip)"
  by (simp add: link_wf_def example_host_def)

lemma example_host_room [simp]: "\<not> cache_full (arp_cache (example_host mac ip))"
  by (auto simp: cache_full_def example_host_def intro!: exI [of _ 0])

definition guest :: link where "guest = example_host [0x52, 0x54, 0, 0x12, 0x34, 0x56] [10, 0, 2, 15]"
definition gateway :: link where "gateway = example_host [0x52, 0x55, 10, 0, 2, 2] [10, 0, 2, 2]"

theorem ARP_exchange_witness:
  "\<exists>a1 b1 a2 req rep. ARP_SendRequest (arp_local_ip gateway) guest = Some a1 \<and> link_sent a1 = link_sent guest @ [req] \<and>
    take 6 req = MAC_Broadcast \<and>
    ARP_HandleEthernetPayload (drop 14 req) (of_nat (length req) - 14) gateway = Some b1 \<and>
    link_sent b1 = link_sent gateway @ [rep] \<and> take 6 rep = nic_mac guest \<and>
    ARP_HandleEthernetPayload (drop 14 rep) (of_nat (length rep) - 14) a1 = Some a2 \<and>
    Resolve (arp_local_ip gateway) a2 = Some (nic_mac gateway) \<and>
    (\<forall>ip. ip \<noteq> arp_local_ip gateway \<longrightarrow> Resolve ip a2 = Resolve ip guest)"
  by (rule ARP_exchange) (simp_all add: guest_def gateway_def)

end
