(* ===== verification/Net_IP.thy ===== *)
theory Net_IP
  imports Net_Link
begin

text \<open>
  The Internet layer and the two stateless protocols on it: \<^verbatim>\<open>src/src/net/ipv4.cpp\<close>,
  \<^verbatim>\<open>src/src/net/icmp.cpp\<close> and \<^verbatim>\<open>src/src/net/udp.cpp\<close>. The state extends the record of the link
  layer. A payload pointer is, as there, the bytes from the pointer to the end of its buffer, next
  to the 32-bit size the code passes along with it; the two need not agree, and the code checks
  neither the total length of the Internet header nor the length of the UDP header against them.
  The virtual \<^verbatim>\<open>OnReceive\<close> of a UDP socket is an argument of the UDP handler.
\<close>

section \<open>State\<close>

datatype ip_handler = ICMP_Handler | UDP_Handler | TCP_Handler

record ip_stack = link +
  ip_local :: IPv4Address
  id_counter :: u16
  ip_handlers :: "(u8 \<times> ip_handler option) list"
  ip_tx_buf :: "u8 list"
  icmp_tx_buf :: "u8 list"
  udp_tx_buf :: "u8 list"
  udp_local_port :: u16

definition IPV4_PROTO_ICMP :: u8 where "IPV4_PROTO_ICMP = 0x01"
definition IPV4_PROTO_TCP :: u8 where "IPV4_PROTO_TCP = 0x06"
definition IPV4_PROTO_UDP :: u8 where "IPV4_PROTO_UDP = 0x11"
definition ICMP_ECHO_REQUEST :: u8 where "ICMP_ECHO_REQUEST = 8"
definition ICMP_ECHO_REPLY :: u8 where "ICMP_ECHO_REPLY = 0"

section \<open>IPv4\<close>

definition IPv4_init :: "IPv4Address \<Rightarrow> 'a ip_stack_scheme \<Rightarrow> 'a ip_stack_scheme" where
  "IPv4_init local_ip s = s\<lparr>ip_local := local_ip, id_counter := 0, ip_handlers := []\<rparr>"

definition GetLocalIP :: "'a ip_stack_scheme \<Rightarrow> IPv4Address" where
  "GetLocalIP s = ip_local s"

definition MAX_IP_HANDLERS :: nat where "MAX_IP_HANDLERS = 4"

definition IP_RegisterHandler :: "u8 \<Rightarrow> ip_handler option \<Rightarrow> 'a ip_stack_scheme \<Rightarrow> 'a ip_stack_scheme" where
  "IP_RegisterHandler protocol h s =
     (if length (ip_handlers s) < MAX_IP_HANDLERS
      then s\<lparr>ip_handlers := ip_handlers s @ [(protocol, h)]\<rparr> else s)"

definition IPv4Header :: "u16 \<Rightarrow> u16 \<Rightarrow> u8 \<Rightarrow> u16 \<Rightarrow> IPv4Address \<Rightarrow> IPv4Address \<Rightarrow> u8 list" where
  "IPv4Header total_length identification protocol checksum src dst =
     [0x45, 0] @ put16 (htons total_length) @ put16 (htons identification) @ put16 0 @
     [64, protocol] @ put16 checksum @ src @ dst"

definition IPv4_Send ::
  "IPv4Address \<Rightarrow> u8 \<Rightarrow> u8 list \<Rightarrow> u32 \<Rightarrow> 'a ip_stack_scheme \<Rightarrow> (bool \<times> 'a ip_stack_scheme) option" where
  "IPv4_Send dst_ip protocol payload sz s =
     (case Resolve dst_ip s of
        None \<Rightarrow> Some (False, s)
      | Some dst_mac \<Rightarrow> do {
          let header = (\<lambda>checksum. IPv4Header (ucast (20 + sz)) (id_counter s) protocol checksum (ip_local s) dst_ip);
          buf \<leftarrow> copy_bytes (ip_tx_buf s) 0 (header 0) 20;
          buf \<leftarrow> copy_bytes buf 0 (header (InternetChecksum (take 20 buf))) 20;
          buf \<leftarrow> copy_bytes buf 20 payload (unat sz);
          RTL8139_Send dst_mac ETHERTYPE_IPV4 buf (20 + sz)
            (s\<lparr>id_counter := id_counter s + 1, ip_tx_buf := buf\<rparr>)
        })"

definition IPv4_HandleEthernetPayload ::
  "(ip_handler \<Rightarrow> u8 list \<Rightarrow> u32 \<Rightarrow> IPv4Address \<Rightarrow> IPv4Address \<Rightarrow> u8 \<Rightarrow> 'a ip_stack_scheme \<Rightarrow> 'a ip_stack_scheme option) \<Rightarrow>
     u8 list \<Rightarrow> u32 \<Rightarrow> 'a ip_stack_scheme \<Rightarrow> 'a ip_stack_scheme option" where
  "IPv4_HandleEthernetPayload call payload sz s =
     (if sz < 20 then Some s
      else do {
        version_ihl \<leftarrow> rd8 payload 0;
        dst \<leftarrow> bytes_at payload 16 4;
        hdr \<leftarrow> bytes_at payload 0 20;
        if drop_bit 4 version_ihl \<noteq> 4 then Some s
        else if dst \<noteq> ip_local s then Some s
        else if InternetChecksum hdr \<noteq> 0 then Some s
        else do {
          total_length \<leftarrow> rd16_at payload 2;
          protocol \<leftarrow> rd8 payload 9;
          src \<leftarrow> bytes_at payload 12 4;
          let payload_size = ucast (ntohs total_length) - 20;
          run_handlers (\<lambda>h. call h (drop 20 payload) payload_size src dst protocol)
            (map snd (filter (\<lambda>(p, h). p = protocol) (ip_handlers s))) s
        }
      })"

section \<open>ICMP\<close>

definition ICMPHeader :: "u8 \<Rightarrow> u16 \<Rightarrow> u16 \<Rightarrow> u16 \<Rightarrow> u8 list" where
  "ICMPHeader type checksum identifier sequence =
     [type, 0] @ put16 checksum @ put16 (htons identifier) @ put16 (htons sequence)"

definition ICMP_HandleIPv4Payload ::
  "u8 list \<Rightarrow> u32 \<Rightarrow> IPv4Address \<Rightarrow> 'a ip_stack_scheme \<Rightarrow> 'a ip_stack_scheme option" where
  "ICMP_HandleIPv4Payload payload sz src s =
     (if sz < 8 then Some s
      else do {
        type \<leftarrow> rd8 payload 0;
        if type \<noteq> ICMP_ECHO_REQUEST then Some s
        else do {
          let reply_size = (if sz > 64 then 64 else sz);
          buf \<leftarrow> copy_bytes (icmp_tx_buf s) 0 payload (unat reply_size);
          buf \<leftarrow> copy_bytes buf 0 ([ICMP_ECHO_REPLY, 0] @ put16 0) 4;
          buf \<leftarrow> copy_bytes buf 2 (put16 (InternetChecksum (take (unat reply_size) buf))) 2;
          map_option snd (IPv4_Send src IPV4_PROTO_ICMP buf reply_size (s\<lparr>icmp_tx_buf := buf\<rparr>))
        }
      })"

definition SendEchoRequest ::
  "IPv4Address \<Rightarrow> u16 \<Rightarrow> u16 \<Rightarrow> 'a ip_stack_scheme \<Rightarrow> (bool \<times> 'a ip_stack_scheme) option" where
  "SendEchoRequest target ident seq s = do {
     buf \<leftarrow> copy_bytes (icmp_tx_buf s) 0 (ICMPHeader ICMP_ECHO_REQUEST 0 ident seq) 8;
     buf \<leftarrow> copy_bytes buf 2 (put16 (InternetChecksum (take 8 buf))) 2;
     IPv4_Send target IPV4_PROTO_ICMP buf 8 (s\<lparr>icmp_tx_buf := buf\<rparr>)
   }"

section \<open>UDP\<close>

definition UDPHeader :: "u16 \<Rightarrow> u16 \<Rightarrow> u16 \<Rightarrow> u8 list" where
  "UDPHeader src_port dst_port len = put16 (htons src_port) @ put16 (htons dst_port) @ put16 (htons len) @ put16 0"

definition UDP_HandleIPv4Payload ::
  "(IPv4Address \<Rightarrow> u16 \<Rightarrow> u8 list \<Rightarrow> u32 \<Rightarrow> 'a ip_stack_scheme \<Rightarrow> 'a ip_stack_scheme option) \<Rightarrow>
     u8 list \<Rightarrow> u32 \<Rightarrow> IPv4Address \<Rightarrow> 'a ip_stack_scheme \<Rightarrow> 'a ip_stack_scheme option" where
  "UDP_HandleIPv4Payload OnReceive payload sz src s =
     (if sz < 8 then Some s
      else do {
        dst_port \<leftarrow> rd16_at payload 2;
        if ntohs dst_port \<noteq> udp_local_port s then Some s
        else do {
          len \<leftarrow> rd16_at payload 4;
          src_port \<leftarrow> rd16_at payload 0;
          let data_size = ucast (ntohs len) - 8;
          OnReceive src (ntohs src_port) (drop 8 payload) data_size s
        }
      })"

definition UDP_Send ::
  "IPv4Address \<Rightarrow> u16 \<Rightarrow> u16 \<Rightarrow> u8 list \<Rightarrow> u32 \<Rightarrow> 'a ip_stack_scheme \<Rightarrow> (bool \<times> 'a ip_stack_scheme) option" where
  "UDP_Send dst_ip dst_port src_port data sz s = do {
     let n = (if sz > 1472 - 8 then 1472 - 8 else sz);
     buf \<leftarrow> copy_bytes (udp_tx_buf s) 0 (UDPHeader src_port dst_port (ucast (8 + n))) 8;
     buf \<leftarrow> copy_bytes buf 8 data (unat n);
     IPv4_Send dst_ip IPV4_PROTO_UDP buf (8 + n) (s\<lparr>udp_tx_buf := buf\<rparr>)
   }"

section \<open>The shape of the stack\<close>

definition ip_wf :: "'a ip_stack_scheme \<Rightarrow> bool" where
  "ip_wf s \<longleftrightarrow> link_wf s \<and> list_all (\<lambda>e. length (a_mac e) = 6) (arp_cache s) \<and> length (ip_local s) = 4 \<and>
     length (ip_tx_buf s) = 1500 \<and> length (icmp_tx_buf s) = 64 \<and> length (udp_tx_buf s) = 1472"

text \<open>A transmit changes only the ring of transmit buffers and the frames sent.\<close>

lemma RTL8139_Send_frame:
  assumes "RTL8139_Send dst et payload sz s = Some (b, s')"
  obtains bufs l where "s' = s\<lparr>tx_buffers := bufs, link_sent := l, tx_current := (tx_current s + 1) mod 4\<rparr>"
    and "link_wf s \<longrightarrow> link_wf s'"
proof -
  from assms obtain b1 b2 b3 b4 where c: "copy_bytes (tx_buffers s ! tx_current s) 0 dst 6 = Some b1"
    "copy_bytes b1 6 (GetMAC s) 6 = Some b2"
    "copy_bytes b2 12 [ucast (drop_bit 8 et AND 0xFF), ucast (et AND 0xFF)] 2 = Some b3"
    "copy_bytes b3 14 payload (unat sz) = Some b4"
    and s': "s' = s\<lparr>tx_buffers := (tx_buffers s)[tx_current s := b4],
      link_sent := link_sent s @ [take (unat (if 14 + sz < 60 then 60 else 14 + sz)) b4],
      tx_current := (tx_current s + 1) mod 4\<rparr>"
    unfolding RTL8139_Send_def Let_def by (auto simp only: bind_eq_Some_conv option.inject prod.inject)
  have "link_wf s'" if "link_wf s"
  proof -
    have "length (tx_buffers s ! tx_current s) = 1536" using that by (auto simp: link_wf_def)
    then have "length b4 = 1536" using c copy_bytes_length by metis
    then show ?thesis unfolding s' by (rule link_wf_sent [OF that])
  qed
  with s' show ?thesis by (intro that) blast+
qed

lemma ip_wf_link: "ip_wf s \<Longrightarrow> link_wf s"
  by (simp add: ip_wf_def)

lemma link_wf_ip_update [simp]:
  "link_wf (s\<lparr>id_counter := n\<rparr>) = link_wf s" "link_wf (s\<lparr>ip_tx_buf := b\<rparr>) = link_wf s"
  "link_wf (s\<lparr>icmp_tx_buf := b\<rparr>) = link_wf s" "link_wf (s\<lparr>udp_tx_buf := b\<rparr>) = link_wf s"
  by (simp_all add: link_wf_def)

lemma ip_wf_update [simp]:
  "ip_wf (s\<lparr>id_counter := n\<rparr>) = ip_wf s"
  "ip_wf s \<Longrightarrow> length b = 1500 \<Longrightarrow> ip_wf (s\<lparr>ip_tx_buf := b\<rparr>)"
  "ip_wf s \<Longrightarrow> length b = 64 \<Longrightarrow> ip_wf (s\<lparr>icmp_tx_buf := b\<rparr>)"
  "ip_wf s \<Longrightarrow> length b = 1472 \<Longrightarrow> ip_wf (s\<lparr>udp_tx_buf := b\<rparr>)"
  by (simp_all add: ip_wf_def)

lemma RTL8139_Send_ip_wf:
  assumes "RTL8139_Send dst et payload sz s = Some (b, s')" and "ip_wf s"
  shows "ip_wf s'"
proof -
  obtain bufs l where s': "s' = s\<lparr>tx_buffers := bufs, link_sent := l, tx_current := (tx_current s + 1) mod 4\<rparr>"
    and wf: "link_wf s \<longrightarrow> link_wf s'"
    using RTL8139_Send_frame [OF assms(1)] by blast
  have "link_wf s'" using wf assms(2) by (simp add: ip_wf_def)
  then show ?thesis using assms(2) unfolding ip_wf_def s' by simp
qed

lemma CacheSet_macs:
  assumes "list_all (\<lambda>e. length (a_mac e) = 6) c" and "length mac = 6"
  shows "list_all (\<lambda>e. length (a_mac e) = 6) (CacheSet ip mac c)"
  using assms
  by (auto simp: CacheSet_def list_all_length nth_list_update cache_find_Some split: option.split)

lemma Resolve_mac: "ip_wf s \<Longrightarrow> Resolve ip s = Some mac \<Longrightarrow> length mac = 6"
  by (auto simp: ip_wf_def Resolve_def CacheGet_Some list_all_length)

lemma ip_wf_cache:
  assumes "ip_wf s" and "length mac = 6"
  shows "ip_wf (s\<lparr>arp_cache := CacheSet ip mac (arp_cache s)\<rparr>)"
  using assms CacheSet_macs [of "arp_cache s" mac ip] by (simp add: ip_wf_def link_wf_def)

text \<open>Every operation of these layers keeps the shape of the stack.\<close>

lemma IPv4_Send_ip_wf:
  assumes "IPv4_Send dst proto payload sz s = Some (b, s')" and wf: "ip_wf s"
  shows "ip_wf s'"
proof (cases "Resolve dst s")
  case None
  then show ?thesis using assms by (simp add: IPv4_Send_def)
next
  case (Some mac)
  with assms obtain h0 h1 b1 b2 b3 where c: "copy_bytes (ip_tx_buf s) 0 h0 20 = Some b1"
    "copy_bytes b1 0 h1 20 = Some b2" "copy_bytes b2 20 payload (unat sz) = Some b3"
    and r: "RTL8139_Send mac ETHERTYPE_IPV4 b3 (20 + sz) (s\<lparr>id_counter := id_counter s + 1, ip_tx_buf := b3\<rparr>) = Some (b, s')"
    unfolding IPv4_Send_def Let_def by (auto simp: bind_eq_Some_conv)
  have "length b3 = 1500" using c copy_bytes_length wf unfolding ip_wf_def by metis
  then show ?thesis using RTL8139_Send_ip_wf [OF r] wf by simp
qed

lemma ARP_SendReply_ip_wf:
  "ARP_SendReply mac ip s = Some s' \<Longrightarrow> ip_wf s \<Longrightarrow> ip_wf s'"
  unfolding ARP_SendReply_def by (auto dest: RTL8139_Send_ip_wf)

lemma ARP_Handle_ip_wf:
  assumes "ARP_HandleEthernetPayload payload sz s = Some s'" and wf: "ip_wf s"
  shows "ip_wf s'"
proof -
  have m: "length m = 6" if "bytes_at payload 8 6 = Some m" for m
    using that by (auto simp: bytes_at_def split: if_splits)
  show ?thesis
    using assms(1) m wf unfolding ARP_HandleEthernetPayload_def Let_def
    by (auto simp: bind_eq_Some_conv intro: ip_wf_cache ARP_SendReply_ip_wf split: if_splits)
qed

lemma ICMP_Handle_ip_wf:
  assumes "ICMP_HandleIPv4Payload payload sz src s = Some s'" and wf: "ip_wf s"
  shows "ip_wf s'"
proof -
  have "ip_wf s'" if c: "copy_bytes (icmp_tx_buf s) 0 payload n = Some b1" "copy_bytes b1 0 x 4 = Some b2"
    "copy_bytes b2 2 y 2 = Some b3"
    and r: "IPv4_Send src IPV4_PROTO_ICMP b3 m (s\<lparr>icmp_tx_buf := b3\<rparr>) = Some (b, s')"
    for n m x y b b1 b2 b3
  proof -
    have "length b3 = 64" using c copy_bytes_length wf unfolding ip_wf_def by metis
    then show ?thesis using IPv4_Send_ip_wf [OF r] wf by simp
  qed
  then show ?thesis using assms unfolding ICMP_HandleIPv4Payload_def Let_def
    by (auto simp: bind_eq_Some_conv split: if_splits)
qed

lemma UDP_Send_ip_wf:
  assumes "UDP_Send dst_ip dport sport data sz s = Some (b, s')" and wf: "ip_wf s"
  shows "ip_wf s'"
proof -
  have "ip_wf s'" if c: "copy_bytes (udp_tx_buf s) 0 x 8 = Some b1" "copy_bytes b1 8 data n = Some b2"
    and r: "IPv4_Send dst_ip IPV4_PROTO_UDP b2 m (s\<lparr>udp_tx_buf := b2\<rparr>) = Some (b, s')"
    for n m x b1 b2
  proof -
    have "length b2 = 1472" using c copy_bytes_length wf unfolding ip_wf_def by metis
    then show ?thesis using IPv4_Send_ip_wf [OF r] wf by simp
  qed
  then show ?thesis using assms unfolding UDP_Send_def Let_def
    by (auto simp: bind_eq_Some_conv split: if_splits)
qed

lemma run_handlers_inv:
  assumes "run_handlers call hs s = Some s'" and "P s" and "\<And>h s s'. call h s = Some s' \<Longrightarrow> P s \<Longrightarrow> P s'"
  shows "P s'"
  using assms(1,2)
proof (induction hs arbitrary: s)
  case (Cons h hs)
  then show ?case using assms(3) by (cases h) (auto simp: bind_eq_Some_conv)
qed simp

section \<open>Datagrams\<close>

lemma unat_ucast_to_u16: "unat (w :: u32) < 65536 \<Longrightarrow> unat (ucast w :: u16) = unat w"
  by (simp only: unsigned_ucast_eq) (simp add: take_bit_nat_eq_self)

lemma IPv4Header_length [simp]:
  "length src = 4 \<Longrightarrow> length dst = 4 \<Longrightarrow> length (IPv4Header t i p c src dst) = 20"
  by (simp add: IPv4Header_def)

definition ip_header :: "'a ip_stack_scheme \<Rightarrow> IPv4Address \<Rightarrow> u8 \<Rightarrow> u32 \<Rightarrow> u8 list" where
  "ip_header s dst_ip protocol sz =
     (let header = (\<lambda>c. IPv4Header (ucast (20 + sz)) (id_counter s) protocol c (ip_local s) dst_ip)
      in header (InternetChecksum (header 0)))"

lemma ip_header_length [simp]: "length (ip_local s) = 4 \<Longrightarrow> length dst = 4 \<Longrightarrow> length (ip_header s dst p n) = 20"
  by (simp add: ip_header_def)

lemma ip_header_checksum:
  assumes "length (ip_local s) = 4" and "length dst = 4"
  shows "InternetChecksum (ip_header s dst p n) = 0"
proof -
  let ?pre = "[0x45, 0] @ put16 (htons (ucast (20 + n))) @ put16 (htons (id_counter s)) @ put16 0 @ [64, p]"
  let ?post = "ip_local s @ dst"
  have h: "IPv4Header (ucast (20 + n)) (id_counter s) p c (ip_local s) dst = ?pre @ [byte_of 0 c, byte_of 1 c] @ ?post" for c
    by (simp add: IPv4Header_def put16_def)
  have z: "byte_of 0 (0 :: u16) = 0" "byte_of 1 (0 :: u16) = 0" by (simp_all add: byte_of_def)
  show ?thesis unfolding ip_header_def Let_def h z
    by (rule InternetChecksum_verifies [OF _ _ refl]) (simp_all add: assms put16_def)
qed

text \<open>What one send puts on the wire.\<close>

lemma IPv4_Send_ok:
  assumes wf: "ip_wf s" and mac: "Resolve dst s = Some mac" and d: "length dst = 4"
    and n: "unat sz \<le> 1480" "unat sz \<le> length payload"
  obtains s' pad where "IPv4_Send dst p payload sz s = Some (True, s')"
    and "link_sent s' = link_sent s @
      [eth_header mac (nic_mac s) ETHERTYPE_IPV4 @ ip_header s dst p sz @ take (unat sz) payload @ pad]"
    and "ip_wf s'" and "length pad = 60 - (34 + unat sz)"
    and "arp_cache s' = arp_cache s" and "ip_local s' = ip_local s" and "nic_mac s' = nic_mac s"
    and "id_counter s' = id_counter s + 1"
    and "icmp_tx_buf s' = icmp_tx_buf s" and "udp_tx_buf s' = udp_tx_buf s"
    and "udp_local_port s' = udp_local_port s" and "ip_handlers s' = ip_handlers s"
    and "ip_stack.more s' = ip_stack.more s"
proof -
  let ?H = "\<lambda>c. IPv4Header (ucast (20 + sz)) (id_counter s) p c (ip_local s) dst"
  let ?h = "ip_header s dst p sz" and ?n = "unat sz" and ?t = "ip_tx_buf s"
  have l: "length ?t = 1500" "length (ip_local s) = 4" using wf by (auto simp: ip_wf_def)
  have lH: "length (?H c) = 20" for c using l d by simp
  let ?b = "?h @ take ?n payload @ drop (?n + 20) ?t"
  have c1: "copy_bytes ?t 0 (?H 0) 20 = Some (?H 0 @ drop 20 ?t)" using l lH by (simp add: copy_bytes_ok)
  have c2: "copy_bytes (?H 0 @ drop 20 ?t) 0 (?H (InternetChecksum (take 20 (?H 0 @ drop 20 ?t)))) 20 = Some (?h @ drop 20 ?t)"
    using l lH by (simp add: copy_bytes_ok ip_header_def Let_def)
  have c3: "copy_bytes (?h @ drop 20 ?t) 20 payload ?n = Some ?b"
    using l d n by (simp add: copy_bytes_ok)
  let ?s = "s\<lparr>id_counter := id_counter s + 1, ip_tx_buf := ?b\<rparr>"
  have lb: "length ?b = 1500" using l d n by simp
  have wf1: "ip_wf ?s" using wf lb by (simp del: length_append)
  have us: "unat (20 + sz) = 20 + ?n" using n(1) by (simp add: unat_u32_plus)
  obtain s' where s': "RTL8139_Send mac ETHERTYPE_IPV4 ?b (20 + sz) ?s = Some (True, s')"
    "link_sent s' = link_sent ?s @ [eth_header mac (nic_mac ?s) ETHERTYPE_IPV4 @ take (unat (20 + sz)) ?b @ padding ?s (unat (20 + sz))]"
    "link.more s' = link.more ?s" "arp_cache s' = arp_cache ?s" "nic_mac s' = nic_mac ?s"
  proof (rule RTL8139_Send_ok [OF ip_wf_link [OF wf1] Resolve_mac [OF wf mac], of "20 + sz" ?b ETHERTYPE_IPV4])
    show "unat (20 + sz) \<le> 1522" using us n(1) by simp
    show "unat (20 + sz) \<le> length ?b" using us n(1) lb by (simp del: length_append)
  qed (rule that; assumption)
  have m: "ip_local s' = ip_local s" "id_counter s' = id_counter s + 1" "icmp_tx_buf s' = icmp_tx_buf s"
    "udp_tx_buf s' = udp_tx_buf s" "udp_local_port s' = udp_local_port s" "ip_handlers s' = ip_handlers s"
    "ip_stack.more s' = ip_stack.more s"
    using s'(3) by (cases s'; cases s; simp)+
  have tk: "take (unat (20 + sz)) ?b = ?h @ take ?n payload"
    unfolding us using l d n by simp
  have eq: "IPv4_Send dst p payload sz s = Some (True, s')"
    unfolding IPv4_Send_def mac option.case Let_def c1 bind.bind_lunit c2 c3 by (rule s'(1))
  have sent: "link_sent s' = link_sent s @
      [eth_header mac (nic_mac s) ETHERTYPE_IPV4 @ ?h @ take ?n payload @ padding ?s (20 + ?n)]"
    using s'(2) [unfolded tk, unfolded us] by simp
  have pl: "length (padding ?s (20 + ?n)) = 60 - (34 + ?n)"
    using padding_length [OF ip_wf_link [OF wf1], of "20 + ?n"] by simp
  show ?thesis
    by (rule that [OF eq sent RTL8139_Send_ip_wf [OF s'(1) wf1] pl _ m(1) _ m(2-7)])
      (use s'(4,5) in simp_all)
qed

lemma IPv4_Handle_datagram:
  assumes lp: "length src = 4" "length dst = 4" and n: "unat sz \<le> 1480" "20 \<le> unat fsz"
    and src: "ip_local a = src" and dst: "ip_local b = dst"
  shows "IPv4_HandleEthernetPayload call (ip_header a dst p sz @ data) fsz b =
    run_handlers (\<lambda>h. call h data sz src dst p) (map snd (filter (\<lambda>(q, h). q = p) (ip_handlers b))) b"
proof -
  let ?h = "ip_header a dst p sz"
  have la: "length (ip_local a) = 4" using lp src by simp
  obtain c where h: "?h = IPv4Header (ucast (20 + sz)) (id_counter a) p c (ip_local a) dst"
    by (simp add: ip_header_def Let_def)
  have f: "rd8 (?h @ data) 0 = Some 0x45" "bytes_at (?h @ data) 16 4 = Some dst" "bytes_at (?h @ data) 0 20 = Some ?h"
    "rd16_at (?h @ data) 2 = Some (htons (ucast (20 + sz)))" "rd8 (?h @ data) 9 = Some p"
    "bytes_at (?h @ data) 12 4 = Some src" "drop 20 (?h @ data) = data"
    using la lp src unfolding h
    by (simp_all add: IPv4Header_def rd8_def bytes_at_def rd16_at_def nth_append put16_def le16_byte_of [simplified])
  have us: "unat (20 + sz) = 20 + unat sz" using n(1) by (simp add: unat_u32_plus)
  have "unat (ucast (ucast (20 + sz) :: u16) :: u32) = unat (20 + sz)"
    unfolding unat_ucast_u16 using us n(1) by (intro unat_ucast_to_u16) simp
  then have z: "ucast (ucast (20 + sz) :: u16) - 20 = sz"
    by (simp only: u32_eq_iff_unat [symmetric]) simp
  have v: "drop_bit 4 (0x45 :: u8) = 4" by (simp add: drop_bit_eq_div)
  have fs: "\<not> fsz < 20" using n(2) by (simp add: word_less_nat_alt)
  show ?thesis
    unfolding IPv4_HandleEthernetPayload_def f using fs dst v ip_header_checksum [OF la lp(2), of p sz]
    by (simp add: Let_def z)
qed

end
