(* ===== verification/Net_TCP.thy ===== *)
theory Net_TCP
  imports Net_IP
begin

text \<open>
  The TCP socket of \<^verbatim>\<open>src/src/net/tcp.cpp\<close>: its state machine, its segments and their checksum, on
  top of the Internet layer. The kernel opens connections only actively and has one socket; the
  virtual \<^verbatim>\<open>OnReceive\<close> is an argument of the receive handler. The static buffers are fields of
  the state and a write past the end of one is the result \<open>None\<close>.
\<close>

section \<open>State\<close>

datatype TCPState =
    TCP_CLOSED | TCP_LISTEN | TCP_SYN_SENT | TCP_SYN_RECEIVED
  | TCP_ESTABLISHED | TCP_FIN_WAIT_1 | TCP_FIN_WAIT_2
  | TCP_CLOSE_WAIT | TCP_LAST_ACK | TCP_TIME_WAIT

record tcp_stack = ip_stack +
  tcp_local_port :: u16
  tcp_remote_port :: u16
  tcp_remote_ip :: IPv4Address
  tcp_state :: TCPState
  tcp_seq :: u32
  tcp_ack :: u32
  tcp_rx_buf :: "u8 list"
  tcp_tx_buf :: "u8 list"
  tcp_scratch :: "u8 list"

definition TCP_FIN :: u8 where "TCP_FIN = 0x01"
definition TCP_SYN :: u8 where "TCP_SYN = 0x02"
definition TCP_RST :: u8 where "TCP_RST = 0x04"
definition TCP_PSH :: u8 where "TCP_PSH = 0x08"
definition TCP_ACK :: u8 where "TCP_ACK = 0x10"

definition has_flag :: "u8 \<Rightarrow> u8 \<Rightarrow> bool" where
  "has_flag flags f \<longleftrightarrow> flags AND f \<noteq> 0"

definition TCP_init :: "u16 \<Rightarrow> 'a tcp_stack_scheme \<Rightarrow> 'a tcp_stack_scheme" where
  "TCP_init local_port s =
     s\<lparr>tcp_local_port := local_port, tcp_remote_port := 0, tcp_state := TCP_CLOSED, tcp_seq := 0, tcp_ack := 0,
       tcp_remote_ip := FromBytes 0 0 0 0\<rparr>"

definition OnConnected :: "'a tcp_stack_scheme \<Rightarrow> 'a tcp_stack_scheme" where
  "OnConnected s = s"

definition OnClosed :: "'a tcp_stack_scheme \<Rightarrow> 'a tcp_stack_scheme" where
  "OnClosed s = s"

section \<open>Segments\<close>

definition TCPHeader :: "u16 \<Rightarrow> u16 \<Rightarrow> u32 \<Rightarrow> u32 \<Rightarrow> u8 \<Rightarrow> u16 \<Rightarrow> u8 list" where
  "TCPHeader src_port dst_port seq_num ack_num flags checksum =
     put16 (htons src_port) @ put16 (htons dst_port) @ put32 (htonl seq_num) @ put32 (htonl ack_num) @
     [push_bit 4 5, flags] @ put16 (htons 8192) @ put16 checksum @ put16 0"

definition TCPPseudoHeader :: "IPv4Address \<Rightarrow> IPv4Address \<Rightarrow> u16 \<Rightarrow> u8 list" where
  "TCPPseudoHeader src dst tcp_length = src @ dst @ [0, IPV4_PROTO_TCP] @ put16 (htons tcp_length)"

definition ComputeChecksum ::
  "IPv4Address \<Rightarrow> IPv4Address \<Rightarrow> u8 list \<Rightarrow> u32 \<Rightarrow> 'a tcp_stack_scheme \<Rightarrow> (u16 \<times> 'a tcp_stack_scheme) option" where
  "ComputeChecksum src dst segment seg_len s = do {
     scratch \<leftarrow> copy_bytes (tcp_scratch s) 0 (TCPPseudoHeader src dst (ucast seg_len)) 12;
     scratch \<leftarrow> copy_bytes scratch 12 segment (unat seg_len);
     Some (InternetChecksum (take (unat (12 + seg_len)) scratch), s\<lparr>tcp_scratch := scratch\<rparr>)
   }"

definition SendSegment :: "u8 \<Rightarrow> u8 list \<Rightarrow> u32 \<Rightarrow> 'a tcp_stack_scheme \<Rightarrow> 'a tcp_stack_scheme option" where
  "SendSegment flags data sz s = do {
     buf \<leftarrow> copy_bytes (tcp_tx_buf s) 0
       (TCPHeader (tcp_local_port s) (tcp_remote_port s) (tcp_seq s) (tcp_ack s) flags 0) 20;
     buf \<leftarrow> copy_bytes buf 20 data (unat sz);
     let seg_len = 20 + sz;
     (checksum, s) \<leftarrow> ComputeChecksum (GetLocalIP s) (tcp_remote_ip s) buf seg_len s;
     buf \<leftarrow> copy_bytes buf 16 (put16 checksum) 2;
     (sent, s) \<leftarrow> IPv4_Send (tcp_remote_ip s) IPV4_PROTO_TCP buf seg_len (s\<lparr>tcp_tx_buf := buf\<rparr>);
     Some (if has_flag flags TCP_SYN \<or> has_flag flags TCP_FIN
           then s\<lparr>tcp_seq := tcp_seq s + 1\<rparr> else s\<lparr>tcp_seq := tcp_seq s + sz\<rparr>)
   }"

section \<open>Operations\<close>

definition TCP_Connect :: "IPv4Address \<Rightarrow> u16 \<Rightarrow> 'a tcp_stack_scheme \<Rightarrow> (bool \<times> 'a tcp_stack_scheme) option" where
  "TCP_Connect dst_ip dst_port s = do {
     let s = s\<lparr>tcp_remote_ip := dst_ip, tcp_remote_port := dst_port, tcp_seq := 0xDEADBEEF, tcp_ack := 0,
               tcp_state := TCP_SYN_SENT\<rparr>;
     s \<leftarrow> SendSegment TCP_SYN [] 0 s;
     Some (True, s)
   }"

definition TCP_Send :: "u8 list \<Rightarrow> u32 \<Rightarrow> 'a tcp_stack_scheme \<Rightarrow> (bool \<times> 'a tcp_stack_scheme) option" where
  "TCP_Send data sz s =
     (if tcp_state s \<noteq> TCP_ESTABLISHED then Some (False, s)
      else do { s \<leftarrow> SendSegment (TCP_PSH OR TCP_ACK) data sz s; Some (True, s) })"

definition TCP_Close :: "'a tcp_stack_scheme \<Rightarrow> 'a tcp_stack_scheme option" where
  "TCP_Close s =
     (if tcp_state s = TCP_ESTABLISHED
      then SendSegment (TCP_FIN OR TCP_ACK) [] 0 (s\<lparr>tcp_state := TCP_FIN_WAIT_1\<rparr>)
      else Some s)"

definition TCP_on_segment ::
  "(u8 list \<Rightarrow> u32 \<Rightarrow> 'a tcp_stack_scheme \<Rightarrow> 'a tcp_stack_scheme option) \<Rightarrow>
     u32 \<Rightarrow> u32 \<Rightarrow> u8 \<Rightarrow> u8 list \<Rightarrow> u32 \<Rightarrow> 'a tcp_stack_scheme \<Rightarrow> 'a tcp_stack_scheme option" where
  "TCP_on_segment OnReceive in_seq in_ack flags data payload_size s =
     (case tcp_state s of
        TCP_SYN_SENT \<Rightarrow>
          if has_flag flags TCP_SYN \<and> has_flag flags TCP_ACK
          then do {
            s \<leftarrow> SendSegment TCP_ACK [] 0 (s\<lparr>tcp_ack := in_seq + 1, tcp_seq := in_ack, tcp_state := TCP_ESTABLISHED\<rparr>);
            Some (OnConnected s)
          }
          else Some s
      | TCP_ESTABLISHED \<Rightarrow>
          if has_flag flags TCP_FIN
          then do {
            s \<leftarrow> SendSegment TCP_ACK [] 0 (s\<lparr>tcp_ack := in_seq + 1\<rparr>);
            s \<leftarrow> SendSegment (TCP_FIN OR TCP_ACK) [] 0 s;
            Some (s\<lparr>tcp_state := TCP_LAST_ACK\<rparr>)
          }
          else if payload_size > 0
          then do {
            let n = (if payload_size > 8192 then 8192 else payload_size);
            rx \<leftarrow> copy_bytes (tcp_rx_buf s) 0 data (unat n);
            s \<leftarrow> SendSegment TCP_ACK [] 0 (s\<lparr>tcp_ack := in_seq + payload_size, tcp_rx_buf := rx\<rparr>);
            OnReceive (tcp_rx_buf s) n s
          }
          else Some s
      | TCP_LAST_ACK \<Rightarrow>
          if has_flag flags TCP_ACK then Some (OnClosed (s\<lparr>tcp_state := TCP_CLOSED\<rparr>)) else Some s
      | TCP_FIN_WAIT_1 \<Rightarrow>
          if has_flag flags TCP_ACK then Some (s\<lparr>tcp_state := TCP_FIN_WAIT_2\<rparr>) else Some s
      | TCP_FIN_WAIT_2 \<Rightarrow>
          if has_flag flags TCP_FIN
          then do {
            s \<leftarrow> SendSegment TCP_ACK [] 0 (s\<lparr>tcp_ack := in_seq + 1\<rparr>);
            Some (OnClosed (s\<lparr>tcp_state := TCP_CLOSED\<rparr>))
          }
          else Some s
      | _ \<Rightarrow> Some s)"

definition TCP_HandleIPv4Payload ::
  "(u8 list \<Rightarrow> u32 \<Rightarrow> 'a tcp_stack_scheme \<Rightarrow> 'a tcp_stack_scheme option) \<Rightarrow>
     u8 list \<Rightarrow> u32 \<Rightarrow> 'a tcp_stack_scheme \<Rightarrow> 'a tcp_stack_scheme option" where
  "TCP_HandleIPv4Payload OnReceive payload sz s =
     (if sz < 20 then Some s
      else do {
        dst_port \<leftarrow> rd16_at payload 2;
        if ntohs dst_port \<noteq> tcp_local_port s then Some s
        else do {
          seq_num \<leftarrow> rd32_at payload 4;
          ack_num \<leftarrow> rd32_at payload 8;
          data_offset \<leftarrow> rd8 payload 12;
          flags \<leftarrow> rd8 payload 13;
          let hdr_len = ucast (drop_bit 4 data_offset) * 4;
          let payload_size = (if sz > hdr_len then sz - hdr_len else 0);
          TCP_on_segment OnReceive (ntohl seq_num) (ntohl ack_num) flags (drop (unat hdr_len) payload) payload_size s
        }
      })"

section \<open>The stack\<close>

text \<open>
  The protocols as the kernel wires them: the virtual calls of the Internet layer and of the
  Ethernet driver, and the receive path of a frame. The methods the sockets of the system calls
  override are the arguments \<open>on_udp\<close> and \<open>on_tcp\<close>.
\<close>

definition HandleIPv4Payload ::
  "(IPv4Address \<Rightarrow> u16 \<Rightarrow> u8 list \<Rightarrow> u32 \<Rightarrow> 'a tcp_stack_scheme \<Rightarrow> 'a tcp_stack_scheme option) \<Rightarrow>
     (u8 list \<Rightarrow> u32 \<Rightarrow> 'a tcp_stack_scheme \<Rightarrow> 'a tcp_stack_scheme option) \<Rightarrow>
     ip_handler \<Rightarrow> u8 list \<Rightarrow> u32 \<Rightarrow> IPv4Address \<Rightarrow> IPv4Address \<Rightarrow> u8 \<Rightarrow> 'a tcp_stack_scheme \<Rightarrow> 'a tcp_stack_scheme option" where
  "HandleIPv4Payload on_udp on_tcp h payload sz src dst protocol s =
     (case h of
        ICMP_Handler \<Rightarrow> ICMP_HandleIPv4Payload payload sz src s
      | UDP_Handler \<Rightarrow> UDP_HandleIPv4Payload on_udp payload sz src s
      | TCP_Handler \<Rightarrow> TCP_HandleIPv4Payload on_tcp payload sz s)"

definition HandleEthernetPayload ::
  "(IPv4Address \<Rightarrow> u16 \<Rightarrow> u8 list \<Rightarrow> u32 \<Rightarrow> 'a tcp_stack_scheme \<Rightarrow> 'a tcp_stack_scheme option) \<Rightarrow>
     (u8 list \<Rightarrow> u32 \<Rightarrow> 'a tcp_stack_scheme \<Rightarrow> 'a tcp_stack_scheme option) \<Rightarrow>
     eth_handler \<Rightarrow> u8 list \<Rightarrow> u32 \<Rightarrow> MACAddress \<Rightarrow> MACAddress \<Rightarrow> 'a tcp_stack_scheme \<Rightarrow> 'a tcp_stack_scheme option" where
  "HandleEthernetPayload on_udp on_tcp h payload sz src dst s =
     (case h of
        ARP_Handler \<Rightarrow> ARP_HandleEthernetPayload payload sz s
      | IPv4_Handler \<Rightarrow> IPv4_HandleEthernetPayload (HandleIPv4Payload on_udp on_tcp) payload sz s)"

text \<open>
  The set-up at boot, on the state of a card that has been started: the constructors, the
  registrations, and the request for the address of the gateway.
\<close>

definition ARP_init :: "IPv4Address \<Rightarrow> 'a tcp_stack_scheme \<Rightarrow> 'a tcp_stack_scheme" where
  "ARP_init local_ip s = s\<lparr>arp_local_ip := local_ip\<rparr>"

definition UDP_init :: "u16 \<Rightarrow> 'a tcp_stack_scheme \<Rightarrow> 'a tcp_stack_scheme" where
  "UDP_init local_port s = s\<lparr>udp_local_port := local_port\<rparr>"

definition net_setup :: "'a tcp_stack_scheme \<Rightarrow> 'a tcp_stack_scheme option" where
  "net_setup s =
     (let local_ip = FromBytes 10 0 2 15;
          s = ARP_init local_ip s;
          s = IPv4_init local_ip s;
          s = UDP_init 1234 s;
          s = TCP_init 1234 s;
          s = Eth_RegisterHandler ETHERTYPE_ARP (Some ARP_Handler) s;
          s = Eth_RegisterHandler ETHERTYPE_IPV4 (Some IPv4_Handler) s;
          s = IP_RegisterHandler IPV4_PROTO_ICMP (Some ICMP_Handler) s;
          s = IP_RegisterHandler IPV4_PROTO_UDP (Some UDP_Handler) s;
          s = IP_RegisterHandler IPV4_PROTO_TCP (Some TCP_Handler) s
      in ARP_SendRequest (FromBytes 10 0 2 2) s)"

section \<open>The shape of the stack\<close>

definition tcp_wf :: "'a tcp_stack_scheme \<Rightarrow> bool" where
  "tcp_wf s \<longleftrightarrow> ip_wf s \<and> length (tcp_remote_ip s) = 4 \<and> length (tcp_rx_buf s) = 8192 \<and>
     length (tcp_tx_buf s) = 1480 \<and> length (tcp_scratch s) = 1500"

lemma IPv4_Send_more:
  assumes "IPv4_Send dst p payload sz s = Some (b, s')"
  shows "ip_stack.more s' = ip_stack.more s"
proof (cases "Resolve dst s")
  case None
  then show ?thesis using assms by (simp add: IPv4_Send_def)
next
  case (Some mac)
  with assms obtain b3 where
    r: "RTL8139_Send mac ETHERTYPE_IPV4 b3 (20 + sz) (s\<lparr>id_counter := id_counter s + 1, ip_tx_buf := b3\<rparr>) = Some (b, s')"
    unfolding IPv4_Send_def Let_def by (auto simp: bind_eq_Some_conv)
  show ?thesis by (rule RTL8139_Send_frame [OF r]) simp
qed

lemma IPv4_Send_tcp:
  assumes "IPv4_Send dst p payload sz (s :: 'a tcp_stack_scheme) = Some (b, s')"
  shows "tcp_local_port s' = tcp_local_port s" "tcp_remote_port s' = tcp_remote_port s"
    "tcp_remote_ip s' = tcp_remote_ip s" "tcp_state s' = tcp_state s" "tcp_seq s' = tcp_seq s"
    "tcp_ack s' = tcp_ack s" "tcp_rx_buf s' = tcp_rx_buf s" "tcp_tx_buf s' = tcp_tx_buf s"
    "tcp_scratch s' = tcp_scratch s" "tcp_stack.more s' = tcp_stack.more s"
  using IPv4_Send_more [OF assms] by (cases s; cases s'; simp)+

lemma ip_wf_tcp_update [simp]:
  "ip_wf (s\<lparr>tcp_scratch := b\<rparr>) = ip_wf s" "ip_wf (s\<lparr>tcp_tx_buf := b\<rparr>) = ip_wf s" "ip_wf (s\<lparr>tcp_rx_buf := b\<rparr>) = ip_wf s"
  "ip_wf (s\<lparr>tcp_seq := n\<rparr>) = ip_wf s" "ip_wf (s\<lparr>tcp_ack := n\<rparr>) = ip_wf s" "ip_wf (s\<lparr>tcp_state := t\<rparr>) = ip_wf s"
  "ip_wf (s\<lparr>tcp_remote_ip := ip\<rparr>) = ip_wf s" "ip_wf (s\<lparr>tcp_remote_port := pt\<rparr>) = ip_wf s"
  by (simp_all add: ip_wf_def link_wf_def)

lemma tcp_wf_update [simp]:
  "tcp_wf (s\<lparr>tcp_seq := n\<rparr>) = tcp_wf s" "tcp_wf (s\<lparr>tcp_ack := n\<rparr>) = tcp_wf s" "tcp_wf (s\<lparr>tcp_state := t\<rparr>) = tcp_wf s"
  "tcp_wf (s\<lparr>tcp_remote_port := pt\<rparr>) = tcp_wf s"
  "tcp_wf s \<Longrightarrow> length ip = 4 \<Longrightarrow> tcp_wf (s\<lparr>tcp_remote_ip := ip\<rparr>)"
  "tcp_wf s \<Longrightarrow> length b = 8192 \<Longrightarrow> tcp_wf (s\<lparr>tcp_rx_buf := b\<rparr>)"
  by (simp_all add: tcp_wf_def)

definition next_seq :: "u8 \<Rightarrow> u32 \<Rightarrow> u32 \<Rightarrow> u32" where
  "next_seq flags sz n = (if has_flag flags TCP_SYN \<or> has_flag flags TCP_FIN then n + 1 else n + sz)"

lemma seq_update:
  "(if has_flag flags TCP_SYN \<or> has_flag flags TCP_FIN then s\<lparr>tcp_seq := tcp_seq s + 1\<rparr>
     else s\<lparr>tcp_seq := tcp_seq s + sz\<rparr>) = s\<lparr>tcp_seq := next_seq flags sz (tcp_seq s)\<rparr>"
  by (simp add: next_seq_def)

text \<open>What a sent segment does to the socket.\<close>

lemma SendSegment_effect:
  assumes "SendSegment flags data sz s = Some s'"
  shows "tcp_state s' = tcp_state s" "tcp_ack s' = tcp_ack s" "tcp_seq s' = next_seq flags sz (tcp_seq s)"
    "tcp_local_port s' = tcp_local_port s" "tcp_remote_port s' = tcp_remote_port s"
    "tcp_remote_ip s' = tcp_remote_ip s" "tcp_rx_buf s' = tcp_rx_buf s" "tcp_wf s \<Longrightarrow> tcp_wf s'"
    "tcp_stack.more s' = tcp_stack.more s"
proof -
  from assms obtain b1 b2 sc0 sc c b3 b s1 where
    c: "copy_bytes (tcp_tx_buf s) 0 (TCPHeader (tcp_local_port s) (tcp_remote_port s) (tcp_seq s) (tcp_ack s) flags 0) 20 = Some b1"
      "copy_bytes b1 20 data (unat sz) = Some b2"
      "copy_bytes (tcp_scratch s) 0 (TCPPseudoHeader (GetLocalIP s) (tcp_remote_ip s) (ucast (20 + sz))) 12 = Some sc0"
      "copy_bytes sc0 12 b2 (unat (20 + sz)) = Some sc" "copy_bytes b2 16 (put16 c) 2 = Some b3"
    and i: "IPv4_Send (tcp_remote_ip (s\<lparr>tcp_scratch := sc\<rparr>)) IPV4_PROTO_TCP b3 (20 + sz) (s\<lparr>tcp_scratch := sc, tcp_tx_buf := b3\<rparr>) = Some (b, s1)"
    and s': "s' = s1\<lparr>tcp_seq := next_seq flags sz (tcp_seq s1)\<rparr>"
    unfolding SendSegment_def ComputeChecksum_def Let_def seq_update
    by (auto simp only: bind_eq_Some_conv prod.case option.inject prod.inject)
  note t = IPv4_Send_tcp [OF i]
  show "tcp_state s' = tcp_state s" "tcp_ack s' = tcp_ack s" "tcp_seq s' = next_seq flags sz (tcp_seq s)"
    "tcp_local_port s' = tcp_local_port s" "tcp_remote_port s' = tcp_remote_port s"
    "tcp_remote_ip s' = tcp_remote_ip s" "tcp_rx_buf s' = tcp_rx_buf s" "tcp_stack.more s' = tcp_stack.more s"
    using t by (simp_all add: s')
  assume wf: "tcp_wf s"
  have "length b3 = 1480" "length sc = 1500"
    using copy_bytes_length [OF c(1)] copy_bytes_length [OF c(2)] copy_bytes_length [OF c(3)]
      copy_bytes_length [OF c(4)] copy_bytes_length [OF c(5)] wf by (simp_all add: tcp_wf_def)
  moreover have "ip_wf s1" by (rule IPv4_Send_ip_wf [OF i]) (use wf in \<open>simp add: tcp_wf_def\<close>)
  ultimately show "tcp_wf s'" using t wf by (simp add: s' tcp_wf_def)
qed

section \<open>Segments on the wire\<close>

lemma bind_pair_map: "Option.bind x (\<lambda>(a, b). Some (f b)) = map_option (\<lambda>(a, b). f b) x"
  by (cases x) auto

lemma TCPHeader_length [simp]: "length (TCPHeader a b c d e f) = 20"
  by (simp add: TCPHeader_def)

lemma TCPPseudoHeader_length [simp]:
  "length src = 4 \<Longrightarrow> length dst = 4 \<Longrightarrow> length (TCPPseudoHeader src dst n) = 12"
  by (simp add: TCPPseudoHeader_def)

definition tcp_segment :: "'a tcp_stack_scheme \<Rightarrow> u8 \<Rightarrow> u8 list \<Rightarrow> u8 list" where
  "tcp_segment s flags data =
     (let header = TCPHeader (tcp_local_port s) (tcp_remote_port s) (tcp_seq s) (tcp_ack s) flags
      in header (InternetChecksum (TCPPseudoHeader (ip_local s) (tcp_remote_ip s) (of_nat (20 + length data)) @
           header 0 @ data)) @ data)"

lemma tcp_segment_length [simp]: "length (tcp_segment s flags data) = 20 + length data"
  by (simp add: tcp_segment_def Let_def)

lemma TCPHeader_split:
  "TCPHeader a b c d e ck = take 16 (TCPHeader a b c d e 0) @ [byte_of 0 ck, byte_of 1 ck] @ put16 0"
  by (simp add: TCPHeader_def put16_def put32_def)

lemma tcp_segment_checksum:
  assumes "length (ip_local s) = 4" and "length (tcp_remote_ip s) = 4" and "length data \<le> 1460"
  shows "InternetChecksum (TCPPseudoHeader (ip_local s) (tcp_remote_ip s) (of_nat (length (tcp_segment s flags data))) @
    tcp_segment s flags data) = 0"
proof -
  let ?H = "TCPHeader (tcp_local_port s) (tcp_remote_port s) (tcp_seq s) (tcp_ack s) flags"
  let ?p = "TCPPseudoHeader (ip_local s) (tcp_remote_ip s) (of_nat (20 + length data))"
  let ?c = "InternetChecksum (?p @ ?H 0 @ data)"
  have z: "?H 0 = take 16 (?H 0) @ [0, 0] @ put16 0"
    by (subst TCPHeader_split) (simp add: put16_0 put16_def byte_of_def)
  have c: "?c = InternetChecksum ((?p @ take 16 (?H 0)) @ [0, 0] @ (put16 0 @ data))"
    by (subst z) simp
  have "InternetChecksum ((?p @ take 16 (?H 0)) @ [byte_of 0 ?c, byte_of 1 ?c] @ (put16 0 @ data)) = 0"
    by (rule InternetChecksum_verifies [OF _ _ c]) (use assms in simp_all)
  then show ?thesis
    unfolding tcp_segment_length by (simp only: tcp_segment_def Let_def TCPHeader_split [of _ _ _ _ _ ?c] append_assoc)
qed

lemma copy_checksum:
  assumes "length rest = 1460"
  shows "copy_bytes (TCPHeader a b c d e 0 @ rest) 16 (put16 ck) 2 = Some (TCPHeader a b c d e ck @ rest)"
proof -
  have "copy_bytes (TCPHeader a b c d e 0 @ rest) 16 (put16 ck) 2 =
      Some (take 16 (TCPHeader a b c d e 0) @ put16 ck @ drop 18 (TCPHeader a b c d e 0) @ rest)"
    using assms by (simp add: copy_bytes_ok)
  also have "drop 18 (TCPHeader a b c d e 0) = put16 0" by (simp add: TCPHeader_def put16_def put32_def)
  finally show ?thesis by (subst TCPHeader_split) (simp add: put16_def)
qed

text \<open>A segment of up to 1460 bytes is sent; a longer one writes past the end of the buffer.\<close>

lemma SendSegment_steps:
  assumes wf: "tcp_wf s" and n: "unat sz \<le> 1460" "unat sz \<le> length data"
  obtains rest sc where "length (sc :: u8 list) = 1500"
    and "length (tcp_segment s flags (take (unat sz) data) @ rest) = 1480"
    and "SendSegment flags data sz s =
      map_option (\<lambda>(b, s). s\<lparr>tcp_seq := next_seq flags sz (tcp_seq s)\<rparr>)
        (IPv4_Send (tcp_remote_ip s) IPV4_PROTO_TCP (tcp_segment s flags (take (unat sz) data) @ rest) (20 + sz)
           (s\<lparr>tcp_scratch := sc, tcp_tx_buf := tcp_segment s flags (take (unat sz) data) @ rest\<rparr>))"
proof -
  let ?H = "TCPHeader (tcp_local_port s) (tcp_remote_port s) (tcp_seq s) (tcp_ack s) flags"
  let ?n = "unat sz" and ?t = "tcp_tx_buf s"
  let ?rest = "drop (?n + 20) ?t" and ?d = "take (unat sz) data"
  let ?p = "TCPPseudoHeader (ip_local s) (tcp_remote_ip s) (ucast (20 + sz))"
  let ?sc = "?p @ ?H 0 @ ?d @ drop (?n + 32) (tcp_scratch s)"
  have l: "length ?t = 1480" "length (tcp_scratch s) = 1500" "length (ip_local s) = 4" "length (tcp_remote_ip s) = 4"
    using wf by (auto simp: tcp_wf_def ip_wf_def)
  have us: "unat (20 + sz) = ?n + 20" "unat (12 + (20 + sz)) = ?n + 32" using n(1) by (simp_all add: unat_u32_plus)
  have ln: "(of_nat (20 + length ?d) :: u16) = ucast (20 + sz)"
  proof -
    have "(of_nat (unat (20 + sz)) :: u16) = ucast (20 + sz)" by (simp only: of_nat_unat)
    moreover have "20 + length ?d = unat (20 + sz)" using us(1) n by simp
    ultimately show ?thesis by (simp only:)
  qed
  have c1: "copy_bytes ?t 0 (?H 0) 20 = Some (?H 0 @ drop 20 ?t)" using l by (simp add: copy_bytes_ok)
  have c2: "copy_bytes (?H 0 @ drop 20 ?t) 20 data ?n = Some (?H 0 @ ?d @ ?rest)"
    using l n by (simp add: copy_bytes_ok)
  have s1: "copy_bytes (tcp_scratch s) 0 ?p 12 = Some (?p @ drop 12 (tcp_scratch s))"
    using l by (simp add: copy_bytes_ok)
  have s2: "copy_bytes (?p @ drop 12 (tcp_scratch s)) 12 (?H 0 @ ?d @ ?rest) (unat (20 + sz)) = Some ?sc"
    unfolding us using l n by (simp add: copy_bytes_ok add.commute [of 32])
  have ck: "take (unat (12 + (20 + sz))) ?sc = ?p @ ?H 0 @ ?d" unfolding us using l n by simp
  let ?c = "InternetChecksum (?p @ ?H 0 @ ?d)"
  have c4: "copy_bytes (?H 0 @ ?d @ ?rest) 16 (put16 ?c) 2 = Some (?H ?c @ ?d @ ?rest)"
    by (rule copy_checksum) (use l n in simp)
  have seg: "tcp_segment s flags ?d = ?H ?c @ ?d" unfolding tcp_segment_def Let_def ln ..
  have eq: "SendSegment flags data sz s =
      map_option (\<lambda>(b, s). s\<lparr>tcp_seq := next_seq flags sz (tcp_seq s)\<rparr>)
        (IPv4_Send (tcp_remote_ip s) IPV4_PROTO_TCP (tcp_segment s flags ?d @ ?rest) (20 + sz)
           (s\<lparr>tcp_scratch := ?sc, tcp_tx_buf := tcp_segment s flags ?d @ ?rest\<rparr>))"
    unfolding SendSegment_def ComputeChecksum_def Let_def GetLocalIP_def c1 bind.bind_lunit c2 s1 s2 ck prod.case c4 seg
      seq_update append_assoc
    by (simp add: bind_pair_map)
  show ?thesis by (rule that [OF _ _ eq]) (use l n in simp_all)
qed

lemma SendSegment_overflows:
  assumes "tcp_wf s" and "1460 < unat sz"
  shows "SendSegment flags data sz s = None"
proof -
  have "length (tcp_tx_buf s) = 1480" using assms(1) by (simp add: tcp_wf_def)
  then show ?thesis using assms(2)
    by (auto simp: SendSegment_def copy_bytes_ok copy_bytes_def)
qed

lemma SendSegment_ok:
  assumes wf: "tcp_wf s" and n: "unat sz \<le> 1460" "unat sz \<le> length data"
  obtains s' where "SendSegment flags data sz s = Some s'"
    and "case Resolve (tcp_remote_ip s) s of
        None \<Rightarrow> link_sent s' = link_sent s
      | Some mac \<Rightarrow> \<exists>pad. link_sent s' = link_sent s @ [eth_header mac (nic_mac s) ETHERTYPE_IPV4 @
          ip_header s (tcp_remote_ip s) IPV4_PROTO_TCP (20 + sz) @ tcp_segment s flags (take (unat sz) data) @ pad]"
proof -
  let ?seg = "tcp_segment s flags (take (unat sz) data)"
  obtain rest sc where sc: "length (sc :: u8 list) = 1500" and b: "length (?seg @ rest) = 1480"
    and eq: "SendSegment flags data sz s = map_option (\<lambda>(b, s). s\<lparr>tcp_seq := next_seq flags sz (tcp_seq s)\<rparr>)
        (IPv4_Send (tcp_remote_ip s) IPV4_PROTO_TCP (?seg @ rest) (20 + sz) (s\<lparr>tcp_scratch := sc, tcp_tx_buf := ?seg @ rest\<rparr>))"
    using SendSegment_steps [OF assms] by blast
  let ?s = "s\<lparr>tcp_scratch := sc, tcp_tx_buf := ?seg @ rest\<rparr>"
  have R: "Resolve ip ?s = Resolve ip s" for ip by (simp add: Resolve_def)
  show ?thesis
  proof (cases "Resolve (tcp_remote_ip s) s")
    case None
    then have "IPv4_Send (tcp_remote_ip s) IPV4_PROTO_TCP (?seg @ rest) (20 + sz) ?s = Some (False, ?s)"
      by (simp add: IPv4_Send_def R)
    then show ?thesis using that eq None by simp
  next
    case (Some mac)
    have wf1: "ip_wf ?s" using wf by (simp add: tcp_wf_def)
    have d: "length (tcp_remote_ip s) = 4" using wf by (simp add: tcp_wf_def)
    have us: "unat (20 + sz) = 20 + unat sz" using n(1) by (simp add: unat_u32_plus)
    have h: "ip_header ?s = ip_header s" by (simp add: ip_header_def fun_eq_iff)
    have tk: "take (unat (20 + sz)) (?seg @ rest) = ?seg" unfolding us using n by simp
    have le: "unat (20 + sz) \<le> 1480" "unat (20 + sz) \<le> length (?seg @ rest)" using us n(1) b by simp_all
    obtain s' pad where s': "IPv4_Send (tcp_remote_ip s) IPV4_PROTO_TCP (?seg @ rest) (20 + sz) ?s = Some (True, s')"
      "link_sent s' = link_sent ?s @ [eth_header mac (nic_mac ?s) ETHERTYPE_IPV4 @
        ip_header ?s (tcp_remote_ip s) IPV4_PROTO_TCP (20 + sz) @ take (unat (20 + sz)) (?seg @ rest) @ pad]"
      by (rule IPv4_Send_ok [OF wf1 _ d le, of mac IPV4_PROTO_TCP]) (use Some R in auto)
    show ?thesis
      by (rule that [of "s'\<lparr>tcp_seq := next_seq flags sz (tcp_seq s')\<rparr>"])
        (use eq s'(1) s'(2) [unfolded tk h] Some in auto)
  qed
qed

section \<open>The connection states\<close>

text \<open>What a connection may do, as a relation on its states: a client opens it from any state; the
  peer accepts; either side closes first.\<close>

inductive tcp_step :: "TCPState \<Rightarrow> TCPState \<Rightarrow> bool" where
  connect: "tcp_step st TCP_SYN_SENT"
| accepted: "tcp_step TCP_SYN_SENT TCP_ESTABLISHED"
| close: "tcp_step TCP_ESTABLISHED TCP_FIN_WAIT_1"
| peer_closes: "tcp_step TCP_ESTABLISHED TCP_LAST_ACK"
| last_ack: "tcp_step TCP_LAST_ACK TCP_CLOSED"
| fin_acked: "tcp_step TCP_FIN_WAIT_1 TCP_FIN_WAIT_2"
| peer_fin: "tcp_step TCP_FIN_WAIT_2 TCP_CLOSED"

inductive_cases tcp_step_to_listen: "tcp_step st TCP_LISTEN"
inductive_cases tcp_step_to_syn_received: "tcp_step st TCP_SYN_RECEIVED"
inductive_cases tcp_step_to_close_wait: "tcp_step st TCP_CLOSE_WAIT"
inductive_cases tcp_step_to_time_wait: "tcp_step st TCP_TIME_WAIT"
inductive_simps tcp_step_to_established: "tcp_step st TCP_ESTABLISHED"

definition server_side :: "TCPState \<Rightarrow> bool" where
  "server_side st \<longleftrightarrow> st \<in> {TCP_LISTEN, TCP_SYN_RECEIVED, TCP_CLOSE_WAIT, TCP_TIME_WAIT}"

lemma tcp_step_active: "tcp_step st st' \<Longrightarrow> \<not> server_side st'"
  by (auto simp: server_side_def elim: tcp_step.cases)

lemma tcp_steps_active: "tcp_step\<^sup>*\<^sup>* st st' \<Longrightarrow> \<not> server_side st \<Longrightarrow> \<not> server_side st'"
  by (induction rule: rtranclp_induct) (auto dest: tcp_step_active)

definition tcp_same :: "'a tcp_stack_scheme \<Rightarrow> 'a tcp_stack_scheme \<Rightarrow> bool" where
  "tcp_same s s' \<longleftrightarrow> tcp_stack.truncate s' = tcp_stack.truncate s"

lemma tcp_same_fields:
  assumes "tcp_same s s'"
  shows "tcp_state s' = tcp_state s" "tcp_wf s' = tcp_wf s" "tcp_seq s' = tcp_seq s" "tcp_ack s' = tcp_ack s"
    "tcp_remote_ip s' = tcp_remote_ip s" "tcp_remote_port s' = tcp_remote_port s" "tcp_local_port s' = tcp_local_port s"
    "link_sent s' = link_sent s"
  using assms by (cases s; cases s'; simp add: tcp_same_def tcp_wf_def ip_wf_def link_wf_def tcp_stack.defs)+

text \<open>What the stack does to the socket and to the shape of its buffers, whatever arrives.\<close>

definition tcp_progress :: "'a tcp_stack_scheme \<Rightarrow> 'a tcp_stack_scheme \<Rightarrow> bool" where
  "tcp_progress s s' \<longleftrightarrow> tcp_step\<^sup>*\<^sup>* (tcp_state s) (tcp_state s') \<and> (tcp_wf s \<longrightarrow> tcp_wf s')"

lemma tcp_progress_refl [simp]: "tcp_progress s s"
  by (simp add: tcp_progress_def)

lemma tcp_progress_trans [trans]: "tcp_progress a b \<Longrightarrow> tcp_progress b c \<Longrightarrow> tcp_progress a c"
  by (auto simp: tcp_progress_def)

lemma SendSegment_progress: "SendSegment flags data sz s = Some s' \<Longrightarrow> tcp_progress s s'"
  by (simp add: tcp_progress_def SendSegment_effect)

lemma state_progress: "tcp_step\<^sup>*\<^sup>* (tcp_state s) st \<Longrightarrow> tcp_progress s (s\<lparr>tcp_state := st\<rparr>)"
  by (simp add: tcp_progress_def)

lemma tcp_progress_ip:
  assumes "ip_stack.more s' = ip_stack.more s" and "ip_wf s \<Longrightarrow> ip_wf s'"
  shows "tcp_progress s s'"
proof -
  have "tcp_state s' = tcp_state s" "tcp_remote_ip s' = tcp_remote_ip s" "tcp_rx_buf s' = tcp_rx_buf s"
    "tcp_tx_buf s' = tcp_tx_buf s" "tcp_scratch s' = tcp_scratch s"
    using assms(1) by (cases s; cases s'; simp)+
  then show ?thesis using assms(2) by (simp add: tcp_progress_def tcp_wf_def)
qed

lemma IPv4_Send_progress: "IPv4_Send dst p payload sz s = Some (b, s') \<Longrightarrow> tcp_progress s s'"
  by (rule tcp_progress_ip) (auto dest: IPv4_Send_more IPv4_Send_ip_wf)

lemma ICMP_Handle_progress:
  assumes "ICMP_HandleIPv4Payload payload sz src s = Some s'"
  shows "tcp_progress s s'"
proof (rule tcp_progress_ip)
  show "ip_stack.more s' = ip_stack.more s"
    using assms unfolding ICMP_HandleIPv4Payload_def Let_def
    by (auto simp: bind_eq_Some_conv dest: IPv4_Send_more split: if_splits)
  show "ip_wf s \<Longrightarrow> ip_wf s'" by (rule ICMP_Handle_ip_wf [OF assms])
qed

lemma ARP_Handle_progress:
  assumes "ARP_HandleEthernetPayload payload sz s = Some s'"
  shows "tcp_progress s s'"
proof (rule tcp_progress_ip)
  have r: "ip_stack.more s2 = ip_stack.more s1" if "ARP_SendReply mac ip s1 = Some s2" for s1 s2 mac ip
    using that unfolding ARP_SendReply_def by (auto elim: RTL8139_Send_frame)
  show "ip_stack.more s' = ip_stack.more s"
    using assms unfolding ARP_HandleEthernetPayload_def Let_def
    by (auto simp: bind_eq_Some_conv dest: r split: if_splits)
  show "ip_wf s \<Longrightarrow> ip_wf s'" by (rule ARP_Handle_ip_wf [OF assms])
qed

lemma UDP_Send_progress:
  assumes "UDP_Send dst_ip dport sport data sz s = Some (b, s')"
  shows "tcp_progress s s'"
proof (rule tcp_progress_ip)
  show "ip_stack.more s' = ip_stack.more s"
    using assms unfolding UDP_Send_def Let_def
    by (auto simp: bind_eq_Some_conv dest: IPv4_Send_more split: if_splits)
  show "ip_wf s \<Longrightarrow> ip_wf s'" by (rule UDP_Send_ip_wf [OF assms])
qed

lemma TCP_Connect_progress:
  assumes "TCP_Connect ip port s = Some (b, s')" and "length ip = 4"
  shows "tcp_progress s s'"
proof -
  let ?s = "s\<lparr>tcp_remote_ip := ip, tcp_remote_port := port, tcp_seq := 0xDEADBEEF, tcp_ack := 0, tcp_state := TCP_SYN_SENT\<rparr>"
  have "tcp_progress s ?s" using assms(2) by (simp add: tcp_progress_def tcp_step.connect r_into_rtranclp)
  moreover have "SendSegment TCP_SYN [] 0 ?s = Some s'"
    using assms(1) unfolding TCP_Connect_def Let_def by (auto simp: bind_eq_Some_conv)
  ultimately show ?thesis using SendSegment_progress tcp_progress_trans by blast
qed

lemma TCP_Send_progress: "TCP_Send data sz s = Some (b, s') \<Longrightarrow> tcp_progress s s'"
  by (auto simp: TCP_Send_def bind_eq_Some_conv dest: SendSegment_progress split: if_splits)

lemma TCP_Close_progress: "TCP_Close s = Some s' \<Longrightarrow> tcp_progress s s'"
proof (cases "tcp_state s = TCP_ESTABLISHED")
  case True
  assume "TCP_Close s = Some s'"
  then have "SendSegment (TCP_FIN OR TCP_ACK) [] 0 (s\<lparr>tcp_state := TCP_FIN_WAIT_1\<rparr>) = Some s'"
    using True by (simp add: TCP_Close_def)
  then have "tcp_progress (s\<lparr>tcp_state := TCP_FIN_WAIT_1\<rparr>) s'" by (rule SendSegment_progress)
  moreover have "tcp_progress s (s\<lparr>tcp_state := TCP_FIN_WAIT_1\<rparr>)"
    by (rule state_progress) (simp add: True tcp_step.close r_into_rtranclp)
  ultimately show ?thesis using tcp_progress_trans by blast
qed (simp add: TCP_Close_def)

lemma progress_update [simp]:
  "tcp_progress (s\<lparr>tcp_ack := a\<rparr>) s' = tcp_progress s s'" "tcp_progress (s\<lparr>tcp_seq := a\<rparr>) s' = tcp_progress s s'"
  by (simp_all add: tcp_progress_def)

section \<open>Receiving\<close>

text \<open>What the stack relies on of the methods its sockets override: they do not touch the stack.\<close>

lemma tcp_wf_ptr: "tcp_wf (s\<lparr>rx_read_ptr := p, capr := c\<rparr>) = tcp_wf s"
  unfolding tcp_wf_def ip_wf_def link_wf_def by simp

locale socket_hooks =
  fixes on_udp :: "IPv4Address \<Rightarrow> u16 \<Rightarrow> u8 list \<Rightarrow> u32 \<Rightarrow> 'a tcp_stack_scheme \<Rightarrow> 'a tcp_stack_scheme option"
    and on_tcp :: "u8 list \<Rightarrow> u32 \<Rightarrow> 'a tcp_stack_scheme \<Rightarrow> 'a tcp_stack_scheme option"
  assumes on_udp_same: "on_udp ip port d n s = Some s' \<Longrightarrow> tcp_same s s'"
    and on_tcp_same: "on_tcp d n s = Some s' \<Longrightarrow> tcp_same s s'"
begin

lemma same_progress: "tcp_same s s' \<Longrightarrow> tcp_progress s s'"
  by (simp add: tcp_progress_def tcp_same_fields)

lemma on_segment_established:
  assumes "TCP_on_segment on_tcp q a flags data n s = Some s'" and st: "tcp_state s = TCP_ESTABLISHED"
  shows "tcp_progress s s'"
proof -
  consider (fin) s1 s2 where "has_flag flags TCP_FIN" "SendSegment TCP_ACK [] 0 (s\<lparr>tcp_ack := q + 1\<rparr>) = Some s1"
      "SendSegment (TCP_FIN OR TCP_ACK) [] 0 s1 = Some s2" "s' = s2\<lparr>tcp_state := TCP_LAST_ACK\<rparr>"
    | (data) k m rx s1 where "copy_bytes (tcp_rx_buf s) 0 data k = Some rx"
      "SendSegment TCP_ACK [] 0 (s\<lparr>tcp_ack := q + n, tcp_rx_buf := rx\<rparr>) = Some s1" "on_tcp (tcp_rx_buf s1) m s1 = Some s'"
    | (none) "s' = s"
    using assms by (auto simp: TCP_on_segment_def Let_def bind_eq_Some_conv split: if_splits)
  then show ?thesis
  proof cases
    case fin
    have "tcp_progress s s2" using SendSegment_progress [OF fin(2)] SendSegment_progress [OF fin(3)] tcp_progress_trans by auto
    moreover have "tcp_state s2 = TCP_ESTABLISHED" using SendSegment_effect(1) [OF fin(2)] SendSegment_effect(1) [OF fin(3)] st by simp
    then have "tcp_progress s2 s'" unfolding fin(4) by (intro state_progress) (simp add: tcp_step.peer_closes r_into_rtranclp)
    ultimately show ?thesis by (rule tcp_progress_trans)
  next
    case data
    have "tcp_wf s \<longrightarrow> length rx = 8192" using copy_bytes_length [OF data(1)] by (simp add: tcp_wf_def)
    then have "tcp_progress s (s\<lparr>tcp_ack := q + n, tcp_rx_buf := rx\<rparr>)" by (simp add: tcp_progress_def)
    also have "tcp_progress \<dots> s1" by (rule SendSegment_progress [OF data(2)])
    also have "tcp_progress s1 s'" by (rule same_progress [OF on_tcp_same [OF data(3)]])
    finally show ?thesis .
  qed simp
qed

lemma on_segment_progress:
  assumes "TCP_on_segment on_tcp q a flags data n s = Some s'"
  shows "tcp_progress s s'"
proof (cases "tcp_state s")
  case TCP_SYN_SENT
  let ?s = "s\<lparr>tcp_ack := q + 1, tcp_seq := a, tcp_state := TCP_ESTABLISHED\<rparr>"
  have "tcp_progress s ?s" using TCP_SYN_SENT by (simp add: tcp_progress_def tcp_step.accepted r_into_rtranclp)
  moreover have "s' = s \<or> SendSegment TCP_ACK [] 0 ?s = Some s'"
    using assms TCP_SYN_SENT by (auto simp: TCP_on_segment_def bind_eq_Some_conv OnConnected_def split: if_splits)
  ultimately show ?thesis using SendSegment_progress tcp_progress_trans tcp_progress_refl by blast
next
  case TCP_FIN_WAIT_2
  then consider "s' = s" | s1 where "SendSegment TCP_ACK [] 0 (s\<lparr>tcp_ack := q + 1\<rparr>) = Some s1" "s' = s1\<lparr>tcp_state := TCP_CLOSED\<rparr>"
    using assms by (auto simp: TCP_on_segment_def bind_eq_Some_conv OnClosed_def split: if_splits)
  then show ?thesis
  proof cases
    case 2
    have "tcp_progress s s1" using SendSegment_progress [OF 2(1)] by simp
    moreover have "tcp_progress s1 s'"
      unfolding 2(2) using SendSegment_effect(1) [OF 2(1)] TCP_FIN_WAIT_2
      by (intro state_progress) (simp add: tcp_step.peer_fin r_into_rtranclp)
    ultimately show ?thesis by (rule tcp_progress_trans)
  qed simp
qed (use assms on_segment_established [OF assms] in
    \<open>auto simp: TCP_on_segment_def OnClosed_def tcp_step.fin_acked tcp_step.last_ack split: if_splits intro!: state_progress\<close>)

lemma TCP_Handle_progress: "TCP_HandleIPv4Payload on_tcp payload sz s = Some s' \<Longrightarrow> tcp_progress s s'"
  by (auto simp: TCP_HandleIPv4Payload_def Let_def bind_eq_Some_conv intro: on_segment_progress split: if_splits)

lemma UDP_Handle_progress: "UDP_HandleIPv4Payload on_udp payload sz src s = Some s' \<Longrightarrow> tcp_progress s s'"
  by (auto simp: UDP_HandleIPv4Payload_def Let_def bind_eq_Some_conv intro: same_progress on_udp_same split: if_splits)

lemma HandleIPv4Payload_progress:
  "HandleIPv4Payload on_udp on_tcp h payload sz src dst p s = Some s' \<Longrightarrow> tcp_progress s s'"
  by (auto simp: HandleIPv4Payload_def intro: TCP_Handle_progress UDP_Handle_progress ICMP_Handle_progress
      split: ip_handler.splits)

lemma handlers_progress:
  assumes "run_handlers call hs s = Some s'" and "\<And>h s s'. call h s = Some s' \<Longrightarrow> tcp_progress s s'"
  shows "tcp_progress s s'"
  by (rule run_handlers_inv [where P = "tcp_progress s", OF assms(1)]) (auto intro: tcp_progress_trans assms(2))

lemma IPv4_Handle_progress:
  "IPv4_HandleEthernetPayload (HandleIPv4Payload on_udp on_tcp) payload sz s = Some s' \<Longrightarrow> tcp_progress s s'"
  by (auto simp: IPv4_HandleEthernetPayload_def Let_def bind_eq_Some_conv
      intro: handlers_progress HandleIPv4Payload_progress split: if_splits)

lemma HandleEthernetPayload_progress:
  "HandleEthernetPayload on_udp on_tcp h payload sz src dst s = Some s' \<Longrightarrow> tcp_progress s s'"
  by (auto simp: HandleEthernetPayload_def intro: ARP_Handle_progress IPv4_Handle_progress split: eth_handler.splits)

lemma Dispatch_progress:
  "Dispatch (HandleEthernetPayload on_udp on_tcp) frame sz s = Some s' \<Longrightarrow> tcp_progress s s'"
  by (auto simp: Dispatch_def bind_eq_Some_conv intro: handlers_progress HandleEthernetPayload_progress split: if_splits)

lemma ptr_progress: "tcp_progress s s' \<Longrightarrow> tcp_progress s (s'\<lparr>rx_read_ptr := p, capr := c\<rparr>)"
  by (simp add: tcp_progress_def tcp_wf_ptr)

lemma HandleReceive_progress:
  "HandleReceive (HandleEthernetPayload on_udp on_tcp) env s = Some s' \<Longrightarrow> tcp_progress s s'"
proof (induction env arbitrary: s)
  case (Cons e env)
  obtain cr rx where e: "e = (cr, rx)" by (cases e)
  show ?case
  proof (cases "cr AND 1 = 0")
    case False
    then show ?thesis using Cons.prems by (simp add: e)
  next
    case True
    then obtain fr p c s1 where s1: "(case fr of Some (f, n) \<Rightarrow> Dispatch (HandleEthernetPayload on_udp on_tcp) f n s
        | None \<Rightarrow> Some s) = Some s1"
      "HandleReceive (HandleEthernetPayload on_udp on_tcp) env (s1\<lparr>rx_read_ptr := p, capr := capr s1 @ [c]\<rparr>) = Some s'"
      using Cons.prems by (auto simp: e bind_eq_Some_conv)
    have "tcp_progress s s1" using s1(1) Dispatch_progress by (auto split: option.splits)
    then have "tcp_progress s (s1\<lparr>rx_read_ptr := p, capr := capr s1 @ [c]\<rparr>)" by (rule ptr_progress)
    then show ?thesis using Cons.IH [OF s1(2)] by (rule tcp_progress_trans)
  qed
qed simp

end

end
