(* ===== verification/Net_Sockets.thy ===== *)
theory Net_Sockets
  imports Net_TCP
begin

text \<open>
  The sockets behind the network system calls (\<^verbatim>\<open>src/src/kernel/syscall.cpp\<close>, declared in
  \<^verbatim>\<open>src/src/net/net_hooks.h\<close>): what \<^verbatim>\<open>OnReceive\<close> does with received data. With them the stack is
  closed, and this theory holds the properties of the whole of it: from a send on one host to the
  socket of another, the echo service, the connection states under every possible traffic.
\<close>

section \<open>State and hooks\<close>

record sockets = tcp_stack +
  udp_rx_buf :: "u8 list"
  udp_rx_len :: u32
  udp_rx_ready :: bool
  sock_rx_buf :: "u8 list"
  sock_rx_len :: u32
  sock_rx_ready :: bool

definition SyscallUDPSocket_OnReceive ::
  "IPv4Address \<Rightarrow> u16 \<Rightarrow> u8 list \<Rightarrow> u32 \<Rightarrow> 'a sockets_scheme \<Rightarrow> 'a sockets_scheme option" where
  "SyscallUDPSocket_OnReceive src_ip src_port data sz s = do {
     let n = (if sz > 2048 then 2048 else sz);
     buf \<leftarrow> copy_bytes (udp_rx_buf s) 0 data (unat n);
     Some (s\<lparr>udp_rx_buf := buf, udp_rx_len := n, udp_rx_ready := True\<rparr>)
   }"

definition SyscallTCPSocket_OnReceive :: "u8 list \<Rightarrow> u32 \<Rightarrow> 'a sockets_scheme \<Rightarrow> 'a sockets_scheme option" where
  "SyscallTCPSocket_OnReceive data sz s = do {
     let n = (if sz > 2048 then 2048 else sz);
     buf \<leftarrow> copy_bytes (sock_rx_buf s) 0 data (unat n);
     Some (s\<lparr>sock_rx_buf := buf, sock_rx_len := n, sock_rx_ready := True\<rparr>)
   }"

definition receive_frame :: "u8 list \<Rightarrow> u32 \<Rightarrow> 'a sockets_scheme \<Rightarrow> 'a sockets_scheme option" where
  "receive_frame = Dispatch (HandleEthernetPayload SyscallUDPSocket_OnReceive SyscallTCPSocket_OnReceive)"

interpretation hooks: socket_hooks SyscallUDPSocket_OnReceive SyscallTCPSocket_OnReceive
proof unfold_locales
  show "SyscallUDPSocket_OnReceive ip port d n s = Some s' \<Longrightarrow> tcp_same s s'" for ip port d n s s'
    by (auto simp: SyscallUDPSocket_OnReceive_def Let_def bind_eq_Some_conv tcp_same_def tcp_stack.defs)
  show "SyscallTCPSocket_OnReceive d n s = Some s' \<Longrightarrow> tcp_same s s'" for d n s s'
    by (auto simp: SyscallTCPSocket_OnReceive_def Let_def bind_eq_Some_conv tcp_same_def tcp_stack.defs)
qed

section \<open>The wired stack\<close>

definition wired :: "'a tcp_stack_scheme \<Rightarrow> bool" where
  "wired s \<longleftrightarrow> eth_handlers s = [(ETHERTYPE_ARP, Some ARP_Handler), (ETHERTYPE_IPV4, Some IPv4_Handler)] \<and>
     ip_handlers s = [(IPV4_PROTO_ICMP, Some ICMP_Handler), (IPV4_PROTO_UDP, Some UDP_Handler), (IPV4_PROTO_TCP, Some TCP_Handler)]"

lemma setup_wired:
  assumes "net_setup s = Some s'" and "eth_handlers s = []"
  shows "wired s'" "ip_local s' = [10, 0, 2, 15]" "arp_local_ip s' = [10, 0, 2, 15]" "udp_local_port s' = 1234"
    "tcp_local_port s' = 1234" "tcp_state s' = TCP_CLOSED"
proof -
  let ?ip = "FromBytes 10 0 2 15"
  let ?s = "IP_RegisterHandler IPV4_PROTO_TCP (Some TCP_Handler) (IP_RegisterHandler IPV4_PROTO_UDP (Some UDP_Handler)
    (IP_RegisterHandler IPV4_PROTO_ICMP (Some ICMP_Handler) (Eth_RegisterHandler ETHERTYPE_IPV4 (Some IPv4_Handler)
      (Eth_RegisterHandler ETHERTYPE_ARP (Some ARP_Handler) (TCP_init 1234 (UDP_init 1234 (IPv4_init ?ip (ARP_init ?ip s))))))))"
  have "ARP_SendRequest (FromBytes 10 0 2 2) ?s = Some s'" using assms(1) by (simp only: net_setup_def Let_def)
  then obtain b where r: "RTL8139_Send MAC_Broadcast ETHERTYPE_ARP
      (ARPPacket ARP_REQUEST (GetMAC ?s) (arp_local_ip ?s) (replicate 6 0) (FromBytes 10 0 2 2)) sizeof_ARPPacket ?s = Some (b, s')"
    unfolding ARP_SendRequest_def by auto
  obtain bufs l where s': "s' = ?s\<lparr>tx_buffers := bufs, link_sent := l, tx_current := (tx_current ?s + 1) mod 4\<rparr>"
    using RTL8139_Send_frame [OF r] by blast
  show "wired s'" "ip_local s' = [10, 0, 2, 15]" "arp_local_ip s' = [10, 0, 2, 15]" "udp_local_port s' = 1234"
    "tcp_local_port s' = 1234" "tcp_state s' = TCP_CLOSED"
    using assms(2) unfolding s'
    by (simp_all add: wired_def Eth_RegisterHandler_def IP_RegisterHandler_def TCP_init_def UDP_init_def IPv4_init_def
        ARP_init_def FromBytes_def MAX_ETH_HANDLERS_def MAX_IP_HANDLERS_def)
qed

lemma eth_header_fields:
  assumes "length d = 6" and "length sm = 6"
  shows "rd16_at (eth_header d sm et @ p) 12 = Some (htons et)" "bytes_at (eth_header d sm et @ p) 0 6 = Some d"
    "bytes_at (eth_header d sm et @ p) 6 6 = Some sm" "drop 14 (eth_header d sm et @ p) = p"
proof -
  have m: "(0xFF :: u16) = mask 8" by (simp add: mask_eq_exp_minus_1)
  have b: "ucast (drop_bit 8 et AND 0xFF) = byte_of 1 et"
    unfolding m by (rule bit_word_eqI) (auto simp: byte_of_def bit_simps)
  have b': "ucast (et AND 0xFF) = byte_of 0 et"
    unfolding m by (rule bit_word_eqI) (auto simp: byte_of_def bit_simps)
  have "le16 (byte_of 1 et) (byte_of 0 et) = le16 (byte_of 0 (htons et)) (byte_of 1 (htons et))"
    by (simp only: htons_byte_of)
  then have "le16 (byte_of 1 et) (byte_of 0 et) = htons et" by (simp only: le16_byte_of)
  then show "rd16_at (eth_header d sm et @ p) 12 = Some (htons et)"
    using assms by (simp add: eth_header_def rd16_at_def nth_append b b')
qed (use assms in \<open>simp_all add: eth_header_def bytes_at_def\<close>)

lemma run_handlers_one [simp]: "run_handlers call [Some h] s = call h s"
  by (cases "call h s") auto

definition handler_of :: "u8 \<Rightarrow> ip_handler option" where
  "handler_of p = map_of [(IPV4_PROTO_ICMP, ICMP_Handler), (IPV4_PROTO_UDP, UDP_Handler), (IPV4_PROTO_TCP, TCP_Handler)] p"

lemma handler_of_simps [simp]:
  "handler_of IPV4_PROTO_ICMP = Some ICMP_Handler" "handler_of IPV4_PROTO_UDP = Some UDP_Handler"
  "handler_of IPV4_PROTO_TCP = Some TCP_Handler"
  by (simp_all add: handler_of_def IPV4_PROTO_ICMP_def IPV4_PROTO_UDP_def IPV4_PROTO_TCP_def)

lemma frame_size: "34 \<le> k \<Longrightarrow> k \<le> 1566 \<Longrightarrow> 34 \<le> unat (of_nat k :: u32)"
  by (simp add: unat_u32_of_nat)

text \<open>A datagram that \<open>a\<close> put on the wire for \<open>b\<close> reaches the handler of its protocol at \<open>b\<close>.\<close>

lemma receive_datagram:
  assumes w: "wired b" and l: "length mac = 6" "length sm = 6" and la: "length (ip_local a) = 4" "length (ip_local b) = 4"
    and n: "unat sz \<le> 1480" "34 \<le> unat fsz" and h: "handler_of p = Some h"
  shows "receive_frame (eth_header mac sm ETHERTYPE_IPV4 @ ip_header a (ip_local b) p sz @ data) fsz b =
    HandleIPv4Payload SyscallUDPSocket_OnReceive SyscallTCPSocket_OnReceive h data sz (ip_local a) (ip_local b) p b"
proof -
  have f: "filter (\<lambda>(t, h). t = ETHERTYPE_IPV4) (eth_handlers b) = [(ETHERTYPE_IPV4, Some IPv4_Handler)]"
    using w by (simp add: wired_def ETHERTYPE_ARP_def ETHERTYPE_IPV4_def)
  have g: "filter (\<lambda>(q, h). q = p) (ip_handlers b) = [(p, Some h)]"
    using w h by (auto simp: wired_def handler_of_def IPV4_PROTO_ICMP_def IPV4_PROTO_UDP_def IPV4_PROTO_TCP_def split: if_splits)
  have fs: "\<not> fsz < 14" "20 \<le> unat (fsz - 14)"
    using n(2) by (simp_all add: word_less_nat_alt unat_u32_minus)
  show ?thesis
    unfolding receive_frame_def Dispatch_def eth_header_fields [OF l] bind.bind_lunit ntohs_htons f
    using fs by (simp add: HandleEthernetPayload_def IPv4_Handle_datagram [OF la n(1) fs(2) refl refl] g)
qed

section \<open>UDP\<close>

definition sock_wf :: "'a sockets_scheme \<Rightarrow> bool" where
  "sock_wf s \<longleftrightarrow> tcp_wf s \<and> length (udp_rx_buf s) = 2048 \<and> length (sock_rx_buf s) = 2048"

lemma UDPHeader_length [simp]: "length (UDPHeader a b c) = 8"
  by (simp add: UDPHeader_def)

lemma ucast_u16_back:
  assumes "unat (w :: u32) < 65536"
  shows "ucast (ucast w :: u16) = w"
  using unat_ucast_u16 [of "ucast w"] unat_ucast_to_u16 [OF assms] by (simp only: u32_eq_iff_unat)

lemma UDP_Handle_datagram:
  assumes "unat n \<le> 1464"
  shows "UDP_HandleIPv4Payload OnReceive (UDPHeader sp dp (ucast (8 + n)) @ d) (8 + n) src s =
    (if dp = udp_local_port s then OnReceive src sp d n s else Some s)"
proof -
  have u: "unat (8 + n) = 8 + unat n" using assms by (simp add: unat_u32_plus)
  have lt: "\<not> 8 + n < 8" using u by (simp add: word_less_nat_alt)
  have z: "ucast (ucast (8 + n) :: u16) - 8 = n" using ucast_u16_back [of "8 + n"] u assms by simp
  have f: "rd16_at (UDPHeader sp dp l @ d) 2 = Some (htons dp)" "rd16_at (UDPHeader sp dp l @ d) 4 = Some (htons l)"
    "rd16_at (UDPHeader sp dp l @ d) 0 = Some (htons sp)" "drop 8 (UDPHeader sp dp l @ d) = d" for l
    by (simp_all add: UDPHeader_def rd16_at_def nth_append put16_def le16_byte_of [simplified])
  show ?thesis unfolding UDP_HandleIPv4Payload_def f bind.bind_lunit Let_def using lt z by simp
qed

lemma UDP_Send_ok:
  assumes wf: "ip_wf s" and mac: "Resolve dst s = Some mac" and d: "length dst = 4"
    and n: "unat sz \<le> 1464" "unat sz \<le> length data"
  obtains s' pad where "UDP_Send dst dport sport data sz s = Some (True, s')"
    and "link_sent s' = link_sent s @ [eth_header mac (nic_mac s) ETHERTYPE_IPV4 @
      ip_header s dst IPV4_PROTO_UDP (8 + sz) @ UDPHeader sport dport (ucast (8 + sz)) @ take (unat sz) data @ pad]"
    and "ip_wf s'" and "length pad \<le> 60"
proof -
  let ?h = "UDPHeader sport dport (ucast (8 + sz))" and ?n = "unat sz" and ?t = "udp_tx_buf s"
  let ?b = "?h @ take ?n data @ drop (?n + 8) ?t"
  have l: "length ?t = 1472" using wf by (simp add: ip_wf_def)
  have c1: "copy_bytes ?t 0 ?h 8 = Some (?h @ drop 8 ?t)" using l by (simp add: copy_bytes_ok)
  have c2: "copy_bytes (?h @ drop 8 ?t) 8 data ?n = Some ?b" using l n by (simp add: copy_bytes_ok)
  have lb: "length ?b = 1472" using l n by simp
  have nt: "\<not> sz > 1472 - 8" using n(1) by (simp add: word_less_nat_alt)
  let ?s = "s\<lparr>udp_tx_buf := ?b\<rparr>"
  have wf1: "ip_wf ?s" using wf lb by (simp del: length_append)
  have us: "unat (8 + sz) = 8 + ?n" using n(1) by (simp add: unat_u32_plus)
  have tk: "take (unat (8 + sz)) ?b = ?h @ take ?n data" unfolding us using n by simp
  have le: "unat (8 + sz) \<le> 1480" "unat (8 + sz) \<le> length ?b" using us n(1) lb by (simp_all del: length_append)
  have m1: "Resolve dst ?s = Some mac" using mac by (simp add: Resolve_def)
  have h: "ip_header ?s = ip_header s" by (simp add: ip_header_def fun_eq_iff)
  obtain s' pad where s': "IPv4_Send dst IPV4_PROTO_UDP ?b (8 + sz) ?s = Some (True, s')"
    "link_sent s' = link_sent ?s @ [eth_header mac (nic_mac ?s) ETHERTYPE_IPV4 @
        ip_header ?s dst IPV4_PROTO_UDP (8 + sz) @ take (unat (8 + sz)) ?b @ pad]" "ip_wf s'"
    "length pad = 60 - (34 + unat (8 + sz))"
    by (rule IPv4_Send_ok [OF wf1 m1 d le, of IPV4_PROTO_UDP])
  have eq: "UDP_Send dst dport sport data sz s = Some (True, s')"
    unfolding UDP_Send_def Let_def using nt c1 c2 s'(1) by simp
  show ?thesis by (rule that [OF eq _ s'(3)]) (use s'(2) [unfolded tk h] s'(4) in auto)
qed

lemma OnReceive_udp:
  assumes "length (udp_rx_buf s) = 2048" and "unat n \<le> 2048" and "unat n \<le> length d"
  shows "\<exists>s'. SyscallUDPSocket_OnReceive ip port d n s = Some s' \<and> udp_rx_ready s' \<and> udp_rx_len s' = n \<and>
    take (unat n) (udp_rx_buf s') = take (unat n) d"
proof -
  have "\<not> n > 2048" using assms(2) by (simp add: word_less_nat_alt)
  moreover have "copy_bytes (udp_rx_buf s) 0 d (unat n) = Some (take (unat n) d @ drop (unat n) (udp_rx_buf s))"
    using assms by (simp add: copy_bytes_ok)
  ultimately show ?thesis using assms(3) by (simp add: SyscallUDPSocket_OnReceive_def Let_def)
qed

section \<open>Properties\<close>

text \<open>UDP works end to end. A host \<open>a\<close> that has resolved the address of host \<open>b\<close> and sends up to 1464
  bytes to the port of the socket of \<open>b\<close> puts one frame on the wire, addressed to the hardware
  address it resolved; when that frame reaches \<open>b\<close>, through the Ethernet dispatch, the Internet layer
  with its header checks and the UDP handler, the receive buffer of the socket holds exactly the
  bytes sent, with their number, and is marked ready.\<close>

theorem UDP_end_to_end:
  assumes a: "sock_wf a" and b: "sock_wf b" and w: "wired b" and mac: "Resolve (ip_local b) a = Some mac"
    and n: "unat sz \<le> 1464" "unat sz \<le> length data" and p: "udp_local_port b = dport"
  shows "\<exists>a' frame b'. UDP_Send (ip_local b) dport sport data sz a = Some (True, a') \<and>
    link_sent a' = link_sent a @ [frame] \<and> take 6 frame = mac \<and>
    receive_frame frame (of_nat (length frame)) b = Some b' \<and>
    udp_rx_ready b' \<and> udp_rx_len b' = sz \<and> take (unat sz) (udp_rx_buf b') = take (unat sz) data"
proof -
  have ia: "ip_wf a" "length (ip_local a) = 4" "length (nic_mac a) = 6" and lb: "length (ip_local b) = 4"
    "length (udp_rx_buf b) = 2048"
    using a b by (auto simp: sock_wf_def tcp_wf_def ip_wf_def link_wf_def)
  have lm: "length mac = 6" by (rule Resolve_mac [OF ia(1) mac])
  obtain a' pad where a': "UDP_Send (ip_local b) dport sport data sz a = Some (True, a')"
    "link_sent a' = link_sent a @ [eth_header mac (nic_mac a) ETHERTYPE_IPV4 @
      ip_header a (ip_local b) IPV4_PROTO_UDP (8 + sz) @ UDPHeader sport dport (ucast (8 + sz)) @ take (unat sz) data @ pad]"
    "ip_wf a'" "length pad \<le> 60"
    by (rule UDP_Send_ok [OF ia(1) mac lb(1) n])
  let ?d = "take (unat sz) data @ pad"
  define f where "f = eth_header mac (nic_mac a) ETHERTYPE_IPV4 @ ip_header a (ip_local b) IPV4_PROTO_UDP (8 + sz) @
    UDPHeader sport dport (ucast (8 + sz)) @ ?d"
  have "length f = 42 + unat sz + length pad" using ia lb lm n by (simp add: f_def eth_header_def)
  then have "34 \<le> length f" "length f \<le> 1566" using n(1) a'(4) by linarith+
  then have lf: "34 \<le> unat (of_nat (length f) :: u32)" by (rule frame_size)
  have us: "unat (8 + sz) \<le> 1480" using n(1) by (simp add: unat_u32_plus)
  obtain b' where b': "SyscallUDPSocket_OnReceive (ip_local a) sport ?d sz b = Some b'" "udp_rx_ready b'"
    "udp_rx_len b' = sz" "take (unat sz) (udp_rx_buf b') = take (unat sz) ?d"
    using OnReceive_udp [OF lb(2), of sz ?d] n by auto
  have "receive_frame f (of_nat (length f)) b = Some b'"
    unfolding f_def receive_datagram [OF w lm ia(3) ia(2) lb(1) us lf [unfolded f_def] handler_of_simps(2)]
    using b'(1) p by (simp add: HandleIPv4Payload_def UDP_Handle_datagram [OF n(1)])
  moreover have "take 6 f = mac" using lm by (simp add: f_def eth_header_def)
  moreover have "link_sent a' = link_sent a @ [f]" using a'(2) by (simp add: f_def)
  ultimately show ?thesis using a'(1) b'(2,3,4) n by auto
qed

definition example_sockets :: "MACAddress \<Rightarrow> IPv4Address \<Rightarrow> sockets" where
  "example_sockets mac ip =
     \<lparr>tx_buffers = replicate 4 (replicate 1536 0), tx_current = 0, nic_mac = mac, rx_read_ptr = 0, capr = [],
      link_sent = [], eth_handlers = [(ETHERTYPE_ARP, Some ARP_Handler), (ETHERTYPE_IPV4, Some IPv4_Handler)],
      arp_cache = \<lparr>a_ip = [10, 0, 2, 2], a_mac = [0x52, 0x55, 10, 0, 2, 2], a_valid = True\<rparr> #
        \<lparr>a_ip = [10, 0, 2, 15], a_mac = [0x52, 0x54, 0, 0x12, 0x34, 0x56], a_valid = True\<rparr> #
        replicate 126 \<lparr>a_ip = [0, 0, 0, 0], a_mac = replicate 6 0, a_valid = False\<rparr>,
      arp_local_ip = ip, ip_local = ip, id_counter = 0,
      ip_handlers = [(IPV4_PROTO_ICMP, Some ICMP_Handler), (IPV4_PROTO_UDP, Some UDP_Handler), (IPV4_PROTO_TCP, Some TCP_Handler)],
      ip_tx_buf = replicate 1500 0, icmp_tx_buf = replicate 64 0, udp_tx_buf = replicate 1472 0, udp_local_port = 1234,
      tcp_local_port = 1234, tcp_remote_port = 0, tcp_remote_ip = [0, 0, 0, 0], tcp_state = TCP_CLOSED, tcp_seq = 0,
      tcp_ack = 0, tcp_rx_buf = replicate 8192 0, tcp_tx_buf = replicate 1480 0, tcp_scratch = replicate 1500 0,
      udp_rx_buf = replicate 2048 0, udp_rx_len = 0, udp_rx_ready = False,
      sock_rx_buf = replicate 2048 0, sock_rx_len = 0, sock_rx_ready = False\<rparr>"

lemma example_sockets_wf [simp]:
  "length mac = 6 \<Longrightarrow> length ip = 4 \<Longrightarrow> sock_wf (example_sockets mac ip)" "wired (example_sockets mac ip)"
  "ip_local (example_sockets mac ip) = ip" "udp_local_port (example_sockets mac ip) = 1234"
  by (simp_all add: sock_wf_def tcp_wf_def ip_wf_def link_wf_def example_sockets_def wired_def list_all_iff)

lemma example_sockets_resolve [simp]:
  "Resolve [10, 0, 2, 2] (example_sockets mac ip) = Some [0x52, 0x55, 10, 0, 2, 2]"
  "Resolve [10, 0, 2, 15] (example_sockets mac ip) = Some [0x52, 0x54, 0, 0x12, 0x34, 0x56]"
  by (simp_all add: Resolve_def CacheGet_def cache_find_def example_sockets_def upt_conv_Cons)

definition peer_a :: sockets where "peer_a = example_sockets [0x52, 0x54, 0, 0x12, 0x34, 0x56] [10, 0, 2, 15]"
definition peer_b :: sockets where "peer_b = example_sockets [0x52, 0x55, 10, 0, 2, 2] [10, 0, 2, 2]"

lemma peers [simp]:
  "sock_wf peer_a" "sock_wf peer_b" "wired peer_a" "wired peer_b" "ip_local peer_a = [10, 0, 2, 15]" "ip_local peer_b = [10, 0, 2, 2]"
  "udp_local_port peer_b = 1234" "Resolve [10, 0, 2, 2] peer_a = Some [0x52, 0x55, 10, 0, 2, 2]"
  "Resolve [10, 0, 2, 15] peer_b = Some [0x52, 0x54, 0, 0x12, 0x34, 0x56]"
  by (simp_all add: peer_a_def peer_b_def)

theorem UDP_end_to_end_witness:
  "\<exists>a' frame b'. UDP_Send (ip_local peer_b) 1234 5000 [104, 105] 2 peer_a = Some (True, a') \<and>
    link_sent a' = link_sent peer_a @ [frame] \<and> take 6 frame = [0x52, 0x55, 10, 0, 2, 2] \<and>
    receive_frame frame (of_nat (length frame)) peer_b = Some b' \<and>
    udp_rx_ready b' \<and> udp_rx_len b' = 2 \<and> take (unat (2 :: u32)) (udp_rx_buf b') = take (unat (2 :: u32)) [104, 105]"
  by (rule UDP_end_to_end) simp_all

subsection \<open>The echo service\<close>

definition icmp_message :: "u8 list \<Rightarrow> u8 list" where
  "icmp_message m = take 2 m @ put16 (InternetChecksum (take 2 m @ [0, 0] @ drop 4 m)) @ drop 4 m"

lemma icmp_message_length [simp]: "4 \<le> length m \<Longrightarrow> length (icmp_message m) = length m"
  by (simp add: icmp_message_def)

lemma icmp_message_checksum: "4 \<le> length m \<Longrightarrow> length m \<le> 64 \<Longrightarrow> InternetChecksum (icmp_message m) = 0"
  unfolding icmp_message_def put16_def by (rule InternetChecksum_verifies [OF _ _ refl]) simp_all

lemma copy_icmp_checksum:
  assumes "length x = 2" and "length rest = 60" and "n \<le> 60"
  shows "copy_bytes (x @ [0, 0] @ rest) 2 (put16 (InternetChecksum (take (n + 4) (x @ [0, 0] @ rest)))) 2 =
    Some (icmp_message (x @ [0, 0] @ take n rest) @ drop n rest)"
  using assms by (simp add: copy_bytes_ok icmp_message_def)

lemma SendEchoRequest_ok:
  assumes wf: "ip_wf s" and mac: "Resolve dst s = Some mac" and d: "length dst = 4"
  obtains s' pad where "SendEchoRequest dst i q s = Some (True, s')"
    and "link_sent s' = link_sent s @ [eth_header mac (nic_mac s) ETHERTYPE_IPV4 @
      ip_header s dst IPV4_PROTO_ICMP 8 @ icmp_message (ICMPHeader ICMP_ECHO_REQUEST 0 i q) @ pad]"
    and "length pad \<le> 60"
proof -
  let ?h = "ICMPHeader ICMP_ECHO_REQUEST 0 i q" and ?t = "icmp_tx_buf s"
  have l: "length ?t = 64" using wf by (simp add: ip_wf_def)
  let ?x = "[ICMP_ECHO_REQUEST, 0]" and ?r = "put16 (htons i) @ put16 (htons q) @ drop 8 ?t"
  have h: "?h @ drop 8 ?t = ?x @ [0, 0] @ ?r" by (simp add: ICMPHeader_def put16_0)
  have h8: "?x @ [0, 0] @ take 4 ?r = ?h" by (simp add: ICMPHeader_def put16_0)
  let ?b = "icmp_message ?h @ drop 8 ?t"
  have lh: "length ?h = 8" by (simp add: ICMPHeader_def)
  have c1: "copy_bytes ?t 0 ?h 8 = Some (?h @ drop 8 ?t)" using l lh by (simp add: copy_bytes_ok)
  have c2: "copy_bytes (?h @ drop 8 ?t) 2 (put16 (InternetChecksum (take 8 (?h @ drop 8 ?t)))) 2 = Some ?b"
    using copy_icmp_checksum [of ?x ?r 4] l unfolding h h8 by simp
  let ?s = "s\<lparr>icmp_tx_buf := ?b\<rparr>"
  have lb: "length ?b = 64" using l lh by simp
  have wf1: "ip_wf ?s" using wf lb by (simp del: length_append)
  have m1: "Resolve dst ?s = Some mac" using mac by (simp add: Resolve_def)
  have hd: "ip_header ?s = ip_header s" by (simp add: ip_header_def fun_eq_iff)
  have tk: "take (unat (8 :: u32)) ?b = icmp_message ?h" using lh by simp
  have le: "unat (8 :: u32) \<le> 1480" "unat (8 :: u32) \<le> length ?b" using lb by (simp_all del: length_append)
  obtain s' pad where s': "IPv4_Send dst IPV4_PROTO_ICMP ?b 8 ?s = Some (True, s')"
    "link_sent s' = link_sent ?s @ [eth_header mac (nic_mac ?s) ETHERTYPE_IPV4 @
        ip_header ?s dst IPV4_PROTO_ICMP 8 @ take (unat (8 :: u32)) ?b @ pad]"
    "length pad = 60 - (34 + unat (8 :: u32))"
    by (rule IPv4_Send_ok [OF wf1 m1 d le, of IPV4_PROTO_ICMP])
  have eq: "SendEchoRequest dst i q s = Some (True, s')"
    unfolding SendEchoRequest_def c1 bind.bind_lunit c2 by (rule s'(1))
  show ?thesis by (rule that [OF eq]) (use s'(2) [unfolded tk hd] s'(3) in auto)
qed

text \<open>An echo request of up to 64 bytes is mirrored with the type and the checksum changed.\<close>

lemma ICMP_Handle_request:
  assumes wf: "ip_wf s" and mac: "Resolve src s = Some mac" and d: "length src = 4"
    and n: "8 \<le> unat sz" "unat sz \<le> 64" "unat sz \<le> length p" and ty: "p ! 0 = ICMP_ECHO_REQUEST"
  obtains s' pad where "ICMP_HandleIPv4Payload p sz src s = Some s'"
    and "link_sent s' = link_sent s @ [eth_header mac (nic_mac s) ETHERTYPE_IPV4 @
      ip_header s src IPV4_PROTO_ICMP sz @ icmp_message ([ICMP_ECHO_REPLY, 0] @ [0, 0] @ drop 4 (take (unat sz) p)) @ pad]"
proof -
  let ?n = "unat sz" and ?t = "icmp_tx_buf s" and ?x = "[ICMP_ECHO_REPLY, 0]"
  have l: "length ?t = 64" using wf by (simp add: ip_wf_def)
  let ?r = "drop 4 (take ?n p @ drop ?n ?t)" and ?m = "?x @ [0, 0] @ drop 4 (take ?n p)"
  let ?b = "icmp_message ?m @ drop ?n ?t"
  have c1: "copy_bytes ?t 0 p ?n = Some (take ?n p @ drop ?n ?t)" using l n by (simp add: copy_bytes_ok)
  have c2: "copy_bytes (take ?n p @ drop ?n ?t) 0 (?x @ put16 0) 4 = Some (?x @ [0, 0] @ ?r)"
    using l n by (simp add: copy_bytes_ok put16_0)
  have r: "take (?n - 4) ?r = drop 4 (take ?n p)" "drop (?n - 4) ?r = drop ?n ?t" "length ?r = 60" "?n - 4 + 4 = ?n"
    using l n by (simp_all add: drop_take)
  have c3: "copy_bytes (?x @ [0, 0] @ ?r) 2 (put16 (InternetChecksum (take ?n (?x @ [0, 0] @ ?r)))) 2 = Some ?b"
    using copy_icmp_checksum [of ?x ?r "?n - 4", unfolded r] n by simp
  have lm: "length ?m = ?n" using n by simp
  have lb: "length ?b = 64" using l n lm by simp
  let ?s = "s\<lparr>icmp_tx_buf := ?b\<rparr>"
  have wf1: "ip_wf ?s" using wf lb by (simp del: length_append)
  have m1: "Resolve src ?s = Some mac" using mac by (simp add: Resolve_def)
  have hd: "ip_header ?s = ip_header s" by (simp add: ip_header_def fun_eq_iff)
  have tk: "take ?n ?b = icmp_message ?m" using lm n by simp
  have le: "?n \<le> 1480" "?n \<le> length ?b" using n lb by (simp_all del: length_append)
  obtain s' pad where s': "IPv4_Send src IPV4_PROTO_ICMP ?b sz ?s = Some (True, s')"
    "link_sent s' = link_sent ?s @ [eth_header mac (nic_mac ?s) ETHERTYPE_IPV4 @
        ip_header ?s src IPV4_PROTO_ICMP sz @ take ?n ?b @ pad]"
    by (rule IPv4_Send_ok [OF wf1 m1 d le, of IPV4_PROTO_ICMP])
  have g: "\<not> sz < 8" "\<not> sz > 64" using n by (simp_all add: word_less_nat_alt)
  have t0: "rd8 p 0 = Some ICMP_ECHO_REQUEST" using n ty by (auto simp: rd8_def)
  have eq: "ICMP_HandleIPv4Payload p sz src s = Some s'"
    unfolding ICMP_HandleIPv4Payload_def t0 bind.bind_lunit Let_def if_not_P [OF g(1)] if_not_P [OF g(2)] c1 c2 c3 s'(1)
    by simp
  show ?thesis by (rule that [OF eq]) (use s'(2) [unfolded tk hd] in auto)
qed

lemma wire_payload:
  assumes "length mac = 6" and "length sm = 6" and "length (ip_local s) = 4" and "length dst = 4" and "length m = n"
  shows "take n (drop 34 (eth_header mac sm et @ ip_header s dst p z @ m @ pad)) = m"
  using assms by (simp add: eth_header_def)

text \<open>C15: the echo service. When \<open>a\<close> pings \<open>b\<close>, both having resolved each other, one frame goes out and \<open>b\<close>
  answers it with one frame to \<open>a\<close>: an echo reply with the identifier and the sequence number of
  the request, and a checksum that verifies.\<close>

theorem ping:
  assumes a: "sock_wf a" and b: "sock_wf b" and w: "wired b"
    and mac: "Resolve (ip_local b) a = Some mac" "Resolve (ip_local a) b = Some mac'"
  shows "\<exists>a' req b' rep checksum. SendEchoRequest (ip_local b) i q a = Some (True, a') \<and>
    link_sent a' = link_sent a @ [req] \<and> take 6 req = mac \<and>
    receive_frame req (of_nat (length req)) b = Some b' \<and>
    link_sent b' = link_sent b @ [rep] \<and> take 6 rep = mac' \<and>
    take 8 (drop 34 rep) = ICMPHeader ICMP_ECHO_REPLY checksum i q \<and> InternetChecksum (take 8 (drop 34 rep)) = 0"
proof -
  have ia: "ip_wf a" "length (ip_local a) = 4" "length (nic_mac a) = 6"
    and ib: "ip_wf b" "length (ip_local b) = 4" "length (nic_mac b) = 6"
    using a b by (auto simp: sock_wf_def tcp_wf_def ip_wf_def link_wf_def)
  have lm: "length mac = 6" "length mac' = 6" using Resolve_mac ia(1) ib(1) mac by blast+
  let ?m = "icmp_message (ICMPHeader ICMP_ECHO_REQUEST 0 i q)"
  obtain a' pad where a': "SendEchoRequest (ip_local b) i q a = Some (True, a')"
    "link_sent a' = link_sent a @ [eth_header mac (nic_mac a) ETHERTYPE_IPV4 @ ip_header a (ip_local b) IPV4_PROTO_ICMP 8 @ ?m @ pad]"
    "length pad \<le> 60"
    by (rule SendEchoRequest_ok [OF ia(1) mac(1) ib(2)])
  have m: "length ?m = 8" "?m ! 0 = ICMP_ECHO_REQUEST" "drop 4 ?m = put16 (htons i) @ put16 (htons q)"
    by (simp_all add: icmp_message_def ICMPHeader_def put16_def)
  define f where "f = eth_header mac (nic_mac a) ETHERTYPE_IPV4 @ ip_header a (ip_local b) IPV4_PROTO_ICMP 8 @ ?m @ pad"
  have "length f = 42 + length pad" using ia ib lm m(1) by (simp add: f_def eth_header_def)
  then have "34 \<le> length f" "length f \<le> 1566" using a'(3) by linarith+
  then have lf: "34 \<le> unat (of_nat (length f) :: u32)" by (rule frame_size)
  have p: "8 \<le> unat (8 :: u32)" "unat (8 :: u32) \<le> 64" "unat (8 :: u32) \<le> length (?m @ pad)" "(?m @ pad) ! 0 = ICMP_ECHO_REQUEST"
    using m by (simp_all add: nth_append)
  let ?r = "[ICMP_ECHO_REPLY, 0] @ [0, 0] @ drop 4 (take (unat (8 :: u32)) (?m @ pad))"
  have r: "?r = [ICMP_ECHO_REPLY, 0] @ [0, 0] @ put16 (htons i) @ put16 (htons q)" using m by simp
  obtain b' pad' where b': "ICMP_HandleIPv4Payload (?m @ pad) 8 (ip_local a) b = Some b'"
    "link_sent b' = link_sent b @ [eth_header mac' (nic_mac b) ETHERTYPE_IPV4 @
      ip_header b (ip_local a) IPV4_PROTO_ICMP 8 @ icmp_message ?r @ pad']"
    by (rule ICMP_Handle_request [OF ib(1) mac(2) ia(2) p])
  let ?rep = "eth_header mac' (nic_mac b) ETHERTYPE_IPV4 @ ip_header b (ip_local a) IPV4_PROTO_ICMP 8 @ icmp_message ?r @ pad'"
  have us: "unat (8 :: u32) \<le> 1480" by simp
  have rf: "receive_frame f (of_nat (length f)) b = Some b'"
    unfolding f_def receive_datagram [OF w lm(1) ia(3) ia(2) ib(2) us lf [unfolded f_def] handler_of_simps(1)]
    using b'(1) by (simp add: HandleIPv4Payload_def)
  have lr: "length (icmp_message ?r) = 8" unfolding r by simp
  have msg: "take 8 (drop 34 ?rep) = icmp_message ?r" by (rule wire_payload [OF lm(2) ib(3,2) ia(2) lr])
  moreover have "\<exists>c. icmp_message ?r = ICMPHeader ICMP_ECHO_REPLY c i q"
    unfolding r by (rule exI, simp add: icmp_message_def ICMPHeader_def)
  moreover have "InternetChecksum (icmp_message ?r) = 0" unfolding r by (rule icmp_message_checksum) simp_all
  moreover have "take 6 f = mac" "take 6 ?rep = mac'" using lm by (simp_all add: f_def eth_header_def)
  moreover have "link_sent a' = link_sent a @ [f]" using a'(2) by (simp add: f_def)
  ultimately show ?thesis using a'(1) rf b'(2) by metis
qed

theorem ping_witness:
  "\<exists>a' req b' rep checksum. SendEchoRequest (ip_local peer_b) 7 1 peer_a = Some (True, a') \<and>
    link_sent a' = link_sent peer_a @ [req] \<and> take 6 req = [0x52, 0x55, 10, 0, 2, 2] \<and>
    receive_frame req (of_nat (length req)) peer_b = Some b' \<and>
    link_sent b' = link_sent peer_b @ [rep] \<and> take 6 rep = [0x52, 0x54, 0, 0x12, 0x34, 0x56] \<and>
    take 8 (drop 34 rep) = ICMPHeader ICMP_ECHO_REPLY checksum 7 1 \<and> InternetChecksum (take 8 (drop 34 rep)) = 0"
  by (rule ping) simp_all

subsection \<open>TCP\<close>

lemma TCPHeader_fields:
  "rd16_at (TCPHeader sp dp sn an fl ck @ d) 0 = Some (htons sp)" "rd16_at (TCPHeader sp dp sn an fl ck @ d) 2 = Some (htons dp)"
  "rd32_at (TCPHeader sp dp sn an fl ck @ d) 4 = Some (htonl sn)" "rd32_at (TCPHeader sp dp sn an fl ck @ d) 8 = Some (htonl an)"
  "rd8 (TCPHeader sp dp sn an fl ck @ d) 12 = Some 0x50" "rd8 (TCPHeader sp dp sn an fl ck @ d) 13 = Some fl"
  "drop 20 (TCPHeader sp dp sn an fl ck @ d) = d"
  by (simp_all add: TCPHeader_def rd16_at_def rd32_at_def rd8_def nth_append put16_def put32_def
      le16_byte_of [simplified] le32_byte_of [simplified])

text \<open>What a TCP send puts on the wire. Up to 1460 bytes go out in one frame to the hardware address of
  the peer; the segment carries the ports, the sequence and acknowledgement numbers, the flags and
  exactly the data, and its checksum over the pseudo header verifies at the receiver; the sequence
  number advances by one for a segment that opens or closes and by the number of bytes for others.\<close>

theorem SendSegment_wire:
  assumes wf: "tcp_wf s" and mac: "Resolve (tcp_remote_ip s) s = Some mac"
    and n: "unat sz \<le> 1460" "unat sz \<le> length data"
  shows "\<exists>s' frame. SendSegment flags data sz s = Some s' \<and> link_sent s' = link_sent s @ [frame] \<and> take 6 frame = mac \<and>
    (let segment = take (20 + unat sz) (drop 34 frame) in
       InternetChecksum (TCPPseudoHeader (ip_local s) (tcp_remote_ip s) (of_nat (20 + unat sz)) @ segment) = 0 \<and>
       rd16_at segment 0 = Some (htons (tcp_local_port s)) \<and> rd16_at segment 2 = Some (htons (tcp_remote_port s)) \<and>
       rd32_at segment 4 = Some (htonl (tcp_seq s)) \<and> rd32_at segment 8 = Some (htonl (tcp_ack s)) \<and>
       rd8 segment 13 = Some flags \<and> drop 20 segment = take (unat sz) data) \<and>
    tcp_seq s' = tcp_seq s + (if has_flag flags TCP_SYN \<or> has_flag flags TCP_FIN then 1 else sz)"
proof -
  let ?d = "take (unat sz) data"
  have l: "length (ip_local s) = 4" "length (tcp_remote_ip s) = 4" "length (nic_mac s) = 6" "length mac = 6"
    using wf Resolve_mac [of s, OF _ mac] by (auto simp: tcp_wf_def ip_wf_def link_wf_def)
  obtain s' pad where s': "SendSegment flags data sz s = Some s'"
    "link_sent s' = link_sent s @ [eth_header mac (nic_mac s) ETHERTYPE_IPV4 @
       ip_header s (tcp_remote_ip s) IPV4_PROTO_TCP (20 + sz) @ tcp_segment s flags ?d @ pad]"
    by (rule SendSegment_ok [OF wf n, of flags]) (use mac in auto)
  let ?f = "eth_header mac (nic_mac s) ETHERTYPE_IPV4 @ ip_header s (tcp_remote_ip s) IPV4_PROTO_TCP (20 + sz) @
    tcp_segment s flags ?d @ pad"
  have ls: "length (tcp_segment s flags ?d) = 20 + unat sz" using n by simp
  have seg: "take (20 + unat sz) (drop 34 ?f) = tcp_segment s flags ?d"
    by (rule wire_payload [OF l(4,3,1,2) ls])
  have ck: "InternetChecksum (TCPPseudoHeader (ip_local s) (tcp_remote_ip s) (of_nat (20 + unat sz)) @ tcp_segment s flags ?d) = 0"
    using tcp_segment_checksum [OF l(1,2), of ?d flags] n unfolding ls by simp
  have t6: "take 6 ?f = mac" using l by (simp add: eth_header_def)
  have sq: "tcp_seq s' = tcp_seq s + (if has_flag flags TCP_SYN \<or> has_flag flags TCP_FIN then 1 else sz)"
    using SendSegment_effect(3) [OF s'(1)] by (simp add: next_seq_def)
  show ?thesis
    by (intro exI conjI, rule s'(1), rule s'(2), rule t6, unfold seg Let_def, use ck in simp, unfold tcp_segment_def Let_def)
      (simp_all only: TCPHeader_fields sq conj_assoc simp_thms)
qed

definition connected :: sockets where
  "connected = peer_a\<lparr>tcp_remote_ip := [10, 0, 2, 2], tcp_remote_port := 80, tcp_state := TCP_ESTABLISHED,
     tcp_seq := 100, tcp_ack := 200\<rparr>"

lemma connected_facts [simp]:
  "tcp_wf connected" "sock_wf connected" "tcp_state connected = TCP_ESTABLISHED" "tcp_remote_ip connected = [10, 0, 2, 2]"
  "Resolve [10, 0, 2, 2] connected = Some [0x52, 0x55, 10, 0, 2, 2]" "tcp_local_port connected = 1234"
proof -
  have "sock_wf peer_a" by simp
  then show "tcp_wf connected" "sock_wf connected"
    unfolding sock_wf_def connected_def by (simp_all add: tcp_wf_def)
  have "Resolve [10, 0, 2, 2] peer_a = Some [0x52, 0x55, 10, 0, 2, 2]" by simp
  then show "Resolve [10, 0, 2, 2] connected = Some [0x52, 0x55, 10, 0, 2, 2]" by (simp add: connected_def Resolve_def)
qed (simp_all add: connected_def peer_a_def example_sockets_def)

theorem SendSegment_wire_witness:
  "\<exists>s' frame. SendSegment (TCP_PSH OR TCP_ACK) [1, 2, 3] 3 connected = Some s' \<and>
    link_sent s' = link_sent connected @ [frame] \<and> take 6 frame = [0x52, 0x55, 10, 0, 2, 2] \<and>
    (let segment = take (20 + unat (3 :: u32)) (drop 34 frame) in
       InternetChecksum (TCPPseudoHeader (ip_local connected) (tcp_remote_ip connected) (of_nat (20 + unat (3 :: u32))) @ segment) = 0 \<and>
       rd16_at segment 0 = Some (htons (tcp_local_port connected)) \<and> rd16_at segment 2 = Some (htons (tcp_remote_port connected)) \<and>
       rd32_at segment 4 = Some (htonl (tcp_seq connected)) \<and> rd32_at segment 8 = Some (htonl (tcp_ack connected)) \<and>
       rd8 segment 13 = Some (TCP_PSH OR TCP_ACK) \<and> drop 20 segment = take (unat (3 :: u32)) [1, 2, 3]) \<and>
    tcp_seq s' = tcp_seq connected +
      (if has_flag (TCP_PSH OR TCP_ACK) TCP_SYN \<or> has_flag (TCP_PSH OR TCP_ACK) TCP_FIN then 1 else 3)"
  by (rule SendSegment_wire) simp_all

text \<open>C16: the transmit buffer bounds a send. A segment is sent without writing outside the static buffers
  exactly if it carries at most 1460 bytes; the send operation itself does not check this.\<close>

theorem SendSegment_bound:
  assumes "tcp_wf s" and "tcp_state s = TCP_ESTABLISHED" and "unat sz \<le> length data"
  shows "TCP_Send data sz s = None \<longleftrightarrow> 1460 < unat sz"
proof (cases "1460 < unat sz")
  case True
  then show ?thesis using SendSegment_overflows [OF assms(1) True] assms(2) by (simp add: TCP_Send_def)
next
  case False
  then obtain s' where "SendSegment (TCP_PSH OR TCP_ACK) data sz s = Some s'"
    using SendSegment_ok [OF assms(1), of sz data "TCP_PSH OR TCP_ACK"] assms(3) by (metis not_less)
  then show ?thesis using assms(2) False by (simp add: TCP_Send_def)
qed

theorem SendSegment_bound_witness:
  "TCP_Send (replicate 4088 0) 4088 connected = None \<and> TCP_Send (replicate 1460 0) 1460 connected \<noteq> None"
  using SendSegment_bound [of connected 4088 "replicate 4088 0"] SendSegment_bound [of connected 1460 "replicate 1460 0"]
  by simp

text \<open>A segment that arrives, decoded.\<close>

lemma TCP_Handle_segment:
  assumes n: "unat n \<le> 1460" and p: "dp = tcp_local_port s"
  shows "TCP_HandleIPv4Payload h (TCPHeader sp dp sn an fl ck @ d) (20 + n) s = TCP_on_segment h sn an fl d n s"
proof -
  have u: "unat (20 + n) = 20 + unat n" using n by (simp add: unat_u32_plus)
  have lt: "\<not> 20 + n < 20" using u by (simp add: word_less_nat_alt)
  have hl: "ucast (drop_bit 4 (0x50 :: u8)) * 4 = (20 :: u32)" by (simp add: drop_bit_eq_div)
  have ps: "(if 20 + n > 20 then 20 + n - 20 else 0) = n"
  proof (cases "n = 0")
    case False
    then have "unat n \<noteq> 0" by (simp add: unat_eq_0)
    then have "20 < 20 + n" using u by (simp add: word_less_nat_alt)
    then show ?thesis by simp
  qed simp
  have d20: "drop (unat (20 :: u32)) (TCPHeader sp dp sn an fl ck @ d) = d" by (simp add: TCPHeader_fields(7) [simplified])
  show ?thesis
    unfolding TCP_HandleIPv4Payload_def TCPHeader_fields bind.bind_lunit Let_def hl d20 ps using lt p by simp
qed

lemma no_data_ok: "tcp_wf s \<Longrightarrow> \<exists>s'. SendSegment flags [] 0 s = Some s'"
  by (rule SendSegment_ok [of s 0 "[]" flags]) auto

text \<open>Opening a connection. After \<open>Connect\<close> the socket waits for the answer to its SYN; the peer's SYN+ACK
  makes it established, acknowledging the peer's initial sequence number and taking over the
  acknowledged one, and the call back of the handler reports no fault.\<close>

theorem TCP_open:
  assumes wf: "tcp_wf s" and ip: "length ip = 4" and fl: "has_flag fl TCP_SYN" "has_flag fl TCP_ACK"
  shows "\<exists>s1 s2. TCP_Connect ip port s = Some (True, s1) \<and> tcp_state s1 = TCP_SYN_SENT \<and> tcp_seq s1 = 0xDEADBEF0 \<and>
    TCP_HandleIPv4Payload OnReceive (TCPHeader port (tcp_local_port s) sn an fl ck) 20 s1 = Some s2 \<and>
    tcp_state s2 = TCP_ESTABLISHED \<and> tcp_ack s2 = sn + 1 \<and> tcp_seq s2 = an \<and>
    tcp_remote_ip s2 = ip \<and> tcp_remote_port s2 = port"
proof -
  let ?s = "s\<lparr>tcp_remote_ip := ip, tcp_remote_port := port, tcp_seq := 0xDEADBEEF, tcp_ack := 0, tcp_state := TCP_SYN_SENT\<rparr>"
  have "tcp_wf ?s" using wf ip by simp
  then obtain s1 where s1: "SendSegment TCP_SYN [] 0 ?s = Some s1" using no_data_ok by blast
  note e1 = SendSegment_effect [OF s1]
  have wf1: "tcp_wf s1" using e1(8) wf ip by simp
  let ?t = "s1\<lparr>tcp_ack := sn + 1, tcp_seq := an, tcp_state := TCP_ESTABLISHED\<rparr>"
  obtain s2 where s2: "SendSegment TCP_ACK [] 0 ?t = Some s2" using no_data_ok [of ?t TCP_ACK] wf1 by auto
  note e2 = SendSegment_effect [OF s2]
  have f: "has_flag TCP_SYN TCP_SYN" "\<not> has_flag TCP_ACK TCP_SYN" "\<not> has_flag TCP_ACK TCP_FIN"
    by (simp_all add: has_flag_def TCP_SYN_def TCP_ACK_def TCP_FIN_def)
  have c: "TCP_Connect ip port s = Some (True, s1)" by (simp add: TCP_Connect_def s1)
  have "TCP_HandleIPv4Payload OnReceive (TCPHeader port (tcp_local_port s) sn an fl ck @ []) (20 + 0) s1 =
      TCP_on_segment OnReceive sn an fl [] 0 s1"
    by (rule TCP_Handle_segment) (use e1(4) in simp_all)
  also have "\<dots> = Some s2" using e1(1) fl s2 by (simp add: TCP_on_segment_def OnConnected_def)
  finally have h: "TCP_HandleIPv4Payload OnReceive (TCPHeader port (tcp_local_port s) sn an fl ck) 20 s1 = Some s2" by simp
  show ?thesis using c h e1 e2 f by (auto simp: next_seq_def)
qed

theorem TCP_open_witness:
  "\<exists>s1 s2. TCP_Connect [10, 0, 2, 2] 80 peer_a = Some (True, s1) \<and> tcp_state s1 = TCP_SYN_SENT \<and> tcp_seq s1 = 0xDEADBEF0 \<and>
    TCP_HandleIPv4Payload SyscallTCPSocket_OnReceive
      (TCPHeader 80 (tcp_local_port peer_a) 5000 0xDEADBEF0 (TCP_SYN OR TCP_ACK) 0) 20 s1 = Some s2 \<and>
    tcp_state s2 = TCP_ESTABLISHED \<and> tcp_ack s2 = 5000 + 1 \<and> tcp_seq s2 = 0xDEADBEF0 \<and>
    tcp_remote_ip s2 = [10, 0, 2, 2] \<and> tcp_remote_port s2 = 80"
proof (rule TCP_open)
  show "tcp_wf peer_a" using peers(1) unfolding sock_wf_def by simp
qed (simp_all add: has_flag_def TCP_SYN_def TCP_ACK_def)



subsection \<open>Every run\<close>

text \<open>What can happen to the stack: the card hands it anything at all, or the kernel calls one of
  its operations.\<close>

inductive stack_step :: "'a sockets_scheme \<Rightarrow> 'a sockets_scheme \<Rightarrow> bool" where
  interrupt: "RTL8139_HandleInterrupt (HandleEthernetPayload SyscallUDPSocket_OnReceive SyscallTCPSocket_OnReceive)
      status env esp s = Some (esp', s') \<Longrightarrow> stack_step s s'"
| connect: "TCP_Connect ip port s = Some (ok, s') \<Longrightarrow> length ip = 4 \<Longrightarrow> stack_step s s'"
| send: "TCP_Send data sz s = Some (ok, s') \<Longrightarrow> stack_step s s'"
| close: "TCP_Close s = Some s' \<Longrightarrow> stack_step s s'"
| datagram: "UDP_Send ip dport sport data sz s = Some (ok, s') \<Longrightarrow> stack_step s s'"

lemma stack_step_progress: "stack_step s s' \<Longrightarrow> tcp_progress s s'"
proof (induction rule: stack_step.induct)
  case (interrupt status env esp s esp' s')
  then show ?case
    by (auto simp: RTL8139_HandleInterrupt_def intro: hooks.HandleReceive_progress split: if_splits)
qed (auto intro: TCP_Connect_progress TCP_Send_progress TCP_Close_progress UDP_Send_progress)

lemma stack_run_progress: "stack_step\<^sup>*\<^sup>* s s' \<Longrightarrow> tcp_progress s s'"
  by (induction rule: rtranclp_induct) (auto dest: stack_step_progress intro: tcp_progress_trans)



text \<open>C18: a peer that answers our close with one segment carrying both FIN and ACK is not heard. The socket takes the
  segment for a mere acknowledgement: it waits for a FIN it has already been sent, does not
  acknowledge it and sends nothing.\<close>

theorem FIN_ACK_loses_FIN:
  assumes st: "tcp_state s = TCP_FIN_WAIT_1" and fl: "has_flag fl TCP_ACK" "has_flag fl TCP_FIN"
  shows "TCP_HandleIPv4Payload SyscallTCPSocket_OnReceive (TCPHeader sp (tcp_local_port s) sn an fl ck) 20 s =
    Some (s\<lparr>tcp_state := TCP_FIN_WAIT_2\<rparr>)"
proof -
  have "TCP_HandleIPv4Payload SyscallTCPSocket_OnReceive (TCPHeader sp (tcp_local_port s) sn an fl ck @ []) (20 + 0) s =
      TCP_on_segment SyscallTCPSocket_OnReceive sn an fl [] 0 s"
    by (rule TCP_Handle_segment) simp_all
  then show ?thesis using assms by (simp add: TCP_on_segment_def)
qed

theorem FIN_ACK_loses_FIN_witness:
  "TCP_HandleIPv4Payload SyscallTCPSocket_OnReceive
     (TCPHeader 80 (tcp_local_port (connected\<lparr>tcp_state := TCP_FIN_WAIT_1\<rparr>)) 200 101 (TCP_FIN OR TCP_ACK) 0) 20
     (connected\<lparr>tcp_state := TCP_FIN_WAIT_1\<rparr>) =
   Some (connected\<lparr>tcp_state := TCP_FIN_WAIT_1\<rparr>\<lparr>tcp_state := TCP_FIN_WAIT_2\<rparr>)"
  by (rule FIN_ACK_loses_FIN) (simp_all add: has_flag_def TCP_FIN_def TCP_ACK_def)

end
