(* ===== verification/Syscalls.thy ===== *)
theory Syscalls
  imports Kernel_Heap Desktops Fat32_Files Net_Sockets
begin

text \<open>
  The system calls (\<^verbatim>\<open>src/src/kernel/syscall.cpp\<close>), with the shared page of \<^verbatim>\<open>net/net_shared.h\<close>. This is where
  the components meet: the state is the whole kernel, and a call reads its arguments from the memory of the caller.

  The kernel runs with the first 16 MiB mapped on themselves (theory \<open>Paging\<close>), so a pointer is a
  physical address; an access at 16 MiB or above is a page fault, which stops the machine. That, a null scheduler and a
  call that does not return are the result \<open>None\<close>. A call that waits with interrupts enabled gets as an argument what
  happens at each \<^verbatim>\<open>hlt\<close>, a list of steps of the kernel: the interrupts and the other processes until the waiting
  loop is entered again.
\<close>

section \<open>The kernel's state\<close>

text \<open>\<open>k_nic\<close> says whether a network card was found, in which case all the network objects exist; the
  receive buffers of the sockets are static. \<open>k_junk\<close> is what the storage of a new process object held.\<close>

record kernel =
  k_heap :: MemoryManager
  k_gui :: gui
  k_keyboard :: KeyboardDriver
  k_mouse :: MouseDriver
  k_fat32 :: "fat32 option"
  k_nic :: bool
  k_net :: sockets
  k_junk :: CPUState

definition get_sched :: "kernel \<Rightarrow> Scheduler option" where
  "get_sched k = con_sched (g_console (k_gui k))"

definition put_sched :: "Scheduler \<Rightarrow> kernel \<Rightarrow> kernel" where
  "put_sched s k = k\<lparr>k_gui := (k_gui k)\<lparr>g_console := (g_console (k_gui k))\<lparr>con_sched := Some s\<rparr>\<rparr>\<rparr>"

definition get_mem :: "kernel \<Rightarrow> mem option" where
  "get_mem k = map_option (\<lambda>s. pm_mem (pg_phys (s_paging s))) (get_sched k)"

definition sched_mem :: "mem \<Rightarrow> Scheduler \<Rightarrow> Scheduler" where
  "sched_mem m s = s\<lparr>s_paging := (s_paging s)\<lparr>pg_phys := (pg_phys (s_paging s))\<lparr>pm_mem := m\<rparr>\<rparr>\<rparr>"

definition put_mem :: "mem \<Rightarrow> kernel \<Rightarrow> kernel" where
  "put_mem m k = (case get_sched k of None \<Rightarrow> k | Some s \<Rightarrow> put_sched (sched_mem m s) k)"

section \<open>Memory at a pointer\<close>

definition MAPPED :: nat where
  "MAPPED = 0x1000000"

definition load_bytes :: "mem \<Rightarrow> u32 \<Rightarrow> nat \<Rightarrow> u8 list option" where
  "load_bytes m a n = (if n = 0 \<or> unat a + n \<le> MAPPED then Some (map (\<lambda>i. m (a + of_nat i)) [0..<n]) else None)"

definition store_bytes :: "mem \<Rightarrow> u32 \<Rightarrow> u8 list \<Rightarrow> mem option" where
  "store_bytes m a bs =
     (if bs = [] \<or> unat a + length bs \<le> MAPPED
      then Some (\<lambda>x. if unat a \<le> unat x \<and> unat x < unat a + length bs then bs ! (unat x - unat a) else m x)
      else None)"

text \<open>All the memory from a pointer on, as a buffer of the file system.\<close>

definition buffer_at :: "mem \<Rightarrow> u32 \<Rightarrow> u8 list" where
  "buffer_at m a = map (\<lambda>i. m (a + of_nat i)) [0..<MAPPED - unat a]"

text \<open>A string is followed by a zero.\<close>

function cstring :: "mem \<Rightarrow> u32 \<Rightarrow> u8 list option" where
  "cstring m a =
     (if unat a < MAPPED then if m a = 0 then Some [] else map_option ((#) (m a)) (cstring m (a + 1)) else None)"
  by pat_completeness auto
termination
proof (relation "measure (\<lambda>(m, a). MAPPED - unat a)")
  fix m and a :: u32
  assume a: "unat a < MAPPED"
  then have "unat (a + 1) = unat a + 1" using unat_u32_plus [of a 1] by (simp add: MAPPED_def)
  then show "((m, a + 1), m, a) \<in> measure (\<lambda>(m, a). MAPPED - unat a)" using a by simp
qed simp

declare cstring.simps [simp del]

section \<open>Helpers of the source\<close>

definition NET_SHARED_BASE_ADDR :: u32 where "NET_SHARED_BASE_ADDR = 0x00600000"
definition NET_BUF_STATUS_ADDR :: u32 where "NET_BUF_STATUS_ADDR = NET_SHARED_BASE_ADDR + 0"
definition NET_BUF_DATA_LEN_ADDR :: u32 where "NET_BUF_DATA_LEN_ADDR = NET_SHARED_BASE_ADDR + 4"
definition NET_BUF_DATA_ADDR :: u32 where "NET_BUF_DATA_ADDR = NET_SHARED_BASE_ADDR + 8"
definition NET_BUF_MAX_DATA :: u32 where "NET_BUF_MAX_DATA = 4088"

definition IsRing3Range :: "u32 \<Rightarrow> u32 \<Rightarrow> bool" where
  "IsRing3Range addr len =
     (if len = 0 then True
      else let stop = addr + len
           in if stop < addr then False
              else if addr \<ge> NET_SHARED_BASE_ADDR \<and> stop \<le> NET_SHARED_BASE_ADDR + 4096 then True
              else addr \<ge> 0x00400000 \<and> stop \<le> 0x00D00000)"

definition ValidateNetShared :: "u32 \<Rightarrow> bool" where
  "ValidateNetShared data_len =
     (if data_len > NET_BUF_MAX_DATA then False
      else if \<not> IsRing3Range NET_BUF_STATUS_ADDR 4 then False
      else if \<not> IsRing3Range NET_BUF_DATA_LEN_ADDR 4 then False
      else if \<not> IsRing3Range NET_BUF_DATA_ADDR data_len then False
      else True)"

definition PackedToIPv4 :: "u32 \<Rightarrow> IPv4Address" where
  "PackedToIPv4 packed = FromBytes (ucast (drop_bit 24 packed AND 0xFF)) (ucast (drop_bit 16 packed AND 0xFF))
     (ucast (drop_bit 8 packed AND 0xFF)) (ucast (packed AND 0xFF))"

definition ms_to_ticks :: "u32 \<Rightarrow> u32" where
  "ms_to_ticks ms = ms div 10 + 1"

definition TimedOut :: "u32 \<Rightarrow> u32 \<Rightarrow> Scheduler \<Rightarrow> bool" where
  "TimedOut start wait_ticks s \<longleftrightarrow> pit_ticks s - start \<ge> wait_ticks"

text \<open>The pointer checks \<^verbatim>\<open>addr < 0x00400000 || addr >= 0x00D00000\<close> of the file calls.\<close>

definition user_pointer :: "u32 \<Rightarrow> bool" where
  "user_pointer addr \<longleftrightarrow> \<not> (addr < 0x00400000 \<or> addr \<ge> 0x00D00000)"

text \<open>Output goes to the active terminal, or to the text screen if there is none.\<close>

definition emit :: "u8 list \<Rightarrow> kernel \<Rightarrow> kernel option" where
  "emit str k =
     (let g = k_gui k; c = g_console g
      in case g_terminal g of
           None \<Rightarrow> map_option (\<lambda>v. k\<lparr>k_gui := g\<lparr>g_console := c\<lparr>con_vga := v\<rparr>\<rparr>\<rparr>) (VGA_Print str (con_vga c))
         | Some p \<Rightarrow>
             (case g_objects g p of
                Some (TerminalObj t ws) \<Rightarrow> do {
                  (t, v) \<leftarrow> SetShellOutput str (t, con_vga c);
                  Some (k\<lparr>k_gui := g\<lparr>g_objects := (g_objects g)(p \<mapsto> TerminalObj t ws), g_console := c\<lparr>con_vga := v\<rparr>\<rparr>\<rparr>)
                }
              | _ \<Rightarrow> None))"

section \<open>Waiting\<close>

text \<open>The loop \<^verbatim>\<open>while (condition) hlt\<close>: a step happens at each \<^verbatim>\<open>hlt\<close>. When the steps run out, it still waits.\<close>

fun wait_while :: "(kernel \<Rightarrow> bool) \<Rightarrow> (kernel \<Rightarrow> kernel option) list \<Rightarrow> kernel \<Rightarrow> kernel option" where
  "wait_while c [] k = (if c k then None else Some k)"
| "wait_while c (w # ws) k = (if c k then Option.bind (w k) (wait_while c ws) else Some k)"

definition set_process :: "nat option \<Rightarrow> ProcessState \<Rightarrow> int \<Rightarrow> Scheduler \<Rightarrow> Scheduler" where
  "set_process p st w s =
     (case p of None \<Rightarrow> s
      | Some i \<Rightarrow> s\<lparr>processes := set_proc i (\<lambda>q. q\<lparr>p_state := st, p_wait_pid := w\<rparr>) (processes s)\<rparr>)"

text \<open>The active process is blocked with a reason, waits, and runs again; its pointer is kept across the wait.\<close>

definition block_until :: "int \<Rightarrow> (kernel \<Rightarrow> bool) \<Rightarrow> (kernel \<Rightarrow> kernel option) list \<Rightarrow> kernel \<Rightarrow> kernel option" where
  "block_until reason waiting world k = do {
     s \<leftarrow> get_sched k;
     let p = GetActive s;
     k \<leftarrow> wait_while waiting world (put_sched (set_process p PROCESS_BLOCKED reason s) k);
     s \<leftarrow> get_sched k;
     Some (put_sched (set_process p PROCESS_RUNNING (-1) s) k)
   }"

section \<open>Console and process calls\<close>

definition sys_write :: "u32 \<Rightarrow> u32 \<Rightarrow> u32 \<Rightarrow> kernel \<Rightarrow> (u32 \<times> kernel) option" where
  "sys_write fd addr n k =
     (if addr < 0x00400000 \<or> addr + n > 0x00D00000 then Some (-1, k)
      else if fd = 1 \<or> fd = 2
      then do {
        m \<leftarrow> get_mem k;
        str \<leftarrow> load_bytes m addr (unat n);
        k \<leftarrow> emit str k;
        Some (n, k)
      }
      else Some (-1, k))"

text \<open>The loop that takes characters up to a newline, or until the ring is empty.\<close>

fun take_line :: "nat \<Rightarrow> KeyboardBuffer \<Rightarrow> u8 list \<times> KeyboardBuffer" where
  "take_line 0 kb = ([], kb)"
| "take_line (Suc n) kb =
     (case Dequeue kb of None \<Rightarrow> ([], kb)
      | Some (c, kb) \<Rightarrow> if c = 0x0A then ([c], kb) else let (cs, kb) = take_line n kb in (c # cs, kb))"

definition keys :: "kernel \<Rightarrow> KeyboardBuffer" where
  "keys k = con_keys (g_console (k_gui k))"

definition put_keys :: "KeyboardBuffer \<Rightarrow> kernel \<Rightarrow> kernel" where
  "put_keys kb k = k\<lparr>k_gui := (k_gui k)\<lparr>g_console := (g_console (k_gui k))\<lparr>con_keys := kb\<rparr>\<rparr>\<rparr>"

definition sys_read :: "(kernel \<Rightarrow> kernel option) list \<Rightarrow> u32 \<Rightarrow> u32 \<Rightarrow> u32 \<Rightarrow> kernel \<Rightarrow> (u32 \<times> kernel) option" where
  "sys_read world fd buf n k =
     (if fd \<noteq> 0 then Some (-1, k)
      else do {
        k \<leftarrow> (if KB_IsEmpty (keys k) then block_until (-2) (\<lambda>k. KB_IsEmpty (keys k)) world k else Some k);
        let (cs, kb) = take_line (unat n) (keys k);
        m \<leftarrow> get_mem k;
        m \<leftarrow> store_bytes m buf cs;
        Some (of_nat (length cs), put_mem m (put_keys kb k))
      })"

definition sys_getpid :: "kernel \<Rightarrow> u32 option" where
  "sys_getpid k = do {
     s \<leftarrow> get_sched k;
     Some (case GetActive s of Some i \<Rightarrow> p_pid (processes s ! i) | None \<Rightarrow> 0)
   }"

definition process_alive :: "nat \<Rightarrow> kernel \<Rightarrow> bool" where
  "process_alive i k \<longleftrightarrow> (case get_sched k of None \<Rightarrow> True | Some s \<Rightarrow> p_state (processes s ! i) \<noteq> PROCESS_DEAD)"

definition sys_waitpid :: "(kernel \<Rightarrow> kernel option) list \<Rightarrow> int \<Rightarrow> u32 \<Rightarrow> kernel \<Rightarrow> (u32 \<times> kernel) option" where
  "sys_waitpid world pid status_ptr k = do {
     s \<leftarrow> get_sched k;
     case FindProcess s pid of
       None \<Rightarrow> Some (-1, k)
     | Some target \<Rightarrow> do {
         k \<leftarrow> block_until pid (process_alive target) world k;
         s \<leftarrow> get_sched k;
         m \<leftarrow> get_mem k;
         m \<leftarrow> (if status_ptr \<noteq> 0 then store_bytes m status_ptr (put32 (word_of_int (p_exit_code (processes s ! target)))) else Some m);
         Some (word_of_int pid, put_mem m k)
       }
   }"

definition sys_set_raw_input :: "u32 \<Rightarrow> kernel \<Rightarrow> (u32 \<times> kernel) option" where
  "sys_set_raw_input enable k =
     (let g = k_gui k
      in case g_terminal g of
           None \<Rightarrow> Some (-1, k)
         | Some p \<Rightarrow>
             (case g_objects g p of
                Some (TerminalObj t ws) \<Rightarrow>
                  Some (0, k\<lparr>k_gui := g\<lparr>g_objects := (g_objects g)(p \<mapsto> TerminalObj (SetRawInputMode (enable \<noteq> 0) t) ws)\<rparr>\<rparr>)
              | _ \<Rightarrow> None))"

section \<open>File calls\<close>

definition put_fat32 :: "fat32 \<Rightarrow> kernel \<Rightarrow> kernel" where
  "put_fat32 fs k = k\<lparr>k_fat32 := Some fs\<rparr>"

text \<open>A path argument and the memory it is in.\<close>

definition path_arg :: "u32 \<Rightarrow> kernel \<Rightarrow> u8 list option" where
  "path_arg path k = Option.bind (get_mem k) (\<lambda>m. cstring m path)"

definition sys_open :: "u32 \<Rightarrow> u32 \<Rightarrow> kernel \<Rightarrow> (u32 \<times> kernel) option" where
  "sys_open path flags k =
     (case k_fat32 k of
        None \<Rightarrow> Some (-1, k)
      | Some fs \<Rightarrow>
          if \<not> user_pointer path then Some (-1, k)
          else if flags = 1
          then do { p \<leftarrow> path_arg path k; (ok, fs) \<leftarrow> CreateFile p fs; Some (3, put_fat32 fs k) }
          else Some (3, k))"

definition sys_unlink :: "u32 \<Rightarrow> kernel \<Rightarrow> (u32 \<times> kernel) option" where
  "sys_unlink path k =
     (case k_fat32 k of
        None \<Rightarrow> Some (-1, k)
      | Some fs \<Rightarrow>
          if \<not> user_pointer path then Some (-1, k)
          else do { p \<leftarrow> path_arg path k; (ok, fs) \<leftarrow> DeleteFile p fs; Some (if ok then 0 else -1, put_fat32 fs k) })"

definition sys_mkdir :: "u32 \<Rightarrow> kernel \<Rightarrow> (u32 \<times> kernel) option" where
  "sys_mkdir path k =
     (case k_fat32 k of
        None \<Rightarrow> Some (-1, k)
      | Some fs \<Rightarrow>
          if \<not> user_pointer path then Some (-1, k)
          else do { p \<leftarrow> path_arg path k; (ok, fs) \<leftarrow> MakeDir p fs; Some (if ok then 0 else -1, put_fat32 fs k) })"

definition sys_ls :: "u32 \<Rightarrow> kernel \<Rightarrow> (u32 \<times> kernel) option" where
  "sys_ls path k =
     (if \<not> user_pointer path then Some (1, k)
      else case k_fat32 k of
        None \<Rightarrow> map_option (\<lambda>k. (1, k)) (emit (ascii ''(no disk)'' @ [0x0A]) k)
      | Some fs \<Rightarrow> do {
          p \<leftarrow> path_arg path k;
          r \<leftarrow> ListDirectory fs p;
          case r of None \<Rightarrow> Some (1, k) | Some out \<Rightarrow> map_option (\<lambda>k. (0, k)) (fold_opt emit out k)
        })"

definition sys_isdir :: "u32 \<Rightarrow> kernel \<Rightarrow> u32 option" where
  "sys_isdir path k =
     (case k_fat32 k of
        None \<Rightarrow> Some 0
      | Some fs \<Rightarrow>
          if \<not> user_pointer path then Some 0
          else do { p \<leftarrow> path_arg path k; d \<leftarrow> IsDirectory fs p; Some (if d then 1 else 0) })"

text \<open>Reading a file into memory: \<open>None\<close> inside if there is no such file.\<close>

definition read_to :: "fat32 \<Rightarrow> u8 list \<Rightarrow> u32 \<Rightarrow> mem \<Rightarrow> (mem \<times> u32) option option" where
  "read_to fs path buf m = do {
     r \<leftarrow> ReadFile fs path (buffer_at m buf);
     case r of None \<Rightarrow> Some None
     | Some (b, sz) \<Rightarrow> do { m \<leftarrow> store_bytes m buf b; Some (Some (m, sz)) }
   }"

text \<open>The common part of copying and moving: through a buffer on the heap.\<close>

definition copy_file :: "fat32 \<Rightarrow> u32 \<Rightarrow> u32 \<Rightarrow> kernel \<Rightarrow> (bool \<times> kernel) option" where
  "copy_file fs src dst k = do {
     m \<leftarrow> get_mem k;
     (buf, m) \<leftarrow> operator_new (k_heap k) m 65536;
     if buf = 0 then Some (False, put_mem m k)
     else do {
       path \<leftarrow> cstring m src;
       r \<leftarrow> read_to fs path buf m;
       case r of
         None \<Rightarrow> Some (False, put_mem (operator_delete m buf) k)
       | Some (m, sz) \<Rightarrow> do {
           path \<leftarrow> cstring m dst;
           (ok, fs) \<leftarrow> WriteFile path (buffer_at m buf) sz fs;
           Some (ok, put_fat32 fs (put_mem (operator_delete m buf) k))
         }
     }
   }"

definition sys_cp :: "u32 \<Rightarrow> u32 \<Rightarrow> kernel \<Rightarrow> (u32 \<times> kernel) option" where
  "sys_cp src dst k =
     (case k_fat32 k of
        None \<Rightarrow> Some (-1, k)
      | Some fs \<Rightarrow>
          if \<not> user_pointer src then Some (-1, k)
          else if \<not> user_pointer dst then Some (-1, k)
          else do { (ok, k) \<leftarrow> copy_file fs src dst k; Some (if ok then 0 else -1, k) })"

definition sys_mv :: "u32 \<Rightarrow> u32 \<Rightarrow> kernel \<Rightarrow> (u32 \<times> kernel) option" where
  "sys_mv src dst k =
     (case k_fat32 k of
        None \<Rightarrow> Some (-1, k)
      | Some fs \<Rightarrow>
          if \<not> user_pointer src then Some (-1, k)
          else if \<not> user_pointer dst then Some (-1, k)
          else do {
            (ok, k) \<leftarrow> copy_file fs src dst k;
            if \<not> ok then Some (-1, k)
            else do {
              fs \<leftarrow> k_fat32 k;
              path \<leftarrow> path_arg src k;
              (ok, fs) \<leftarrow> DeleteFile path fs;
              Some (0, put_fat32 fs k)
            }
          })"

definition sys_writefile :: "u32 \<Rightarrow> u32 \<Rightarrow> u32 \<Rightarrow> kernel \<Rightarrow> (u32 \<times> kernel) option" where
  "sys_writefile path data len k =
     (case k_fat32 k of
        None \<Rightarrow> Some (-1, k)
      | Some fs \<Rightarrow>
          if \<not> IsRing3Range path 1 then Some (-1, k)
          else if \<not> IsRing3Range data len then Some (-1, k)
          else do {
            m \<leftarrow> get_mem k;
            p \<leftarrow> cstring m path;
            (ok, fs) \<leftarrow> WriteFile p (buffer_at m data) len fs;
            Some (if ok then 0 else -1, put_fat32 fs k)
          })"

text \<open>The copying loop, byte by byte: source and destination may overlap.\<close>

definition copy_mem :: "mem \<Rightarrow> u32 \<Rightarrow> u32 \<Rightarrow> nat \<Rightarrow> mem option" where
  "copy_mem m dst src n =
     (if n = 0 \<or> (unat dst + n \<le> MAPPED \<and> unat src + n \<le> MAPPED)
      then Some (fold (\<lambda>i m. m(dst + of_nat i := m (src + of_nat i))) [0..<n] m) else None)"

definition sys_readfile :: "u32 \<Rightarrow> u32 \<Rightarrow> u32 \<Rightarrow> kernel \<Rightarrow> (u32 \<times> kernel) option" where
  "sys_readfile path out max_len k =
     (case k_fat32 k of
        None \<Rightarrow> Some (-1, k)
      | Some fs \<Rightarrow>
          if max_len > 65536 then Some (-1, k)
          else if \<not> IsRing3Range path 1 then Some (-1, k)
          else if \<not> IsRing3Range out max_len then Some (-1, k)
          else do {
            m \<leftarrow> get_mem k;
            (tmp, m) \<leftarrow> operator_new (k_heap k) m 65536;
            if tmp = 0 then Some (-1, put_mem m k)
            else do {
              p \<leftarrow> cstring m path;
              r \<leftarrow> read_to fs p tmp m;
              case r of
                None \<Rightarrow> Some (-1, put_mem (operator_delete m tmp) k)
              | Some (m, sz) \<Rightarrow> do {
                  let n = (if sz > max_len then max_len else sz);
                  m \<leftarrow> copy_mem m out tmp (unat n);
                  Some (n, put_mem (operator_delete m tmp) k)
                }
            }
          })"

section \<open>Starting a program\<close>

text \<open>Sizes of the objects on the heap: a process has its kernel stack at offset 72; a page directory is a pointer and
  1024 pointers. The page directory itself is an object of the paging state, only its space is taken from the heap.\<close>

definition sizeof_Process :: u32 where "sizeof_Process = 4168"
definition offset_kernel_stack :: u32 where "offset_kernel_stack = 72"
definition sizeof_PageDirectory :: u32 where "sizeof_PageDirectory = 4100"

definition new_Process :: "u32 \<Rightarrow> u32 \<Rightarrow> kernel \<Rightarrow> (Process \<times> kernel) option" where
  "new_Process entry_point pid k = do {
     m \<leftarrow> get_mem k;
     (p, m) \<leftarrow> operator_new (k_heap k) m sizeof_Process;
     (d, m) \<leftarrow> operator_new (k_heap k) m sizeof_PageDirectory;
     s \<leftarrow> get_sched (put_mem m k);
     let (child, pg) = Process_new entry_point pid (p + offset_kernel_stack) (k_junk k) (s_paging s);
     Some (child, put_sched (s\<lparr>s_paging := pg\<rparr>) k)
   }"

definition sys_exec :: "u32 \<Rightarrow> kernel \<Rightarrow> (u32 \<times> kernel) option" where
  "sys_exec path k =
     (if path = 0 then Some (-1, k)
      else case k_fat32 k of
        None \<Rightarrow> Some (-1, k)
      | Some fs \<Rightarrow>
          if \<not> user_pointer path then Some (-1, k)
          else do {
            m \<leftarrow> get_mem k;
            p \<leftarrow> cstring m path;
            r \<leftarrow> read_to fs p 0x00400000 m;
            case r of
              None \<Rightarrow> Some (-1, k)
            | Some (m, sz) \<Rightarrow> do {
                let k = put_mem m k;
                s \<leftarrow> get_sched k;
                let new_pid = NextPID s;
                (child, k) \<leftarrow> new_Process 0x00400000 (word_of_int new_pid) k;
                s \<leftarrow> get_sched k;
                let child = (case GetActive s of
                    Some i \<Rightarrow> child\<lparr>p_parent_pid := sint (p_pid (processes s ! i))\<rparr> | None \<Rightarrow> child);
                Some (word_of_int new_pid, put_sched (AddProcess s child) k)
              }
          })"

section \<open>Network calls\<close>

definition shared_len :: "mem \<Rightarrow> u32" where
  "shared_len m = (let len = rd32 m NET_BUF_DATA_LEN_ADDR in if len > NET_BUF_MAX_DATA then NET_BUF_MAX_DATA else len)"

definition sys_net_send_udp :: "u32 \<Rightarrow> u16 \<Rightarrow> u16 \<Rightarrow> kernel \<Rightarrow> (u32 \<times> kernel) option" where
  "sys_net_send_udp dst_ip_packed dst_port src_port k =
     (if \<not> k_nic k then Some (-1, k)
      else do {
        m \<leftarrow> get_mem k;
        let len = shared_len m;
        if \<not> ValidateNetShared len then Some (-1, k)
        else do {
          data \<leftarrow> load_bytes m NET_BUF_DATA_ADDR (unat len);
          (ok, net) \<leftarrow> UDP_Send (PackedToIPv4 dst_ip_packed) dst_port src_port data len (k_net k);
          Some (if ok then 0 else -1, k\<lparr>k_net := net\<rparr>)
        }
      })"

text \<open>What a receive call reports in the shared page.\<close>

definition report :: "u32 \<Rightarrow> u32 \<Rightarrow> mem \<Rightarrow> mem" where
  "report stat len m = wr32 (wr32 m NET_BUF_DATA_LEN_ADDR len) NET_BUF_STATUS_ADDR stat"

definition waits_for :: "(sockets \<Rightarrow> bool) \<Rightarrow> u32 \<Rightarrow> u32 \<Rightarrow> kernel \<Rightarrow> bool" where
  "waits_for event start wait_ticks k \<longleftrightarrow> \<not> event (k_net k) \<and>
     (case get_sched k of None \<Rightarrow> False | Some s \<Rightarrow> \<not> TimedOut start wait_ticks s)"

text \<open>Delivery of a received buffer to the shared page.\<close>

definition deliver :: "bool \<Rightarrow> u8 list \<Rightarrow> u32 \<Rightarrow> mem \<Rightarrow> (u32 \<times> mem) option" where
  "deliver rx_ready buf len m =
     (if rx_ready
      then do {
        let n = (if len > NET_BUF_MAX_DATA then NET_BUF_MAX_DATA else len);
        data \<leftarrow> bytes_at buf 0 (unat n);
        m \<leftarrow> store_bytes m NET_BUF_DATA_ADDR data;
        Some (0, report 0 n m)
      }
      else Some (1, report 1 0 m))"

definition sys_net_recv_udp :: "(kernel \<Rightarrow> kernel option) list \<Rightarrow> u32 \<Rightarrow> kernel \<Rightarrow> (u32 \<times> kernel) option" where
  "sys_net_recv_udp world timeout_ms k =
     (if \<not> ValidateNetShared NET_BUF_MAX_DATA
      then do { m \<leftarrow> get_mem k; Some (1, put_mem (report 1 0 m) k) }
      else do {
        k \<leftarrow> (if \<not> udp_rx_ready (k_net k) \<and> timeout_ms \<noteq> 0
              then do {
                s \<leftarrow> get_sched k;
                block_until (-3) (waits_for udp_rx_ready (pit_ticks s) (ms_to_ticks timeout_ms)) world k
              }
              else Some k);
        m \<leftarrow> get_mem k;
        let net = k_net k;
        (r, m) \<leftarrow> deliver (udp_rx_ready net) (udp_rx_buf net) (udp_rx_len net) m;
        Some (r, put_mem m (if r = 0 then k\<lparr>k_net := net\<lparr>udp_rx_ready := False, udp_rx_len := 0\<rparr>\<rparr> else k))
      })"

definition sys_net_tcp_connect :: "(kernel \<Rightarrow> kernel option) list \<Rightarrow> u32 \<Rightarrow> u16 \<Rightarrow> kernel \<Rightarrow> (u32 \<times> kernel) option" where
  "sys_net_tcp_connect world dst_ip_packed dst_port k =
     (if \<not> k_nic k then Some (-1, k)
      else do {
        (ok, net) \<leftarrow> TCP_Connect (PackedToIPv4 dst_ip_packed) dst_port (k_net k);
        let k = k\<lparr>k_net := net\<rparr>;
        if \<not> ok then Some (-1, k)
        else do {
          s \<leftarrow> get_sched k;
          k \<leftarrow> block_until (-4) (waits_for (\<lambda>n. tcp_state n = TCP_ESTABLISHED) (pit_ticks s) (ms_to_ticks 5000)) world k;
          Some (if tcp_state (k_net k) = TCP_ESTABLISHED then 0 else -1, k)
        }
      })"

definition sys_net_tcp_send :: "kernel \<Rightarrow> (u32 \<times> kernel) option" where
  "sys_net_tcp_send k =
     (if \<not> k_nic k then Some (-1, k)
      else do {
        m \<leftarrow> get_mem k;
        let len = shared_len m;
        if \<not> ValidateNetShared len then Some (-1, k)
        else do {
          data \<leftarrow> load_bytes m NET_BUF_DATA_ADDR (unat len);
          (ok, net) \<leftarrow> TCP_Send data len (k_net k);
          Some (if ok then 0 else -1, k\<lparr>k_net := net\<rparr>)
        }
      })"

definition sys_net_tcp_recv :: "(kernel \<Rightarrow> kernel option) list \<Rightarrow> u32 \<Rightarrow> kernel \<Rightarrow> (u32 \<times> kernel) option" where
  "sys_net_tcp_recv world timeout_ms k =
     (if \<not> ValidateNetShared NET_BUF_MAX_DATA
      then do { m \<leftarrow> get_mem k; Some (1, put_mem (report 1 0 m) k) }
      else do {
        k \<leftarrow> (if \<not> sock_rx_ready (k_net k) \<and> timeout_ms \<noteq> 0
              then do {
                s \<leftarrow> get_sched k;
                block_until (-5) (waits_for sock_rx_ready (pit_ticks s) (ms_to_ticks timeout_ms)) world k
              }
              else Some k);
        m \<leftarrow> get_mem k;
        let net = k_net k;
        (r, m) \<leftarrow> deliver (sock_rx_ready net) (sock_rx_buf net) (sock_rx_len net) m;
        Some (r, put_mem m (if r = 0 then k\<lparr>k_net := net\<lparr>sock_rx_ready := False, sock_rx_len := 0\<rparr>\<rparr> else k))
      })"

definition sys_net_tcp_close :: "kernel \<Rightarrow> (u32 \<times> kernel) option" where
  "sys_net_tcp_close k =
     (if k_nic k then do { net \<leftarrow> TCP_Close (k_net k); Some (0, k\<lparr>k_net := net\<rparr>) } else Some (0, k))"

section \<open>Dispatch\<close>

record SyscallFrame =
  f_ss :: u32
  f_gs :: u32
  f_fs :: u32
  f_es :: u32
  f_ds :: u32
  f_edi :: u32
  f_esi :: u32
  f_ebp :: u32
  f_esp_ignored :: u32
  f_ebx :: u32
  f_edx :: u32
  f_ecx :: u32
  f_eax :: u32
  f_eip :: u32
  f_cs :: u32
  f_eflags :: u32
  f_user_esp :: u32
  f_user_ss :: u32

definition frame_at :: "mem \<Rightarrow> u32 \<Rightarrow> SyscallFrame" where
  "frame_at m esp =
     \<lparr>f_ss = rd32 m esp, f_gs = rd32 m (esp + 4), f_fs = rd32 m (esp + 8), f_es = rd32 m (esp + 12), f_ds = rd32 m (esp + 16),
      f_edi = rd32 m (esp + 20), f_esi = rd32 m (esp + 24), f_ebp = rd32 m (esp + 28), f_esp_ignored = rd32 m (esp + 32),
      f_ebx = rd32 m (esp + 36), f_edx = rd32 m (esp + 40), f_ecx = rd32 m (esp + 44), f_eax = rd32 m (esp + 48),
      f_eip = rd32 m (esp + 52), f_cs = rd32 m (esp + 56), f_eflags = rd32 m (esp + 60),
      f_user_esp = rd32 m (esp + 64), f_user_ss = rd32 m (esp + 68)\<rparr>"

text \<open>The process ends: its parent is woken and another process chosen.\<close>

definition sys_exit :: "u32 \<Rightarrow> u32 \<Rightarrow> kernel \<Rightarrow> (u32 \<times> kernel) option" where
  "sys_exit code esp k = do {
     s \<leftarrow> get_sched k;
     let s = (case GetActive s of
         None \<Rightarrow> s
       | Some i \<Rightarrow>
           let s = s\<lparr>processes := set_proc i (\<lambda>p. p\<lparr>p_exit_code := sint code, p_state := PROCESS_DEAD\<rparr>) (processes s)\<rparr>
           in WakeParent s (sint (p_pid (processes s ! i))));
     let (esp, s) = Schedule s esp;
     Some (esp, put_sched s k)
   }"

text \<open>A call by its number; \<open>None\<close> for call 88, which resets the machine.\<close>

definition run_call :: "(kernel \<Rightarrow> kernel option) list \<Rightarrow> SyscallFrame \<Rightarrow> kernel \<Rightarrow> (u32 \<times> kernel) option" where
  "run_call world f k =
     (let num = f_eax f; b = f_ebx f; c = f_ecx f; d = f_edx f
      in if num = 3 then sys_read world b c d k
         else if num = 4 then sys_write b c d k
         else if num = 5 then sys_open b c k
         else if num = 6 then sys_unlink b k
         else if num = 7 then sys_waitpid world (sint b) c k
         else if num = 11 then sys_exec b k
         else if num = 20 then map_option (\<lambda>r. (r, k)) (sys_getpid k)
         else if num = 39 then sys_mkdir b k
         else if num = 40 then sys_ls b k
         else if num = 41 then map_option (\<lambda>r. (r, k)) (sys_isdir b k)
         else if num = 50 then sys_net_send_udp b (ucast c) (ucast d) k
         else if num = 51 then sys_net_recv_udp world b k
         else if num = 52 then sys_net_tcp_connect world b (ucast c) k
         else if num = 53 then sys_net_tcp_send k
         else if num = 54 then sys_net_tcp_recv world b k
         else if num = 55 then sys_net_tcp_close k
         else if num = 90 then sys_cp b c k
         else if num = 91 then sys_mv b c k
         else if num = 92 then sys_writefile b c d k
         else if num = 93 then sys_readfile b c d k
         else if num = 94 then sys_set_raw_input b k
         else if num = 88 then None
         else Some (-1, k))"

text \<open>The result goes into the saved \<^verbatim>\<open>eax\<close> of the caller.\<close>

definition SyscallDispatch :: "(kernel \<Rightarrow> kernel option) list \<Rightarrow> u32 \<Rightarrow> kernel \<Rightarrow> (u32 \<times> kernel) option" where
  "SyscallDispatch world esp k = do {
     m \<leftarrow> get_mem k;
     let f = frame_at m esp;
     if f_eax f = 1 then sys_exit (f_ebx f) esp k
     else do {
       (r, k) \<leftarrow> run_call world f k;
       m \<leftarrow> get_mem k;
       Some (esp, put_mem (wr32 m (esp + 48) r) k)
     }
   }"

section \<open>Accessing the state\<close>

lemma get_put_sched [simp]: "get_sched (put_sched s k) = Some s"
  by (simp add: get_sched_def put_sched_def)

lemma put_sched_twice [simp]: "put_sched s (put_sched s' k) = put_sched s k"
  by (simp add: put_sched_def)

lemma put_sched_fields [simp]:
  "k_heap (put_sched s k) = k_heap k" "k_fat32 (put_sched s k) = k_fat32 k" "k_nic (put_sched s k) = k_nic k"
  "k_net (put_sched s k) = k_net k" "k_keyboard (put_sched s k) = k_keyboard k" "k_junk (put_sched s k) = k_junk k"
  "g_objects (k_gui (put_sched s k)) = g_objects (k_gui k)" "g_terminal (k_gui (put_sched s k)) = g_terminal (k_gui k)"
  "g_desktop (k_gui (put_sched s k)) = g_desktop (k_gui k)" "keys (put_sched s k) = keys k"
  by (simp_all add: put_sched_def keys_def)

lemma get_sched_put_mem: "get_sched (put_mem m k) = map_option (sched_mem m) (get_sched k)"
  by (simp add: put_mem_def split: option.split)

lemma get_put_mem [simp]: "get_sched k \<noteq> None \<Longrightarrow> get_mem (put_mem m k) = Some m"
  by (auto simp: get_mem_def get_sched_put_mem sched_mem_def)

lemma get_mem_sched: "get_mem k = Some m \<Longrightarrow> get_sched k \<noteq> None"
  by (auto simp: get_mem_def)

lemma get_mem_put_sched: "get_mem (put_sched s k) = Some (pm_mem (pg_phys (s_paging s)))"
  by (simp add: get_mem_def)

lemma get_mem_Some: "get_sched k = Some s \<Longrightarrow> get_mem k = Some (pm_mem (pg_phys (s_paging s)))"
  by (simp add: get_mem_def)

lemma put_mem_fields [simp]:
  "k_heap (put_mem m k) = k_heap k" "k_fat32 (put_mem m k) = k_fat32 k" "k_nic (put_mem m k) = k_nic k"
  "k_net (put_mem m k) = k_net k" "k_keyboard (put_mem m k) = k_keyboard k" "k_junk (put_mem m k) = k_junk k"
  "g_objects (k_gui (put_mem m k)) = g_objects (k_gui k)" "g_terminal (k_gui (put_mem m k)) = g_terminal (k_gui k)"
  "g_desktop (k_gui (put_mem m k)) = g_desktop (k_gui k)" "keys (put_mem m k) = keys k"
  by (simp_all add: put_mem_def split: option.split)

lemma put_mem_twice [simp]: "put_mem m (put_mem m' k) = put_mem m k"
  by (simp add: put_mem_def sched_mem_def split: option.split)

lemma put_keys_fields [simp]:
  "get_sched (put_keys kb k) = get_sched k" "get_mem (put_keys kb k) = get_mem k" "keys (put_keys kb k) = kb"
  by (simp_all add: put_keys_def get_mem_def get_sched_def keys_def)

lemma put_fat32_fields [simp]:
  "get_sched (put_fat32 fs k) = get_sched k" "get_mem (put_fat32 fs k) = get_mem k" "k_fat32 (put_fat32 fs k) = Some fs"
  "k_heap (put_fat32 fs k) = k_heap k"
  by (simp_all add: put_fat32_def get_mem_def get_sched_def)

section \<open>Range checks\<close>

lemma unat_u32_wrap:
  assumes "\<not> unat (a :: u32) + unat b < 4294967296"
  shows "unat (a + b) = unat a + unat b - 4294967296" "unat (a + b) < unat a"
proof -
  have lt: "unat a < 4294967296" "unat b < 4294967296" using unsigned_less [of a] unsigned_less [of b] by simp_all
  have "unat (a + b) = (unat a + unat b) mod 4294967296" by (simp add: unat_word_ariths)
  also have "\<dots> = (unat a + unat b - 4294967296) mod 4294967296" using assms by (intro le_mod_geq) simp
  also have "\<dots> = unat a + unat b - 4294967296" using lt by (intro mod_less) linarith
  finally show e: "unat (a + b) = unat a + unat b - 4294967296" .
  show "unat (a + b) < unat a" using e lt assms by linarith
qed

lemma ring3_range_iff:
  "IsRing3Range addr len \<longleftrightarrow> len = 0 \<or> 0x400000 \<le> unat addr \<and> unat addr + unat len \<le> 0xD00000"
proof (cases "unat addr + unat len < 4294967296")
  case True
  then have s: "unat (addr + len) = unat addr + unat len" by (simp add: unat_u32_plus)
  then have "\<not> addr + len < addr" by (simp add: word_less_nat_alt)
  then have "IsRing3Range addr len \<longleftrightarrow> len = 0 \<or> 0x600000 \<le> unat addr \<and> unat addr + unat len \<le> 0x601000 \<or>
      0x400000 \<le> unat addr \<and> unat addr + unat len \<le> 0xD00000"
    unfolding IsRing3Range_def Let_def word_le_nat_alt s by (simp add: NET_SHARED_BASE_ADDR_def) blast
  then show ?thesis by auto
next
  case False
  then have "len \<noteq> 0" using unsigned_less [of addr] by auto
  moreover have "addr + len < addr" using unat_u32_wrap(2) [OF False] by (simp add: word_less_nat_alt)
  ultimately show ?thesis using False by (simp add: IsRing3Range_def)
qed

text \<open>The range check of the system calls is exact. It accepts a range if and only if it is empty or lies between
  \<open>0x400000\<close> and \<open>0xD00000\<close>, computed without wrapping around; the separate test for the shared page
  accepts nothing more. So the shared page is always accepted, with at most 4088 bytes of data.\<close>

theorem IsRing3Range_exact:
  "(IsRing3Range addr len \<longleftrightarrow> len = 0 \<or> 0x400000 \<le> unat addr \<and> unat addr + unat len \<le> 0xD00000) \<and>
   (ValidateNetShared len \<longleftrightarrow> unat len \<le> 4088)"
proof -
  have "IsRing3Range NET_BUF_STATUS_ADDR 4" "IsRing3Range NET_BUF_DATA_LEN_ADDR 4"
    by (simp_all add: ring3_range_iff NET_BUF_STATUS_ADDR_def NET_BUF_DATA_LEN_ADDR_def NET_SHARED_BASE_ADDR_def)
  moreover have "IsRing3Range NET_BUF_DATA_ADDR len" if "unat len \<le> 4088"
    using that by (simp add: ring3_range_iff NET_BUF_DATA_ADDR_def NET_SHARED_BASE_ADDR_def)
  ultimately have "ValidateNetShared len \<longleftrightarrow> unat len \<le> 4088"
    by (auto simp: ValidateNetShared_def NET_BUF_MAX_DATA_def word_less_nat_alt)
  then show ?thesis using ring3_range_iff by blast
qed

lemma ValidateNetShared_all: "ValidateNetShared NET_BUF_MAX_DATA"
  by (simp add: ValidateNetShared_def ring3_range_iff NET_BUF_STATUS_ADDR_def NET_BUF_DATA_LEN_ADDR_def
      NET_BUF_DATA_ADDR_def NET_SHARED_BASE_ADDR_def NET_BUF_MAX_DATA_def)

section \<open>Writing to the terminal\<close>

text \<open>The active terminal of the kernel.\<close>

definition active_terminal :: "kernel \<Rightarrow> Terminal \<Rightarrow> bool" where
  "active_terminal k t \<longleftrightarrow> (\<exists>p ws. g_terminal (k_gui k) = Some p \<and> g_objects (k_gui k) p = Some (TerminalObj t ws))"

lemma emit_shows:
  assumes "active_terminal k t" and "displays t rows" and "term_ok t" and "at_origin t" and "0x08 \<notin> set str"
  shows "\<exists>k' t'. emit str k = Some k' \<and> active_terminal k' t' \<and> displays t' (foldl print_on rows str) \<and> term_ok t' \<and> at_origin t' \<and>
    get_sched k' = get_sched k \<and> keys k' = keys k"
proof -
  obtain p ws where p: "g_terminal (k_gui k) = Some p" "g_objects (k_gui k) p = Some (TerminalObj t ws)"
    using assms(1) by (auto simp: active_terminal_def)
  obtain t' where t': "fold_opt Terminal_PutChar str t = Some t'" "term_ok t'" "same_input t t'" "displays t' (foldl print_on rows str)"
    using Terminal_puts_shows [OF assms(2,3,5)] by blast
  have o: "at_origin t'" using assms(4) t'(3) by (simp add: at_origin_def same_input_def)
  then obtain w where "Terminal_Draw t' (con_vga (g_console (k_gui k))) = Some w" using Terminal_Draw_painted [OF _ t'(2)] by blast
  then show ?thesis using p t' o
    by (auto simp: emit_def Let_def SetShellOutput_def active_terminal_def get_sched_def keys_def)
qed

lemma load_bytes_ok: "unat a + n \<le> MAPPED \<Longrightarrow> load_bytes m a n = Some (map (\<lambda>i. m (a + of_nat i)) [0..<n])"
  by (simp add: load_bytes_def)


text \<open>C31: The range check of the write call wraps around. For an address in or above the user area and a length that
  carries the sum past the end of the address space, the check accepts the range if the wrapped sum is small, and
  the copy runs into unmapped memory: the call does not return.\<close>

theorem sys_write_wraps:
  assumes "fd = 1 \<or> fd = 2" and "0x400000 \<le> unat addr" and "4294967296 \<le> unat addr + unat n"
    and "unat addr + unat n \<le> 4294967296 + 0xD00000"
  shows "sys_write fd addr n k = None"
proof -
  have "unat (addr + n) = unat addr + unat n - 4294967296" using unat_u32_wrap(1) assms(3) by simp
  then have "\<not> (addr < 0x400000 \<or> addr + n > 0xD00000)" using assms(2,4) by (simp add: word_less_nat_alt)
  moreover have "load_bytes m addr (unat n) = None" for m
  proof -
    have "unat addr < 4294967296" using unsigned_less [of addr] by simp
    then have "unat n \<noteq> 0" using assms(3) by linarith
    then show ?thesis using assms(3) by (simp add: load_bytes_def MAPPED_def)
  qed
  ultimately show ?thesis using assms(1) by (cases "get_mem k") (auto simp: sys_write_def)
qed

text \<open>A kernel with one process, the terminal on an empty screen, a formatted disk and the network.\<close>

definition demo_kernel :: "mem \<Rightarrow> kernel" where
  "demo_kernel m =
     \<lparr>k_heap = \<lparr>first_chunk = 0x200000\<rparr>,
      k_gui = demo_gui\<lparr>g_console := idle_console\<lparr>con_sched := Some (sched_mem m
        (demo_sched PROCESS_RUNNING)\<lparr>processes := [demo_proc 1 PROCESS_RUNNING 0x1111]\<rparr>)\<rparr>\<rparr>,
      k_keyboard = KeyboardDriver_new, k_mouse = \<lparr>m_buffer = [0, 0, 0], m_offset = 0\<rparr>, k_fat32 = Some formatted, k_nic = True,
      k_net = example_sockets [0x52, 0x54, 0, 0x12, 0x34, 0x56] [10, 0, 2, 15], k_junk = demo_cpu\<rparr>"

lemma demo_kernel_sched:
  "get_sched (demo_kernel m) = Some (sched_mem m (demo_sched PROCESS_RUNNING)\<lparr>processes := [demo_proc 1 PROCESS_RUNNING 0x1111]\<rparr>)"
  "get_mem (demo_kernel m) = Some m"
  by (simp_all add: demo_kernel_def get_mem_def get_sched_def sched_mem_def)

lemma demo_kernel_terminal:
  "active_terminal (demo_kernel m) (Terminal_new 0 0 320 200)" "at_origin (Terminal_new 0 0 320 200)"
  "keys (demo_kernel m) = empty_keys"
  by (simp_all add: demo_kernel_def active_terminal_def demo_gui_def at_origin_def Terminal_new_def keys_def idle_console_def)


theorem sys_write_wraps_witness: "sys_write 2 0x400000 0xFFFFFFFF (demo_kernel (\<lambda>_. 0x41)) = None"
  by (rule sys_write_wraps) simp_all

section \<open>Reading a line\<close>

lemma take_line_contents:
  "kb_inv kb \<Longrightarrow> kb_contents kb = line @ 0x0A # rest \<Longrightarrow> 0x0A \<notin> set line \<Longrightarrow> length line < n \<Longrightarrow>
   \<exists>kb'. take_line n kb = (line @ [0x0A], kb') \<and> kb_inv kb' \<and> kb_contents kb' = rest"
proof (induction line arbitrary: kb n)
  case Nil
  obtain n' where n: "n = Suc n'" using Nil.prems(4) by (cases n) auto
  obtain kb' where "Dequeue kb = Some (0x0A, kb')" "kb_inv kb'" "kb_contents kb' = rest"
    using kbd.deq_Cons [OF Nil.prems(1)] Nil.prems(2) by fastforce
  then show ?case by (simp add: n)
next
  case (Cons c line)
  obtain n' where n: "n = Suc n'" using Cons.prems(4) by (cases n) auto
  obtain kb1 where d: "Dequeue kb = Some (c, kb1)" "kb_inv kb1" "kb_contents kb1 = line @ 0x0A # rest"
    using kbd.deq_Cons [OF Cons.prems(1)] Cons.prems(2) by fastforce
  obtain kb' where "take_line n' kb1 = (line @ [0x0A], kb')" "kb_inv kb'" "kb_contents kb' = rest"
    using Cons.IH [OF d(2,3)] Cons.prems(3,4) n by auto
  then show ?case using d(1) Cons.prems(3) by (simp add: n)
qed

lemma KB_IsEmpty_contents: "kb_inv kb \<Longrightarrow> KB_IsEmpty kb \<longleftrightarrow> kb_contents kb = []"
proof -
  assume i: "kb_inv kb"
  have "KB_IsEmpty kb \<longleftrightarrow> Dequeue kb = None" by (simp add: KB_IsEmpty_def Dequeue_def)
  then show ?thesis using kbd.deq_empty [OF i] kbd.deq_Cons [OF i] by (cases "kb_contents kb") auto
qed

lemma store_bytes_ok:
  assumes "unat a + length bs \<le> MAPPED"
  shows "\<exists>m'. store_bytes m a bs = Some m' \<and> (\<forall>i < length bs. m' (a + of_nat i) = bs ! i) \<and>
    (\<forall>x. \<not> (unat a \<le> unat x \<and> unat x < unat a + length bs) \<longrightarrow> m' x = m x)"
proof -
  have "unat (a + of_nat i) = unat a + i" if "i < length bs" for i
    using unat_u32_offset [of a "length bs" i] assms that by (simp add: MAPPED_def)
  then show ?thesis using assms by (simp add: store_bytes_def)
qed

text \<open>The interrupt of the keyboard.\<close>

definition key_step :: "u8 \<Rightarrow> kernel \<Rightarrow> kernel option" where
  "key_step sc k = map_option (\<lambda>(d, g). k\<lparr>k_keyboard := d, k_gui := g\<rparr>) (KeyboardDriver_HandleInterrupt sc (k_keyboard k, k_gui k))"

lemma edit_no_newline: "0x0A \<notin> set cs \<Longrightarrow> snd (foldl edit (line, []) cs) = []"
proof (induction cs arbitrary: line)
  case (Cons c cs)
  have "snd (edit (line, []) c) = []" using Cons.prems by simp
  then have "foldl edit (line, []) (c # cs) = foldl edit (fst (edit (line, []) c), []) cs" by (metis foldl_Cons prod.collapse)
  then show ?case using Cons.IH Cons.prems by (simp del: edit.simps)
qed simp

lemma wake_same:
  assumes "sch' = Some s \<or> sch' = WakeWaiters (Some s)"
  obtains ps where "sch' = Some (s\<lparr>processes := ps\<rparr>)" "length ps = length (processes s)"
proof (rule that)
  show "sch' = Some (s\<lparr>processes := processes (the sch')\<rparr>)" "length (processes (the sch')) = length (processes s)"
    using assms by (auto simp: WakeWaiters_def WakeParent_def)
qed

lemma key_step_terminal:
  assumes top: "terminal_on_top (k_gui k) p t" and ok: "term_ok t" "at_origin t" "\<not> raw_input_mode t"
    and fit: "lines_fit (typed t) (key_chars (k_keyboard k) [sc])" and s: "get_sched k = Some s"
  shows "\<exists>k' t' ps. key_step sc k = Some k' \<and> terminal_on_top (k_gui k') p t' \<and> term_ok t' \<and> at_origin t' \<and> \<not> raw_input_mode t' \<and>
    typed t' = fst (foldl edit (typed t, []) (key_chars (k_keyboard k) [sc])) \<and> k_keyboard k' = next_mods sc (k_keyboard k) \<and>
    keys k' = foldl Enqueue (keys k) (snd (foldl edit (typed t, []) (key_chars (k_keyboard k) [sc]))) \<and>
    get_sched k' = Some (s\<lparr>processes := ps\<rparr>) \<and> length ps = length (processes s)"
proof -
  obtain g' t' where g: "KeyboardDriver_HandleInterrupt sc (k_keyboard k, k_gui k) = Some (next_mods sc (k_keyboard k), g')"
    "terminal_on_top g' p t'" "term_ok t'" "at_origin t'" "\<not> raw_input_mode t'"
    "typed t' = fst (foldl edit (typed t, []) (key_chars (k_keyboard k) [sc]))"
    "con_keys (g_console g') = foldl Enqueue (con_keys (g_console (k_gui k))) (snd (foldl edit (typed t, []) (key_chars (k_keyboard k) [sc])))"
    and w: "con_sched (g_console g') = Some s \<or> con_sched (g_console g') = WakeWaiters (Some s)"
    using key_to_terminal [OF top ok fit] s by (auto simp: get_sched_def)
  obtain ps where "con_sched (g_console g') = Some (s\<lparr>processes := ps\<rparr>)" "length ps = length (processes s)" by (rule wake_same [OF w])
  then show ?thesis using g by (auto simp: key_step_def get_sched_def keys_def)
qed

text \<open>While nothing but characters of a line come in, the ring stays empty; the newline ends the wait.\<close>

lemma wait_for_line:
  "terminal_on_top (k_gui k) p t \<Longrightarrow> term_ok t \<Longrightarrow> at_origin t \<Longrightarrow> \<not> raw_input_mode t \<Longrightarrow>
   kb_inv (keys k) \<Longrightarrow> kb_contents (keys k) = [] \<Longrightarrow> get_sched k = Some s \<Longrightarrow>
   key_chars (k_keyboard k) (scs @ [sc]) = cs @ [0x0A] \<Longrightarrow> key_chars (k_keyboard k) scs = cs \<Longrightarrow> 0x0A \<notin> set cs \<Longrightarrow>
   lines_fit (typed t) (cs @ [0x0A]) \<Longrightarrow>
   \<exists>k' ps. wait_while (\<lambda>k. KB_IsEmpty (keys k)) (map key_step (scs @ [sc])) k = Some k' \<and> kb_inv (keys k') \<and>
     kb_contents (keys k') = fst (foldl edit (typed t, []) cs) @ [0x0A] \<and>
     get_sched k' = Some (s\<lparr>processes := ps\<rparr>) \<and> length ps = length (processes s)"
proof (induction scs arbitrary: k t s cs)
  case Nil
  have c: "key_chars (k_keyboard k) [sc] = [0x0A]" "cs = []" using Nil.prems(8,9) by simp_all
  have e: "KB_IsEmpty (keys k)" using KB_IsEmpty_contents [OF Nil.prems(5)] Nil.prems(6) by simp
  have fit: "lines_fit (typed t) (key_chars (k_keyboard k) [sc])" unfolding c using Nil.prems(11) c(2) by simp
  obtain k' ps where k': "key_step sc k = Some k'"
    "keys k' = foldl Enqueue (keys k) (snd (foldl edit (typed t, []) (key_chars (k_keyboard k) [sc])))"
    "get_sched k' = Some (s\<lparr>processes := ps\<rparr>)" "length ps = length (processes s)"
    using key_step_terminal [OF Nil.prems(1-4) fit Nil.prems(7)] by blast
  have "length (typed t) < 255" using fit c typed_length [OF Nil.prems(2)] Nil.prems(2) by (auto simp: term_ok_def)
  then have q: "kb_inv (keys k')" "kb_contents (keys k') = typed t @ [0x0A]"
    using kbd.enq_list [OF Nil.prems(5), of "typed t @ [0x0A]"] Nil.prems(6) k'(2) unfolding c by auto
  then have "\<not> KB_IsEmpty (keys k')" using KB_IsEmpty_contents by simp
  then show ?case using k' q e c by auto
next
  case (Cons sc1 scs)
  let ?c1 = "key_chars (k_keyboard k) [sc1]" and ?d = "next_mods sc1 (k_keyboard k)"
  define cs' where "cs' = key_chars ?d scs"
  have cs: "cs = ?c1 @ cs'" using Cons.prems(9) unfolding key_chars_Cons [of _ sc1 scs] cs'_def by simp
  have rest: "key_chars ?d (scs @ [sc]) = cs' @ [0x0A]"
    using Cons.prems(8) cs unfolding append_Cons key_chars_Cons [of _ sc1 "scs @ [sc]"] by simp
  have fit: "lines_fit (typed t) ?c1" "lines_fit (fst (foldl edit (typed t, []) ?c1)) (cs' @ [0x0A])"
    using Cons.prems(11) unfolding cs append_assoc lines_fit_append [of _ ?c1] by simp_all
  have n: "0x0A \<notin> set ?c1" "0x0A \<notin> set cs'" using Cons.prems(10) cs by (simp_all del: key_chars.simps)
  obtain k1 t1 ps where k1: "key_step sc1 k = Some k1" "terminal_on_top (k_gui k1) p t1" "term_ok t1" "at_origin t1" "\<not> raw_input_mode t1"
    "typed t1 = fst (foldl edit (typed t, []) ?c1)" "k_keyboard k1 = ?d"
    "keys k1 = foldl Enqueue (keys k) (snd (foldl edit (typed t, []) ?c1))"
    "get_sched k1 = Some (s\<lparr>processes := ps\<rparr>)" "length ps = length (processes s)"
    using key_step_terminal [OF Cons.prems(1-4) fit(1) Cons.prems(7)] by blast
  have same: "keys k1 = keys k" using k1(8) edit_no_newline [OF n(1)] by simp
  have e: "KB_IsEmpty (keys k)" using KB_IsEmpty_contents [OF Cons.prems(5)] Cons.prems(6) by simp
  have "foldl edit (typed t, []) cs = foldl edit (typed t1, []) cs'"
    unfolding cs foldl_append k1(6) using edit_no_newline [OF n(1), of "typed t"] by (metis prod.collapse)
  moreover obtain k' ps' where "wait_while (\<lambda>k. KB_IsEmpty (keys k)) (map key_step (scs @ [sc])) k1 = Some k'" "kb_inv (keys k')"
     "kb_contents (keys k') = fst (foldl edit (typed t1, []) cs') @ [0x0A]"
     "get_sched k' = Some (s\<lparr>processes := ps, processes := ps'\<rparr>)" "length ps' = length ps"
    using Cons.IH [OF k1(2-5) _ _ k1(9), of cs'] Cons.prems(5,6) same rest k1(6,7) fit(2) n(2) cs'_def by auto
  ultimately show ?case using k1(1,10) e by auto
qed

lemma terminal_on_top_put_sched [simp]: "terminal_on_top (k_gui (put_sched s k)) p t = terminal_on_top (k_gui k) p t"
  by (simp add: terminal_on_top_def put_sched_def)

lemma set_process_Some:
  "set_process (Some i) st w s = s\<lparr>processes := set_proc i (\<lambda>q. q\<lparr>p_state := st, p_wait_pid := w\<rparr>) (processes s)\<rparr>"
  by (simp add: set_process_def)

text \<open>C29: A process that reads waits for a line and gets it as it was edited. Let the ring be empty and the terminal be
  the top window with nothing typed yet. The caller is blocked; scan codes come in, none of which completes a
  line before the last; the call then returns the length of the line with its newline, the caller's buffer
  holds the line as an ideal editor leaves it, no other byte of memory has changed, the ring is empty again and the
  caller is running.\<close>

theorem typed_line_is_read:
  assumes top: "terminal_on_top (k_gui k) p t" "term_ok t" "at_origin t" "\<not> raw_input_mode t" "typed t = []"
    and kb: "kb_inv (keys k)" "kb_contents (keys k) = []"
    and s: "get_sched k = Some s" "GetActive s = Some i" "i < length (processes s)" and m: "get_mem k = Some m"
    and cs: "key_chars (k_keyboard k) scs = cs" "key_chars (k_keyboard k) (scs @ [sc]) = cs @ [0x0A]" "0x0A \<notin> set cs"
      "lines_fit [] (cs @ [0x0A])"
    and line: "line = fst (foldl edit ([], []) cs) @ [0x0A]"
    and n: "length line \<le> unat n" "unat buf + length line \<le> MAPPED"
  shows "\<exists>k' m' s'. sys_read (map key_step (scs @ [sc])) 0 buf n k = Some (of_nat (length line), k') \<and> get_mem k' = Some m' \<and>
    (\<forall>j < length line. m' (buf + of_nat j) = line ! j) \<and>
    (\<forall>x. \<not> (unat buf \<le> unat x \<and> unat x < unat buf + length line) \<longrightarrow> m' x = m x) \<and>
    kb_contents (keys k') = [] \<and> get_sched k' = Some s' \<and> p_state (processes s' ! i) = PROCESS_RUNNING"
proof -
  let ?s0 = "set_process (Some i) PROCESS_BLOCKED (-2) s"
  let ?k0 = "put_sched ?s0 k"
  have e: "KB_IsEmpty (keys k)" using KB_IsEmpty_contents [OF kb(1)] kb(2) by simp
  have fit: "lines_fit (typed t) (cs @ [0x0A])" using cs(4) top(5) by simp
  obtain k1 ps where k1: "wait_while (\<lambda>k. KB_IsEmpty (keys k)) (map key_step (scs @ [sc])) ?k0 = Some k1" "kb_inv (keys k1)"
    "kb_contents (keys k1) = line" "get_sched k1 = Some (?s0\<lparr>processes := ps\<rparr>)" "length ps = length (processes ?s0)"
    using wait_for_line [OF _ top(2-4), of ?k0 p ?s0 scs sc cs] top(1,5) kb cs fit line by auto
  have lp: "length ps = length (processes s)" using k1(5) by (simp add: set_process_def)
  let ?s1 = "set_process (Some i) PROCESS_RUNNING (-1) (?s0\<lparr>processes := ps\<rparr>)"
  have b: "block_until (-2) (\<lambda>k. KB_IsEmpty (keys k)) (map key_step (scs @ [sc])) k = Some (put_sched ?s1 k1)"
    using s k1(1,4) by (simp add: block_until_def Let_def)
  have nn: "0x0A \<notin> set (butlast line)"
  proof -
    have "0x0A \<notin> set l \<Longrightarrow> 0x0A \<notin> set (fst (foldl edit (l, []) cs))" for l using cs(3)
    proof (induction cs arbitrary: l)
      case (Cons c cs)
      have a: "edit (l, []) c = (fst (edit (l, []) c), [])" "0x0A \<notin> set (fst (edit (l, []) c))" using Cons.prems by (auto dest: in_set_butlastD)
      then have "foldl edit (l, []) (c # cs) = foldl edit (fst (edit (l, []) c), []) cs" by (metis foldl_Cons)
      then show ?case using Cons.IH [OF a(2)] Cons.prems(2) by (simp del: edit.simps)
    qed simp
    then show ?thesis using line by simp
  qed
  have bl: "line = butlast line @ [0x0A]" using line by simp
  then have "length (butlast line) < unat n" using n(1) by (metis Suc_le_eq length_append_singleton)
  then obtain kb' where tl: "take_line (unat n) (keys k1) = (line, kb')" "kb_contents kb' = []"
    using take_line_contents [OF k1(2), of "butlast line" "[]" "unat n"] k1(3) bl nn by auto
  have pg: "s_paging ?s1 = s_paging s" by (simp add: set_process_def)
  then have m1: "get_mem (put_sched ?s1 k1) = Some m" using m s(1) by (simp add: get_mem_def)
  obtain m' where m': "store_bytes m buf line = Some m'" "\<forall>j < length line. m' (buf + of_nat j) = line ! j"
    "\<forall>x. \<not> (unat buf \<le> unat x \<and> unat x < unat buf + length line) \<longrightarrow> m' x = m x"
    using store_bytes_ok [OF n(2)] by blast
  let ?k' = "put_mem m' (put_keys kb' (put_sched ?s1 k1))"
  have "sys_read (map key_step (scs @ [sc])) 0 buf n k = Some (of_nat (length line), ?k')"
    unfolding sys_read_def using e b tl(1) m1 m'(1) by simp
  moreover have "get_mem ?k' = Some m'" by simp
  moreover have "get_sched ?k' = Some (sched_mem m' ?s1)" by (simp add: get_sched_put_mem)
  moreover have "p_state (processes (sched_mem m' ?s1) ! i) = PROCESS_RUNNING" using s(3) lp by (simp add: sched_mem_def set_process_def)
  ultimately show ?thesis using m'(2,3) tl(2) by auto
qed

theorem typed_line_is_read_witness:
  "\<exists>k' m'. sys_read (map key_step ([0x2A, 0x23, 0xAA, 0x17] @ [0x1C])) 0 0x400100 80 (demo_kernel (\<lambda>_. 0)) = Some (of_nat 3, k') \<and>
    get_mem k' = Some m' \<and> m' 0x400100 = 0x48"
proof -
  let ?t = "Terminal_new 0 0 320 200" and ?k = "demo_kernel (\<lambda>_. 0)"
  have t: "\<not> raw_input_mode ?t" "typed ?t = []" by (simp_all add: Terminal_new_def typed_def)
  have top: "terminal_on_top (k_gui ?k) 7 ?t"
    by (simp add: terminal_on_top_def demo_kernel_def demo_gui_def idle_console_def blank_screen_def AddWindow_def Desktop_new_def)
  have d: "k_keyboard ?k = KeyboardDriver_new" by (simp add: demo_kernel_def)
  have c: "key_chars KeyboardDriver_new [0x2A, 0x23, 0xAA, 0x17] = [0x48, 0x69]"
    "key_chars KeyboardDriver_new ([0x2A, 0x23, 0xAA, 0x17] @ [0x1C]) = [0x48, 0x69] @ [0x0A]"
    by (simp_all add: key_char_def next_mods_def KeyboardDriver_new_def normal_table_def shifted_table_def)
  have kb: "kb_inv (keys ?k)" "kb_contents (keys ?k) = []" using demo_kernel_terminal(3) empty_keys by simp_all
  have s: "GetActive (sched_mem (\<lambda>_. 0) (demo_sched PROCESS_RUNNING)\<lparr>processes := [demo_proc 1 PROCESS_RUNNING 0x1111]\<rparr>) = Some 0"
    by (simp add: GetActive_def sched_mem_def demo_sched_def)
  have il: "0 < length (processes (sched_mem (\<lambda>_. 0) (demo_sched PROCESS_RUNNING)\<lparr>processes := [demo_proc 1 PROCESS_RUNNING 0x1111]\<rparr>))"
    by (simp add: sched_mem_def)
  have l: "[0x48, 0x69, 0x0A] = fst (foldl edit ([], []) [0x48, 0x69]) @ [0x0A]" "lines_fit [] ([0x48, 0x69] @ [0x0A])"
    "0x0A \<notin> set [0x48, 0x69 :: u8]" by simp_all
  have n: "length [0x48, 0x69, 0x0A :: u8] \<le> unat (80 :: u32)" "unat (0x400100 :: u32) + length [0x48, 0x69, 0x0A :: u8] \<le> MAPPED"
    by (simp_all add: MAPPED_def)
  note r = typed_line_is_read [OF top Terminal_new_ok demo_kernel_terminal(2) t kb demo_kernel_sched(1) s il demo_kernel_sched(2)
      c [folded d] l(3,2,1) n]
  then obtain k' m' where r: "sys_read (map key_step ([0x2A, 0x23, 0xAA, 0x17] @ [0x1C])) 0 0x400100 80 ?k =
      Some (of_nat (length [0x48, 0x69, 0x0A :: u8]), k')"
    "get_mem k' = Some m'" "\<forall>j < length [0x48, 0x69, 0x0A :: u8]. m' (0x400100 + of_nat j) = [0x48, 0x69, 0x0A] ! j"
    by blast
  have "m' 0x400100 = 0x48" using r(3) [rule_format, of 0] by simp
  moreover have "length [0x48, 0x69, 0x0A :: u8] = 3" by simp
  ultimately show ?thesis using r(1,2) by (metis (no_types))
qed

end
