(* ===== verification/Syscall_Network.thy ===== *)
theory Syscall_Network
  imports Syscalls
begin

text \<open>
  The network calls from the point of view of the processes: how long a call waits, and that what one process sends
  is what another one receives.
\<close>

section \<open>Waiting for the network\<close>

text \<open>The timer interrupt, where the scheduler lets the interrupted wait go on; and a frame that arrives.\<close>

definition timer_step :: "u32 \<Rightarrow> kernel \<Rightarrow> kernel option" where
  "timer_step esp k = do {
     s \<leftarrow> get_sched k;
     let (esp', s) = SchedulerTimer_HandleInterrupt s esp;
     if esp' = esp then Some (put_sched s k) else None
   }"

definition frame_step :: "u8 list \<Rightarrow> kernel \<Rightarrow> kernel option" where
  "frame_step frame k = map_option (\<lambda>net. k\<lparr>k_net := net\<rparr>) (receive_frame frame (of_nat (length frame)) (k_net k))"

lemma Schedule_none_ready:
  assumes "\<forall>p \<in> set (processes s). p_state p \<noteq> PROCESS_READY \<and> p_state p \<noteq> PROCESS_RUNNING" and "current_index s < int (length (processes s))"
  shows "Schedule s esp = (esp, s)"
proof -
  have nr: "\<not> (0 \<le> current_index s \<and> p_state (processes s ! nat (current_index s)) = PROCESS_RUNNING)"
    "\<not> (0 \<le> current_index s \<and> p_state (processes s ! nat (current_index s)) = PROCESS_READY)"
    using assms by (auto simp: nat_less_iff)
  have "find (\<lambda>idx. p_state (processes s ! idx) = PROCESS_READY)
      (map (\<lambda>i. nat ((current_index s + int i) mod int (length (processes s)))) [1..<Suc (length (processes s))]) = None"
  proof (cases "processes s = []")
    case False
    then have "nat ((current_index s + int i) mod int (length (processes s))) < length (processes s)" for i
      by (simp add: nat_less_iff)
    then show ?thesis using assms(1) by (auto simp: find_None_iff)
  qed simp
  then have "next_ready (processes s) (current_index s) = current_index s" by (simp only: next_ready_def option.case)
  then show ?thesis unfolding Schedule_def Let_def using nr by (simp only: if_False) simp
qed

lemma ms_to_ticks_nat: "unat (ms_to_ticks ms) = unat ms div 10 + 1"
proof -
  have "unat ms < 4294967296" using unsigned_less [of ms] by simp
  then have "unat ms div 10 + 1 < 4294967296" by linarith
  then show ?thesis by (simp add: ms_to_ticks_def unat_word_ariths unat_div)
qed

lemma TimedOut_nat:
  assumes "d < 4294967296"
  shows "TimedOut start w (s\<lparr>pit_ticks := start + of_nat d\<rparr>) \<longleftrightarrow> unat w \<le> d"
  using unat_u32_of_nat [OF assms] by (simp add: TimedOut_def word_le_nat_alt)

definition at_tick :: "u32 \<Rightarrow> nat \<Rightarrow> Scheduler \<Rightarrow> Scheduler" where
  "at_tick start d s = s\<lparr>pit_ticks := start + of_nat d\<rparr>"

text \<open>A wait in which nothing but ticks happens.\<close>

lemma wait_ticks:
  assumes idle: "\<forall>p \<in> set (processes s). p_state p \<noteq> PROCESS_READY \<and> p_state p \<noteq> PROCESS_RUNNING"
    and cur: "current_index s < int (length (processes s))"
    and ev: "\<not> event (k_net k)" and w: "unat w < 4294967296"
  shows "d \<le> unat w \<Longrightarrow>
    wait_while (waits_for event start w) (replicate n (timer_step esp)) (put_sched (at_tick start d s) k) =
      (if d + n < unat w then None else Some (put_sched (at_tick start (unat w) s) k))"
proof (induction n arbitrary: d)
  case 0
  have "TimedOut start w (at_tick start d s) \<longleftrightarrow> unat w \<le> d" unfolding at_tick_def using 0 w by (intro TimedOut_nat) linarith
  then show ?case using ev 0 by (auto simp: waits_for_def)
next
  case (Suc n)
  have t: "TimedOut start w (at_tick start d s) \<longleftrightarrow> unat w \<le> d" unfolding at_tick_def using Suc.prems w by (intro TimedOut_nat) linarith
  show ?case
  proof (cases "unat w \<le> d")
    case True
    then show ?thesis using t ev Suc.prems by (auto simp: waits_for_def)
  next
    case False
    have sc: "SchedulerTimer_HandleInterrupt (at_tick start d s) esp = (esp, at_tick start (Suc d) s)"
    proof -
      have "Schedule (at_tick start (Suc d) s) esp = (esp, at_tick start (Suc d) s)"
        by (rule Schedule_none_ready) (use idle cur in \<open>simp_all add: at_tick_def\<close>)
      moreover have "(at_tick start d s)\<lparr>pit_ticks := pit_ticks (at_tick start d s) + 1\<rparr> = at_tick start (Suc d) s"
        by (simp add: at_tick_def ac_simps)
      ultimately show ?thesis by (simp add: SchedulerTimer_HandleInterrupt_def)
    qed
    have "timer_step esp (put_sched (at_tick start d s) k) = Some (put_sched (at_tick start (Suc d) s) k)"
      by (simp add: timer_step_def sc)
    then show ?thesis using False t ev Suc.IH [of "Suc d"] by (simp add: waits_for_def)
  qed
qed

text \<open>The caller as the only process, with every other one blocked or dead.\<close>

definition only_process :: "Scheduler \<Rightarrow> nat \<Rightarrow> bool" where
  "only_process s i \<longleftrightarrow> GetActive s = Some i \<and> i < length (processes s) \<and>
     (\<forall>j < length (processes s). j \<noteq> i \<longrightarrow> p_state (processes s ! j) = PROCESS_BLOCKED \<or> p_state (processes s ! j) = PROCESS_DEAD)"

lemma blocked_idle:
  assumes "only_process s i"
  shows "\<forall>p \<in> set (processes (set_process (Some i) PROCESS_BLOCKED r s)). p_state p \<noteq> PROCESS_READY \<and> p_state p \<noteq> PROCESS_RUNNING"
    "current_index s < int (length (processes s))"
proof -
  have "p_state (processes (set_process (Some i) PROCESS_BLOCKED r s) ! j) = PROCESS_BLOCKED \<or>
      p_state (processes (set_process (Some i) PROCESS_BLOCKED r s) ! j) = PROCESS_DEAD" if "j < length (processes s)" for j
    using assms that by (cases "j = i") (auto simp: only_process_def set_process_def)
  then show "\<forall>p \<in> set (processes (set_process (Some i) PROCESS_BLOCKED r s)). p_state p \<noteq> PROCESS_READY \<and> p_state p \<noteq> PROCESS_RUNNING"
    by (force simp: in_set_conv_nth set_process_def)
  show "current_index s < int (length (processes s))" using assms by (auto simp: only_process_def GetActive_def split: if_splits)
qed

lemma block_until_timeout:
  assumes s: "get_sched k = Some s" "only_process s i" and ev: "\<not> event (k_net k)"
  shows "block_until r (waits_for event (pit_ticks s) w) (replicate n (timer_step esp)) k =
    (if n < unat w then None
     else Some (put_sched (set_process (Some i) PROCESS_RUNNING (-1) (at_tick (pit_ticks s) (unat w) (set_process (Some i) PROCESS_BLOCKED r s))) k))"
proof -
  let ?s = "set_process (Some i) PROCESS_BLOCKED r s"
  have a: "at_tick (pit_ticks s) 0 ?s = ?s" by (simp add: at_tick_def set_process_def)
  have w: "unat w < 4294967296" using unsigned_less [of w] by simp
  have c: "current_index ?s < int (length (processes ?s))" using blocked_idle(2) [OF s(2)] by (simp add: set_process_def)
  have "wait_while (waits_for event (pit_ticks s) w) (replicate n (timer_step esp)) (put_sched ?s k) =
      (if n < unat w then None else Some (put_sched (at_tick (pit_ticks s) (unat w) ?s) k))"
    using wait_ticks [where event = event, OF blocked_idle(1) [OF s(2), of r] c ev w, of 0 "pit_ticks s" n esp] a by simp
  moreover have "GetActive s = Some i" using s(2) by (simp add: only_process_def)
  ultimately show ?thesis using s(1) by (simp add: block_until_def Let_def)
qed

section \<open>The result of a receive call\<close>

lemma shared_addr:
  "unat NET_BUF_STATUS_ADDR = 0x600000" "unat NET_BUF_DATA_LEN_ADDR = 0x600004" "unat NET_BUF_DATA_ADDR = 0x600008"
  "unat NET_BUF_MAX_DATA = 4088"
  by (simp_all add: NET_BUF_STATUS_ADDR_def NET_BUF_DATA_LEN_ADDR_def NET_BUF_DATA_ADDR_def NET_SHARED_BASE_ADDR_def NET_BUF_MAX_DATA_def)

lemma report_reads:
  "rd32 (report st len m) NET_BUF_STATUS_ADDR = st" "rd32 (report st len m) NET_BUF_DATA_LEN_ADDR = len"
  by (simp_all add: report_def rd32_wr32_apart apart_def shared_addr)

lemma report_outside: "\<not> (0x600000 \<le> unat x \<and> unat x < 0x600008) \<Longrightarrow> report st len m x = m x"
proof -
  assume a: "\<not> (0x600000 \<le> unat x \<and> unat x < 0x600008)"
  have "unat x < 4294967296" using unsigned_less [of x] by simp
  then have "apart NET_BUF_STATUS_ADDR 4 x 1" "apart NET_BUF_DATA_LEN_ADDR 4 x 1" using a by (auto simp: apart_def shared_addr)
  then show ?thesis by (simp add: report_def wr32_outside)
qed

text \<open>The state in which a receive call ends that found nothing.\<close>

definition timed_out :: "kernel \<Rightarrow> Scheduler \<Rightarrow> nat \<Rightarrow> nat \<Rightarrow> mem \<Rightarrow> kernel \<Rightarrow> bool" where
  "timed_out k s i w m k' \<longleftrightarrow> get_mem k' = Some (report 1 0 m) \<and> k_net k' = k_net k \<and>
     (\<exists>s'. get_sched k' = Some s' \<and> GetActive s' = Some i \<and> p_state (processes s' ! i) = PROCESS_RUNNING \<and>
        pit_ticks s' = pit_ticks s + of_nat w)"

lemma timed_out_state:
  assumes s: "get_sched k = Some s" "only_process s i" and m: "get_mem k = Some m"
  shows "get_mem (put_sched (set_process (Some i) PROCESS_RUNNING (-1) (at_tick (pit_ticks s) w (set_process (Some i) PROCESS_BLOCKED r s))) k) = Some m"
    "timed_out k s i w m (put_mem (report 1 0 m) (put_sched (set_process (Some i) PROCESS_RUNNING (-1) (at_tick (pit_ticks s) w (set_process (Some i) PROCESS_BLOCKED r s))) k))"
  using assms by (auto simp: timed_out_def get_mem_put_sched get_sched_put_mem get_mem_Some at_tick_def set_process_Some sched_mem_def
      only_process_def GetActive_def split: if_splits)

text \<open>C37: A receive call that gets nothing returns, and exactly when it should. Let the caller be the only process that can
  run, nothing be received and only timer interrupts happen. With a timeout of \<open>ms\<close> milliseconds, not 0, at ten
  milliseconds a tick, the UDP and the TCP call still wait as long as there were at most \<open>ms div 10\<close> ticks, and
  return with the next one: the result is 1, the shared page says status 1 and length 0 and no other byte of
  memory has changed, and the caller is running. This holds also when the tick counter wraps around
  meanwhile.\<close>

theorem receive_times_out:
  assumes s: "get_sched k = Some s" "only_process s i" and m: "get_mem k = Some m" and t: "ms \<noteq> 0"
    and e: "\<not> udp_rx_ready (k_net k)" "\<not> sock_rx_ready (k_net k)"
  shows "if n \<le> unat ms div 10
    then sys_net_recv_udp (replicate n (timer_step esp)) ms k = None \<and> sys_net_tcp_recv (replicate n (timer_step esp)) ms k = None
    else (\<exists>k'. sys_net_recv_udp (replicate n (timer_step esp)) ms k = Some (1, k') \<and> timed_out k s i (unat ms div 10 + 1) m k') \<and>
      (\<exists>k'. sys_net_tcp_recv (replicate n (timer_step esp)) ms k = Some (1, k') \<and> timed_out k s i (unat ms div 10 + 1) m k')"
proof -
  note st = timed_out_state [OF s m, of "unat ms div 10 + 1"]
  note b = block_until_timeout [where event = udp_rx_ready, OF s e(1), of "-3" "ms_to_ticks ms" n esp, unfolded ms_to_ticks_nat]
    block_until_timeout [where event = sock_rx_ready, OF s e(2), of "-5" "ms_to_ticks ms" n esp, unfolded ms_to_ticks_nat]
  show ?thesis
    using b e t s(1) st [of "-3"] st [of "-5"]
    by (simp add: sys_net_recv_udp_def sys_net_tcp_recv_def ValidateNetShared_all deliver_def)
qed

theorem receive_times_out_witness:
  "(\<exists>k'. sys_net_recv_udp (replicate 4 (timer_step 0x1111)) 25 (demo_kernel (\<lambda>_. 0)) = Some (1, k')) \<and>
   sys_net_recv_udp (replicate 2 (timer_step 0x1111)) 25 (demo_kernel (\<lambda>_. 0)) = None"
proof -
  have o: "only_process (sched_mem (\<lambda>_. 0) (demo_sched PROCESS_RUNNING)\<lparr>processes := [demo_proc 1 PROCESS_RUNNING 0x1111]\<rparr>) 0"
    by (simp add: only_process_def GetActive_def sched_mem_def demo_sched_def)
  have n: "\<not> udp_rx_ready (k_net (demo_kernel (\<lambda>_. 0)))" "\<not> sock_rx_ready (k_net (demo_kernel (\<lambda>_. 0)))"
    by (simp_all add: demo_kernel_def example_sockets_def)
  note r = receive_times_out [OF demo_kernel_sched(1) o demo_kernel_sched(2) _ n, of 25 _ "0x1111"]
  show ?thesis using r [of 4] r [of 2] by auto
qed

section \<open>From one process to another\<close>

lemma shared_len_small: "unat (rd32 m NET_BUF_DATA_LEN_ADDR) \<le> 4088 \<Longrightarrow> shared_len m = rd32 m NET_BUF_DATA_LEN_ADDR"
  by (auto simp: shared_len_def Let_def word_less_nat_alt shared_addr)

lemma ValidateNetShared_small: "unat len \<le> 4088 \<Longrightarrow> ValidateNetShared len"
  by (auto simp: ValidateNetShared_def ring3_range_iff shared_addr word_less_nat_alt)

lemma waits_at_start: "get_sched k = Some s \<Longrightarrow> \<not> event (k_net k) \<Longrightarrow> waits_for event (pit_ticks s) (ms_to_ticks ms) k"
  using ms_to_ticks_nat [of ms] by (simp add: waits_for_def TimedOut_def word_le_nat_alt)

text \<open>A wait that one arriving frame ends.\<close>

lemma block_until_frame:
  assumes s: "get_sched k = Some s" "GetActive s = Some i" and e: "\<not> event (k_net k)"
    and f: "receive_frame frame (of_nat (length frame)) (k_net k) = Some net" "event net"
  shows "block_until r (waits_for event (pit_ticks s) (ms_to_ticks ms)) [frame_step frame] k =
    Some (put_sched (set_process (Some i) PROCESS_RUNNING (-1) (set_process (Some i) PROCESS_BLOCKED r s)) (k\<lparr>k_net := net\<rparr>))"
proof -
  let ?s = "set_process (Some i) PROCESS_BLOCKED r s" and ?w = "waits_for event (pit_ticks s) (ms_to_ticks ms)"
  have "pit_ticks ?s = pit_ticks s" by (simp add: set_process_Some)
  then have "?w (put_sched ?s k)" using waits_at_start [of "put_sched ?s k" ?s event ms] e by simp
  moreover have "\<not> ?w (put_sched ?s k\<lparr>k_net := net\<rparr>)" using f(2) by (simp add: waits_for_def)
  moreover have "frame_step frame (put_sched ?s k) = Some (put_sched ?s k\<lparr>k_net := net\<rparr>)" using f(1) by (simp add: frame_step_def)
  ultimately have "wait_while ?w [frame_step frame] (put_sched ?s k) = Some (put_sched ?s k\<lparr>k_net := net\<rparr>)" by simp
  moreover have "get_sched (put_sched ?s k\<lparr>k_net := net\<rparr>) = Some ?s" by (simp add: get_sched_def put_sched_def)
  moreover have "put_sched s' (put_sched ?s k\<lparr>k_net := net\<rparr>) = put_sched s' (k\<lparr>k_net := net\<rparr>)" for s' by (simp add: put_sched_def)
  ultimately show ?thesis using s by (simp add: block_until_def Let_def del: wait_while.simps)
qed

text \<open>What a receive call puts into the shared page.\<close>

lemma deliver_ready:
  assumes "unat len \<le> 2048" and "take (unat len) buf = data" and "length data = unat len"
  shows "\<exists>m'. deliver True buf len m = Some (0, m') \<and> rd32 m' NET_BUF_STATUS_ADDR = 0 \<and> rd32 m' NET_BUF_DATA_LEN_ADDR = len \<and>
    (\<forall>j < unat len. m' (NET_BUF_DATA_ADDR + of_nat j) = data ! j) \<and>
    (\<forall>x. \<not> (0x600000 \<le> unat x \<and> unat x < 0x600008 + unat len) \<longrightarrow> m' x = m x)"
proof -
  have l: "\<not> len > NET_BUF_MAX_DATA" "unat len \<le> length buf" using assms by (auto simp: word_less_nat_alt shared_addr)
  have u: "unat NET_BUF_DATA_ADDR + length data \<le> MAPPED" using assms by (simp add: shared_addr MAPPED_def)
  obtain m1 where m1: "store_bytes m NET_BUF_DATA_ADDR data = Some m1" "\<forall>i < length data. m1 (NET_BUF_DATA_ADDR + of_nat i) = data ! i"
    "\<forall>x. \<not> (unat NET_BUF_DATA_ADDR \<le> unat x \<and> unat x < unat NET_BUF_DATA_ADDR + length data) \<longrightarrow> m1 x = m x"
    using store_bytes_ok [OF u] by blast
  have "deliver True buf len m = Some (0, report 0 len m1)" using l m1(1) assms(2) by (simp add: deliver_def bytes_at_def)
  moreover have "report 0 len m1 (NET_BUF_DATA_ADDR + of_nat j) = data ! j" if j: "j < unat len" for j
  proof -
    have "unat (NET_BUF_DATA_ADDR + of_nat j) = 0x600008 + j"
      using unat_u32_offset [of NET_BUF_DATA_ADDR 2048 j] j assms(1) by (simp add: shared_addr)
    then show ?thesis using m1(2) assms(3) j by (simp add: report_outside)
  qed
  moreover have "report 0 len m1 x = m x" if x: "\<not> (0x600000 \<le> unat x \<and> unat x < 0x600008 + unat len)" for x
    using m1(3) x assms(3) by (auto simp: report_outside shared_addr)
  ultimately show ?thesis by (auto simp: report_reads)
qed

text \<open>C36: A datagram goes from one process to another. A process of machine \<open>a\<close> has put up to 1464 bytes and their number
  into its shared page and sends them to the address and port of machine \<open>b\<close>, whose hardware address \<open>a\<close>
  knows; on \<open>b\<close> a process waits in a receive call. The send returns 0 after one frame; when that frame reaches \<open>b\<close>,
  the receive call returns 0, the shared page of \<open>b\<close> holds status 0, the number and exactly the bytes of the sender,
  no byte outside has changed, the socket is empty again and the receiver is running.\<close>

theorem udp_between_processes:
  assumes a: "k_nic a" "get_mem a = Some ma" "sock_wf (k_net a)" "unat (rd32 ma NET_BUF_DATA_LEN_ADDR) \<le> 1464"
    and b: "sock_wf (k_net b)" "wired (k_net b)" "get_mem b = Some mb" "\<not> udp_rx_ready (k_net b)"
    and s: "get_sched b = Some s" "GetActive s = Some i" "i < length (processes s)"
    and dst: "PackedToIPv4 dst = ip_local (k_net b)" "Resolve (ip_local (k_net b)) (k_net a) = Some mac" "udp_local_port (k_net b) = dport"
    and t: "ms \<noteq> 0"
  shows "\<exists>a' frame b' m' s'. sys_net_send_udp dst dport sport a = Some (0, a') \<and> link_sent (k_net a') = link_sent (k_net a) @ [frame] \<and>
    sys_net_recv_udp [frame_step frame] ms b = Some (0, b') \<and> get_mem b' = Some m' \<and>
    rd32 m' NET_BUF_STATUS_ADDR = 0 \<and> rd32 m' NET_BUF_DATA_LEN_ADDR = rd32 ma NET_BUF_DATA_LEN_ADDR \<and>
    (\<forall>j < unat (rd32 ma NET_BUF_DATA_LEN_ADDR). m' (NET_BUF_DATA_ADDR + of_nat j) = ma (NET_BUF_DATA_ADDR + of_nat j)) \<and>
    (\<forall>x. \<not> (0x600000 \<le> unat x \<and> unat x < 0x601000) \<longrightarrow> m' x = mb x) \<and>
    \<not> udp_rx_ready (k_net b') \<and> get_sched b' = Some s' \<and> p_state (processes s' ! i) = PROCESS_RUNNING"
proof -
  let ?n = "rd32 ma NET_BUF_DATA_LEN_ADDR"
  let ?d = "map (\<lambda>j. ma (NET_BUF_DATA_ADDR + of_nat j)) [0..<unat ?n]"
  obtain na frame nb where u: "UDP_Send (ip_local (k_net b)) dport sport ?d ?n (k_net a) = Some (True, na)"
    "link_sent na = link_sent (k_net a) @ [frame]" "receive_frame frame (of_nat (length frame)) (k_net b) = Some nb"
    "udp_rx_ready nb" "udp_rx_len nb = ?n" "take (unat ?n) (udp_rx_buf nb) = take (unat ?n) ?d"
    using UDP_end_to_end [OF a(3) b(1,2) dst(2) a(4) _ dst(3), of ?d sport] by auto
  have "load_bytes ma NET_BUF_DATA_ADDR (unat ?n) = Some ?d" using a(4) by (intro load_bytes_ok) (simp add: shared_addr MAPPED_def)
  then have send: "sys_net_send_udp dst dport sport a = Some (0, a\<lparr>k_net := na\<rparr>)"
    using a u(1) dst(1) by (simp add: sys_net_send_udp_def shared_len_small ValidateNetShared_small)
  let ?s = "set_process (Some i) PROCESS_RUNNING (-1) (set_process (Some i) PROCESS_BLOCKED (-3) s)"
  let ?b = "put_sched ?s (b\<lparr>k_net := nb\<rparr>)"
  note w = block_until_frame [where event = udp_rx_ready, OF s(1,2) b(4) u(3,4), of "-3" ms]
  have mb: "get_mem ?b = Some mb" using b(3) s(1) by (simp add: get_mem_put_sched get_mem_Some set_process_Some)
  have "unat ?n \<le> 2048" using a(4) by simp
  then obtain m' where m': "deliver True (udp_rx_buf nb) ?n mb = Some (0, m')" "rd32 m' NET_BUF_STATUS_ADDR = 0"
    "rd32 m' NET_BUF_DATA_LEN_ADDR = ?n" "\<forall>j < unat ?n. m' (NET_BUF_DATA_ADDR + of_nat j) = ?d ! j"
    "\<forall>x. \<not> (0x600000 \<le> unat x \<and> unat x < 0x600008 + unat ?n) \<longrightarrow> m' x = mb x"
    using deliver_ready [of ?n "udp_rx_buf nb" ?d mb] u(6) by auto
  let ?b' = "put_mem m' (?b\<lparr>k_net := nb\<lparr>udp_rx_ready := False, udp_rx_len := 0\<rparr>\<rparr>)"
  have "sys_net_recv_udp [frame_step frame] ms b = Some (0, ?b')"
    using w b(4) t s(1) mb u(4,5) m'(1) by (simp add: sys_net_recv_udp_def ValidateNetShared_all)
  moreover have "get_sched ?b' = Some (sched_mem m' ?s)" "get_mem ?b' = Some m'"
    by (simp_all add: put_mem_def get_sched_def get_mem_def put_sched_def sched_mem_def)
  moreover have "p_state (processes (sched_mem m' ?s) ! i) = PROCESS_RUNNING" using s(3) by (simp add: sched_mem_def set_process_Some)
  moreover have "m' x = mb x" if "\<not> (0x600000 \<le> unat x \<and> unat x < 0x601000)" for x
    using m'(5) that a(4) by auto
  ultimately show ?thesis using send u(2) m'(2-4) by (intro exI conjI) (assumption | simp)+
qed

theorem udp_between_processes_witness:
  "\<exists>a' frame b' m'. sys_net_send_udp 0x0A000202 1234 5000 (demo_kernel (wr32 (\<lambda>_. 0x41) NET_BUF_DATA_LEN_ADDR 3)) = Some (0, a') \<and>
    link_sent (k_net a') = link_sent peer_a @ [frame] \<and>
    sys_net_recv_udp [frame_step frame] 100 ((demo_kernel (\<lambda>_. 0))\<lparr>k_net := peer_b\<rparr>) = Some (0, b') \<and>
    get_mem b' = Some m' \<and> rd32 m' NET_BUF_DATA_LEN_ADDR = 3 \<and> m' (NET_BUF_DATA_ADDR + of_nat 2) = 0x41"
proof -
  let ?ma = "wr32 (\<lambda>_. 0x41) NET_BUF_DATA_LEN_ADDR 3"
  let ?a = "demo_kernel ?ma" and ?b = "(demo_kernel (\<lambda>_. 0))\<lparr>k_net := peer_b\<rparr>"
  let ?s = "sched_mem (\<lambda>_. 0) (demo_sched PROCESS_RUNNING)\<lparr>processes := [demo_proc 1 PROCESS_RUNNING 0x1111]\<rparr>"
  have na: "k_net ?a = peer_a" "k_nic ?a" by (simp_all add: demo_kernel_def peer_a_def)
  have nb: "k_net ?b = peer_b" by simp
  have sb: "get_sched ?b = Some ?s" "get_mem ?b = Some (\<lambda>_. 0)"
    using demo_kernel_sched [of "\<lambda>_. 0"] by (simp_all add: get_sched_def get_mem_def)
  have ac: "GetActive ?s = Some 0" "0 < length (processes ?s)" by (simp_all add: GetActive_def sched_mem_def demo_sched_def)
  have len: "rd32 ?ma NET_BUF_DATA_LEN_ADDR = 3" by simp
  have wf: "sock_wf (k_net ?a)" "sock_wf (k_net ?b)" "wired (k_net ?b)"
    unfolding na nb by simp_all
  have rx: "\<not> udp_rx_ready (k_net ?b)" unfolding nb by (simp add: peer_b_def example_sockets_def)
  have dst: "PackedToIPv4 0x0A000202 = ip_local (k_net ?b)"
    "Resolve (ip_local (k_net ?b)) (k_net ?a) = Some [0x52, 0x55, 10, 0, 2, 2]" "udp_local_port (k_net ?b) = 1234"
    unfolding na nb by (simp_all add: PackedToIPv4_def FromBytes_def)
  have l: "unat (rd32 ?ma NET_BUF_DATA_LEN_ADDR) \<le> 1464" unfolding len by simp
  note r = udp_between_processes [OF na(2) demo_kernel_sched(2) wf(1) l wf(2,3) sb(2) rx sb(1) ac dst, of 100 5000]
  have two: "?ma (NET_BUF_DATA_ADDR + of_nat 2) = 0x41"
    by (rule wr32_outside [THEN trans]) (simp_all add: apart_def NET_BUF_DATA_ADDR_def NET_BUF_DATA_LEN_ADDR_def NET_SHARED_BASE_ADDR_def)
  obtain a' frame b' m' where "sys_net_send_udp 0x0A000202 1234 5000 ?a = Some (0, a')" "link_sent (k_net a') = link_sent (k_net ?a) @ [frame]"
    "sys_net_recv_udp [frame_step frame] 100 ?b = Some (0, b')" "get_mem b' = Some m'" "rd32 m' NET_BUF_DATA_LEN_ADDR = rd32 ?ma NET_BUF_DATA_LEN_ADDR"
    "\<forall>j < unat (rd32 ?ma NET_BUF_DATA_LEN_ADDR). m' (NET_BUF_DATA_ADDR + of_nat j) = ?ma (NET_BUF_DATA_ADDR + of_nat j)"
    using r by auto
  moreover have "(2 :: nat) < unat (3 :: u32)" by simp
  ultimately show ?thesis using two unfolding len na by metis
qed

end
