(* ===== verification/Fat32_Root.thy ===== *)
theory Fat32_Root
  imports Fat32_Files
begin

text \<open>
  The root directory of a volume as a set of named files. An abstract file system is a map from 8.3 names to
  contents; the lemmas show that a write of a new file is the update of this map, so that every other file keeps
  its contents, and that reading gives what the map says.
\<close>

section \<open>Files of the root directory\<close>

definition root_ok :: "fat32 \<Rightarrow> u32 list \<Rightarrow> bool" where
  "root_ok fs cs \<longleftrightarrow> fat_wf fs \<and> dir_at fs (root_cluster fs) cs \<and> cs \<noteq> [] \<and> tidy (dir_list fs cs)"

lemma root_FindEntry: "root_ok fs cs \<Longrightarrow> FindEntry fs (root_cluster fs) p = Some (lookup (ToShortName p) (dir_list fs cs))"
  by (simp add: root_ok_def FindEntry_ok)

text \<open>A file has an entry that is found, and its clusters hold its contents and are none of the directory's.\<close>

definition file_entry :: "fat32 \<Rightarrow> u32 list \<Rightarrow> u8 list \<Rightarrow> u8 list \<Rightarrow> bool" where
  "file_entry fs cs e data \<longleftrightarrow> \<not> is_dir e \<and> unat (de_size e) = length data \<and>
     (\<exists>fl. holds fs (de_cluster e) fl data \<and> set fl \<inter> set cs = {})"

definition root_file :: "fat32 \<Rightarrow> u32 list \<Rightarrow> u8 list \<Rightarrow> u8 list \<Rightarrow> bool" where
  "root_file fs cs n83 data \<longleftrightarrow> length n83 = 11 \<and> (\<exists>e. lookup n83 (dir_list fs cs) = Some e \<and> file_entry fs cs e data)"

lemma file_entry_kept:
  assumes "fat_wf fs" and "rest_kept fs cs fs'" and "file_entry fs cs e data" and "\<forall>x \<in> set ds. x \<in> set cs \<or> fat fs x = 0"
  shows "file_entry fs' ds e data"
proof -
  obtain fl where fl: "holds fs (de_cluster e) fl data" "set fl \<inter> set cs = {}" using assms(3) by (auto simp: file_entry_def)
  then have "fat fs x \<noteq> 0" if "x \<in> set fl" for x using chain_nonzero [of fs _ fl x] assms(1) that unfolding holds_def by blast
  then have "set fl \<inter> set ds = {}" using fl(2) assms(4) by blast
  then show ?thesis using holds_kept [OF assms(1) fl(1) assms(2) fl(2)] assms(3) by (auto simp: file_entry_def)
qed

text \<open>The names a path argument can have for a file of the root directory.\<close>

definition root_name :: "u8 list \<Rightarrow> bool" where
  "root_name p \<longleftrightarrow> p \<noteq> [] \<and> length p \<le> 12 \<and> 0x2F \<notin> set p \<and> hd p \<noteq> 0 \<and> hd p \<noteq> 0xE5"

lemma WriteFile_root:
  assumes r: "root_ok fs cs" and p: "root_name p" and new: "lookup (ToShortName p) (dir_list fs cs) = None"
    and sz: "0 < unat sz" "unat sz \<le> length buf"
  shows "\<exists>ok fs' ds. WriteFile p buf sz fs = Some (ok, fs') \<and> root_ok fs' ds \<and> same_volume fs fs' \<and>
    (\<forall>n. length n = 11 \<and> n \<noteq> ToShortName p \<longrightarrow> lookup n (dir_list fs' ds) = lookup n (dir_list fs cs)) \<and>
    (\<forall>n data. root_file fs cs n data \<longrightarrow> root_file fs' ds n data) \<and>
    (if ok then root_file fs' ds (ToShortName p) (take (unat sz) buf) else full fs' \<and> dir_list fs' ds = dir_list fs cs)"
proof -
  let ?n = "ToShortName p" and ?r = "root_cluster fs"
  have wf: "fat_wf fs" "dir_at fs ?r cs" "cs \<noteq> []" "tidy (dir_list fs cs)" using r by (simp_all add: root_ok_def)
  have pn: "p \<noteq> []" "length p \<le> 12" "0x2F \<notin> set p" "hd p \<noteq> 0" "hd p \<noteq> 0xE5" using p by (simp_all add: root_name_def)
  have eq: "WriteFile p buf sz fs = WriteFile_new ?r ?n False buf sz fs"
    using new FindEntry_ok [OF wf(1,2)] by (simp add: WriteFile_def root_paths(1) [OF pn(1-3)])
  obtain ok fs' ds where w: "WriteFile_new ?r ?n False buf sz fs = Some (ok, fs')" "rest_kept fs cs fs'" "dir_at fs' ?r ds" "ds \<noteq> []"
    "\<forall>x \<in> set ds. x \<in> set cs \<or> fat fs x = 0"
    "if ok then \<exists>f fl. holds fs' f fl (take (unat sz) buf) \<and> set fl \<inter> set ds = {} \<and>
       dir_list fs' ds = add_entry (unat (cluster_size fs) div 32) (BuildDirEntry ?n 0x20 f sz) (dir_list fs cs)
     else full fs' \<and> dir_list fs' ds = dir_list fs cs"
    using WriteFile_new_ok [OF wf(1-3) ToShortName_length [of p] sz] by blast
  have v: "same_volume fs fs'" "fat_wf fs'" "root_cluster fs' = ?r" using w(2) same_volume_fields unfolding rest_kept_def by blast+
  note kept = file_entry_kept [OF wf(1) w(2) _ w(5)]
  show ?thesis
  proof (cases ok)
    case True
    then obtain f fl where x: "holds fs' f fl (take (unat sz) buf)" "set fl \<inter> set ds = {}"
      "dir_list fs' ds = add_entry (unat (cluster_size fs) div 32) (BuildDirEntry ?n 0x20 f sz) (dir_list fs cs)"
      using w(6) by auto
    let ?e = "BuildDirEntry ?n 0x20 f sz"
    note nm = ToShortName_first [OF pn(4,5,1)] and b = BuildDirEntry_fields [of ?n "0x20" f sz, OF ToShortName_length]
    have m: "matches nm ?e \<longleftrightarrow> nm = ?n" if "length nm = 11" for nm using matches_built [OF _ that nm(2)] by simp
    have e0: "?e ! 0 \<noteq> 0" using nm b by simp
    have oth: "lookup nm (dir_list fs' ds) = lookup nm (dir_list fs cs)" if "length nm = 11" "nm \<noteq> ?n" for nm
      unfolding x(3) using lookup_add_other [OF wf(4) e0] m that by blast
    have l: "lookup ?n (dir_list fs' ds) = Some ?e" unfolding x(3) by (rule lookup_add [OF new e0]) (simp add: m)
    have "file_entry fs' ds ?e (take (unat sz) buf)" using x(1,2) b sz(2) by (auto simp: file_entry_def is_dir_def)
    then have f: "root_file fs' ds ?n (take (unat sz) buf)" using l by (simp add: root_file_def)
    have "root_file fs' ds nm data" if "root_file fs cs nm data" for nm data
    proof -
      obtain e where e: "length nm = 11" "lookup nm (dir_list fs cs) = Some e" "file_entry fs cs e data" using \<open>root_file fs cs nm data\<close> by (auto simp: root_file_def)
      then have "nm \<noteq> ?n" using new by auto
      then show ?thesis using oth [OF e(1)] e kept by (auto simp: root_file_def)
    qed
    moreover have "root_ok fs' ds" using v w(3,4) tidy_add [OF wf(4) e0] by (simp add: root_ok_def x(3))
    ultimately show ?thesis using eq w(1) True v(1) oth f by (intro exI [of _ True] exI [of _ fs'] exI [of _ ds]) simp
  next
    case False
    then have x: "full fs'" "dir_list fs' ds = dir_list fs cs" using w(6) by simp_all
    have "root_file fs' ds nm data" if "root_file fs cs nm data" for nm data
      using that kept by (auto simp: root_file_def x(2))
    moreover have "root_ok fs' ds" using v w(3,4) wf(4) by (simp add: root_ok_def x(2))
    ultimately show ?thesis using eq w(1) False v(1) x by (intro exI [of _ False] exI [of _ fs'] exI [of _ ds]) simp
  qed
qed

text \<open>Reading a file of the root directory.\<close>

lemma ReadFile_root:
  assumes r: "root_ok fs cs" and p: "root_name p" and f: "root_file fs cs (ToShortName p) data"
  shows "\<exists>bs. length data \<le> length bs \<and> length bs < length data + unat (cluster_size fs) \<and> take (length data) bs = data \<and>
    (\<forall>out. length bs \<le> length out \<and> length out < 4294967296 \<longrightarrow>
      ReadFile fs p out = Some (Some (bs @ drop (length bs) out, of_nat (length data))))"
proof -
  have wf: "fat_wf fs" "dir_at fs (root_cluster fs) cs" using r by (simp_all add: root_ok_def)
  have pn: "p \<noteq> []" "length p \<le> 12" "0x2F \<notin> set p" using p by (simp_all add: root_name_def)
  obtain e fl where e: "lookup (ToShortName p) (dir_list fs cs) = Some e" "\<not> is_dir e" "unat (de_size e) = length data"
    "holds fs (de_cluster e) fl data" using f by (auto simp: root_file_def file_entry_def)
  have rp: "ResolvePath fs p = Some (Entry e)" using root_paths(2) [OF pn, of fs "Some e"] FindEntry_ok [OF wf] e(1) by simp
  have s: "of_nat (length data) = de_size e" using e(3) [symmetric] by simp
  let ?bs = "concat (map (content fs) fl)"
  have l: "length ?bs = length fl * unat (cluster_size fs)"
    using e(4) by (simp add: holds_def length_concat content_length [OF wf(1)] comp_def sum_list_triv)
  have t: "take (length data) ?bs = data" "length fl * unat (cluster_size fs) < length data + unat (cluster_size fs)"
    using e(4) by (simp_all add: holds_def)
  moreover have "length data \<le> length ?bs" using arg_cong [OF t(1), of length] by simp
  moreover have "ReadFile fs p out = Some (Some (?bs @ drop (length ?bs) out, of_nat (length data)))"
    if "length ?bs \<le> length out" "length out < 4294967296" for out
    using holds_read_exact(1) [OF wf(1) e(4), of out] that l rp e(2) s by (simp add: ReadFile_def)
  ultimately show ?thesis using l by (intro exI [of _ ?bs]) auto
qed

section \<open>Writing a file is an update\<close>

text \<open>C33: A volume keeps the files of its root directory. Writing a new file with a name of the root directory always comes to
  an end and leaves the volume and the directory well formed. Every file that was there is still there with its
  contents, whatever the outcome. If the write reports success, the new name is there as well, and reading it
  gives exactly the bytes written with their number, in whole clusters, with the rest of the buffer untouched; it
  reports failure only when no cluster is left, and then no name has been added.\<close>

theorem WriteFile_updates_root:
  assumes r: "root_ok fs cs" and p: "root_name p" and new: "FindEntry fs (root_cluster fs) p = Some None"
    and sz: "0 < unat sz" "unat sz \<le> length buf"
  shows "\<exists>ok fs' ds. WriteFile p buf sz fs = Some (ok, fs') \<and> root_ok fs' ds \<and>
    (\<forall>n data. root_file fs cs n data \<longrightarrow> root_file fs' ds n data) \<and>
    (if ok
     then root_file fs' ds (ToShortName p) (take (unat sz) buf) \<and>
       (\<exists>bs. take (unat sz) bs = take (unat sz) buf \<and> unat sz \<le> length bs \<and> length bs < unat sz + unat (cluster_size fs) \<and>
         (\<forall>out. length bs \<le> length out \<and> length out < 4294967296 \<longrightarrow>
           ReadFile fs' p out = Some (Some (bs @ drop (length bs) out, sz))))
     else full fs' \<and> FindEntry fs' (root_cluster fs) p = Some None)"
proof -
  have nl: "lookup (ToShortName p) (dir_list fs cs) = None" using new root_FindEntry [OF r] by simp
  obtain ok fs' ds where w: "WriteFile p buf sz fs = Some (ok, fs')" "root_ok fs' ds" "same_volume fs fs'"
    "\<forall>n data. root_file fs cs n data \<longrightarrow> root_file fs' ds n data"
    "if ok then root_file fs' ds (ToShortName p) (take (unat sz) buf) else full fs' \<and> dir_list fs' ds = dir_list fs cs"
    using WriteFile_root [OF r p nl sz] by blast
  have v: "root_cluster fs' = root_cluster fs" "cluster_size fs' = cluster_size fs" using same_volume_fields [OF w(3)] by simp_all
  have l: "length (take (unat sz) buf) = unat sz" using sz(2) by simp
  show ?thesis
  proof (cases ok)
    case True
    then have "root_file fs' ds (ToShortName p) (take (unat sz) buf)" using w(5) by simp
    from ReadFile_root [OF w(2) p this] show ?thesis using w True v(2) unfolding l
      by (intro exI [of _ ok] exI [of _ fs'] exI [of _ ds]) auto
  next
    case False
    have "FindEntry fs' (root_cluster fs) p = Some None"
      using root_FindEntry [OF w(2), of p] w(5) False nl v(1) by simp
    then show ?thesis using w False by (intro exI [of _ ok] exI [of _ fs'] exI [of _ ds]) simp
  qed
qed

text \<open>A volume with one file, of one byte, in its third cluster.\<close>

definition filed :: fat32 where
  "filed = snd (the (AddDirEntry 2 (BuildDirEntry (ToShortName [0x61]) 0x20 3 1) (set_fat 3 0x0FFFFFFF formatted)))"

lemma filed:
  "\<exists>ds. root_ok filed ds \<and> root_file filed ds (ToShortName [0x61]) [0] \<and>
     (\<forall>n. length n = 11 \<and> n \<noteq> ToShortName [0x61] \<longrightarrow> lookup n (dir_list filed ds) = None)"
  "cluster_size filed = 512"
proof -
  let ?f = "set_fat 3 0x0FFFFFFF formatted" and ?e = "BuildDirEntry (ToShortName [0x61]) 0x20 3 1"
  have "valid formatted 3 = valid example_volume 3" 
    using same_volume_fields(3) [OF set_fat_facts(3) [OF example_wf(1), of 2 "0x0FFFFFFF"]] example_max by (simp add: formatted_def valid_def)
  then have v: "valid formatted 3" using example_wf(2) by simp
  note s = set_fat_facts [OF formatted(1) v, where v = "0x0FFFFFFF"]
  have two: "valid formatted 2" using formatted(2) by (simp add: dir_at_def)
  have d: "dir_at ?f 2 [2]" "dir_list ?f [2] = replicate 16 (replicate 32 0)"
    using formatted(2,3) s(5) [of 2] s(6) [of 2] s(7) two by (simp_all add: dir_at_def dir_list_def)
  have fs: "free_slot (dir_list ?f [2]) = Some 0" unfolding d(2) by (simp add: in_use_def numeral_eq_Suc)
  have le: "length ?e = 32" by (simp add: BuildDirEntry_def)
  obtain f' where f': "AddDirEntry 2 ?e ?f = Some (True, f')" "rest_kept ?f [2] f'" "entry_added ?f 2 [2] ?e f'"
    using AddDirEntry_in_slot [OF s(2) d(1) le fs] by blast
  obtain ds where ds: "dir_at f' 2 ([2] @ ds)" "\<forall>x \<in> set ds. fat ?f x = 0"
    "dir_list f' ([2] @ ds) = add_entry (unat (cluster_size ?f) div 32) ?e (dir_list ?f [2])"
    using f'(3) by (auto simp: entry_added_def)
  have fe: "filed = f'" using f'(1) by (simp add: filed_def)
  have vol: "same_volume formatted f'" "fat_wf f'" using same_volume_trans [OF s(3)] f'(2) by (auto simp: rest_kept_def)
  note vf = same_volume_fields [OF vol(1)]
  have nm: "ToShortName [0x61] ! 0 \<noteq> 0" "ToShortName [0x61] ! 0 \<noteq> 0xE5" by (rule ToShortName_first; simp)+
  note b = BuildDirEntry_fields [of "ToShortName [0x61]" "0x20" 3 1, OF ToShortName_length]
  have e0: "?e ! 0 \<noteq> 0" using nm b by simp
  have m: "matches n ?e \<longleftrightarrow> n = ToShortName [0x61]" if "length n = 11" for n using matches_built [OF _ that nm(2)] by simp
  have z: "tidy (dir_list ?f [2])" "lookup n (dir_list ?f [2]) = None" for n unfolding d(2) using tidy_zeros [of "replicate 16 (replicate 32 0)"] by simp_all
  have l: "lookup n (dir_list f' ([2] @ ds)) = (if n = ToShortName [0x61] then Some ?e else None)" if "length n = 11" for n
    unfolding ds(3) using lookup_add [OF z(2) e0] lookup_add_other [OF z(1) e0] z(2) m [OF that] by auto
  have "tidy (dir_list f' ([2] @ ds))" unfolding ds(3) by (rule tidy_add [OF z(1) e0])
  then have root: "root_ok f' ([2] @ ds)" using vol ds(1) vf by (simp add: root_ok_def formatted(5))
  have c3: "fat ?f 3 = 0x0FFFFFFF" "valid ?f 3" using s(4,7) v by simp_all
  then have k3: "fat f' 3 = 0x0FFFFFFF" "content f' 3 = content ?f 3" using f'(2) unfolding rest_kept_def by auto
  have "content ?f 3 = content example_volume 3"
    using s(6) [OF v] set_fat_facts(6) [OF example_wf(1), of 2 3 "0x0FFFFFFF"] example_wf(2) example_max by (simp add: formatted_def valid_def)
  also have "\<dots> = replicate 512 0" by (simp add: content_def spc_def example_volume_def blank_drive_def)
  finally have "holds f' 3 [3] [0]"
    using k3 vf v formatted(4) by (simp add: holds_def)
  moreover have "3 \<notin> set ([2] @ ds)" using ds(2) c3(1) by auto
  ultimately have "file_entry f' ([2] @ ds) ?e [0]" using b by (auto simp: file_entry_def is_dir_def intro!: exI [of _ "[3]"])
  then have "root_file f' ([2] @ ds) (ToShortName [0x61]) [0]" using l [OF ToShortName_length] by (simp add: root_file_def)
  then show "\<exists>ds. root_ok filed ds \<and> root_file filed ds (ToShortName [0x61]) [0] \<and>
     (\<forall>n. length n = 11 \<and> n \<noteq> ToShortName [0x61] \<longrightarrow> lookup n (dir_list filed ds) = None)"
    using root l unfolding fe by (intro exI [of _ "[2] @ ds"]) simp
  show "cluster_size filed = 512" using vf formatted(4) by (simp add: fe)
qed

theorem WriteFile_updates_root_witness:
  "\<exists>ok fs' ds. WriteFile [0x62] [7, 8] 2 filed = Some (ok, fs') \<and> root_ok fs' ds \<and> root_file fs' ds (ToShortName [0x61]) [0] \<and>
    (if ok then root_file fs' ds (ToShortName [0x62]) [7, 8] else full fs')"
proof -
  obtain cs where cs: "root_ok filed cs" "root_file filed cs (ToShortName [0x61]) [0]"
    "\<forall>n. length n = 11 \<and> n \<noteq> ToShortName [0x61] \<longrightarrow> lookup n (dir_list filed cs) = None" using filed(1) by blast
  have "ToShortName [0x62] \<noteq> ToShortName [0x61]" by (simp add: ToShortName_eq short_name_def Let_def pad_def upcase_def)
  then have "lookup (ToShortName [0x62]) (dir_list filed cs) = None" using cs(3) by simp
  then have new: "FindEntry filed (root_cluster filed) [0x62] = Some None" using root_FindEntry [OF cs(1)] by simp
  have "root_name [0x62]" by (simp add: root_name_def)
  from WriteFile_updates_root [OF cs(1) this new, of 2 "[7, 8]"] show ?thesis using cs(2) by (auto split: if_splits)
qed

end
