(* ===== verification/Syscall_Files.thy ===== *)
theory Syscall_Files
  imports Syscalls Fat32_Root
begin

text \<open>
  The file calls across the components they connect: a path and data in the memory of the caller, the file system, and
  the 64 KiB transfer buffer the kernel takes from its heap for the duration of a call.
\<close>

section \<open>Memory of the caller\<close>

lemma cstring_cong:
  "cstring m a = Some p \<Longrightarrow> (\<And>i. i \<le> length p \<Longrightarrow> m' (a + of_nat i) = m (a + of_nat i)) \<Longrightarrow> cstring m' a = Some p"
proof (induction p arbitrary: a)
  case Nil
  then have "unat a < MAPPED \<and> m a = 0" unfolding cstring.simps [of m a] by (auto split: if_splits)
  then show ?case using Nil.prems(2) [of 0] by (simp add: cstring.simps [of m' a])
next
  case (Cons c p)
  then have c: "unat a < MAPPED" "m a = c" "c \<noteq> 0" "cstring m (a + 1) = Some p"
    unfolding cstring.simps [of m a] by (auto split: if_splits)
  have "m' (a + 1 + of_nat i) = m (a + 1 + of_nat i)" if "i \<le> length p" for i
    using Cons.prems(2) [of "Suc i"] that by (simp add: add.assoc)
  then have "cstring m' (a + 1) = Some p" using Cons.IH [OF c(4)] by blast
  moreover have "m' a = c" using Cons.prems(2) [of 0] c(2) by simp
  ultimately show ?case using c by (simp add: cstring.simps [of m' a])
qed

lemma buffer_at_length [simp]: "length (buffer_at m a) = MAPPED - unat a"
  by (simp add: buffer_at_def)

lemma buffer_at_take: "unat a + n \<le> MAPPED \<Longrightarrow> take n (buffer_at m a) = map (\<lambda>i. m (a + of_nat i)) [0..<n]"
  by (simp add: buffer_at_def take_map)

text \<open>Storing a buffer back changes the part that differs.\<close>

lemma store_buffer:
  assumes "unat a + length bs \<le> MAPPED" and "unat a < MAPPED"
  shows "\<exists>m'. store_bytes m a (bs @ drop (length bs) (buffer_at m a)) = Some m' \<and>
    (\<forall>i < length bs. m' (a + of_nat i) = bs ! i) \<and>
    (\<forall>x. \<not> (unat a \<le> unat x \<and> unat x < unat a + length bs) \<longrightarrow> m' x = m x)"
proof -
  let ?b = "bs @ drop (length bs) (buffer_at m a)"
  have l: "unat a + length ?b = MAPPED" using assms by simp
  then obtain m' where m': "store_bytes m a ?b = Some m'" "\<forall>i < length ?b. m' (a + of_nat i) = ?b ! i"
    "\<forall>x. \<not> (unat a \<le> unat x \<and> unat x < unat a + length ?b) \<longrightarrow> m' x = m x"
    using store_bytes_ok [of a ?b m] by auto
  have "m' (a + of_nat i) = bs ! i" if i: "i < length bs" for i
    using m'(2) [rule_format, of i] i by (simp add: nth_append)
  moreover have "m' x = m x" if x: "\<not> (unat a \<le> unat x \<and> unat x < unat a + length bs)" for x
  proof (cases "unat a \<le> unat x \<and> unat x < MAPPED")
    case True
    let ?i = "unat x - unat a"
    have e: "a + of_nat ?i = x" using True by (simp add: of_nat_diff)
    have i: "length bs \<le> ?i" "?i < length ?b" "?i < MAPPED - unat a" using x True l by auto
    have "m' x = ?b ! ?i" using m'(2) [rule_format, OF i(2)] e by simp
    also have "\<dots> = drop (length bs) (buffer_at m a) ! (?i - length bs)" using i(1) by (simp only: nth_append not_less if_False if_not_P)
    also have "\<dots> = buffer_at m a ! (length bs + (?i - length bs))" using assms(1) by (intro nth_drop) simp
    also have "\<dots> = buffer_at m a ! ?i" by (simp only: le_add_diff_inverse [OF i(1)])
    also have "\<dots> = m x" using i(3) e by (simp add: buffer_at_def)
    finally show ?thesis .
  next
    case False
    then show ?thesis using m'(3) l by auto
  qed
  ultimately show ?thesis using m'(1) by blast
qed

text \<open>Copying between ranges that do not overlap.\<close>

lemma copy_mem_apart:
  assumes "unat dst + n \<le> MAPPED" and "unat src + n \<le> MAPPED" and "unat dst + n \<le> unat src \<or> unat src + n \<le> unat dst"
  shows "\<exists>m'. copy_mem m dst src n = Some m' \<and> (\<forall>i < n. m' (dst + of_nat i) = m (src + of_nat i)) \<and>
    (\<forall>x. \<not> (unat dst \<le> unat x \<and> unat x < unat dst + n) \<longrightarrow> m' x = m x)"
proof -
  have u: "unat (dst + of_nat i) = unat dst + i" "unat (src + of_nat i) = unat src + i" if "i < n" for i
    using unat_u32_offset [of _ n i] assms(1,2) that by (simp_all add: MAPPED_def)
  define f where "f k = fold (\<lambda>i m. m(dst + of_nat i := m (src + of_nat i))) [0..<k] m" for k
  have f: "f 0 = m" "f (Suc k) = (f k)(dst + of_nat k := f k (src + of_nat k))" for k by (simp_all add: f_def)
  have "(\<forall>i < k. f k (dst + of_nat i) = m (src + of_nat i)) \<and>
      (\<forall>x. \<not> (unat dst \<le> unat x \<and> unat x < unat dst + k) \<longrightarrow> f k x = m x)" if "k \<le> n" for k
    using that
  proof (induction k)
    case (Suc k)
    then have IH: "\<forall>i < k. f k (dst + of_nat i) = m (src + of_nat i)"
      "\<forall>x. \<not> (unat dst \<le> unat x \<and> unat x < unat dst + k) \<longrightarrow> f k x = m x" by auto
    have k: "k < n" using Suc.prems by simp
    have "\<not> (unat dst \<le> unat (src + of_nat k) \<and> unat (src + of_nat k) < unat dst + k)" using u(2) [OF k] assms(3) k by auto
    then have fk: "f (Suc k) = (f k)(dst + of_nat k := m (src + of_nat k))" using IH(2) f(2) by simp
    have "dst + of_nat i \<noteq> dst + of_nat k" if "i < k" for i
    proof
      assume "dst + of_nat i = dst + of_nat k"
      then have "unat (dst + of_nat i) = unat (dst + of_nat k)" by simp
      then show False using u(1) [of i] u(1) [OF k] that k by simp
    qed
    then have "\<forall>i < Suc k. f (Suc k) (dst + of_nat i) = m (src + of_nat i)" unfolding fk using IH(1) by (auto simp: less_Suc_eq)
    moreover have "\<forall>x. \<not> (unat dst \<le> unat x \<and> unat x < unat dst + Suc k) \<longrightarrow> f (Suc k) x = m x"
      unfolding fk using IH(2) u(1) [OF k] by auto
    ultimately show ?case by blast
  qed (simp add: f(1))
  from this [of n] show ?thesis using assms by (simp add: copy_mem_def f_def)
qed

section \<open>The transfer buffer\<close>

text \<open>The bytes a call may write on the heap: the headers of the blocks while the buffer is allocated, and the buffer.\<close>

definition heap_area :: "nat \<Rightarrow> blk list \<Rightarrow> nat \<Rightarrow> nat set" where
  "heap_area a bs r = hdrs a bs \<union> {r..<r + 65536}"

lemma transfer_buffer_new:
  assumes hr: "heap_repr m a bs" and ff: "first_fit a 65536 bs = Some (r, bs')" and top: "a + hsize bs \<le> MAPPED"
  shows "\<exists>m1. operator_new \<lparr>first_chunk = of_nat a\<rparr> m 65536 = Some (of_nat r, m1) \<and> heap_repr m1 a bs' \<and>
      (\<forall>x. unat x \<notin> hdrs a bs' \<longrightarrow> m1 x = m x)"
    and "unat (of_nat r :: u32) = r" "0 < r" "r + 65536 \<le> MAPPED" "x \<in> hdrs a bs' \<Longrightarrow> \<not> (r \<le> x \<and> x < r + 65536)"
proof -
  obtain s where lv: "(r, s) \<in> live a bs'" "65536 \<le> s" using first_fit_live [OF ff] by auto
  have b: "a + 13 \<le> r" "r + s \<le> a + hsize bs" using live_bounds [OF lv(1)] first_fit_size [OF ff] by simp_all
  show "0 < r" "r + 65536 \<le> MAPPED" using b lv(2) top by linarith+
  then show "unat (of_nat r :: u32) = r" by (intro unat_u32_of_nat) (simp add: MAPPED_def)
  show "x \<in> hdrs a bs' \<Longrightarrow> \<not> (r \<le> x \<and> x < r + 65536)" using live_no_header [OF lv(1)] lv(2) by fastforce
  obtain m1 where m1: "operator_new \<lparr>first_chunk = of_nat a\<rparr> m (of_nat 65536) = Some (of_nat r, m1)" "heap_repr m1 a bs'"
    "\<forall>x < 4294967296. x \<notin> hdrs a bs' \<longrightarrow> m1 (of_nat x) = m (of_nat x)"
    using buffer_new [OF hr _ ff] by auto
  have "m1 x = m x" if "unat x \<notin> hdrs a bs'" for x
    using m1(3) [rule_format, OF _ that] unat_u32_lt [of x] by simp
  then show "\<exists>m1. operator_new \<lparr>first_chunk = of_nat a\<rparr> m 65536 = Some (of_nat r, m1) \<and> heap_repr m1 a bs' \<and>
      (\<forall>x. unat x \<notin> hdrs a bs' \<longrightarrow> m1 x = m x)" using m1(1,2) by auto
qed

lemma transfer_buffer_delete:
  assumes hr: "heap_repr m a bs" "heap_repr m1 a bs'" and ff: "first_fit a 65536 bs = Some (r, bs')"
    and eq: "\<And>x. unat x \<in> hdrs a bs' \<Longrightarrow> m2 x = m1 x"
  shows "heap_repr (operator_delete m2 (of_nat r)) a bs" "unat x \<notin> hdrs a bs' \<Longrightarrow> operator_delete m2 (of_nat r) x = m2 x"
proof -
  have "a + hsize bs' < 4294967296" "merged bs" using hr by (simp_all add: heap_repr_def)
  then have "m2 (of_nat x) = m1 (of_nat x)" if "x \<in> hdrs a bs'" for x
    using eq [of "of_nat x"] that hdrs_bounds [OF that] by (simp add: unat_u32_of_nat)
  then have h2: "heap_repr m2 a bs'" using heap_repr_cong [OF hr(2)] by blast
  have mg: "merged bs" using hr(1) by (simp add: heap_repr_def)
  show "heap_repr (operator_delete m2 (of_nat r)) a bs" by (rule buffer_delete(1) [OF h2 ff mg])
  show "unat x \<notin> hdrs a bs' \<Longrightarrow> operator_delete m2 (of_nat r) x = m2 x"
    using buffer_delete(2) [OF h2 ff mg, of "unat x"] unat_u32_lt [of x] by simp
qed

text \<open>Reading a file into the transfer buffer.\<close>

definition reads_as :: "fat32 \<Rightarrow> u8 list \<Rightarrow> u8 list \<Rightarrow> u32 \<Rightarrow> bool" where
  "reads_as fs p bs sz \<longleftrightarrow> unat sz \<le> length bs \<and>
     (\<forall>out. length bs \<le> length out \<and> length out < 4294967296 \<longrightarrow> ReadFile fs p out = Some (Some (bs @ drop (length bs) out, sz)))"

lemma read_to_buffer:
  assumes "reads_as fs p bs sz" and "unat b + length bs \<le> MAPPED" and "unat b < MAPPED"
  shows "\<exists>m'. read_to fs p b m = Some (Some (m', sz)) \<and> (\<forall>i < length bs. m' (b + of_nat i) = bs ! i) \<and>
    (\<forall>x. \<not> (unat b \<le> unat x \<and> unat x < unat b + length bs) \<longrightarrow> m' x = m x)"
proof -
  have "length bs \<le> length (buffer_at m b)" "length (buffer_at m b) < 4294967296" using assms by (auto simp: MAPPED_def)
  then have "ReadFile fs p (buffer_at m b) = Some (Some (bs @ drop (length bs) (buffer_at m b), sz))"
    using assms(1) unfolding reads_as_def by blast
  then show ?thesis using store_buffer [OF assms(2,3), of m] by (auto simp: read_to_def)
qed

lemma copy_mem_disjoint:
  assumes "n = 0 \<or> unat dst + n \<le> MAPPED \<and> unat src + n \<le> MAPPED \<and> (unat dst + n \<le> unat src \<or> unat src + n \<le> unat dst)"
  shows "\<exists>m'. copy_mem m dst src n = Some m' \<and> (\<forall>i < n. m' (dst + of_nat i) = m (src + of_nat i)) \<and>
    (\<forall>x. \<not> (unat dst \<le> unat x \<and> unat x < unat dst + n) \<longrightarrow> m' x = m x)"
proof (cases "n = 0")
  case True
  then show ?thesis by (simp add: copy_mem_def)
next
  case False
  then show ?thesis using assms copy_mem_apart by blast
qed

lemma u32_in_range: "i < n \<Longrightarrow> unat (a :: u32) + n \<le> MAPPED \<Longrightarrow> unat (a + of_nat i) = unat a + i"
  by (rule unat_u32_offset [of a n i]) (simp_all add: MAPPED_def)

text \<open>The state around a read call: the heap, and a path and an output range that lie apart from what the heap will write.\<close>

definition transfer_ready :: "kernel \<Rightarrow> mem \<Rightarrow> nat \<Rightarrow> blk list \<Rightarrow> nat \<Rightarrow> blk list \<Rightarrow> bool" where
  "transfer_ready k m a bs r bs' \<longleftrightarrow> get_mem k = Some m \<and> k_heap k = \<lparr>first_chunk = of_nat a\<rparr> \<and> heap_repr m a bs \<and>
     first_fit a 65536 bs = Some (r, bs') \<and> a + hsize bs \<le> MAPPED"

definition string_at :: "mem \<Rightarrow> u32 \<Rightarrow> u8 list \<Rightarrow> nat set \<Rightarrow> bool" where
  "string_at m a p avoid \<longleftrightarrow> cstring m a = Some p \<and> (\<forall>i \<le> length p. unat (a + of_nat i) \<notin> avoid)"

lemma string_at_cong:
  "string_at m a p A \<Longrightarrow> (\<And>x. unat x \<notin> A \<Longrightarrow> m' x = m x) \<Longrightarrow> cstring m' a = Some p"
  by (rule cstring_cong [of m]) (auto simp: string_at_def)

lemma sys_readfile_reads:
  assumes k: "transfer_ready k m a hb r hb'" "k_fat32 k = Some fs" and path: "IsRing3Range path 1" "string_at m path p (heap_area a hb' r)"
    and f: "reads_as fs p bs sz" "length bs \<le> 65536" and out: "unat mx \<le> 65536" "IsRing3Range out mx"
    and n: "n = (if sz > mx then mx else sz)" and av: "\<forall>j < unat n. unat out + j \<notin> heap_area a hb' r"
  shows "\<exists>k' m'. sys_readfile path out mx k = Some (n, k') \<and> get_mem k' = Some m' \<and> k_fat32 k' = Some fs \<and> heap_repr m' a hb \<and>
    (\<forall>j < unat n. m' (out + of_nat j) = bs ! j) \<and>
    (\<forall>x. unat x \<notin> heap_area a hb' r \<and> \<not> (unat out \<le> unat x \<and> unat x < unat out + unat n) \<longrightarrow> m' x = m x)"
proof -
  have hr: "heap_repr m a hb" "first_fit a 65536 hb = Some (r, hb')" "a + hsize hb \<le> MAPPED" and km: "get_mem k = Some m" "k_heap k = \<lparr>first_chunk = of_nat a\<rparr>"
    using k(1) by (simp_all add: transfer_ready_def)
  note t = transfer_buffer_new(2-5) [OF hr]
  obtain m1 where m1: "operator_new \<lparr>first_chunk = of_nat a\<rparr> m 65536 = Some (of_nat r, m1)" "heap_repr m1 a hb'"
    "\<forall>x. unat x \<notin> hdrs a hb' \<longrightarrow> m1 x = m x" using transfer_buffer_new(1) [OF hr] by blast
  have p1: "cstring m1 path = Some p" using m1(3) by (intro string_at_cong [OF path(2)]) (simp add: heap_area_def)
  have nn: "unat n \<le> unat mx" "unat n \<le> length bs" using n f(1) by (auto simp: word_less_nat_alt reads_as_def)
  obtain m2 where m2: "read_to fs p (of_nat r) m1 = Some (Some (m2, sz))" "\<forall>i < length bs. m2 (of_nat r + of_nat i) = bs ! i"
    "\<forall>x. \<not> (r \<le> unat x \<and> unat x < r + length bs) \<longrightarrow> m2 x = m1 x"
    using read_to_buffer [OF f(1), of "of_nat r" m1] t f(2) by auto
  have o: "unat out + unat n \<le> MAPPED \<or> unat n = 0" using out(2) nn(1) by (auto simp: ring3_range_iff MAPPED_def)
  have ap: "unat out + unat n \<le> r \<or> r + unat n \<le> unat out \<or> unat n = 0"
  proof (rule ccontr)
    assume c: "\<not> (unat out + unat n \<le> r \<or> r + unat n \<le> unat out \<or> unat n = 0)"
    have "r \<le> unat out + (r - unat out) \<and> unat out + (r - unat out) < r + 65536" "r - unat out < unat n" using c nn f(2) by linarith+
    then show False using av by (auto simp: heap_area_def)
  qed
  have cp: "unat n = 0 \<or> unat out + unat n \<le> MAPPED \<and> unat (of_nat r :: u32) + unat n \<le> MAPPED \<and>
      (unat out + unat n \<le> unat (of_nat r :: u32) \<or> unat (of_nat r :: u32) + unat n \<le> unat out)"
    unfolding t(1) using t(3) o ap nn f(2) by linarith
  obtain m3 where m3: "copy_mem m2 out (of_nat r) (unat n) = Some m3" "\<forall>i < unat n. m3 (out + of_nat i) = m2 (of_nat r + of_nat i)"
    "\<forall>x. \<not> (unat out \<le> unat x \<and> unat x < unat out + unat n) \<longrightarrow> m3 x = m2 x"
    using copy_mem_disjoint [of "unat n" out "of_nat r" m2] cp by blast
  have h3: "m3 x = m1 x" if x: "unat x \<in> hdrs a hb'" for x
  proof -
    have "\<not> (unat out \<le> unat x \<and> unat x < unat out + unat n)"
    proof
      assume i: "unat out \<le> unat x \<and> unat x < unat out + unat n"
      then have "unat x - unat out < unat n" by linarith
      then have "unat out + (unat x - unat out) \<notin> heap_area a hb' r" using av by blast
      then show False using i x by (simp add: heap_area_def)
    qed
    then show ?thesis using m3(3) m2(3) t(4) [OF x] f(2) by auto
  qed
  let ?m' = "operator_delete m3 (of_nat r)"
  note d = transfer_buffer_delete [OF hr(1) m1(2) hr(2) h3]
  have "(of_nat r :: u32) \<noteq> 0" using t(1,2) by (metis unat_0 less_irrefl)
  then have run: "sys_readfile path out mx k = Some (n, put_mem ?m' k)"
    using k(2) out path km m1(1) p1 m2(1) m3(1) n by (simp add: sys_readfile_def word_less_nat_alt)
  have "?m' (out + of_nat j) = bs ! j" if j: "j < unat n" for j
  proof -
    have "unat (out + of_nat j) = unat out + j" using o j by (intro u32_in_range [of j "unat n"]) auto
    moreover have "unat out + j \<notin> hdrs a hb'" using av j by (simp add: heap_area_def)
    ultimately have "?m' (out + of_nat j) = m3 (out + of_nat j)" using d(2) [of "out + of_nat j"] by simp
    then show ?thesis using m3(2) m2(2) j nn(2) by simp
  qed
  moreover have "?m' x = m x" if x: "unat x \<notin> heap_area a hb' r" "\<not> (unat out \<le> unat x \<and> unat x < unat out + unat n)" for x
    using d(2) [of x] m3(3) m2(3) m1(3) x f(2) by (auto simp: heap_area_def)
  ultimately show ?thesis using run d(1) k(2) get_mem_sched [OF km(1)] by (intro exI [of _ "put_mem ?m' k"] exI [of _ ?m']) simp
qed

section \<open>Writing and reading a file\<close>

lemma root_file_reads_as:
  assumes "root_ok fs cs" and "root_name p" and "root_file fs cs (ToShortName p) data"
  shows "\<exists>bs. reads_as fs p bs (of_nat (length data)) \<and> length bs < length data + unat (cluster_size fs) \<and> take (length data) bs = data"
    "unat (of_nat (length data) :: u32) = length data"
proof -
  obtain e where "unat (de_size e) = length data" using assms(3) by (auto simp: root_file_def file_entry_def)
  then have "length data < 4294967296" using unat_u32_lt [of "de_size e"] by simp
  then show u: "unat (of_nat (length data) :: u32) = length data" by (rule unat_u32_of_nat)
  show "\<exists>bs. reads_as fs p bs (of_nat (length data)) \<and> length bs < length data + unat (cluster_size fs) \<and> take (length data) bs = data"
    unfolding reads_as_def u using ReadFile_root [OF assms] by blast
qed

text \<open>C34: What a process writes to a new file with one call it reads back with another. The write call takes a path and data from
  the caller's memory, changes no byte of memory, and returns 0, or -1 when no cluster is left. After a 0, the read call
  returns the smaller of the size and the caller's limit; the output range then holds exactly that many bytes of the
  data, the heap is as before with the transfer buffer freed again, and outside the output range and the heap no byte has
  changed. The file with its last cluster has to fit the 64 KiB transfer buffer, and path and output have
  to lie outside what the heap writes.\<close>

theorem file_calls_round_trip:
  assumes k: "transfer_ready k m a hb r hb'" "k_fat32 k = Some fs" "root_ok fs cs"
    and path: "IsRing3Range path 1" "string_at m path p (heap_area a hb' r)" "root_name p" "FindEntry fs (root_cluster fs) p = Some None"
    and data: "IsRing3Range data len" "0 < unat len" "unat len + unat (cluster_size fs) \<le> 65536"
    and out: "unat mx \<le> 65536" "IsRing3Range out mx" "n = (if len > mx then mx else len)" "\<forall>j < unat n. unat out + j \<notin> heap_area a hb' r"
  shows "\<exists>res k1 fs1 ds. sys_writefile path data len k = Some (res, k1) \<and> get_mem k1 = Some m \<and> k_fat32 k1 = Some fs1 \<and> root_ok fs1 ds \<and>
    (\<forall>nm d. root_file fs cs nm d \<longrightarrow> root_file fs1 ds nm d) \<and>
    (if res = 0
     then \<exists>k2 m2. sys_readfile path out mx k1 = Some (n, k2) \<and> get_mem k2 = Some m2 \<and> heap_repr m2 a hb \<and>
       (\<forall>j < unat n. m2 (out + of_nat j) = m (data + of_nat j)) \<and>
       (\<forall>x. unat x \<notin> heap_area a hb' r \<and> \<not> (unat out \<le> unat x \<and> unat x < unat out + unat n) \<longrightarrow> m2 x = m x)
     else res = -1 \<and> full fs1)"
proof -
  have dl: "unat data + unat len \<le> MAPPED" using data(1,2) by (auto simp: ring3_range_iff MAPPED_def)
  have km: "get_mem k = Some m" using k(1) by (simp add: transfer_ready_def)
  have sl: "unat len \<le> length (buffer_at m data)" using dl by simp
  have new: "lookup (ToShortName p) (dir_list fs cs) = None" using path(4) root_FindEntry [OF k(3)] by simp
  let ?d = "take (unat len) (buffer_at m data)"
  have ld: "length ?d = unat len" using sl by simp
  obtain ok fs1 ds where w: "WriteFile p (buffer_at m data) len fs = Some (ok, fs1)" "root_ok fs1 ds" "same_volume fs fs1"
    "\<forall>nm d. root_file fs cs nm d \<longrightarrow> root_file fs1 ds nm d"
    "if ok then root_file fs1 ds (ToShortName p) ?d else full fs1 \<and> dir_list fs1 ds = dir_list fs cs"
    using WriteFile_root [OF k(3) path(3) new data(2) sl] by blast
  have run: "sys_writefile path data len k = Some (if ok then 0 else -1, put_fat32 fs1 k)"
    using k(2) path data(1) km w(1) by (simp add: sys_writefile_def string_at_def)
  show ?thesis
  proof (cases ok)
    case True
    obtain bs where bs: "reads_as fs1 p bs len" "length bs < unat len + unat (cluster_size fs1)" "take (unat len) bs = ?d"
      using root_file_reads_as(1) [OF w(2) path(3), of ?d] w(5) True unfolding ld by auto
    have lb: "length bs \<le> 65536" using bs(2) data(3) same_volume_fields(6) [OF w(3)] by simp
    have k1: "transfer_ready (put_fat32 fs1 k) m a hb r hb'" "k_fat32 (put_fat32 fs1 k) = Some fs1"
      using k(1) by (simp_all add: transfer_ready_def)
    have n: "unat n \<le> unat len" using out(3) by (auto simp: word_less_nat_alt)
    have b: "bs ! j = m (data + of_nat j)" if j: "j < unat n" for j
    proof -
      have "bs ! j = take (unat len) bs ! j" using j n by simp
      also have "\<dots> = m (data + of_nat j)" unfolding bs(3) buffer_at_take [OF dl] using j n by simp
      finally show ?thesis .
    qed
    show ?thesis using run True km b w(2,4) sys_readfile_reads [OF k1 path(1,2) bs(1) lb out]
      by (intro exI [of _ 0] exI [of _ "put_fat32 fs1 k"] exI [of _ fs1] exI [of _ ds]) auto
  next
    case False
    then show ?thesis using run km w(2,4,5) by (intro exI [of _ "-1"] exI [of _ "put_fat32 fs1 k"] exI [of _ fs1] exI [of _ ds]) simp
  qed
qed

text \<open>A kernel with an empty heap at 2 MiB and a name in the memory of the process.\<close>

definition user_mem :: mem where
  "user_mem = (\<lambda>x. if x = 0x400000 then 0x61 else if x = 0x400100 then 0x42 else 0)"

definition file_mem :: mem where
  "file_mem = snd (MemoryManager_new user_mem 0x200000 0x100000)"

lemma file_mem_user: "0x20000D \<le> unat x \<Longrightarrow> file_mem x = user_mem x"
proof -
  assume x: "0x20000D \<le> unat x"
  have o: "outside 0x200000 (unat x)" using x by (simp add: outside_def)
  have "of_nat (unat x) = x" by simp
  then show ?thesis using set_outside [OF o]
    by (simp add: file_mem_def MemoryManager_new_def Let_def)
qed

lemma file_mem_kernel:
  "transfer_ready (demo_kernel file_mem) file_mem 0x200000 [(False, 0xFFFF3)] 0x20000D [(True, 65536), (False, 0xEFFE6)]"
proof -
  have "heap_repr (snd (MemoryManager_new user_mem (of_nat 0x200000) (of_nat 0x100000))) 0x200000 [(False, 0x100000 - 13)]"
    by (rule heap_repr_new) simp_all
  then have "heap_repr file_mem 0x200000 [(False, 0xFFFF3)]" by (simp add: file_mem_def)
  moreover have "get_mem (demo_kernel file_mem) = Some file_mem" by (rule demo_kernel_sched(2))
  moreover have "k_heap (demo_kernel file_mem) = \<lparr>first_chunk = of_nat 0x200000\<rparr>" by (simp add: demo_kernel_def)
  moreover have "first_fit 0x200000 65536 [(False, 0xFFFF3)] = Some (0x20000D, [(True, 65536), (False, 0xEFFE6)])" by simp
  moreover have "0x200000 + hsize [(False, 0xFFFF3)] \<le> MAPPED" by (simp add: MAPPED_def)
  ultimately show ?thesis unfolding transfer_ready_def by blast
qed

lemma file_mem_area: "0x400000 \<le> x \<Longrightarrow> x \<notin> heap_area 0x200000 [(True, 65536), (False, 0xEFFE6)] 0x20000D"
  by (simp add: heap_area_def)

lemma file_mem_name: "string_at file_mem 0x400000 [0x61] (heap_area 0x200000 [(True, 65536), (False, 0xEFFE6)] 0x20000D)"
proof -
  have "file_mem 0x400000 = 0x61" "file_mem 0x400001 = 0" by (simp_all add: file_mem_user user_mem_def)
  then have "cstring file_mem 0x400000 = Some [0x61]"
    unfolding cstring.simps [of _ "0x400000"] cstring.simps [of _ "0x400000 + 1"] by (simp add: MAPPED_def)
  moreover have "unat (0x400000 + of_nat i :: u32) = 0x400000 + i" if "i \<le> 1" for i
    using unat_u32_offset [of "0x400000" 2 i] that by simp
  ultimately show ?thesis using file_mem_area by (simp add: string_at_def)
qed

lemma formatted_root: "root_ok formatted [2]" "FindEntry formatted (root_cluster formatted) [0x61] = Some None" "root_name [0x61]"
proof -
  have z: "\<forall>x \<in> set (dir_list formatted [2]). x ! 0 = 0" by (simp add: formatted(3))
  show "root_ok formatted [2]" using formatted(1,2,5) tidy_zeros [OF z] by (simp add: root_ok_def)
  show "FindEntry formatted (root_cluster formatted) [0x61] = Some None"
    using FindEntry_ok [OF formatted(1,2)] tidy_zeros [OF z] formatted(5) by simp
  show "root_name [0x61]" by (simp add: root_name_def)
qed

theorem file_calls_round_trip_witness:
  "\<exists>res k1 fs1. sys_writefile 0x400000 0x400100 2 (demo_kernel file_mem) = Some (res, k1) \<and> k_fat32 k1 = Some fs1 \<and>
    (if res = 0 then \<exists>k2 m2. sys_readfile 0x400000 0x400200 10 k1 = Some (2, k2) \<and> get_mem k2 = Some m2 \<and> m2 0x400200 = 0x42
     else res = -1 \<and> full fs1)"
proof -
  have fs: "k_fat32 (demo_kernel file_mem) = Some formatted" by (simp add: demo_kernel_def)
  have ranges: "IsRing3Range 0x400000 1" "IsRing3Range 0x400100 2" "IsRing3Range 0x400200 10" by (simp_all add: ring3_range_iff)
  have len: "0 < unat (2 :: u32)" "unat (2 :: u32) + unat (cluster_size formatted) \<le> 65536" "unat (10 :: u32) \<le> 65536"
    by (simp_all add: formatted(4))
  have n: "2 = (if (2 :: u32) > 10 then 10 else 2 :: u32)" by simp
  have av: "\<forall>j < unat (2 :: u32). unat (0x400200 :: u32) + j \<notin> heap_area 0x200000 [(True, 65536), (False, 0xEFFE6)] 0x20000D"
    using file_mem_area by simp
  have z: "0 < unat (2 :: u32)" "(0x400200 :: u32) + of_nat 0 = 0x400200" "file_mem ((0x400100 :: u32) + of_nat 0) = 0x42"
    by (simp_all add: file_mem_user user_mem_def)
  obtain res k1 fs1 where r: "sys_writefile 0x400000 0x400100 2 (demo_kernel file_mem) = Some (res, k1)" "k_fat32 k1 = Some fs1"
    "if res = 0
     then \<exists>k2 m2. sys_readfile 0x400000 0x400200 10 k1 = Some (2, k2) \<and> get_mem k2 = Some m2 \<and>
       (\<forall>j < unat (2 :: u32). m2 (0x400200 + of_nat j) = file_mem (0x400100 + of_nat j))
     else res = -1 \<and> full fs1"
    using file_calls_round_trip [OF file_mem_kernel fs formatted_root(1) ranges(1) file_mem_name formatted_root(3,2) ranges(2)
        len(1,2,3) ranges(3) n av] by (auto split: if_splits)
  have "\<exists>k2 m2. sys_readfile 0x400000 0x400200 10 k1 = Some (2, k2) \<and> get_mem k2 = Some m2 \<and> m2 0x400200 = 0x42" if "res = 0"
    using r(3) that z by (metis (no_types, lifting))
  then show ?thesis using r by (intro exI [of _ res] exI [of _ k1] exI [of _ fs1]) (simp split: if_splits)
qed

section \<open>Copying a file\<close>

lemma copy_file_copies:
  assumes k: "transfer_ready k m a hb r hb'" and fs: "root_ok fs cs"
    and f: "root_file fs cs (ToShortName p) data" "0 < length data" "length data + unat (cluster_size fs) \<le> 65536" "root_name p"
    and q: "root_name q" "lookup (ToShortName q) (dir_list fs cs) = None"
    and path: "string_at m src p (heap_area a hb' r)" "string_at m dst q (heap_area a hb' r)"
  shows "\<exists>ok fs1 ds m'. copy_file fs src dst k = Some (ok, put_fat32 fs1 (put_mem m' k)) \<and> heap_repr m' a hb \<and>
    (\<forall>x. unat x \<notin> heap_area a hb' r \<longrightarrow> m' x = m x) \<and> root_ok fs1 ds \<and> (\<forall>nm d. root_file fs cs nm d \<longrightarrow> root_file fs1 ds nm d) \<and>
    (if ok then root_file fs1 ds (ToShortName q) data else full fs1)"
proof -
  have hr: "heap_repr m a hb" "first_fit a 65536 hb = Some (r, hb')" "a + hsize hb \<le> MAPPED" and km: "get_mem k = Some m" "k_heap k = \<lparr>first_chunk = of_nat a\<rparr>"
    using k by (simp_all add: transfer_ready_def)
  define sz :: u32 where "sz = of_nat (length data)"
  have sz: "unat sz = length data" unfolding sz_def by (rule root_file_reads_as(2) [OF fs f(4,1)])
  obtain bs where bs: "reads_as fs p bs sz" "length bs < length data + unat (cluster_size fs)" "take (unat sz) bs = data"
    using root_file_reads_as(1) [OF fs f(4,1)] unfolding sz by (auto simp: sz_def)
  have lb: "length bs \<le> 65536" "unat sz \<le> length bs" using bs f(3) by (simp_all add: reads_as_def)
  note t = transfer_buffer_new(2-5) [OF hr]
  obtain m1 where m1: "operator_new \<lparr>first_chunk = of_nat a\<rparr> m 65536 = Some (of_nat r, m1)" "heap_repr m1 a hb'"
    "\<forall>x. unat x \<notin> hdrs a hb' \<longrightarrow> m1 x = m x" using transfer_buffer_new(1) [OF hr] by blast
  obtain m2 where m2: "read_to fs p (of_nat r) m1 = Some (Some (m2, sz))" "\<forall>i < length bs. m2 (of_nat r + of_nat i) = bs ! i"
    "\<forall>x. \<not> (r \<le> unat x \<and> unat x < r + length bs) \<longrightarrow> m2 x = m1 x"
    using read_to_buffer [OF bs(1), of "of_nat r" m1] t lb(1) by auto
  have out: "m1 x = m x" "m2 x = m x" if "unat x \<notin> heap_area a hb' r" for x
    using m1(3) m2(3) lb(1) that by (auto simp: heap_area_def)
  have p1: "cstring m1 src = Some p" by (rule string_at_cong [OF path(1) out(1)])
  have p2: "cstring m2 dst = Some q" by (rule string_at_cong [OF path(2) out(2)])
  have sb: "unat (of_nat r :: u32) + unat sz \<le> MAPPED" unfolding t(1) using t(3) lb by linarith
  have tk: "take (unat sz) (buffer_at m2 (of_nat r)) = data"
    unfolding buffer_at_take [OF sb] bs(3) [symmetric] using m2(2) lb(2) by (intro nth_equalityI) simp_all
  have sl: "unat sz \<le> length (buffer_at m2 (of_nat r))" "0 < unat sz" using sb sz f(2) by simp_all
  obtain ok fs1 ds where w: "WriteFile q (buffer_at m2 (of_nat r)) sz fs = Some (ok, fs1)" "root_ok fs1 ds"
    "\<forall>nm d. root_file fs cs nm d \<longrightarrow> root_file fs1 ds nm d"
    "if ok then root_file fs1 ds (ToShortName q) data else full fs1 \<and> dir_list fs1 ds = dir_list fs cs"
    using WriteFile_root [OF fs q sl(2,1)] unfolding tk by blast
  have h2: "m2 x = m1 x" if "unat x \<in> hdrs a hb'" for x using m2(3) t(4) [OF that] lb(1) by auto
  note d = transfer_buffer_delete [OF hr(1) m1(2) hr(2) h2]
  have "(of_nat r :: u32) \<noteq> 0" using t(1,2) by (metis unat_0 less_irrefl)
  then have "copy_file fs src dst k = Some (ok, put_fat32 fs1 (put_mem (operator_delete m2 (of_nat r)) k))"
    using km m1(1) p1 m2(1) p2 w(1) by (simp add: copy_file_def)
  moreover have "operator_delete m2 (of_nat r) x = m x" if "unat x \<notin> heap_area a hb' r" for x
    using d(2) [of x] out(2) [OF that] that by (simp add: heap_area_def)
  moreover have "if ok then root_file fs1 ds (ToShortName q) data else full fs1" using w(4) by (simp split: if_splits)
  ultimately show ?thesis using d(1) w(2,3) by blast
qed

text \<open>C35: Copying a file adds a second file with the same contents. For a file that fits the 64 KiB transfer buffer with its last
  cluster, and a name that is not taken, the copy call returns 0, or -1 when no cluster is left. The source and
  every other file keep their contents; after a 0 the new name is a file with the contents of the source. The heap is as
  before with the transfer buffer freed, and outside the heap no byte of memory has changed.\<close>

theorem sys_cp_copies:
  assumes k: "transfer_ready k m a hb r hb'" "k_fat32 k = Some fs" "root_ok fs cs"
    and f: "root_file fs cs (ToShortName p) data" "0 < length data" "length data + unat (cluster_size fs) \<le> 65536" "root_name p"
    and q: "root_name q" "FindEntry fs (root_cluster fs) q = Some None"
    and path: "user_pointer src" "string_at m src p (heap_area a hb' r)" "user_pointer dst" "string_at m dst q (heap_area a hb' r)"
  shows "\<exists>res k' fs' ds m'. sys_cp src dst k = Some (res, k') \<and> k_fat32 k' = Some fs' \<and> get_mem k' = Some m' \<and> heap_repr m' a hb \<and>
    (\<forall>x. unat x \<notin> heap_area a hb' r \<longrightarrow> m' x = m x) \<and> root_ok fs' ds \<and> (\<forall>nm d. root_file fs cs nm d \<longrightarrow> root_file fs' ds nm d) \<and>
    (if res = 0 then root_file fs' ds (ToShortName q) data else res = -1 \<and> full fs')"
proof -
  have new: "lookup (ToShortName q) (dir_list fs cs) = None" using q(2) root_FindEntry [OF k(3)] by simp
  obtain ok fs1 ds m' where c: "copy_file fs src dst k = Some (ok, put_fat32 fs1 (put_mem m' k))" "heap_repr m' a hb"
    "\<forall>x. unat x \<notin> heap_area a hb' r \<longrightarrow> m' x = m x" "root_ok fs1 ds" "\<forall>nm d. root_file fs cs nm d \<longrightarrow> root_file fs1 ds nm d"
    "if ok then root_file fs1 ds (ToShortName q) data else full fs1"
    using copy_file_copies [OF k(1,3) f q(1) new path(2,4)] by blast
  have "get_mem k = Some m" using k(1) by (simp add: transfer_ready_def)
  then have g: "get_mem (put_fat32 fs1 (put_mem m' k)) = Some m'" using get_mem_sched by simp
  have "sys_cp src dst k = Some (if ok then 0 else -1, put_fat32 fs1 (put_mem m' k))"
    using k(2) path c(1) by (simp add: sys_cp_def)
  then show ?thesis using c(2-6) g
    by (intro exI [of _ "if ok then 0 else -1"] exI [of _ "put_fat32 fs1 (put_mem m' k)"] exI [of _ fs1] exI [of _ ds] exI [of _ m']) auto
qed

text \<open>A second name behind the first, and a disk with one file.\<close>

lemma file_mem_second: "string_at (file_mem(0x400010 := 0x62)) 0x400000 [0x61] (heap_area 0x200000 [(True, 65536), (False, 0xEFFE6)] 0x20000D)"
  "string_at (file_mem(0x400010 := 0x62)) 0x400010 [0x62] (heap_area 0x200000 [(True, 65536), (False, 0xEFFE6)] 0x20000D)"
proof -
  let ?m = "file_mem(0x400010 := 0x62)"
  have "?m 0x400000 = 0x61" "?m 0x400001 = 0" "?m 0x400010 = 0x62" "?m 0x400011 = 0" by (simp_all add: file_mem_user user_mem_def)
  then have c: "cstring ?m 0x400000 = Some [0x61]" "cstring ?m 0x400010 = Some [0x62]"
    unfolding cstring.simps [of _ "0x400000"] cstring.simps [of _ "0x400000 + 1"] cstring.simps [of _ "0x400010"] cstring.simps [of _ "0x400010 + 1"]
    by (simp_all add: MAPPED_def)
  have "unat (0x400000 + of_nat i :: u32) = 0x400000 + i" "unat (0x400010 + of_nat i :: u32) = 0x400010 + i" if "i \<le> 1" for i
    using unat_u32_offset [of "0x400000" 2 i] unat_u32_offset [of "0x400010" 2 i] that by simp_all
  then show "string_at ?m 0x400000 [0x61] (heap_area 0x200000 [(True, 65536), (False, 0xEFFE6)] 0x20000D)"
    "string_at ?m 0x400010 [0x62] (heap_area 0x200000 [(True, 65536), (False, 0xEFFE6)] 0x20000D)"
    using c file_mem_area by (simp_all add: string_at_def)
qed

theorem sys_cp_copies_witness:
  "\<exists>res k' fs' ds. sys_cp 0x400000 0x400010 ((demo_kernel (file_mem(0x400010 := 0x62)))\<lparr>k_fat32 := Some filed\<rparr>) = Some (res, k') \<and>
    k_fat32 k' = Some fs' \<and> root_ok fs' ds \<and> root_file fs' ds (ToShortName [0x61]) [0] \<and>
    (if res = 0 then root_file fs' ds (ToShortName [0x62]) [0] else res = -1 \<and> full fs')"
proof -
  let ?m = "file_mem(0x400010 := 0x62)" and ?hb = "[(False, 0xFFFF3)]" and ?hb' = "[(True, 65536), (False, 0xEFFE6)]"
  let ?k = "(demo_kernel ?m)\<lparr>k_fat32 := Some filed\<rparr>"
  have t: "heap_repr file_mem 0x200000 ?hb" "first_fit 0x200000 65536 ?hb = Some (0x20000D, ?hb')" "0x200000 + hsize ?hb \<le> MAPPED"
    using file_mem_kernel by (simp_all only: transfer_ready_def)
  have "heap_repr ?m 0x200000 ?hb" by (rule heap_repr_cong [OF t(1)]) (auto simp: u32_eq_iff_unat unat_u32_of_nat)
  moreover have "get_mem ?k = Some ?m" using demo_kernel_sched(2) [of ?m] by (simp add: get_mem_def get_sched_def)
  moreover have "k_heap ?k = \<lparr>first_chunk = of_nat 0x200000\<rparr>" by (simp add: demo_kernel_def)
  ultimately have tr: "transfer_ready ?k ?m 0x200000 ?hb 0x20000D ?hb'" using t(2,3) unfolding transfer_ready_def by blast
  obtain cs where cs: "root_ok filed cs" "root_file filed cs (ToShortName [0x61]) [0]"
    "\<forall>n. length n = 11 \<and> n \<noteq> ToShortName [0x61] \<longrightarrow> lookup n (dir_list filed cs) = None" using filed(1) by blast
  have "ToShortName [0x62] \<noteq> ToShortName [0x61]" by (simp add: ToShortName_eq short_name_def Let_def pad_def upcase_def)
  then have new: "FindEntry filed (root_cluster filed) [0x62] = Some None" using root_FindEntry [OF cs(1)] cs(3) by simp
  have r: "root_name [0x61]" "root_name [0x62]" "user_pointer 0x400000" "user_pointer 0x400010" "k_fat32 ?k = Some filed"
    by (simp_all add: root_name_def user_pointer_def)
  have l: "0 < length [0 :: u8]" "length [0 :: u8] + unat (cluster_size filed) \<le> 65536" by (simp_all add: filed(2))
  from sys_cp_copies [OF tr r(5) cs(1,2) l r(1,2) new r(3) file_mem_second(1) r(4) file_mem_second(2)]
  show ?thesis using cs(2) by blast
qed

end
