(* ===== verification/Syscall_Processes.thy ===== *)
theory Syscall_Processes
  imports Syscall_Files
begin

text \<open>
  The calls that end, wait for and start processes: the exit status of a process reaches the one that waits for it, and
  a started program is in memory, mapped for its process, and entered at its first byte.
\<close>

section \<open>Ending a process\<close>

text \<open>The table after the call: the caller is dead and those that waited for it are ready.\<close>

definition exited :: "nat \<Rightarrow> u32 \<Rightarrow> Scheduler \<Rightarrow> Scheduler" where
  "exited j code s = WakeParent (s\<lparr>processes := set_proc j (\<lambda>p. p\<lparr>p_exit_code := sint code, p_state := PROCESS_DEAD\<rparr>) (processes s)\<rparr>)
     (sint (p_pid (processes s ! j)))"

lemma exited_simps [simp]:
  "length (processes (exited j code s)) = length (processes s)" "current_index (exited j code s) = current_index s"
  "s_paging (exited j code s) = s_paging s"
  by (simp_all add: exited_def WakeParent_def)

lemma exited_nth:
  "i < length (processes s) \<Longrightarrow> processes (exited j code s) ! i =
     (if i = j then (processes s ! j)\<lparr>p_exit_code := sint code, p_state := PROCESS_DEAD\<rparr>
      else if p_state (processes s ! i) = PROCESS_BLOCKED \<and> p_wait_pid (processes s ! i) = sint (p_pid (processes s ! j))
      then (processes s ! i)\<lparr>p_state := PROCESS_READY, p_wait_pid := -1\<rparr> else processes s ! i)"
  by (simp add: exited_def WakeParent_def)

lemma exited_inv: "sched_inv s \<Longrightarrow> GetActive s = Some j \<Longrightarrow> sched_inv (exited j code s)"
  by (auto simp: sched_inv_def exited_nth split: if_splits)

lemma sys_exit_eq:
  assumes "get_sched k = Some s" and "GetActive s = Some j" and "j < length (processes s)"
  shows "sys_exit code esp k = (let (esp', s') = Schedule (exited j code s) esp in Some (esp', put_sched s' k))"
  using assms by (simp add: sys_exit_def exited_def Let_def)

lemma FindProcess_pids:
  assumes "map p_pid (processes s') = map p_pid (processes s)"
  shows "FindProcess s' pid = FindProcess s pid"
proof -
  have l: "length (processes s') = length (processes s)" using assms by (metis length_map)
  have "p_pid (processes s' ! i) = p_pid (processes s ! i)" if "i < length (processes s)" for i
    using arg_cong [OF assms, of "\<lambda>xs. xs ! i"] that l by simp
  then show ?thesis unfolding FindProcess_def l by (intro find_cong) auto
qed

lemma switched_keeps:
  assumes g: "\<And>p st. g (p\<lparr>p_state := st\<rparr>) = g p" "\<And>p c. g (p\<lparr>p_cpu := c\<rparr>) = g p" and i: "i < length (processes s)"
  shows "g (processes (switched s esp n) ! i) = g (processes s ! i)"
proof -
  have k: "g (set_proc n f ps ! i) = g (ps ! i)" if "\<And>p. g (f p) = g p" "i < length ps" for f n ps
    using that by (cases "i = n") simp_all
  have "g (processes (switched s esp n) ! i) = g (requeued s esp ! i)"
    using k [of "\<lambda>p. p\<lparr>p_state := PROCESS_RUNNING\<rparr>" "requeued s esp" n] g(1) i by (simp add: switched_def)
  also have "\<dots> = g (processes s ! i)" unfolding requeued_def using k [of "\<lambda>p. p\<lparr>p_state := PROCESS_READY, p_cpu := (p_cpu p)\<lparr>c_esp := esp\<rparr>\<rparr>"] i g by simp
  finally show ?thesis .
qed

lemma switched_fields:
  assumes "i < length (processes s)"
  shows "p_pid (processes (switched s esp n) ! i) = p_pid (processes s ! i)"
    "p_exit_code (processes (switched s esp n) ! i) = p_exit_code (processes s ! i)"
    "p_wait_pid (processes (switched s esp n) ! i) = p_wait_pid (processes s ! i)"
    "pg_phys (s_paging (switched s esp n)) = pg_phys (s_paging s)"
  using assms by (simp_all add: switched_keeps) (simp add: switched_def SwitchDirectory_def split: option.split)

lemma rd32_bytes:
  assumes "\<And>i. i < 4 \<Longrightarrow> m (a + of_nat i) = put32 v ! i"
  shows "rd32 m a = v"
  using assms [of 0] assms [of 1] assms [of 2] assms [of 3]
  by (simp add: rd32_def put32_def le32_byte_of [simplified])


definition family :: Scheduler where
  "family = (demo_sched PROCESS_RUNNING)\<lparr>processes :=
     [demo_proc 2 PROCESS_RUNNING 0x2222, (demo_proc 1 PROCESS_BLOCKED 0x1111)\<lparr>p_wait_pid := 2\<rparr>]\<rparr>"


section \<open>Who wakes a blocked process\<close>

text \<open>What can happen to the process table while a call waits: a timer interrupt, a line typed, an exit of the process that
  runs, a new process.\<close>

inductive sched_step :: "Scheduler \<Rightarrow> Scheduler \<Rightarrow> bool" where
  tick: "sched_step s (snd (SchedulerTimer_HandleInterrupt s esp))"
| typed: "WakeWaiters (Some s) = Some s' \<Longrightarrow> sched_step s s'"
| exits: "GetActive s = Some j \<Longrightarrow> sched_step s (snd (Schedule (exited j code s) esp))"
| added: "0 \<le> sint (p_pid p) \<Longrightarrow> sched_step s (AddProcess s p)"

text \<open>A process that waits for the network and does not run.\<close>

definition net_blocked :: "nat \<Rightarrow> Scheduler \<Rightarrow> bool" where
  "net_blocked i s \<longleftrightarrow> sched_inv s \<and> i < length (processes s) \<and> p_state (processes s ! i) = PROCESS_BLOCKED \<and>
     p_wait_pid (processes s ! i) \<in> {-3, -4, -5} \<and> GetActive s \<noteq> Some i \<and> (\<forall>l < length (processes s). 0 \<le> sint (p_pid (processes s ! l)))"

lemma net_blocked_table:
  assumes "net_blocked i s" and "sched_inv t" and "current_index t = current_index s"
    and "length (processes t) = length (processes s)" and "processes t ! i = processes s ! i"
    and "\<And>l. l < length (processes s) \<Longrightarrow> p_pid (processes t ! l) = p_pid (processes s ! l)"
  shows "net_blocked i t"
  using assms unfolding net_blocked_def GetActive_def by auto

lemma net_blocked_Schedule:
  assumes nb: "net_blocked i s"
  shows "net_blocked i (snd (Schedule s esp))"
proof -
  have inv: "sched_inv s" and i: "i < length (processes s)" "p_state (processes s ! i) = PROCESS_BLOCKED"
    using nb by (simp_all add: net_blocked_def)
  show ?thesis
  proof (cases "\<exists>j. runnable s j")
    case True
    then obtain n where n: "runnable s n" "snd (Schedule s esp) = switched s esp n"
      using Schedule_choice [OF inv, of _ esp] by (metis snd_conv)
    have ni: "n \<noteq> i" using n(1) i(2) by (auto simp: runnable_def)
    have "p_state (processes (switched s esp n) ! i) = PROCESS_BLOCKED" using switched_state [OF inv n(1) i(1)] i(2) ni by simp
    moreover have "GetActive (switched s esp n) \<noteq> Some i" using ni by (simp add: GetActive_def)
    moreover have "\<forall>l < length (processes s). 0 \<le> sint (p_pid (processes (switched s esp n) ! l))"
      using nb switched_fields(1) [of _ s esp n] by (simp add: net_blocked_def)
    ultimately show ?thesis using nb n(2) switched_inv [OF inv n(1)] switched_fields(3) [OF i(1)] by (simp add: net_blocked_def)
  next
    case False
    then show ?thesis using Schedule_idle [OF inv] nb by simp
  qed
qed

lemma net_blocked_step: "sched_step s s' \<Longrightarrow> net_blocked i s \<Longrightarrow> net_blocked i s'"
proof (induction rule: sched_step.induct)
  case (tick s esp)
  have "net_blocked i (s\<lparr>pit_ticks := pit_ticks s + 1\<rparr>)"
    by (rule net_blocked_table [OF tick]) (use tick in \<open>simp_all add: net_blocked_def sched_inv_def\<close>)
  then show ?case using net_blocked_Schedule by (simp add: SchedulerTimer_HandleInterrupt_def)
next
  case (typed s s')
  then have s': "s' = WakeParent s (-2)" by (simp add: WakeWaiters_def)
  have i: "i < length (processes s)" "p_wait_pid (processes s ! i) \<noteq> -2" using typed.prems by (auto simp: net_blocked_def)
  show ?case unfolding s'
    by (rule net_blocked_table [OF typed.prems]) (use typed.prems i Scheduler_ops_inv(3) in \<open>simp_all add: WakeParent_def net_blocked_def\<close>)
next
  case (exits s j code esp)
  have i: "i < length (processes s)" "i \<noteq> j" "p_wait_pid (processes s ! i) < 0" using exits by (auto simp: net_blocked_def)
  have "0 \<le> sint (p_pid (processes s ! j))" "sched_inv s"
    using exits by (auto simp: net_blocked_def GetActive_def sched_inv_def split: if_splits)
  then have "net_blocked i (exited j code s)"
    by (intro net_blocked_table [OF exits.prems]) (use i exited_inv exits.hyps in \<open>auto simp: exited_nth\<close>)
  then show ?case by (rule net_blocked_Schedule)
next
  case (added p s)
  have inv: "sched_inv (AddProcess s p)" using added.prems Scheduler_ops_inv(2) by (simp add: net_blocked_def)
  then show ?case using added by (auto simp: net_blocked_def AddProcess_def nth_append GetActive_def)
qed

text \<open>C39: A process that waits for the network is lost once another process can run. While it waits it is marked blocked, with one
  of the reasons -3, -4 and -5, and nothing in the kernel wakes these: as soon as a timer interrupt finds another
  process ready, it switches away, and from then on no sequence of timer interrupts, typed lines, exits and new
  processes makes the waiting process run again, whether or not a packet has arrived or the timeout has passed.\<close>

theorem network_wait_is_lost:
  assumes inv: "sched_inv s" and i: "GetActive s = Some i" "p_state (processes s ! i) = PROCESS_BLOCKED" "p_wait_pid (processes s ! i) \<in> {-3, -4, -5}"
    and pids: "\<forall>l < length (processes s). 0 \<le> sint (p_pid (processes s ! l))" and j: "ready s j"
    and steps: "sched_step\<^sup>*\<^sup>* (snd (SchedulerTimer_HandleInterrupt s esp)) s'"
  shows "p_state (processes s' ! i) = PROCESS_BLOCKED \<and> GetActive s' \<noteq> Some i"
proof -
  let ?s = "s\<lparr>pit_ticks := pit_ticks s + 1\<rparr>"
  have inv1: "sched_inv ?s" using inv by (simp add: sched_inv_def)
  have il: "i < length (processes s)" using i(1) inv by (auto simp: GetActive_def sched_inv_def split: if_splits)
  have "runnable ?s j" using j by (simp add: runnable_def ready_def)
  then obtain n where n: "runnable ?s n" "snd (Schedule ?s esp) = switched ?s esp n"
    using Schedule_choice [OF inv1, of j esp] by (metis snd_conv)
  have ni: "n \<noteq> i" using n(1) i(2) by (auto simp: runnable_def)
  have "net_blocked i (switched ?s esp n)"
    using switched_state [OF inv1 n(1), of i esp] switched_fields(1,3) [of _ ?s esp n] switched_inv [OF inv1 n(1)] i ni il pids
    by (simp add: net_blocked_def GetActive_def)
  then have "net_blocked i (snd (SchedulerTimer_HandleInterrupt s esp))" using n(2) by (simp add: SchedulerTimer_HandleInterrupt_def)
  with steps have "net_blocked i s'" by (induction rule: rtranclp_induct) (auto intro: net_blocked_step)
  then show ?thesis by (simp add: net_blocked_def)
qed

theorem network_wait_is_lost_witness:
  "\<exists>s'. sched_step\<^sup>*\<^sup>* (snd (SchedulerTimer_HandleInterrupt ((demo_sched PROCESS_BLOCKED)\<lparr>processes :=
      [(demo_proc 1 PROCESS_BLOCKED 0x1111)\<lparr>p_wait_pid := -3\<rparr>, demo_proc 2 PROCESS_READY 0x2222]\<rparr>) 0x1111)) s' \<and>
    p_state (processes s' ! 0) = PROCESS_BLOCKED \<and> GetActive s' \<noteq> Some 0"
proof -
  let ?s = "(demo_sched PROCESS_BLOCKED)\<lparr>processes := [(demo_proc 1 PROCESS_BLOCKED 0x1111)\<lparr>p_wait_pid := -3\<rparr>, demo_proc 2 PROCESS_READY 0x2222]\<rparr>"
  let ?t = "snd (SchedulerTimer_HandleInterrupt ?s 0x1111)"
  have i: "sched_inv ?s" "GetActive ?s = Some 0" "p_state (processes ?s ! 0) = PROCESS_BLOCKED" "p_wait_pid (processes ?s ! 0) \<in> {-3, -4, -5}"
    "\<forall>l < length (processes ?s). 0 \<le> sint (p_pid (processes ?s ! l))" "ready ?s 1"
    by (auto simp: demo_sched_def sched_inv_def demo_proc_def MAX_PROCESSES_def less_Suc_eq GetActive_def ready_def)
  have "sched_step ?t (snd (SchedulerTimer_HandleInterrupt ?t 0x2222))" by (rule tick)
  then have "sched_step\<^sup>*\<^sup>* ?t (snd (SchedulerTimer_HandleInterrupt ?t 0x2222))" by (rule r_into_rtranclp)
  from network_wait_is_lost [OF i this] this show ?thesis by blast
qed

section \<open>Starting a program\<close>

lemma NextPID_fresh: "0 < NextPID s" "p \<in> set (processes s) \<Longrightarrow> sint (p_pid p) < NextPID s"
proof -
  let ?g = "\<lambda>mx p. if sint (p_pid p) > mx then sint (p_pid p) else mx"
  have "mx \<le> foldl ?g mx ps \<and> (\<forall>p \<in> set ps. sint (p_pid p) \<le> foldl ?g mx ps)" for mx ps
  proof (induction ps arbitrary: mx)
    case (Cons q ps)
    show ?case using Cons.IH [of "?g mx q"] by auto
  qed simp
  from this [of 0 "processes s"] show "0 < NextPID s" "p \<in> set (processes s) \<Longrightarrow> sint (p_pid p) < NextPID s"
    by (auto simp: NextPID_def)
qed

text \<open>The bytes the call writes besides page tables: the program, the headers of the heap, and the kernel stack of the new
  process; and what has to keep apart from them.\<close>

definition heap_writes :: "nat \<Rightarrow> blk list \<Rightarrow> blk list \<Rightarrow> nat \<Rightarrow> nat set" where
  "heap_writes a hb1 hb2 r = hdrs a hb1 \<union> hdrs a hb2 \<union> {r + 72..<r + 72 + 4096}"

definition off_pages :: "paging \<Rightarrow> nat \<Rightarrow> u32 \<Rightarrow> bool" where
  "off_pages pg kd x \<longleftrightarrow> unat x div 4096 \<notin> free_set (pm_frames (pg_phys pg)) \<and>
     (\<forall>b \<in> dir_frames (pg_dirs pg ! kd). unat x div 4096 \<noteq> unat b div 4096)"

definition with_mem :: "mem \<Rightarrow> paging \<Rightarrow> paging" where
  "with_mem m pg = pg\<lparr>pg_phys := (pg_phys pg)\<lparr>pm_mem := m\<rparr>\<rparr>"

lemma with_mem_simps [simp]:
  "pm_mem (pg_phys (with_mem m pg)) = m" "pm_frames (pg_phys (with_mem m pg)) = pm_frames (pg_phys pg)"
  "pg_dirs (with_mem m pg) = pg_dirs pg" "kernel_dir (with_mem m pg) = kernel_dir pg"
  "s_paging (sched_mem m s) = with_mem m (s_paging s)"
  by (simp_all add: with_mem_def sched_mem_def)

lemma paging_ok_with_mem:
  assumes "paging_ok pg kd" and "\<And>x. \<not> off_pages pg kd x \<Longrightarrow> m x = pm_mem (pg_phys pg) x"
  shows "paging_ok (with_mem m pg) kd"
proof -
  have "dir_inv (pg_dirs pg ! kd) (pg_phys (with_mem m pg))"
  proof (rule dir_inv_bytes)
    show "dir_inv (pg_dirs pg ! kd) (pg_phys pg)" using assms(1) by (simp add: paging_ok_def)
    fix x :: u32 assume "unat x div 4096 = unat (phys_dir (pg_dirs pg ! kd)) div 4096"
    then have "\<not> off_pages pg kd x" by (auto simp: off_pages_def dir_frames_def)
    then show "pm_mem (pg_phys (with_mem m pg)) x = pm_mem (pg_phys pg) x" using assms(2) by simp
  qed simp
  then show ?thesis using assms(1) by (simp add: paging_ok_def)
qed

text \<open>Two blocks from the heap, one after the other.\<close>

lemma new_twice:
  assumes hr: "heap_repr m a hb" and ff: "first_fit a n1 hb = Some (r1, hb1)" "first_fit a n2 hb1 = Some (r2, hb2)"
    and n: "n1 < 4294967296" "n2 < 4294967296"
  shows "\<exists>m2 m3. operator_new \<lparr>first_chunk = of_nat a\<rparr> m (of_nat n1) = Some (of_nat r1, m2) \<and>
    operator_new \<lparr>first_chunk = of_nat a\<rparr> m2 (of_nat n2) = Some (of_nat r2, m3) \<and>
    (\<forall>x. unat x \<notin> hdrs a hb1 \<union> hdrs a hb2 \<longrightarrow> m3 x = m x)"
proof -
  obtain m2 where m2: "operator_new \<lparr>first_chunk = of_nat a\<rparr> m (of_nat n1) = Some (of_nat r1, m2)" "heap_repr m2 a hb1"
    "\<forall>x < 4294967296. x \<notin> hdrs a hb1 \<longrightarrow> m2 (of_nat x) = m (of_nat x)" using buffer_new [OF hr n(1) ff(1)] by blast
  obtain m3 where m3: "operator_new \<lparr>first_chunk = of_nat a\<rparr> m2 (of_nat n2) = Some (of_nat r2, m3)"
    "\<forall>x < 4294967296. x \<notin> hdrs a hb2 \<longrightarrow> m3 (of_nat x) = m2 (of_nat x)" using buffer_new [OF m2(2) n(2) ff(2)] by blast
  have "m3 x = m x" if "unat x \<notin> hdrs a hb1 \<union> hdrs a hb2" for x
    using m2(3) [rule_format, of "unat x"] m3(2) [rule_format, of "unat x"] that by simp
  then show ?thesis using m2(1) m3(1) by blast
qed

text \<open>The program is read to its place in memory.\<close>

definition program_range :: "nat \<Rightarrow> nat set" where
  "program_range n = {0x400000..<0x400000 + n}"

lemma read_program:
  assumes "root_ok fs cs" and "root_name p" and "root_file fs cs (ToShortName p) prog" and "length prog + unat (cluster_size fs) \<le> 0x100000"
  shows "\<exists>m' sz. read_to fs p 0x400000 m = Some (Some (m', sz)) \<and> (\<forall>j < length prog. m' (0x400000 + of_nat j) = prog ! j) \<and>
    (\<forall>x. unat x \<notin> program_range (length prog + unat (cluster_size fs)) \<longrightarrow> m' x = m x)"
proof -
  obtain bs where bs: "reads_as fs p bs (of_nat (length prog))" "length bs < length prog + unat (cluster_size fs)" "take (length prog) bs = prog"
    using root_file_reads_as(1) [OF assms(1-3)] by blast
  have r: "unat (0x400000 :: u32) + length bs \<le> MAPPED" "unat (0x400000 :: u32) < MAPPED" using bs(2) assms(4) by (simp_all add: MAPPED_def)
  obtain m' where m': "read_to fs p 0x400000 m = Some (Some (m', of_nat (length prog)))" "\<forall>i < length bs. m' (0x400000 + of_nat i) = bs ! i"
    "\<forall>x. \<not> (unat (0x400000 :: u32) \<le> unat x \<and> unat x < unat (0x400000 :: u32) + length bs) \<longrightarrow> m' x = m x"
    using read_to_buffer [OF bs(1) r] by blast
  have "length prog \<le> length bs" using arg_cong [OF bs(3), of length] by simp
  then have "m' (0x400000 + of_nat j) = prog ! j" if "j < length prog" for j
    using m'(2) that arg_cong [OF bs(3), of "\<lambda>l. l ! j"] by simp
  moreover have "m' x = m x" if "unat x \<notin> program_range (length prog + unat (cluster_size fs))" for x
    using m'(3) that bs(2) by (auto simp: program_range_def)
  ultimately show ?thesis using m'(1) by blast
qed

lemma small_pid:
  assumes "0 < pid" and "pid \<le> 64"
  shows "unat (word_of_int pid :: u32) \<le> 64" "sint (word_of_int pid :: u32) = pid"
proof -
  obtain n where n: "pid = int n" "n \<le> 64" using assms by (metis nat_int nat_le_eq_zle of_nat_numeral pos_int_cases zero_le_numeral)
  have w: "(word_of_int pid :: u32) = of_nat n" using n by simp
  show "unat (word_of_int pid :: u32) \<le> 64" unfolding w using n(2) by (simp add: unat_u32_of_nat)
  have "sint (of_nat n :: u32) = int n" using n(2) by (intro sint_u32_of_nat) simp
  then show "sint (word_of_int pid :: u32) = pid" using n(1) by simp
qed

text \<open>The new process, its object and its directory taken from the heap.\<close>

lemma new_Process_makes:
  assumes k: "get_sched k = Some s" "get_mem k = Some m" "k_heap k = \<lparr>first_chunk = of_nat a\<rparr>" and hr: "heap_repr m a hb"
    and ff: "first_fit a 4168 hb = Some (r1, hb1)" "first_fit a 4100 hb1 = Some (r2, hb2)"
    and pg: "paging_ok (s_paging s) kd" "free_set (pm_frames (pg_phys (s_paging s))) \<noteq> {}"
    and off: "\<forall>x. unat x \<in> heap_writes a hb1 hb2 r1 \<longrightarrow> off_pages (s_paging s) kd x" and pid: "unat pid \<le> 64"
  shows "\<exists>child pg' m'. new_Process e pid k = Some (child, put_sched (sched_mem m' s\<lparr>s_paging := pg'\<rparr>) k) \<and>
    pm_mem (pg_phys pg') = m' \<and> p_pid child = pid \<and> p_state child = PROCESS_READY \<and>
    map (\<lambda>i. rd32 m' (c_esp (p_cpu child) + of_nat (4 * i))) [0..<18] =
      [0x10, 0x23, 0x23, 0x23, 0x23, 0, 0, 0, 0, 0, 0, 0, 0, e, 0x1B, 0x202, 0x00C00000 + pid * 0x10000, 0x23] \<and>
    (\<exists>u. p_page_dir child = Some u \<and> (\<forall>w. 0x400000 \<le> unat w \<and> unat w < 0x500000 \<longrightarrow>
      mmu_walk m' (GetCR3 (pg_dirs pg' ! u)) w = Some w \<and> mmu_user m' (GetCR3 (pg_dirs pg' ! u)) w)) \<and>
    (\<forall>x. unat x \<notin> heap_writes a hb1 hb2 r1 \<and> off_pages (s_paging s) kd x \<longrightarrow> m' x = m x)"
proof -
  obtain m2 m3 where m3: "operator_new \<lparr>first_chunk = of_nat a\<rparr> m (of_nat 4168) = Some (of_nat r1, m2)"
    "operator_new \<lparr>first_chunk = of_nat a\<rparr> m2 (of_nat 4100) = Some (of_nat r2, m3)" "\<forall>x. unat x \<notin> hdrs a hb1 \<union> hdrs a hb2 \<longrightarrow> m3 x = m x"
    using new_twice [OF hr ff] by auto
  let ?ks = "of_nat r1 + offset_kernel_stack" and ?pg = "with_mem m3 (s_paging s)"
  obtain sz where lv: "(r1, sz) \<in> live a hb1" "4168 \<le> sz" using first_fit_live [OF ff(1)] by auto
  have "a + hsize hb < 4294967296" using hr by (simp add: heap_repr_def)
  then have rb: "r1 + 4168 < 4294967296" using live_bounds [OF lv(1)] lv(2) first_fit_size [OF ff(1)] by linarith
  then have ks: "unat ?ks = r1 + 72" using unat_u32_of_nat [of "r1 + 72"] by (simp add: offset_kernel_stack_def)
  have pm: "pm_mem (pg_phys (s_paging s)) = m" using k(1,2) get_mem_Some by simp
  have ok: "paging_ok ?pg kd" using m3(3) off pm by (intro paging_ok_with_mem [OF pg(1)]) (auto simp: heap_writes_def)
  have "off_pages (s_paging s) kd x" if "r1 + 72 \<le> unat x" "unat x < r1 + 72 + 4096" for x
    using off that by (simp add: heap_writes_def)
  then have st: "stack_ok ?pg kd ?ks" unfolding stack_ok_def ks using rb by (auto simp: off_pages_def)
  have ne: "free_set (pm_frames (pg_phys ?pg)) \<noteq> {}" using pg(2) by simp
  obtain child pg' where pn: "Process_new e pid ?ks (k_junk k) ?pg = (child, pg')" by (cases "Process_new e pid ?ks (k_junk k) ?pg")
  define m4 where "m4 = snd (fold push32 (start_frame e pid) (?ks + KERNEL_STACK_SIZE, m3))"
  note sp = Process_new_spec [OF ok st ne pid pn, of m4]
  obtain d where d: "process_space pid (pg_dirs ?pg ! kd) ((pg_phys ?pg)\<lparr>pm_mem := m4\<rparr>) d (pg_phys pg')"
    using sp(1) by (auto simp: m4_def)
  have "new_Process e pid k = Some (child, put_sched (sched_mem (pm_mem (pg_phys pg')) s\<lparr>s_paging := pg'\<rparr>) k)"
    using k m3(1,2) pn by (simp add: new_Process_def get_sched_put_mem sizeof_Process_def sizeof_PageDirectory_def sched_mem_def with_mem_def)
  moreover have "p_pid child = pid" using sp(4) by (simp add: m4_def)
  moreover have "pm_mem (pg_phys pg') x = m x" if x: "unat x \<notin> heap_writes a hb1 hb2 r1" "off_pages (s_paging s) kd x" for x
  proof -
    have top: "unat (?ks + KERNEL_STACK_SIZE) = r1 + 4168" using ks rb by (simp add: unat_u32_plus KERNEL_STACK_SIZE_def)
    have "m4 x = m3 x" unfolding m4_def by (rule fold_push32_outside) (use x(1) top in \<open>auto simp: heap_writes_def\<close>)
    moreover have "m3 x = m x" using m3(3) x(1) by (simp add: heap_writes_def)
    moreover have "pm_mem (pg_phys pg') x = m4 x" using d x(2) by (simp add: process_space_def off_pages_def)
    ultimately show ?thesis by simp
  qed
  moreover obtain u where "p_page_dir child = Some u" "\<forall>w. 0x400000 \<le> unat w \<and> unat w < 0x500000 \<longrightarrow>
      mmu_walk (pm_mem (pg_phys pg')) (GetCR3 (pg_dirs pg' ! u)) w = Some w \<and> mmu_user (pm_mem (pg_phys pg')) (GetCR3 (pg_dirs pg' ! u)) w"
    using Process_new_address_space [OF ok st ne pid pn] by blast
  ultimately show ?thesis using Process_new_enters_ring3 [OF ok st ne pid pn]
    by (intro exI [of _ child] exI [of _ pg'] exI [of _ "pm_mem (pg_phys pg')"]) auto
qed

lemma get_mem_put_mem_Some: "get_sched k = Some s \<Longrightarrow> get_mem (put_mem m k) = Some m \<and> get_sched (put_mem m k) = Some (sched_mem m s)"
  by (simp add: get_sched_put_mem)

text \<open>C40: Starting a program works from the file to the first instruction. For a program file in the root directory that fits its
  area, a process table with room, heap and page frames with room, and memory areas that do not overlap, the call returns a pid that no process has.
  The table then has one process more, ready, with that pid and the caller as its parent; the others are as before
  and the caller still runs. The bytes of the file are at \<open>0x400000\<close>, its directory maps that area for ring 3, and
  its kernel stack holds the frame from which the interrupt return enters ring 3 at \<open>0x400000\<close>, on a stack of its own.\<close>

theorem sys_exec_starts_program:
  assumes s: "get_sched k = Some s" "GetActive s = Some c" "length (processes s) < MAX_PROCESSES" "NextPID s \<le> 64"
    and m: "get_mem k = Some m" "k_heap k = \<lparr>first_chunk = of_nat a\<rparr>" "heap_repr m a hb"
    and ff: "first_fit a 4168 hb = Some (r1, hb1)" "first_fit a 4100 hb1 = Some (r2, hb2)"
    and fs: "k_fat32 k = Some fs" "root_ok fs cs" "root_name p" "root_file fs cs (ToShortName p) prog"
    and path: "path \<noteq> 0" "user_pointer path" "cstring m path = Some p"
    and pg: "paging_ok (s_paging s) kd" "free_set (pm_frames (pg_phys (s_paging s))) \<noteq> {}"
    and area: "n = length prog + unat (cluster_size fs)" "n \<le> 0x100000" "program_range n \<inter> (hdrs a hb \<union> heap_writes a hb1 hb2 r1) = {}"
    and off: "\<forall>x. unat x \<in> program_range n \<union> heap_writes a hb1 hb2 r1 \<longrightarrow> off_pages (s_paging s) kd x"
  shows "\<exists>k' s' m' child u. sys_exec path k = Some (word_of_int (NextPID s), k') \<and> get_sched k' = Some s' \<and> get_mem k' = Some m' \<and>
    processes s' = processes s @ [child] \<and> GetActive s' = Some c \<and>
    p_state child = PROCESS_READY \<and> sint (p_pid child) = NextPID s \<and> (\<forall>q \<in> set (processes s). p_pid q \<noteq> p_pid child) \<and>
    p_parent_pid child = sint (p_pid (processes s ! c)) \<and>
    (\<forall>j < length prog. m' (0x400000 + of_nat j) = prog ! j) \<and>
    p_page_dir child = Some u \<and> (\<forall>w. 0x400000 \<le> unat w \<and> unat w < 0x500000 \<longrightarrow>
      mmu_walk m' (GetCR3 (pg_dirs (s_paging s') ! u)) w = Some w \<and> mmu_user m' (GetCR3 (pg_dirs (s_paging s') ! u)) w) \<and>
    map (\<lambda>i. rd32 m' (c_esp (p_cpu child) + of_nat (4 * i))) [0..<18] =
      [0x10, 0x23, 0x23, 0x23, 0x23, 0, 0, 0, 0, 0, 0, 0, 0, 0x400000, 0x1B, 0x202, 0x00C00000 + p_pid child * 0x10000, 0x23]"
proof -
  obtain m1 sz where m1: "read_to fs p 0x400000 m = Some (Some (m1, sz))" "\<forall>j < length prog. m1 (0x400000 + of_nat j) = prog ! j"
    "\<forall>x. unat x \<notin> program_range n \<longrightarrow> m1 x = m x" using read_program [OF fs(2-4), of m] area(1,2) by auto
  let ?k = "put_mem m1 k" and ?s = "sched_mem m1 s" and ?pid = "word_of_int (NextPID s) :: u32"
  have k1: "get_sched ?k = Some ?s" "get_mem ?k = Some m1" "k_heap ?k = \<lparr>first_chunk = of_nat a\<rparr>"
    using get_mem_put_mem_Some [OF s(1)] m(2) by simp_all
  have "a + hsize hb < 4294967296" using m(3) by (simp add: heap_repr_def)
  then have "m1 (of_nat x) = m (of_nat x)" if "x \<in> hdrs a hb" for x
    using m1(3) area(3) that hdrs_bounds [OF that] by (auto simp: unat_u32_of_nat)
  then have hr: "heap_repr m1 a hb" using heap_repr_cong [OF m(3)] by blast
  have same: "off_pages (s_paging ?s) kd = off_pages (s_paging s) kd" by (simp add: off_pages_def fun_eq_iff)
  have pm: "pm_mem (pg_phys (s_paging s)) = m" using s(1) m(1) get_mem_Some by simp
  have ok: "paging_ok (s_paging ?s) kd" using off pm m1(3) by (simp, intro paging_ok_with_mem [OF pg(1)]) auto
  have ne: "free_set (pm_frames (pg_phys (s_paging ?s))) \<noteq> {}" using pg(2) by simp
  have off1: "\<forall>x. unat x \<in> heap_writes a hb1 hb2 r1 \<longrightarrow> off_pages (s_paging ?s) kd x" unfolding same using off by simp
  note pid = small_pid [OF NextPID_fresh(1) s(4)]
  obtain child pg' m' u where n: "new_Process 0x400000 ?pid ?k = Some (child, put_sched (sched_mem m' ?s\<lparr>s_paging := pg'\<rparr>) ?k)"
    "pm_mem (pg_phys pg') = m'" "p_pid child = ?pid" "p_state child = PROCESS_READY"
    "map (\<lambda>i. rd32 m' (c_esp (p_cpu child) + of_nat (4 * i))) [0..<18] =
      [0x10, 0x23, 0x23, 0x23, 0x23, 0, 0, 0, 0, 0, 0, 0, 0, 0x400000, 0x1B, 0x202, 0x00C00000 + ?pid * 0x10000, 0x23]"
    "p_page_dir child = Some u" "\<forall>w. 0x400000 \<le> unat w \<and> unat w < 0x500000 \<longrightarrow>
      mmu_walk m' (GetCR3 (pg_dirs pg' ! u)) w = Some w \<and> mmu_user m' (GetCR3 (pg_dirs pg' ! u)) w"
    "\<forall>x. unat x \<notin> heap_writes a hb1 hb2 r1 \<and> off_pages (s_paging ?s) kd x \<longrightarrow> m' x = m1 x"
    using new_Process_makes [OF k1 hr ff ok ne off1 pid(1), of "0x400000"] by (elim exE conjE) (rule that, assumption+)
  let ?c = "child\<lparr>p_parent_pid := sint (p_pid (processes s ! c))\<rparr>"
  let ?t = "sched_mem m' ?s\<lparr>s_paging := pg'\<rparr>"
  have ci: "current_index s = int c" using s(2) by (auto simp: GetActive_def split: if_splits)
  have t: "processes ?t = processes s" "GetActive ?t = Some c" "NextPID ?s = NextPID s" "current_index ?t = int c"
    by (simp_all add: sched_mem_def GetActive_def NextPID_def ci)
  have "sys_exec path k = Some (?pid, put_sched (AddProcess ?t ?c) ?k)"
    using fs(1) path m(1) m1(1) k1(1) n(1) t by (simp add: sys_exec_def Let_def)
  moreover have "m' (0x400000 + of_nat j) = prog ! j" if j: "j < length prog" for j
  proof -
    have "unat (0x400000 + of_nat j :: u32) = 0x400000 + j" using unat_u32_offset [of "0x400000" "0x100000" j] j area(1,2) by simp
    then have r: "unat (0x400000 + of_nat j :: u32) \<in> program_range n" using j area(1) by (simp add: program_range_def)
    then have "m' (0x400000 + of_nat j) = m1 (0x400000 + of_nat j)" using n(8) area(3) off unfolding same by blast
    then show ?thesis using m1(2) j by simp
  qed
  moreover have "p_pid q \<noteq> p_pid child" if "q \<in> set (processes s)" for q using NextPID_fresh(2) [OF that] n(3) pid(2) by auto
  moreover have "AddProcess ?t ?c = ?t\<lparr>processes := processes s @ [?c\<lparr>p_state := PROCESS_READY\<rparr>]\<rparr>"
    using s(3) t(1) by (simp add: AddProcess_def)
  moreover have "get_mem (put_sched (AddProcess ?t ?c) ?k) = Some m'" using n(2) by (simp add: get_mem_put_sched AddProcess_def)
  ultimately show ?thesis using n(2-7) t pid(2)
    by (intro exI [of _ "put_sched (AddProcess ?t ?c) ?k"] exI [of _ "AddProcess ?t ?c"] exI [of _ m'] exI [of _ "?c\<lparr>p_state := PROCESS_READY\<rparr>"] exI [of _ u])
      (simp add: GetActive_def)
qed

text \<open>The first process starts the program of a disk with one file.\<close>

definition exec_mem :: mem where
  "exec_mem = snd (MemoryManager_new ((pm_mem (pg_phys demo_paging))(0x600000 := 0x61, 0x600001 := 0)) 0x200000 0x100000)"

lemma exec_mem_outside:
  assumes "\<not> (0x200000 \<le> unat x \<and> unat x < 0x20000D)"
  shows "exec_mem x = ((pm_mem (pg_phys demo_paging))(0x600000 := 0x61, 0x600001 := 0)) x"
proof -
  have o: "outside 0x200000 (unat x)" using assms by (simp add: outside_def)
  have "of_nat (unat x) = x" by simp
  then show ?thesis using set_outside [OF o] by (simp add: exec_mem_def MemoryManager_new_def Let_def)
qed

lemma demo_off_pages: "off_pages (with_mem m demo_paging) 0 x \<or> unat x < 0x10000"
proof (cases "unat x < 0x10000")
  case False
  then have "16 \<le> unat x div 4096" by (simp add: less_eq_div_iff_mult_less_eq)
  then show ?thesis using demo_frames_low by (fastforce simp: off_pages_def)
qed simp

theorem sys_exec_starts_program_witness:
  "\<exists>k' s' child. sys_exec 0x600000 ((demo_kernel exec_mem)\<lparr>k_fat32 := Some filed\<rparr>) = Some (word_of_int 2, k') \<and>
    get_sched k' = Some s' \<and> processes s' = [demo_proc 1 PROCESS_RUNNING 0x1111, child] \<and> p_state child = PROCESS_READY \<and> p_parent_pid child = 1"
proof -
  let ?k = "(demo_kernel exec_mem)\<lparr>k_fat32 := Some filed\<rparr>"
  let ?s = "sched_mem exec_mem (demo_sched PROCESS_RUNNING)\<lparr>processes := [demo_proc 1 PROCESS_RUNNING 0x1111]\<rparr>"
  let ?h = "[(False, 1048563)]" and ?h1 = "[(True, 4168), (False, 1044382)]" and ?h2 = "[(True, 4168), (True, 4100), (False, 1040269)]"
  have pg: "s_paging ?s = with_mem exec_mem demo_paging" by (simp add: demo_sched_def)
  have s: "get_sched ?k = Some ?s" "GetActive ?s = Some 0" "length (processes ?s) < MAX_PROCESSES" "NextPID ?s = 2"
    using demo_kernel_sched(1) [of exec_mem]
    by (simp_all add: get_sched_def GetActive_def sched_mem_def demo_sched_def MAX_PROCESSES_def NextPID_def demo_proc_def)
  have m: "get_mem ?k = Some exec_mem" "k_heap ?k = \<lparr>first_chunk = of_nat 0x200000\<rparr>"
    using demo_kernel_sched(2) [of exec_mem] by (simp_all add: get_mem_def get_sched_def demo_kernel_def)
  have "heap_repr (snd (MemoryManager_new ((pm_mem (pg_phys demo_paging))(0x600000 := 0x61, 0x600001 := 0)) (of_nat 0x200000) (of_nat 0x100000)))
      0x200000 [(False, 0x100000 - 13)]" by (rule heap_repr_new) simp_all
  then have hr: "heap_repr exec_mem 0x200000 ?h" by (simp add: exec_mem_def)
  have ff: "first_fit 0x200000 4168 ?h = Some (0x20000D, ?h1)" "first_fit 0x200000 4100 ?h1 = Some (2101346, ?h2)" by simp_all
  obtain cs where fs: "root_ok filed cs" "root_file filed cs (ToShortName [0x61]) [0]" using filed(1) by blast
  have nm: "root_name [0x61]" "k_fat32 ?k = Some filed" by (simp_all add: root_name_def)
  have "exec_mem 0x600000 = 0x61" "exec_mem 0x600001 = 0" by (simp_all add: exec_mem_outside)
  then have cstr: "cstring exec_mem 0x600000 = Some [0x61]"
    unfolding cstring.simps [of _ "0x600000"] cstring.simps [of _ "0x600000 + 1"] by (simp add: MAPPED_def)
  have path: "(0x600000 :: u32) \<noteq> 0" "user_pointer 0x600000" by (simp_all add: user_pointer_def)
  have ok: "paging_ok (s_paging ?s) 0" unfolding pg
  proof (rule paging_ok_with_mem [OF demo_paging_ok])
    fix x assume "\<not> off_pages demo_paging 0 x"
    then have "unat x < 0x10000" using demo_off_pages [of "pm_mem (pg_phys demo_paging)" x] by (simp add: with_mem_def)
    then have "\<not> (0x200000 \<le> unat x \<and> unat x < 0x20000D)" "x \<noteq> 0x600000" "x \<noteq> 0x600001" by auto
    then show "exec_mem x = pm_mem (pg_phys demo_paging) x" by (simp add: exec_mem_outside)
  qed
  have ne: "free_set (pm_frames (pg_phys (s_paging ?s))) \<noteq> {}" unfolding pg using demo_free by simp
  have area: "513 = length [0 :: u8] + unat (cluster_size filed)" "(513 :: nat) \<le> 0x100000"
    "program_range 513 \<inter> (hdrs 0x200000 ?h \<union> heap_writes 0x200000 ?h1 ?h2 0x20000D) = {}"
    by (auto simp: filed(2) program_range_def heap_writes_def)
  have off: "\<forall>x. unat x \<in> program_range 513 \<union> heap_writes 0x200000 ?h1 ?h2 0x20000D \<longrightarrow> off_pages (s_paging ?s) 0 x"
    unfolding pg
  proof (intro allI impI)
    fix x :: u32
    assume "unat x \<in> program_range 513 \<union> heap_writes 0x200000 ?h1 ?h2 0x20000D"
    then have "\<not> unat x < 0x10000" by (auto simp: program_range_def heap_writes_def)
    then show "off_pages (with_mem exec_mem demo_paging) 0 x" using demo_off_pages by blast
  qed
  have pid: "NextPID ?s \<le> 64" using s(4) by simp
  have ps: "processes ?s = [demo_proc 1 PROCESS_RUNNING 0x1111]" "sint (p_pid (processes ?s ! 0)) = 1"
    by (simp_all add: sched_mem_def demo_proc_def)
  from sys_exec_starts_program [OF s(1-3) pid m hr ff nm(2) fs(1) nm(1) fs(2) path cstr ok ne area off]
  obtain k' s' child where "sys_exec 0x600000 ?k = Some (word_of_int (NextPID ?s), k')" "get_sched k' = Some s'"
    "processes s' = processes ?s @ [child]" "p_state child = PROCESS_READY" "p_parent_pid child = sint (p_pid (processes ?s ! 0))" by blast
  then show ?thesis using ps unfolding s(4) by auto
qed

end
