(* ===== verification/Spec2Isabelle.thy ===== *)
theory Spec2Isabelle
  imports Interrupts Buses Boot_Memory Boot_Animation Syscall_Network Syscall_Processes
begin

text \<open>
  LaylaOS, an i386 kernel: the library of its verification.
\<close>

end
